(* ===== verification/Prelude.thy ===== *)
theory Prelude
  imports Main "HOL-Library.Word"
begin

text \<open>
  Shared vocabulary of the development: the Go types the components use (bytes, fixed-width
  unsigned integers, time), the sum type that carries Go's error returns, the big-endian
  helpers of \<^verbatim>\<open>encoding/binary\<close>, Go strings as bytes, \<^verbatim>\<open>io.ReadFull\<close> over a byte
  stream, and the generic list and word lemmas the components share.
\<close>

unbundle bit_operations_syntax

section \<open>Types\<close>

type_synonym byte = "8 word"
type_synonym u8 = "8 word"
type_synonym u16 = "16 word"
type_synonym u32 = "32 word"

text \<open>\<^verbatim>\<open>time.Time\<close> and \<^verbatim>\<open>time.Duration\<close> are nanosecond counts. The zero time is not used as
  an instant by any model; where the source tests \<^verbatim>\<open>IsZero\<close> the model uses an option.\<close>

type_synonym gtime = int
type_synonym duration = int

text \<open>Lemma collections: \<open>wire\<close> holds the round-trip facts of the byte-level helpers,
  \<open>frame_simps\<close> the facts that an operation leaves a part of a state alone.\<close>

named_theorems wire
named_theorems frame_simps

definition second :: duration where "second = 1000000000"

section \<open>Errors as values\<close>

definition rbind :: "'e + 'a \<Rightarrow> ('a \<Rightarrow> 'e + 'b) \<Rightarrow> 'e + 'b" where
  "rbind m f = (case m of Inl e \<Rightarrow> Inl e | Inr x \<Rightarrow> f x)"

definition guard :: "bool \<Rightarrow> 'e \<Rightarrow> 'e + unit" where
  "guard b e = (if b then Inr () else Inl e)"

lemma rbind_Inl [simp]: "rbind (Inl e) f = Inl e"
  by (simp add: rbind_def)

lemma rbind_Inr [simp]: "rbind (Inr x) f = f x"
  by (simp add: rbind_def)

lemma rbind_eq_Inr: "rbind m f = Inr y \<longleftrightarrow> (\<exists>x. m = Inr x \<and> f x = Inr y)"
  by (cases m) auto

lemma guard_eq_Inr [simp]: "guard b e = Inr u \<longleftrightarrow> b"
  by (simp add: guard_def)

lemma guard_True [simp]: "guard True e = Inr ()"
  by (simp add: guard_def)

lemma guard_False [simp]: "guard False e = Inl e"
  by (simp add: guard_def)

section \<open>\<open>encoding/binary.BigEndian\<close>\<close>

definition PutUint16 :: "u16 \<Rightarrow> byte list" where
  "PutUint16 v = [ucast (drop_bit 8 v), ucast v]"

definition Uint16 :: "byte list \<Rightarrow> u16" where
  "Uint16 b = push_bit 8 (ucast (b ! 0)) OR ucast (b ! 1)"

definition PutUint32 :: "u32 \<Rightarrow> byte list" where
  "PutUint32 v = [ucast (drop_bit 24 v), ucast (drop_bit 16 v), ucast (drop_bit 8 v), ucast v]"

definition Uint32 :: "byte list \<Rightarrow> u32" where
  "Uint32 b = push_bit 24 (ucast (b ! 0)) OR push_bit 16 (ucast (b ! 1))
     OR push_bit 8 (ucast (b ! 2)) OR ucast (b ! 3)"

lemma length_PutUint16 [simp]: "length (PutUint16 v) = 2"
  by (simp add: PutUint16_def)

lemma length_PutUint32 [simp]: "length (PutUint32 v) = 4"
  by (simp add: PutUint32_def)

lemma Uint16_Put [simp, wire]: "Uint16 (PutUint16 v) = v"
  by (rule bit_word_eqI) (auto simp: Uint16_def PutUint16_def bit_simps)

lemma Uint32_Put [simp, wire]: "Uint32 (PutUint32 v) = v"
proof (rule bit_word_eqI)
  fix n :: nat
  consider "n < 8" | "8 \<le> n" "n < 16" | "16 \<le> n" "n < 24" | "24 \<le> n" by linarith
  then show "bit (Uint32 (PutUint32 v)) n = bit v n"
    by cases (auto simp: Uint32_def PutUint32_def bit_simps nth_Cons' dest: bit_imp_le_length)
qed

lemma PutUint16_Uint16: "PutUint16 (Uint16 [a, b]) = [a, b]"
proof -
  have "ucast (drop_bit 8 (Uint16 [a, b])) = a"
    by (rule bit_word_eqI) (auto simp: Uint16_def bit_simps dest: bit_imp_le_length)
  moreover have "ucast (Uint16 [a, b]) = b"
    by (rule bit_word_eqI) (auto simp: Uint16_def bit_simps dest: bit_imp_le_length)
  ultimately show ?thesis by (simp add: PutUint16_def)
qed

lemma PutUint32_Uint32: "PutUint32 (Uint32 [a, b, c, d]) = [a, b, c, d]"
proof -
  have "ucast (drop_bit 24 (Uint32 [a, b, c, d])) = a"
    by (rule bit_word_eqI) (auto simp: Uint32_def bit_simps nth_Cons' dest: bit_imp_le_length)
  moreover have "ucast (drop_bit 16 (Uint32 [a, b, c, d])) = b"
    by (rule bit_word_eqI) (auto simp: Uint32_def bit_simps nth_Cons' dest: bit_imp_le_length)
  moreover have "ucast (drop_bit 8 (Uint32 [a, b, c, d])) = c"
    by (rule bit_word_eqI) (auto simp: Uint32_def bit_simps nth_Cons' dest: bit_imp_le_length)
  moreover have "ucast (Uint32 [a, b, c, d]) = d"
    by (rule bit_word_eqI) (auto simp: Uint32_def bit_simps nth_Cons' dest: bit_imp_le_length)
  ultimately show ?thesis by (simp add: PutUint32_def)
qed

lemma PutUint32_Uint32_list: "length b = 4 \<Longrightarrow> PutUint32 (Uint32 b) = b"
proof -
  assume "length b = 4"
  then obtain b0 b1 b2 b3 where "b = [b0, b1, b2, b3]"
    by (auto simp: length_Suc_conv eval_nat_numeral)
  then show ?thesis by (simp add: PutUint32_Uint32)
qed

section \<open>Go strings as bytes\<close>

text \<open>A Go string is a byte sequence. Constants such as tier names are written as HOL strings;
  \<open>str_bytes\<close> is \<^verbatim>\<open>[]byte(s)\<close> and \<open>bytes_str\<close> is \<^verbatim>\<open>string(b)\<close>.\<close>

definition str_bytes :: "string \<Rightarrow> byte list" where
  "str_bytes s = map of_char s"

definition bytes_str :: "byte list \<Rightarrow> string" where
  "bytes_str b = map (\<lambda>x. char_of (unat x)) b"

lemma unat_of_char_byte: "unat (of_char c :: byte) = of_char c"
proof -
  have "of_char c < (256::nat)" by simp
  then have "unat (word_of_nat (of_char c) :: byte) = of_char c"
    by (simp only: unat_of_nat) simp
  then show ?thesis by (simp add: of_nat_of_char)
qed

lemma char_of_unat_of_char: "char_of (unat (of_char c :: byte)) = c"
  by (simp add: unat_of_char_byte)

lemma of_char_char_of_unat: "(of_char (char_of (unat b)) :: byte) = b"
proof -
  have "unat (of_char (char_of (unat b)) :: byte) = unat b mod 256"
    by (simp add: unat_of_char_byte)
  also have "\<dots> = unat b" using unsigned_less [of b, where 'a = nat] by simp
  finally show ?thesis by (simp add: word_unat_eq_iff)
qed

lemma bytes_str_bytes [simp, wire]: "bytes_str (str_bytes s) = s"
  by (simp add: bytes_str_def str_bytes_def char_of_unat_of_char comp_def)

lemma str_bytes_str [simp, wire]: "str_bytes (bytes_str b) = b"
  by (simp add: bytes_str_def str_bytes_def of_char_char_of_unat comp_def)

lemma length_str_bytes [simp]: "length (str_bytes s) = length s"
  by (simp add: str_bytes_def)

lemma length_bytes_str [simp]: "length (bytes_str b) = length b"
  by (simp add: bytes_str_def)

section \<open>\<open>io.ReadFull\<close> over a byte stream\<close>

text \<open>A reliable byte stream that ends: what is left to read. \<open>io.ReadFull\<close> reports
  \<^verbatim>\<open>io.EOF\<close> when nothing was left and \<^verbatim>\<open>io.ErrUnexpectedEOF\<close> when the buffer was
  filled only in part.\<close>

datatype io_error = EOF | ErrUnexpectedEOF | ErrShortWrite | ErrClosed | IOError nat

definition ReadFull :: "nat \<Rightarrow> byte list \<Rightarrow> io_error + (byte list \<times> byte list)" where
  "ReadFull n s =
     (if n \<le> length s then Inr (take n s, drop n s)
      else if s = [] then Inl EOF else Inl ErrUnexpectedEOF)"

lemma ReadFull_append: "length p = n \<Longrightarrow> ReadFull n (p @ s) = Inr (p, s)"
  by (simp add: ReadFull_def)

lemma ReadFull_Inr: "ReadFull n s = Inr (p, s') \<Longrightarrow> s = p @ s' \<and> length p = n"
  by (auto simp: ReadFull_def split: if_splits)

section \<open>Runs\<close>

text \<open>A component whose actions are a partial function of the state: a schedule is a list of actions, and a run is
  defined when every action was possible in turn.\<close>

fun run_acts :: "('a \<Rightarrow> 's \<Rightarrow> 's option) \<Rightarrow> 'a list \<Rightarrow> 's \<Rightarrow> 's option" where
  "run_acts f [] s = Some s"
| "run_acts f (a # as) s = (case f a s of None \<Rightarrow> None | Some s' \<Rightarrow> run_acts f as s')"

lemma run_acts_steps:
  assumes "\<And>a s s'. f a s = Some s' \<Longrightarrow> step s s'"
  shows "run_acts f as s = Some s' \<Longrightarrow> step\<^sup>*\<^sup>* s s'"
proof (induction "as" arbitrary: s)
  case (Cons a as)
  then obtain s1 where "f a s = Some s1" "run_acts f as s1 = Some s'" by (auto split: option.splits)
  then show ?case using Cons.IH assms by (blast intro: converse_rtranclp_into_rtranclp)
qed simp

lemma run_acts_Cons: "f a s = Some s1 \<Longrightarrow> run_acts f xs s1 = r \<Longrightarrow> run_acts f (a # xs) s = r"
  by simp

lemma run_acts_append: "run_acts f xs s = Some s1 \<Longrightarrow> run_acts f (xs @ ys) s = run_acts f ys s1"
  by (induction xs arbitrary: s) (auto split: option.splits)

lemma run_acts_inv: "(\<And>l s s'. ok s \<Longrightarrow> f l s = Some s' \<Longrightarrow> ok s') \<Longrightarrow> run_acts f ls s = Some s' \<Longrightarrow> ok s \<Longrightarrow> ok s'"
  by (induction ls arbitrary: s) (auto split: option.splits)

text \<open>A run in which a condition holds in every state.\<close>

fun run_while :: "('a \<Rightarrow> 's \<Rightarrow> 's option) \<Rightarrow> ('s \<Rightarrow> bool) \<Rightarrow> 'a list \<Rightarrow> 's \<Rightarrow> 's option" where
  "run_while f P [] s = (if P s then Some s else None)"
| "run_while f P (a # as) s = (if P s then (case f a s of None \<Rightarrow> None | Some s' \<Rightarrow> run_while f P as s') else None)"

lemma sum_list_less_update:
  "i < length xs \<Longrightarrow> (f y :: nat) < f (xs ! i) \<Longrightarrow> (\<Sum>x\<leftarrow>xs[i := y]. f x) < (\<Sum>x\<leftarrow>xs. f x)"
proof (induction xs arbitrary: i)
  case (Cons x xs)
  then show ?case by (cases i) auto
qed simp

section \<open>Winding down and draining\<close>

text \<open>A system of goroutines with the steps nobody outside has to enable (\<open>own\<close>).\<close>

definition only :: "('a \<Rightarrow> 's \<Rightarrow> bool) \<Rightarrow> ('a \<Rightarrow> 's \<Rightarrow> 's option) \<Rightarrow> 'a \<Rightarrow> 's \<Rightarrow> 's option" where
  "only own f a s = (if own a s then f a s else None)"

lemma only_Some [simp]: "only own f a s = Some s' \<longleftrightarrow> own a s \<and> f a s = Some s'"
  by (simp add: only_def)

lemma run_only_Cons: "run_acts (only own f) (a # ls) s = Some s' \<longleftrightarrow> (\<exists>t. own a s \<and> f a s = Some t \<and> run_acts (only own f) ls t = Some s')"
  by (cases "own a s"; cases "f a s") (simp_all add: only_def [of own f a s])

lemma run_only: "run_acts (only own f) ls s = Some s' \<Longrightarrow> run_acts f ls s = Some s'"
  by (induction ls arbitrary: s) (auto split: option.splits)

text \<open>A system that winds down: from the moment it is closing every step of its own brings it nearer to its end, and
  until it has ended one is possible. Then its own steps, in whatever order, end it.\<close>

locale winding =
  fixes act :: "'a \<Rightarrow> 's \<Rightarrow> 's option"
    and inv :: "'s \<Rightarrow> bool"
    and closing :: "'s \<Rightarrow> bool"
    and ended :: "'s \<Rightarrow> bool"
    and own :: "'a \<Rightarrow> 's \<Rightarrow> bool"
    and rank :: "'s \<Rightarrow> nat"
  assumes inv_act: "inv s \<Longrightarrow> act a s = Some s' \<Longrightarrow> inv s'"
    and nearer_own: "inv s \<Longrightarrow> closing s \<Longrightarrow> own a s \<Longrightarrow> act a s = Some s' \<Longrightarrow> closing s' \<and> rank s' < rank s"
    and not_stuck: "inv s \<Longrightarrow> closing s \<Longrightarrow> \<not> ended s \<Longrightarrow> \<exists>a. own a s \<and> act a s \<noteq> None"
begin

lemma inv_run: "run_acts act ls s = Some s' \<Longrightarrow> inv s \<Longrightarrow> inv s'"
  by (rule run_acts_inv [where f = act and ok = inv, OF inv_act])

lemma winds_down:
  "inv s \<Longrightarrow> closing s \<Longrightarrow> run_acts (only own act) ls s = Some s' \<Longrightarrow>
   inv s' \<and> closing s' \<and> length ls + rank s' \<le> rank s \<and> (ended s' \<or> (\<exists>a. own a s' \<and> act a s' \<noteq> None))"
proof (induction ls arbitrary: s)
  case Nil
  then show ?case using not_stuck by auto
next
  case (Cons a ls)
  then obtain t where t: "own a s" "act a s = Some t" "run_acts (only own act) ls t = Some s'"
    unfolding run_only_Cons by blast
  have "closing t \<and> rank t < rank s" by (rule nearer_own [OF Cons.prems(1,2) t(1,2)])
  then show ?case using Cons.IH [OF inv_act [OF Cons.prems(1) t(2)] _ t(3)] by auto
qed

lemma ends_by_itself:
  assumes "inv s" "closing s"
  shows "\<exists>ls s'. run_acts (only own act) ls s = Some s' \<and> ended s'"
  using assms
proof (induction "rank s" arbitrary: s rule: less_induct)
  case less
  show ?case
  proof (cases "ended s")
    case True
    then show ?thesis by (intro exI [of _ "[]"] exI [of _ s]) simp
  next
    case False
    then obtain a t where a: "own a s" "act a s = Some t" using not_stuck less.prems by blast
    note n = nearer_own [OF less.prems a]
    obtain ls s' where "run_acts (only own act) ls t = Some s'" "ended s'"
      using less.hyps [OF conjunct2 [OF n] inv_act [OF less.prems(1) a(2)] conjunct1 [OF n]] by blast
    then show ?thesis using a by (intro exI [of _ "a # ls"] exI [of _ s']) (auto simp: run_only_Cons simp del: run_acts.simps)
  qed
qed

end

text \<open>A system that drains: every step at all brings it nearer, so that it ends however the steps are scheduled.\<close>

locale draining = winding +
  assumes nearer: "inv s \<Longrightarrow> closing s \<Longrightarrow> act a s = Some s' \<Longrightarrow> closing s' \<and> rank s' < rank s"
begin

lemma drains:
  "inv s \<Longrightarrow> closing s \<Longrightarrow> run_acts act ls s = Some s' \<Longrightarrow>
   inv s' \<and> closing s' \<and> length ls + rank s' \<le> rank s \<and> (ended s' \<or> (\<exists>a. own a s' \<and> act a s' \<noteq> None))"
proof (induction ls arbitrary: s)
  case Nil
  then show ?case using not_stuck by auto
next
  case (Cons a ls)
  then obtain t where t: "act a s = Some t" "run_acts act ls t = Some s'" by (auto split: option.splits)
  have "closing t \<and> rank t < rank s" by (rule nearer [OF Cons.prems(1,2) t(1)])
  then show ?case using Cons.IH [OF inv_act [OF Cons.prems(1) t(1)] _ t(2)] by auto
qed

end

end
