(* ===== verification/Negotiate.thy ===== *)
theory Negotiate
  imports Prelude "HOL-Library.Sublist"
begin

text \<open>
  The messages and the tier-selection logic of \<^verbatim>\<open>internal/negotiate/negotiate.go\<close>: the tier
  names, the fixed cascade, the four negotiate messages as records, and the pure functions both
  peers run on the same pair of Hellos (\<open>SharedCascade\<close>, \<open>RequiredCascade\<close>,
  \<open>EffectivePunchAttempts\<close>). The lemmas show that those functions are symmetric, so the two
  peers reach the same answer without a further message, and what the answer is.
\<close>

section \<open>Tiers and messages\<close>

text \<open>\<^verbatim>\<open>type Tier string\<close>: on the wire a tier is any string, so it stays one here.\<close>

type_synonym tier = string

definition TierWireGuard :: tier where "TierWireGuard = ''wireguard''"
definition TierQUIC :: tier where "TierQUIC = ''quic''"
definition TierLibp2p :: tier where "TierLibp2p = ''libp2p''"

lemmas tier_defs = TierWireGuard_def TierQUIC_def TierLibp2p_def

definition cascade :: "tier list" where
  "cascade = [TierWireGuard, TierQUIC, TierLibp2p]"

definition Cascade :: "tier list" where
  "Cascade = [] @ cascade"

record Hello =
  SupportedTiers :: "tier list"
  WireGuardPubKey :: "byte list"
  RequiredTier :: tier
  PunchProbe :: bool
  PunchAttempts :: u8

record PunchOutcome =
  OK :: bool

record PunchInfo =
  ICEUfrag :: string
  ICEPwd :: string
  ICECandidates :: "string list"
  QUICCertFingerprint :: "byte list"

record Attempt =
  ATier :: tier
  Commit :: bool

text \<open>\<^verbatim>\<open>[32]byte\<close> is a list of bytes; what Go's type guarantees is the predicate \<open>wf_hello\<close>.\<close>

definition zero_key :: "byte list" where
  "zero_key = replicate 32 0"

definition wf_hello :: "Hello \<Rightarrow> bool" where
  "wf_hello h \<longleftrightarrow> length (WireGuardPubKey h) = 32"

section \<open>Selection\<close>

definition EffectivePunchAttempts :: "u8 \<Rightarrow> u8 \<Rightarrow> u8" where
  "EffectivePunchAttempts local peer =
     (let l = (if local = 0 then 1 else local);
          p = (if peer = 0 then 1 else peer)
      in min l p)"

definition toSet :: "tier list \<Rightarrow> tier \<Rightarrow> bool" where
  "toSet tiers t \<longleftrightarrow> t \<in> set tiers"

definition knownTier :: "tier \<Rightarrow> bool" where
  "knownTier t \<longleftrightarrow> (\<exists>candidate \<in> set cascade. candidate = t)"

definition SharedCascade :: "tier list \<Rightarrow> tier list \<Rightarrow> tier list" where
  "SharedCascade local peer =
     filter (\<lambda>t. t \<noteq> TierLibp2p \<and> toSet local t \<and> toSet peer t) cascade @ [TierLibp2p]"

definition SelectTier :: "tier list \<Rightarrow> tier list \<Rightarrow> tier" where
  "SelectTier local peer = SharedCascade local peer ! 0"

datatype negotiate_error =
    RequiredTiersDisagree tier tier
  | RequiredNotMutual tier

definition RequiredCascade :: "Hello \<Rightarrow> Hello \<Rightarrow> negotiate_error + tier list" where
  "RequiredCascade local peer =
     (let required = (if RequiredTier local = '''' then RequiredTier peer else RequiredTier local)
      in if RequiredTier local \<noteq> '''' \<and> RequiredTier peer \<noteq> '''' \<and> RequiredTier peer \<noteq> required
         then Inl (RequiredTiersDisagree required (RequiredTier peer))
         else if required = ''''
         then Inr (SharedCascade (SupportedTiers local) (SupportedTiers peer))
         else if required = TierLibp2p \<or> \<not> knownTier required
                 \<or> \<not> toSet (SupportedTiers local) required \<or> \<not> toSet (SupportedTiers peer) required
         then Inl (RequiredNotMutual required)
         else Inr [required])"

definition TierRequired :: "Hello \<Rightarrow> Hello \<Rightarrow> bool" where
  "TierRequired local peer \<longleftrightarrow> RequiredTier local \<noteq> '''' \<or> RequiredTier peer \<noteq> ''''"

section \<open>Lemmas\<close>

lemma tier_names_distinct [simp]:
  "TierWireGuard \<noteq> TierQUIC" "TierWireGuard \<noteq> TierLibp2p" "TierQUIC \<noteq> TierLibp2p"
  "TierQUIC \<noteq> TierWireGuard" "TierLibp2p \<noteq> TierWireGuard" "TierLibp2p \<noteq> TierQUIC"
  "TierWireGuard \<noteq> []" "TierQUIC \<noteq> []" "TierLibp2p \<noteq> []"
  by (simp_all add: tier_defs)

lemma Cascade_eq: "Cascade = cascade"
  by (simp add: Cascade_def)

lemma set_cascade [simp]: "set cascade = {TierWireGuard, TierQUIC, TierLibp2p}"
  by (simp add: cascade_def)

lemma distinct_cascade [simp]: "distinct cascade"
  by (simp add: cascade_def)

lemma SharedCascade_commute: "SharedCascade a b = SharedCascade b a"
  unfolding SharedCascade_def by (metis (no_types, lifting))

lemma SharedCascade_nonempty [simp]: "SharedCascade a b \<noteq> []"
  by (simp add: SharedCascade_def)

lemma last_SharedCascade [simp]: "last (SharedCascade a b) = TierLibp2p"
  by (simp add: SharedCascade_def)

lemma set_SharedCascade:
  "set (SharedCascade a b) = insert TierLibp2p (set a \<inter> set b \<inter> set cascade)"
  by (auto simp: SharedCascade_def toSet_def)

lemma distinct_SharedCascade: "distinct (SharedCascade a b)"
  by (simp add: SharedCascade_def)

lemma subseq_SharedCascade: "subseq (SharedCascade a b) cascade"
proof -
  have "subseq (filter (\<lambda>t. t \<noteq> TierLibp2p \<and> toSet a t \<and> toSet b t) [TierWireGuard, TierQUIC])
          [TierWireGuard, TierQUIC]"
    by (rule subseq_filter_left)
  then show ?thesis
    by (auto simp: SharedCascade_def cascade_def)
qed

lemma RequiredCascade_Inr_cases:
  assumes "RequiredCascade l p = Inr c"
  obtains (shared) "RequiredTier l = ''''" "RequiredTier p = ''''"
      "c = SharedCascade (SupportedTiers l) (SupportedTiers p)"
  | (forced) t where "t \<noteq> ''''" "c = [t]" "t \<in> {TierWireGuard, TierQUIC}"
      "t \<in> set (SupportedTiers l)" "t \<in> set (SupportedTiers p)"
      "RequiredTier l \<in> {'''', t}" "RequiredTier p \<in> {'''', t}"
  using assms by (auto simp: RequiredCascade_def Let_def toSet_def knownTier_def split: if_splits)

lemma RequiredCascade_nonempty: "RequiredCascade l p = Inr c \<Longrightarrow> c \<noteq> []"
  by (erule RequiredCascade_Inr_cases) auto

lemma RequiredCascade_flip_Inr: "RequiredCascade l p = Inr c \<Longrightarrow> RequiredCascade p l = Inr c"
  by (auto simp: RequiredCascade_def Let_def SharedCascade_commute split: if_splits)

lemma EffectivePunchAttempts_commute:
  "EffectivePunchAttempts a b = EffectivePunchAttempts b a"
  by (simp add: EffectivePunchAttempts_def Let_def min.commute)

lemma word_pos_ge_1: "(w :: 'a::len word) \<noteq> 0 \<Longrightarrow> 1 \<le> w"
  by (metis word_gt_0 inc_le add_0)

section \<open>Properties\<close>

text \<open>C27: both peers resolve the tier negotiation to the same answer without a further message:
  whichever of the two Hellos is called local, \<^verbatim>\<open>RequiredCascade\<close> yields the same cascade, or
  both sides refuse the session.\<close>

theorem RequiredCascade_agree:
  "(\<forall>c. RequiredCascade l p = Inr c \<longleftrightarrow> RequiredCascade p l = Inr c)
   \<and> ((\<exists>e. RequiredCascade l p = Inl e) \<longleftrightarrow> (\<exists>e. RequiredCascade p l = Inl e))"
  by (metis RequiredCascade_flip_Inr sum.exhaust sum.distinct(1))

text \<open>What \<^verbatim>\<open>SharedCascade\<close> returns: exactly the cascade tiers both sides listed, in the
  priority order of the wire contract, without repetition, and always ending in the libp2p floor
  even when a side omitted it.\<close>

theorem SharedCascade_spec:
  "subseq (SharedCascade local peer) cascade
   \<and> set (SharedCascade local peer) = insert TierLibp2p (set local \<inter> set peer \<inter> set cascade)
   \<and> distinct (SharedCascade local peer)
   \<and> last (SharedCascade local peer) = TierLibp2p
   \<and> SharedCascade local peer = SharedCascade peer local"
  by (intro conjI subseq_SharedCascade set_SharedCascade distinct_SharedCascade
      last_SharedCascade SharedCascade_commute)

text \<open>A session in which either side pinned an upper tier never resolves to the libp2p floor:
  a successful \<^verbatim>\<open>RequiredCascade\<close> is then exactly the one required tier, a tier above the floor
  that both sides listed.\<close>

theorem RequiredCascade_forced:
  assumes "TierRequired l p" and "RequiredCascade l p = Inr c"
  shows "\<exists>t. c = [t] \<and> t \<in> {TierWireGuard, TierQUIC} \<and> t \<noteq> TierLibp2p
     \<and> t \<in> set (SupportedTiers l) \<and> t \<in> set (SupportedTiers p)"
  using assms(2)
proof (cases rule: RequiredCascade_Inr_cases)
  case shared
  with assms(1) show ?thesis by (simp add: TierRequired_def)
next
  case (forced t)
  then show ?thesis by (intro exI [of _ t]) auto
qed

theorem RequiredCascade_forced_witness:
  "let l = \<lparr>SupportedTiers = [TierQUIC, TierLibp2p], WireGuardPubKey = zero_key,
            RequiredTier = TierQUIC, PunchProbe = False, PunchAttempts = 2\<rparr>;
       p = \<lparr>SupportedTiers = [TierWireGuard, TierQUIC, TierLibp2p], WireGuardPubKey = zero_key,
            RequiredTier = '''', PunchProbe = False, PunchAttempts = 1\<rparr>
   in TierRequired l p \<and> RequiredCascade l p = Inr [TierQUIC]
      \<and> (\<exists>t. [TierQUIC] = [t] \<and> t \<in> {TierWireGuard, TierQUIC} \<and> t \<noteq> TierLibp2p
            \<and> t \<in> set (SupportedTiers l) \<and> t \<in> set (SupportedTiers p))"
proof -
  let ?l = "\<lparr>SupportedTiers = [TierQUIC, TierLibp2p], WireGuardPubKey = zero_key,
            RequiredTier = TierQUIC, PunchProbe = False, PunchAttempts = 2\<rparr>"
  let ?p = "\<lparr>SupportedTiers = [TierWireGuard, TierQUIC, TierLibp2p], WireGuardPubKey = zero_key,
            RequiredTier = '''', PunchProbe = False, PunchAttempts = 1\<rparr>"
  have 1: "TierRequired ?l ?p" by (simp add: TierRequired_def)
  have 2: "RequiredCascade ?l ?p = Inr [TierQUIC]"
    by (simp add: RequiredCascade_def toSet_def knownTier_def)
  show ?thesis using RequiredCascade_forced [OF 1 2] 1 2 by (simp only: Let_def simp_thms)
qed

text \<open>The agreed number of punch attempts is the same on both sides, at least one, and never
  more than either side asked for (a request of zero counting as one).\<close>

theorem EffectivePunchAttempts_spec:
  "EffectivePunchAttempts a b = EffectivePunchAttempts b a
   \<and> 1 \<le> EffectivePunchAttempts a b
   \<and> EffectivePunchAttempts a b \<le> max 1 a
   \<and> EffectivePunchAttempts a b \<in> {max 1 a, max 1 b}"
proof (intro conjI EffectivePunchAttempts_commute)
  have m: "max 1 w = (if w = 0 then 1 else w)" for w :: u8
    by (simp add: max_def word_pos_ge_1)
  have eq: "EffectivePunchAttempts a b = min (max 1 a) (max 1 b)"
    by (simp only: EffectivePunchAttempts_def Let_def m)
  show "1 \<le> EffectivePunchAttempts a b" by (simp add: eq)
  show "EffectivePunchAttempts a b \<le> max 1 a" by (simp add: eq)
  show "EffectivePunchAttempts a b \<in> {max 1 a, max 1 b}" by (simp add: eq min_def)
qed

end
