(* ===== verification/Codec.thy ===== *)
theory Codec
  imports Negotiate
begin

text \<open>
  The bounded binary codec of \<^verbatim>\<open>internal/negotiate/codec.go\<close>. The decoder is the struct
  \<open>decoder\<close> with its offset; every operation returns either the \<^verbatim>\<open>ErrInvalidMessage\<close>
  variant the source raises or the value and the advanced decoder. The four unmarshal functions
  return the decoded message: the source fills a zero value of the caller, which the caller
  discards on an error.

  The lemmas relate both directions: what was marshalled is read back, and what was read is what
  marshalling writes, so the encoding of every message is unique. The locale \<open>wire_format\<close>
  states that contract once and derives its consequences; it is interpreted for all four message
  types.
\<close>

section \<open>Errors and constants\<close>

datatype codec_error =
    TooManyTiers nat
  | TooManyCandidates nat
  | InvalidFingerprintLength nat
  | UnsupportedVersion byte
  | Truncated
  | StringTooLong nat nat
  | TrailingBytes
  | InvalidPunchProbe
  | InvalidAttemptCommit
  | InvalidPunchOutcome

definition codecVersion :: byte where "codecVersion = 1"
definition maxTierNameLen :: nat where "maxTierNameLen = 32"
definition maxICEFieldLen :: nat where "maxICEFieldLen = 256"
definition maxCandidateLen :: nat where "maxCandidateLen = 4096"
definition maxCandidates :: nat where "maxCandidates = 64"

lemmas codec_consts = maxTierNameLen_def maxICEFieldLen_def maxCandidateLen_def maxCandidates_def

section \<open>Decoder\<close>

record decoder =
  dp :: "byte list"
  doff :: nat

definition new_decoder :: "byte list \<Rightarrow> decoder" where
  "new_decoder p = \<lparr>dp = p, doff = 0\<rparr>"

definition decoder_byte :: "decoder \<Rightarrow> codec_error + (byte \<times> decoder)" where
  "decoder_byte d =
     (if doff d = length (dp d) then Inl Truncated
      else Inr (dp d ! doff d, d\<lparr>doff := doff d + 1\<rparr>))"

definition decoder_bytes :: "int \<Rightarrow> decoder \<Rightarrow> codec_error + (byte list \<times> decoder)" where
  "decoder_bytes n d =
     (if n < 0 \<or> n > int (length (dp d)) - int (doff d) then Inl Truncated
      else Inr (take (nat n) (drop (doff d) (dp d)), d\<lparr>doff := doff d + nat n\<rparr>))"

definition decoder_version :: "decoder \<Rightarrow> codec_error + decoder" where
  "decoder_version d =
     rbind (decoder_byte d) (\<lambda>(v, d').
       if v \<noteq> codecVersion then Inl (UnsupportedVersion v) else Inr d')"

definition decoder_string :: "nat \<Rightarrow> decoder \<Rightarrow> codec_error + (string \<times> decoder)" where
  "decoder_string mx d =
     rbind (decoder_bytes 2 d) (\<lambda>(raw, d').
       let n = unat (Uint16 raw) in
       if n > mx then Inl (StringTooLong n mx)
       else rbind (decoder_bytes (int n) d') (\<lambda>(b, d''). Inr (bytes_str b, d'')))"

definition decoder_done :: "decoder \<Rightarrow> codec_error + unit" where
  "decoder_done d = guard (doff d = length (dp d)) TrailingBytes"

fun decoder_strings :: "nat \<Rightarrow> nat \<Rightarrow> decoder \<Rightarrow> codec_error + (string list \<times> decoder)" where
  "decoder_strings 0 mx d = Inr ([], d)"
| "decoder_strings (Suc n) mx d =
     rbind (decoder_string mx d) (\<lambda>(s, d').
       rbind (decoder_strings n mx d') (\<lambda>(ss, d''). Inr (s # ss, d'')))"

section \<open>Marshalling\<close>

definition appendString :: "byte list \<Rightarrow> string \<Rightarrow> nat \<Rightarrow> codec_error + byte list" where
  "appendString dst value mx =
     (if length value > mx then Inl (StringTooLong (length value) mx)
      else Inr (dst @ PutUint16 (word_of_nat (length value)) @ str_bytes value))"

fun appendStrings :: "byte list \<Rightarrow> string list \<Rightarrow> nat \<Rightarrow> codec_error + byte list" where
  "appendStrings dst [] mx = Inr dst"
| "appendStrings dst (v # vs) mx =
     rbind (appendString dst v mx) (\<lambda>dst'. appendStrings dst' vs mx)"

definition bool_byte :: "bool \<Rightarrow> byte" where
  "bool_byte b = (if b then 1 else 0)"

definition marshalHello :: "Hello \<Rightarrow> codec_error + byte list" where
  "marshalHello h =
     (let p = [codecVersion, word_of_nat (length (SupportedTiers h))] in
      if length (SupportedTiers h) > length cascade
      then Inl (TooManyTiers (length (SupportedTiers h)))
      else rbind (appendStrings p (SupportedTiers h) maxTierNameLen) (\<lambda>p.
           rbind (appendString (p @ WireGuardPubKey h) (RequiredTier h) maxTierNameLen) (\<lambda>p.
           Inr ((p @ [bool_byte (PunchProbe h)]) @ [PunchAttempts h]))))"

definition unmarshalHello :: "byte list \<Rightarrow> codec_error + Hello" where
  "unmarshalHello p =
     rbind (decoder_version (new_decoder p)) (\<lambda>d.
     rbind (decoder_byte d) (\<lambda>(count, d).
     if unat count > length cascade then Inl (TooManyTiers (unat count))
     else rbind (decoder_strings (unat count) maxTierNameLen d) (\<lambda>(tiers, d).
     rbind (decoder_bytes 32 d) (\<lambda>(key, d).
     rbind (decoder_string maxTierNameLen d) (\<lambda>(required, d).
     rbind (decoder_byte d) (\<lambda>(probe, d).
     if probe > 1 then Inl InvalidPunchProbe
     else rbind (decoder_byte d) (\<lambda>(attempts, d).
     rbind (decoder_done d) (\<lambda>_.
     Inr \<lparr>SupportedTiers = tiers, WireGuardPubKey = key, RequiredTier = required,
          PunchProbe = (probe = 1), PunchAttempts = attempts\<rparr>))))))))"

definition marshalPunchInfo :: "PunchInfo \<Rightarrow> codec_error + byte list" where
  "marshalPunchInfo p =
     (if length (ICECandidates p) > maxCandidates
      then Inl (TooManyCandidates (length (ICECandidates p)))
      else if length (QUICCertFingerprint p) \<noteq> 0 \<and> length (QUICCertFingerprint p) \<noteq> 32
      then Inl (InvalidFingerprintLength (length (QUICCertFingerprint p)))
      else rbind (appendString [codecVersion] (ICEUfrag p) maxICEFieldLen) (\<lambda>out.
           rbind (appendString out (ICEPwd p) maxICEFieldLen) (\<lambda>out.
           rbind (appendStrings (out @ [word_of_nat (length (ICECandidates p))])
                    (ICECandidates p) maxCandidateLen) (\<lambda>out.
           Inr ((out @ [word_of_nat (length (QUICCertFingerprint p))])
                @ QUICCertFingerprint p)))))"

definition unmarshalPunchInfo :: "byte list \<Rightarrow> codec_error + PunchInfo" where
  "unmarshalPunchInfo data =
     rbind (decoder_version (new_decoder data)) (\<lambda>d.
     rbind (decoder_string maxICEFieldLen d) (\<lambda>(ufrag, d).
     rbind (decoder_string maxICEFieldLen d) (\<lambda>(pwd, d).
     rbind (decoder_byte d) (\<lambda>(count, d).
     if unat count > maxCandidates then Inl (TooManyCandidates (unat count))
     else rbind (decoder_strings (unat count) maxCandidateLen d) (\<lambda>(candidates, d).
     rbind (decoder_byte d) (\<lambda>(fingerprintLen, d).
     if fingerprintLen \<noteq> 0 \<and> fingerprintLen \<noteq> 32
     then Inl (InvalidFingerprintLength (unat fingerprintLen))
     else rbind (decoder_bytes (uint fingerprintLen) d) (\<lambda>(fingerprint, d).
     rbind (decoder_done d) (\<lambda>_.
     Inr \<lparr>ICEUfrag = ufrag, ICEPwd = pwd, ICECandidates = candidates,
          QUICCertFingerprint = fingerprint\<rparr>))))))))"

definition marshalAttempt :: "Attempt \<Rightarrow> codec_error + byte list" where
  "marshalAttempt a =
     rbind (appendString [codecVersion] (ATier a) maxTierNameLen) (\<lambda>p.
       if Commit a then Inr (p @ [1]) else Inr (p @ [0]))"

definition unmarshalAttempt :: "byte list \<Rightarrow> codec_error + Attempt" where
  "unmarshalAttempt data =
     rbind (decoder_version (new_decoder data)) (\<lambda>d.
     rbind (decoder_string maxTierNameLen d) (\<lambda>(tier, d).
     rbind (decoder_byte d) (\<lambda>(commit, d).
     if commit > 1 then Inl InvalidAttemptCommit
     else rbind (decoder_done d) (\<lambda>_.
     Inr \<lparr>ATier = tier, Commit = (commit = 1)\<rparr>))))"

definition marshalPunchOutcome :: "PunchOutcome \<Rightarrow> codec_error + byte list" where
  "marshalPunchOutcome p =
     (if OK p then Inr [codecVersion, 1] else Inr [codecVersion, 0])"

definition unmarshalPunchOutcome :: "byte list \<Rightarrow> codec_error + PunchOutcome" where
  "unmarshalPunchOutcome data =
     rbind (decoder_version (new_decoder data)) (\<lambda>d.
     rbind (decoder_byte d) (\<lambda>(ok, d).
     if ok > 1 then Inl InvalidPunchOutcome
     else rbind (decoder_done d) (\<lambda>_. Inr \<lparr>OK = (ok = 1)\<rparr>)))"

section \<open>Lemmas on the decoder\<close>

text \<open>A decoder that has consumed \<open>pre\<close> and has \<open>xs\<close> left.\<close>

definition decoder_at :: "byte list \<Rightarrow> byte list \<Rightarrow> decoder" where
  "decoder_at pre xs = \<lparr>dp = pre @ xs, doff = length pre\<rparr>"

definition enc_str :: "string \<Rightarrow> byte list" where
  "enc_str s = PutUint16 (word_of_nat (length s)) @ str_bytes s"

lemma new_decoder_at: "new_decoder p = decoder_at [] p"
  by (simp add: new_decoder_def decoder_at_def)

lemma decoder_byte_at [simp]:
  "decoder_byte (decoder_at pre (b # xs)) = Inr (b, decoder_at (pre @ [b]) xs)"
  by (simp add: decoder_byte_def decoder_at_def)

lemma decoder_byte_Inr:
  assumes "decoder_byte (decoder_at pre xs) = Inr (b, d)"
  obtains xs' where "xs = b # xs'" "d = decoder_at (pre @ [b]) xs'"
  using assms by (cases xs) (auto simp: decoder_byte_def decoder_at_def)

lemma decoder_bytes_at:
  "length ys = n \<Longrightarrow>
   decoder_bytes (int n) (decoder_at pre (ys @ xs)) = Inr (ys, decoder_at (pre @ ys) xs)"
  by (simp add: decoder_bytes_def decoder_at_def)

lemma decoder_bytes_Inr:
  assumes "decoder_bytes (int n) (decoder_at pre xs) = Inr (ys, d)"
  obtains xs' where "xs = ys @ xs'" "length ys = n" "d = decoder_at (pre @ ys) xs'"
proof -
  from assms have n: "n \<le> length xs" and ys: "ys = take n xs"
    and d: "d = \<lparr>dp = pre @ xs, doff = length pre + n\<rparr>"
    by (auto simp: decoder_bytes_def decoder_at_def split: if_splits)
  then have "xs = ys @ drop n xs" "length ys = n" by auto
  moreover from this n d have "d = decoder_at (pre @ ys) (drop n xs)"
    by (simp add: decoder_at_def)
  ultimately show thesis by (rule that)
qed

lemma decoder_version_at [simp]:
  "decoder_version (decoder_at pre (codecVersion # xs)) = Inr (decoder_at (pre @ [codecVersion]) xs)"
  by (simp add: decoder_version_def)

lemma decoder_version_Inr:
  assumes "decoder_version (decoder_at pre xs) = Inr d"
  obtains xs' where "xs = codecVersion # xs'" "d = decoder_at (pre @ [codecVersion]) xs'"
  using assms
  by (auto simp: decoder_version_def rbind_eq_Inr split: if_splits elim!: decoder_byte_Inr)

lemma length_enc_str: "length (enc_str s) = 2 + length s"
  by (simp add: enc_str_def)

lemma decoder_string_at:
  assumes "length s \<le> mx" "mx < 65536"
  shows "decoder_string mx (decoder_at pre (enc_str s @ xs)) = Inr (s, decoder_at (pre @ enc_str s) xs)"
proof -
  have u: "unat (word_of_nat (length s) :: u16) = length s"
    using assms by (simp add: unat_of_nat)
  have b2: "decoder_bytes 2 (decoder_at pre (enc_str s @ xs))
      = Inr (PutUint16 (word_of_nat (length s)),
             decoder_at (pre @ PutUint16 (word_of_nat (length s))) (str_bytes s @ xs))"
    using decoder_bytes_at [of "PutUint16 (word_of_nat (length s))" 2] by (simp add: enc_str_def)
  show ?thesis
    using assms decoder_bytes_at [of "str_bytes s" "length s"]
    by (simp add: decoder_string_def b2 u Let_def) (simp add: enc_str_def)
qed

lemma decoder_string_Inr:
  assumes "decoder_string mx (decoder_at pre xs) = Inr (s, d)"
  obtains xs' where "xs = enc_str s @ xs'" "length s \<le> mx" "d = decoder_at (pre @ enc_str s) xs'"
proof -
  from assms obtain raw d' b where
    raw: "decoder_bytes (int 2) (decoder_at pre xs) = Inr (raw, d')"
    and n: "unat (Uint16 raw) \<le> mx"
    and b: "decoder_bytes (int (unat (Uint16 raw))) d' = Inr (b, d)" and s: "s = bytes_str b"
    by (auto simp: decoder_string_def rbind_eq_Inr Let_def split: if_splits)
  from raw obtain ys where xs: "xs = raw @ ys" "length raw = 2" "d' = decoder_at (pre @ raw) ys"
    by (rule decoder_bytes_Inr)
  from b [unfolded xs(3)] obtain zs where ys: "ys = b @ zs" "length b = unat (Uint16 raw)"
      "d = decoder_at ((pre @ raw) @ b) zs"
    by (rule decoder_bytes_Inr)
  from xs(2) obtain r0 r1 where "raw = [r0, r1]"
    by (auto simp: length_Suc_conv numeral_2_eq_2)
  then have "enc_str s = raw @ b"
    using ys(2) by (simp add: enc_str_def s PutUint16_Uint16)
  with xs ys n s show thesis by (intro that [of zs]) auto
qed

lemma decoder_strings_at:
  assumes "\<forall>s \<in> set ss. length s \<le> mx" "mx < 65536"
  shows "decoder_strings (length ss) mx (decoder_at pre (concat (map enc_str ss) @ xs))
      = Inr (ss, decoder_at (pre @ concat (map enc_str ss)) xs)"
  using assms(1)
proof (induction ss arbitrary: pre)
  case (Cons s ss)
  then show ?case using assms(2) by (simp add: decoder_string_at)
qed simp

lemma decoder_strings_Inr:
  "decoder_strings n mx (decoder_at pre xs) = Inr (ss, d) \<Longrightarrow>
   \<exists>xs'. xs = concat (map enc_str ss) @ xs' \<and> length ss = n \<and> (\<forall>s \<in> set ss. length s \<le> mx)
     \<and> d = decoder_at (pre @ concat (map enc_str ss)) xs'"
proof (induction n arbitrary: pre xs ss d)
  case (Suc n)
  from Suc.prems obtain s ss' d' where
    1: "decoder_string mx (decoder_at pre xs) = Inr (s, d')"
    and 2: "decoder_strings n mx d' = Inr (ss', d)" and ss: "ss = s # ss'"
    by (auto simp: rbind_eq_Inr)
  from 1 obtain ys where "xs = enc_str s @ ys" "length s \<le> mx" "d' = decoder_at (pre @ enc_str s) ys"
    by (rule decoder_string_Inr)
  with 2 ss show ?case by (auto dest!: Suc.IH)
qed auto

lemma decoder_done_at [simp]: "decoder_done (decoder_at pre xs) = guard (xs = []) TrailingBytes"
  by (simp add: decoder_done_def decoder_at_def)

lemma appendString_Inr:
  "appendString dst v mx = Inr out \<longleftrightarrow> length v \<le> mx \<and> out = dst @ enc_str v"
  by (auto simp: appendString_def enc_str_def)

lemma appendStrings_Inr:
  "appendStrings dst vs mx = Inr out \<longleftrightarrow>
   (\<forall>v \<in> set vs. length v \<le> mx) \<and> out = dst @ concat (map enc_str vs)"
  by (induction vs arbitrary: dst) (auto simp: rbind_eq_Inr appendString_Inr)

lemma bool_byte_simps [simp]: "bool_byte b \<le> 1" "bool_byte b = 1 \<longleftrightarrow> b" "\<not> 1 < bool_byte b"
  by (auto simp: bool_byte_def)

lemma byte_bool: "\<not> 1 < (b :: byte) \<Longrightarrow> bool_byte (b = 1) = b"
  using word_pos_ge_1 [of b] by (auto simp: bool_byte_def not_less)

section \<open>Layout of each message\<close>

text \<open>Which byte strings encode which message. Marshalling and unmarshalling are both shown to
  be this relation.\<close>

definition hello_layout :: "Hello \<Rightarrow> byte list \<Rightarrow> bool" where
  "hello_layout h p \<longleftrightarrow>
     length (SupportedTiers h) \<le> length cascade
     \<and> (\<forall>t \<in> set (SupportedTiers h). length t \<le> maxTierNameLen)
     \<and> length (RequiredTier h) \<le> maxTierNameLen
     \<and> p = [codecVersion, word_of_nat (length (SupportedTiers h))]
           @ concat (map enc_str (SupportedTiers h)) @ WireGuardPubKey h
           @ enc_str (RequiredTier h) @ [bool_byte (PunchProbe h), PunchAttempts h]"

definition punch_info_layout :: "PunchInfo \<Rightarrow> byte list \<Rightarrow> bool" where
  "punch_info_layout i p \<longleftrightarrow>
     length (ICECandidates i) \<le> maxCandidates
     \<and> (length (QUICCertFingerprint i) = 0 \<or> length (QUICCertFingerprint i) = 32)
     \<and> length (ICEUfrag i) \<le> maxICEFieldLen \<and> length (ICEPwd i) \<le> maxICEFieldLen
     \<and> (\<forall>c \<in> set (ICECandidates i). length c \<le> maxCandidateLen)
     \<and> p = [codecVersion] @ enc_str (ICEUfrag i) @ enc_str (ICEPwd i)
           @ [word_of_nat (length (ICECandidates i))] @ concat (map enc_str (ICECandidates i))
           @ [word_of_nat (length (QUICCertFingerprint i))] @ QUICCertFingerprint i"

definition attempt_layout :: "Attempt \<Rightarrow> byte list \<Rightarrow> bool" where
  "attempt_layout a p \<longleftrightarrow>
     length (ATier a) \<le> maxTierNameLen
     \<and> p = [codecVersion] @ enc_str (ATier a) @ [bool_byte (Commit a)]"

definition outcome_layout :: "PunchOutcome \<Rightarrow> byte list \<Rightarrow> bool" where
  "outcome_layout o' p \<longleftrightarrow> p = [codecVersion, bool_byte (OK o')]"

lemma marshalHello_layout: "marshalHello h = Inr p \<longleftrightarrow> hello_layout h p"
  by (auto simp: marshalHello_def hello_layout_def Let_def rbind_eq_Inr appendString_Inr
      appendStrings_Inr)

lemma marshalPunchInfo_layout: "marshalPunchInfo i = Inr p \<longleftrightarrow> punch_info_layout i p"
  by (auto simp: marshalPunchInfo_def punch_info_layout_def rbind_eq_Inr appendString_Inr
      appendStrings_Inr)

lemma marshalAttempt_layout: "marshalAttempt a = Inr p \<longleftrightarrow> attempt_layout a p"
  by (auto simp: marshalAttempt_def attempt_layout_def rbind_eq_Inr appendString_Inr bool_byte_def)

lemma marshalPunchOutcome_layout: "marshalPunchOutcome m = Inr p \<longleftrightarrow> outcome_layout m p"
  by (auto simp: marshalPunchOutcome_def outcome_layout_def bool_byte_def)

lemma unat_count: "n \<le> 255 \<Longrightarrow> unat (word_of_nat n :: byte) = n"
  by (simp add: unat_of_nat)

lemma unmarshalHello_layout_if:
  assumes "hello_layout h p" "wf_hello h"
  shows "unmarshalHello p = Inr h"
proof -
  have n: "unat (word_of_nat (length (SupportedTiers h)) :: byte) = length (SupportedTiers h)"
    using assms(1) by (intro unat_count) (simp add: hello_layout_def cascade_def)
  have k: "decoder_bytes 32 (decoder_at pre (WireGuardPubKey h @ xs))
      = Inr (WireGuardPubKey h, decoder_at (pre @ WireGuardPubKey h) xs)" for pre xs
    using decoder_bytes_at [of "WireGuardPubKey h" 32] assms(2) by (simp add: wf_hello_def)
  show ?thesis
    using assms
    by (simp add: unmarshalHello_def hello_layout_def new_decoder_at n k decoder_strings_at
        decoder_string_at maxTierNameLen_def)
qed

lemma unmarshalHello_layout_only_if:
  assumes "unmarshalHello p = Inr h"
  shows "hello_layout h p \<and> wf_hello h"
proof -
  from assms obtain d1 d2 d3 d4 d5 d6 d7 count probe where
    v: "decoder_version (decoder_at [] p) = Inr d1"
    and c: "decoder_byte d1 = Inr (count, d2)" and le: "unat count \<le> length cascade"
    and t: "decoder_strings (unat count) maxTierNameLen d2 = Inr (SupportedTiers h, d3)"
    and k: "decoder_bytes (int 32) d3 = Inr (WireGuardPubKey h, d4)"
    and r: "decoder_string maxTierNameLen d4 = Inr (RequiredTier h, d5)"
    and pr: "decoder_byte d5 = Inr (probe, d6)" "\<not> 1 < probe" "PunchProbe h = (probe = 1)"
    and at: "decoder_byte d6 = Inr (PunchAttempts h, d7)" and dn: "decoder_done d7 = Inr ()"
    by (auto simp: unmarshalHello_def new_decoder_at rbind_eq_Inr split: if_splits)
  from v obtain x1 where 1: "p = codecVersion # x1" "d1 = decoder_at ([] @ [codecVersion]) x1"
    by (rule decoder_version_Inr)
  from c [unfolded 1(2)] obtain x2 where 2: "x1 = count # x2"
      "d2 = decoder_at (([] @ [codecVersion]) @ [count]) x2"
    by (rule decoder_byte_Inr)
  from t [unfolded 2(2)] obtain x3 pre3 where 3:
      "x2 = concat (map enc_str (SupportedTiers h)) @ x3" "length (SupportedTiers h) = unat count"
      "\<forall>s \<in> set (SupportedTiers h). length s \<le> maxTierNameLen" "d3 = decoder_at pre3 x3"
    by (auto dest!: decoder_strings_Inr)
  from k [unfolded 3(4)] obtain x4 where 4: "x3 = WireGuardPubKey h @ x4"
      "length (WireGuardPubKey h) = 32" "d4 = decoder_at (pre3 @ WireGuardPubKey h) x4"
    by (rule decoder_bytes_Inr)
  from r [unfolded 4(3)] obtain x5 pre5 where 5: "x4 = enc_str (RequiredTier h) @ x5"
      "length (RequiredTier h) \<le> maxTierNameLen" "d5 = decoder_at pre5 x5"
    by (rule decoder_string_Inr)
  from pr(1) [unfolded 5(3)] obtain x6 pre6 where 6: "x5 = probe # x6" "d6 = decoder_at pre6 x6"
    by (rule decoder_byte_Inr)
  from at [unfolded 6(2)] obtain x7 pre7 where 7: "x6 = PunchAttempts h # x7"
      "d7 = decoder_at pre7 x7"
    by (rule decoder_byte_Inr)
  from dn 7(2) have "x7 = []" by simp
  with 1 2 3 4 5 6 7 le pr show ?thesis
    by (simp add: hello_layout_def wf_hello_def byte_bool)
qed

lemma unmarshalPunchInfo_layout_if:
  assumes "punch_info_layout i p"
  shows "unmarshalPunchInfo p = Inr i"
proof -
  have n: "unat (word_of_nat (length (ICECandidates i)) :: byte) = length (ICECandidates i)"
    using assms by (intro unat_count) (simp add: punch_info_layout_def codec_consts)
  have f: "decoder_bytes (uint (word_of_nat (length (QUICCertFingerprint i)) :: byte))
        (decoder_at pre (QUICCertFingerprint i))
      = Inr (QUICCertFingerprint i, decoder_at (pre @ QUICCertFingerprint i) [])" for pre
    using decoder_bytes_at [of "QUICCertFingerprint i" _ pre "[]"] assms
    by (auto simp: punch_info_layout_def)
  show ?thesis
    using assms
    by (auto simp: unmarshalPunchInfo_def punch_info_layout_def new_decoder_at n f
        decoder_strings_at decoder_string_at codec_consts)
qed

lemma unmarshalPunchInfo_layout_only_if:
  assumes "unmarshalPunchInfo p = Inr i"
  shows "punch_info_layout i p"
proof -
  from assms obtain d1 d2 d3 d4 d5 d6 d7 count fl where
    v: "decoder_version (decoder_at [] p) = Inr d1"
    and u: "decoder_string maxICEFieldLen d1 = Inr (ICEUfrag i, d2)"
    and w: "decoder_string maxICEFieldLen d2 = Inr (ICEPwd i, d3)"
    and c: "decoder_byte d3 = Inr (count, d4)" and le: "unat count \<le> maxCandidates"
    and t: "decoder_strings (unat count) maxCandidateLen d4 = Inr (ICECandidates i, d5)"
    and fl: "decoder_byte d5 = Inr (fl, d6)" and fl32: "fl = 0 \<or> fl = 32"
    and fp: "decoder_bytes (int (unat fl)) d6 = Inr (QUICCertFingerprint i, d7)"
    and dn: "decoder_done d7 = Inr ()"
    by (auto simp: unmarshalPunchInfo_def new_decoder_at rbind_eq_Inr split: if_splits)
  from v obtain x1 pre1 where 1: "p = codecVersion # x1" "d1 = decoder_at pre1 x1"
    by (rule decoder_version_Inr)
  from u [unfolded 1(2)] obtain x2 pre2 where 2: "x1 = enc_str (ICEUfrag i) @ x2"
      "length (ICEUfrag i) \<le> maxICEFieldLen" "d2 = decoder_at pre2 x2"
    by (rule decoder_string_Inr)
  from w [unfolded 2(3)] obtain x3 pre3 where 3: "x2 = enc_str (ICEPwd i) @ x3"
      "length (ICEPwd i) \<le> maxICEFieldLen" "d3 = decoder_at pre3 x3"
    by (rule decoder_string_Inr)
  from c [unfolded 3(3)] obtain x4 pre4 where 4: "x3 = count # x4" "d4 = decoder_at pre4 x4"
    by (rule decoder_byte_Inr)
  from t [unfolded 4(2)] obtain x5 pre5 where 5:
      "x4 = concat (map enc_str (ICECandidates i)) @ x5" "length (ICECandidates i) = unat count"
      "\<forall>s \<in> set (ICECandidates i). length s \<le> maxCandidateLen" "d5 = decoder_at pre5 x5"
    by (auto dest!: decoder_strings_Inr)
  from fl [unfolded 5(4)] obtain x6 pre6 where 6: "x5 = fl # x6" "d6 = decoder_at pre6 x6"
    by (rule decoder_byte_Inr)
  from fp [unfolded 6(2)] obtain x7 pre7 where 7: "x6 = QUICCertFingerprint i @ x7"
      "length (QUICCertFingerprint i) = unat fl" "d7 = decoder_at pre7 x7"
    by (rule decoder_bytes_Inr)
  from dn 7(3) have "x7 = []" by simp
  with 1 2 3 4 5 6 7 le fl32 show ?thesis
    by (auto simp: punch_info_layout_def)
qed

lemma unmarshalAttempt_layout: "unmarshalAttempt p = Inr a \<longleftrightarrow> attempt_layout a p"
proof
  assume "unmarshalAttempt p = Inr a"
  then obtain d1 d2 d3 commit where
    v: "decoder_version (decoder_at [] p) = Inr d1"
    and u: "decoder_string maxTierNameLen d1 = Inr (ATier a, d2)"
    and c: "decoder_byte d2 = Inr (commit, d3)" "\<not> 1 < commit" "Commit a = (commit = 1)"
    and dn: "decoder_done d3 = Inr ()"
    by (auto simp: unmarshalAttempt_def new_decoder_at rbind_eq_Inr split: if_splits)
  from v obtain x1 pre1 where 1: "p = codecVersion # x1" "d1 = decoder_at pre1 x1"
    by (rule decoder_version_Inr)
  from u [unfolded 1(2)] obtain x2 pre2 where 2: "x1 = enc_str (ATier a) @ x2"
      "length (ATier a) \<le> maxTierNameLen" "d2 = decoder_at pre2 x2"
    by (rule decoder_string_Inr)
  from c(1) [unfolded 2(3)] obtain x3 pre3 where 3: "x2 = commit # x3" "d3 = decoder_at pre3 x3"
    by (rule decoder_byte_Inr)
  from dn 3(2) have "x3 = []" by simp
  with 1 2 3 c show "attempt_layout a p" by (simp add: attempt_layout_def byte_bool)
next
  assume "attempt_layout a p"
  then show "unmarshalAttempt p = Inr a"
    by (simp add: unmarshalAttempt_def attempt_layout_def new_decoder_at decoder_string_at
        maxTierNameLen_def)
qed

lemma unmarshalPunchOutcome_layout: "unmarshalPunchOutcome p = Inr m \<longleftrightarrow> outcome_layout m p"
proof
  assume "unmarshalPunchOutcome p = Inr m"
  then obtain d1 d2 ok where
    v: "decoder_version (decoder_at [] p) = Inr d1"
    and c: "decoder_byte d1 = Inr (ok, d2)" "\<not> 1 < ok" "OK m = (ok = 1)"
    and dn: "decoder_done d2 = Inr ()"
    by (auto simp: unmarshalPunchOutcome_def new_decoder_at rbind_eq_Inr split: if_splits)
  from v obtain x1 pre1 where 1: "p = codecVersion # x1" "d1 = decoder_at pre1 x1"
    by (rule decoder_version_Inr)
  from c(1) [unfolded 1(2)] obtain x2 pre2 where 2: "x1 = ok # x2" "d2 = decoder_at pre2 x2"
    by (rule decoder_byte_Inr)
  from dn 2(2) have "x2 = []" by simp
  with 1 2 c show "outcome_layout m p" by (simp add: outcome_layout_def byte_bool)
next
  assume "outcome_layout m p"
  then show "unmarshalPunchOutcome p = Inr m"
    by (simp add: unmarshalPunchOutcome_def outcome_layout_def new_decoder_at)
qed

section \<open>The codec contract\<close>

text \<open>What the frame layer relies on for every message type: a marshalled message is read back,
  and only what marshalling writes is read at all.\<close>

locale wire_format =
  fixes marshal :: "'m \<Rightarrow> codec_error + byte list"
    and unmarshal :: "byte list \<Rightarrow> codec_error + 'm"
    and wf :: "'m \<Rightarrow> bool"
  assumes unmarshal_marshal: "wf m \<Longrightarrow> marshal m = Inr p \<Longrightarrow> unmarshal p = Inr m"
    and marshal_unmarshal: "unmarshal p = Inr m \<Longrightarrow> marshal m = Inr p \<and> wf m"
begin

lemma unmarshal_iff: "unmarshal p = Inr m \<longleftrightarrow> wf m \<and> marshal m = Inr p"
  using unmarshal_marshal marshal_unmarshal by blast

lemma marshal_inj: "wf m \<Longrightarrow> wf m' \<Longrightarrow> marshal m = Inr p \<Longrightarrow> marshal m' = Inr p \<Longrightarrow> m = m'"
  by (metis sum.inject(2) unmarshal_marshal)

lemma unmarshal_inj: "unmarshal p = Inr m \<Longrightarrow> unmarshal q = Inr m \<Longrightarrow> p = q"
  by (metis marshal_unmarshal sum.inject(2))

end

interpretation hello: wire_format marshalHello unmarshalHello wf_hello
  by unfold_locales
    (auto simp: marshalHello_layout dest: unmarshalHello_layout_only_if
      intro: unmarshalHello_layout_if)

interpretation punch_info: wire_format marshalPunchInfo unmarshalPunchInfo "\<lambda>_. True"
  by unfold_locales
    (auto simp: marshalPunchInfo_layout dest: unmarshalPunchInfo_layout_only_if
      intro: unmarshalPunchInfo_layout_if)

interpretation attempt: wire_format marshalAttempt unmarshalAttempt "\<lambda>_. True"
  by unfold_locales (auto simp: marshalAttempt_layout unmarshalAttempt_layout)

interpretation outcome: wire_format marshalPunchOutcome unmarshalPunchOutcome "\<lambda>_. True"
  by unfold_locales (auto simp: marshalPunchOutcome_layout unmarshalPunchOutcome_layout)

section \<open>Sizes\<close>

lemma length_concat_enc_str:
  "\<forall>s \<in> set ss. length s \<le> mx \<Longrightarrow> length (concat (map enc_str ss)) \<le> length ss * (2 + mx)"
  by (induction ss) (auto simp: length_enc_str)

lemma hello_layout_length:
  assumes "hello_layout h p" "wf_hello h" shows "length p \<le> 172"
proof -
  have "length (concat (map enc_str (SupportedTiers h))) \<le> length (SupportedTiers h) * (2 + maxTierNameLen)"
    using assms(1) by (intro length_concat_enc_str) (simp add: hello_layout_def)
  also have "\<dots> \<le> 3 * 34"
    using assms(1) by (intro mult_le_mono) (simp_all add: hello_layout_def cascade_def codec_consts)
  finally show ?thesis
    using assms by (simp add: hello_layout_def wf_hello_def length_enc_str codec_consts)
qed

section \<open>Properties\<close>

text \<open>The Hello codec is exact. \<^verbatim>\<open>unmarshalHello\<close> accepts a payload as the message \<open>h\<close> if
  and only if \<open>h\<close> has a 32-byte key and the payload is what \<^verbatim>\<open>marshalHello\<close> writes for it: what
  is sent is read back unchanged, and no second byte string decodes to the same Hello.\<close>

theorem Hello_codec_exact:
  "unmarshalHello p = Inr h \<longleftrightarrow> wf_hello h \<and> marshalHello h = Inr p"
  by (rule hello.unmarshal_iff)

text \<open>The PunchInfo codec is exact in the same sense, ICE credentials, candidates and
  fingerprint included.\<close>

theorem PunchInfo_codec_exact:
  "unmarshalPunchInfo p = Inr i \<longleftrightarrow> marshalPunchInfo i = Inr p"
  by (simp add: punch_info.unmarshal_iff)

text \<open>The two short messages of the rung protocol, Attempt and PunchOutcome, are exact too.\<close>

theorem Attempt_Outcome_codec_exact:
  "(unmarshalAttempt p = Inr a \<longleftrightarrow> marshalAttempt a = Inr p)
   \<and> (unmarshalPunchOutcome p = Inr m \<longleftrightarrow> marshalPunchOutcome m = Inr p)"
  by (simp add: attempt.unmarshal_iff outcome.unmarshal_iff)

end
