(* ===== verification/Exchange.thy ===== *)
theory Exchange
  imports Codec
begin

text \<open>
  The \<^verbatim>\<open>Exchange\<close> of \<^verbatim>\<open>internal/negotiate/negotiate.go\<close>: length-prefixed frames over one
  stream, and the phases that run on it. The stream is a third-party one (a libp2p stream): its
  \<^verbatim>\<open>Write\<close> is a parameter \<open>w\<close> constrained by the documented \<^verbatim>\<open>io.Writer\<close> contract
  (\<open>writer_contract\<close>), its read side is the byte list that is left to read. Cancellation of the
  context is an argument: \<open>True\<close> where the \<^verbatim>\<open>select\<close> takes the \<^verbatim>\<open>ctx.Done()\<close> branch. A phase that
  fails leaves the stream somewhere inside a message and no caller uses the exchange again, so a
  failure carries the error only and a success the state of both directions.
\<close>

section \<open>Messages\<close>

datatype message =
    MHello Hello
  | MPunchInfo PunchInfo
  | MPunchOutcome PunchOutcome
  | MAttempt Attempt
  | MOther

datatype kind = KHello | KPunchInfo | KPunchOutcome | KAttempt | KOther

datatype xerror =
    XCodec codec_error
  | XUnsupported
  | ErrMessageTooLarge nat
  | XIO io_error
  | XPanic
  | XCancelled
  | XRequired negotiate_error
  | XNoSuchMessage

fun kind_of :: "message \<Rightarrow> kind" where
  "kind_of (MHello _) = KHello"
| "kind_of (MPunchInfo _) = KPunchInfo"
| "kind_of (MPunchOutcome _) = KPunchOutcome"
| "kind_of (MAttempt _) = KAttempt"
| "kind_of MOther = KOther"

definition MaxMessageSize :: nat where
  "MaxMessageSize = 256 * 1024"

definition lift_codec :: "codec_error + 'a \<Rightarrow> xerror + 'a" where
  "lift_codec r = (case r of Inl e \<Rightarrow> Inl (XCodec e) | Inr x \<Rightarrow> Inr x)"

fun marshalMessage :: "message \<Rightarrow> xerror + byte list" where
  "marshalMessage (MHello m) = lift_codec (marshalHello m)"
| "marshalMessage (MPunchInfo m) = lift_codec (marshalPunchInfo m)"
| "marshalMessage (MPunchOutcome m) = lift_codec (marshalPunchOutcome m)"
| "marshalMessage (MAttempt m) = lift_codec (marshalAttempt m)"
| "marshalMessage MOther = Inl XUnsupported"

fun unmarshalMessage :: "byte list \<Rightarrow> kind \<Rightarrow> xerror + message" where
  "unmarshalMessage data KHello = lift_codec (map_sum id MHello (unmarshalHello data))"
| "unmarshalMessage data KPunchInfo = lift_codec (map_sum id MPunchInfo (unmarshalPunchInfo data))"
| "unmarshalMessage data KPunchOutcome =
     lift_codec (map_sum id MPunchOutcome (unmarshalPunchOutcome data))"
| "unmarshalMessage data KAttempt = lift_codec (map_sum id MAttempt (unmarshalAttempt data))"
| "unmarshalMessage data KOther = Inl XUnsupported"

section \<open>Frames\<close>

type_synonym 's writer = "'s \<Rightarrow> byte list \<Rightarrow> int \<times> io_error option \<times> 's"

function writeAll :: "'s writer \<Rightarrow> byte list \<Rightarrow> 's \<Rightarrow> xerror option \<times> 's" where
  "writeAll w p s =
     (if p = [] then (None, s)
      else case w s p of (n, err, s') \<Rightarrow>
        (case err of
           Some e \<Rightarrow> (Some (XIO e), s')
         | None \<Rightarrow>
             if n = 0 then (Some (XIO ErrShortWrite), s')
             else if n < 0 \<or> n > int (length p) then (Some XPanic, s')
             else writeAll w (drop (nat n) p) s'))"
  by pat_completeness auto
termination
  by (relation "measure (\<lambda>(w, p, s). length p)") auto

declare writeAll.simps [simp del]

definition encode :: "'s writer \<Rightarrow> message \<Rightarrow> 's \<Rightarrow> xerror option \<times> 's" where
  "encode w msg s =
     (case marshalMessage msg of
        Inl e \<Rightarrow> (Some e, s)
      | Inr payload \<Rightarrow>
          if length payload > MaxMessageSize then (Some (ErrMessageTooLarge (length payload)), s)
          else (case writeAll w (PutUint32 (word_of_nat (length payload))) s of
                  (Some e, s') \<Rightarrow> (Some e, s')
                | (None, s') \<Rightarrow> writeAll w payload s'))"

definition lift_io :: "io_error + 'a \<Rightarrow> xerror + 'a" where
  "lift_io r = (case r of Inl e \<Rightarrow> Inl (XIO e) | Inr x \<Rightarrow> Inr x)"

definition decode :: "kind \<Rightarrow> byte list \<Rightarrow> xerror + (message \<times> byte list)" where
  "decode k inb =
     rbind (lift_io (ReadFull 4 inb)) (\<lambda>(header, inb).
       let size = unat (Uint32 header) in
       if size > MaxMessageSize then Inl (ErrMessageTooLarge size)
       else rbind (lift_io (ReadFull size inb)) (\<lambda>(payload, inb).
            rbind (unmarshalMessage payload k) (\<lambda>m. Inr (m, inb))))"

section \<open>Phases\<close>

definition send :: "bool \<Rightarrow> 's writer \<Rightarrow> message \<Rightarrow> 's \<Rightarrow> xerror + 's" where
  "send cancelled w local s =
     (if cancelled then Inl XCancelled
      else case encode w local s of (Some e, s') \<Rightarrow> Inl e | (None, s') \<Rightarrow> Inr s')"

definition receive :: "bool \<Rightarrow> kind \<Rightarrow> byte list \<Rightarrow> xerror + (message \<times> byte list)" where
  "receive cancelled k inb = (if cancelled then Inl XCancelled else decode k inb)"

definition swap ::
  "bool \<Rightarrow> 's writer \<Rightarrow> message \<Rightarrow> 's \<times> byte list \<Rightarrow> xerror + (message \<times> 's \<times> byte list)" where
  "swap cancelled w local x =
     (if cancelled then Inl XCancelled
      else case encode w local (fst x) of
        (Some e, s') \<Rightarrow> Inl e
      | (None, s') \<Rightarrow> rbind (decode (kind_of local) (snd x)) (\<lambda>(m, inb). Inr (m, s', inb)))"

definition as_hello :: "message \<Rightarrow> xerror + Hello" where
  "as_hello m = (case m of MHello h \<Rightarrow> Inr h | _ \<Rightarrow> Inl XNoSuchMessage)"

definition as_punch_info :: "message \<Rightarrow> xerror + PunchInfo" where
  "as_punch_info m = (case m of MPunchInfo h \<Rightarrow> Inr h | _ \<Rightarrow> Inl XNoSuchMessage)"

definition as_outcome :: "message \<Rightarrow> xerror + PunchOutcome" where
  "as_outcome m = (case m of MPunchOutcome h \<Rightarrow> Inr h | _ \<Rightarrow> Inl XNoSuchMessage)"

definition as_attempt :: "message \<Rightarrow> xerror + Attempt" where
  "as_attempt m = (case m of MAttempt h \<Rightarrow> Inr h | _ \<Rightarrow> Inl XNoSuchMessage)"

definition Negotiate ::
  "bool \<Rightarrow> 's writer \<Rightarrow> Hello \<Rightarrow> 's \<times> byte list \<Rightarrow> xerror + (tier \<times> Hello \<times> 's \<times> byte list)" where
  "Negotiate cancelled w local x =
     rbind (swap cancelled w (MHello local) x) (\<lambda>(m, x').
     rbind (as_hello m) (\<lambda>peer.
       case RequiredCascade local peer of
         Inl e \<Rightarrow> Inl (XRequired e)
       | Inr c \<Rightarrow> Inr (c ! 0, peer, x')))"

definition ExchangePunchInfo ::
  "bool \<Rightarrow> 's writer \<Rightarrow> PunchInfo \<Rightarrow> 's \<times> byte list \<Rightarrow> xerror + (PunchInfo \<times> 's \<times> byte list)" where
  "ExchangePunchInfo cancelled w local x =
     rbind (swap cancelled w (MPunchInfo local) x) (\<lambda>(m, x').
     rbind (as_punch_info m) (\<lambda>peer. Inr (peer, x')))"

definition ExchangePunchOutcome ::
  "bool \<Rightarrow> 's writer \<Rightarrow> bool \<Rightarrow> 's \<times> byte list \<Rightarrow> xerror + (bool \<times> 's \<times> byte list)" where
  "ExchangePunchOutcome cancelled w ok x =
     rbind (swap cancelled w (MPunchOutcome \<lparr>OK = ok\<rparr>) x) (\<lambda>(m, x').
     rbind (as_outcome m) (\<lambda>peer. Inr (ok \<and> OK peer, x')))"

definition SendAttempt :: "bool \<Rightarrow> 's writer \<Rightarrow> Attempt \<Rightarrow> 's \<Rightarrow> xerror + 's" where
  "SendAttempt cancelled w a s = send cancelled w (MAttempt a) s"

definition ReceiveAttempt :: "bool \<Rightarrow> byte list \<Rightarrow> xerror + (Attempt \<times> byte list)" where
  "ReceiveAttempt cancelled inb =
     rbind (receive cancelled KAttempt inb) (\<lambda>(m, inb).
     rbind (as_attempt m) (\<lambda>a. Inr (a, inb)))"

section \<open>The writer contract\<close>

text \<open>\<^verbatim>\<open>io.Writer\<close>: a call reports how many bytes it wrote, never more than it was given, and
  reports an error whenever it wrote fewer. \<open>contents s\<close> is what has reached the stream.\<close>

definition writer_contract :: "'s writer \<Rightarrow> ('s \<Rightarrow> byte list) \<Rightarrow> bool" where
  "writer_contract w contents \<longleftrightarrow>
     (\<forall>s p n e s'. w s p = (n, e, s') \<longrightarrow>
        0 \<le> n \<and> n \<le> int (length p) \<and> (e = None \<longrightarrow> n = int (length p))
        \<and> contents s' = contents s @ take (nat n) p)"

text \<open>A stream with room for everything, the buffering the phases rely on.\<close>

definition buf_write :: "byte list writer" where
  "buf_write s p = (int (length p), None, s @ p)"

section \<open>Lemmas\<close>

lemma buf_write_contract: "writer_contract buf_write id"
  by (auto simp: writer_contract_def buf_write_def)

lemma writeAll_contract:
  assumes "writer_contract w contents"
  shows "writeAll w p s = (None, s') \<Longrightarrow> contents s' = contents s @ p"
proof (cases "p = []")
  case False
  assume "writeAll w p s = (None, s')"
  with False obtain n s1 where w: "w s p = (n, None, s1)" and n: "0 < n" "n \<le> int (length p)"
    and rest: "writeAll w (drop (nat n) p) s1 = (None, s')"
    by (subst (asm) writeAll.simps) (auto split: prod.splits option.splits if_splits)
  from assms w have "n = int (length p)" and c: "contents s1 = contents s @ take (nat n) p"
    by (auto simp: writer_contract_def)
  with rest have "s' = s1" by (simp add: writeAll.simps)
  with c \<open>n = int (length p)\<close> show ?thesis by simp
qed (simp add: writeAll.simps)

lemma writeAll_buf [simp]: "writeAll buf_write p s = (None, s @ p)"
  by (cases "p = []") (simp_all add: writeAll.simps buf_write_def)

lemma lift_codec_Inr [simp]: "lift_codec r = Inr x \<longleftrightarrow> r = Inr x"
  by (simp add: lift_codec_def split: sum.splits)

lemma lift_io_Inr [simp]: "lift_io r = Inr x \<longleftrightarrow> r = Inr x"
  by (simp add: lift_io_def split: sum.splits)

lemma map_sum_Inr [simp]: "map_sum id f r = Inr y \<longleftrightarrow> (\<exists>x. r = Inr x \<and> y = f x)"
  by (cases r) auto

definition wf_message :: "message \<Rightarrow> bool" where
  "wf_message m = (case m of MHello h \<Rightarrow> wf_hello h | MOther \<Rightarrow> False | _ \<Rightarrow> True)"

lemma unmarshal_marshal_message:
  "wf_message m \<Longrightarrow> marshalMessage m = Inr p \<Longrightarrow> unmarshalMessage p (kind_of m) = Inr m"
  by (cases m) (auto simp: wf_message_def hello.unmarshal_iff punch_info.unmarshal_iff
      attempt.unmarshal_iff outcome.unmarshal_iff)

lemma unmarshal_kind: "unmarshalMessage p k = Inr m \<Longrightarrow> kind_of m = k \<and> wf_message m"
  by (cases k) (auto simp: wf_message_def hello.unmarshal_iff)

definition frame_of :: "byte list \<Rightarrow> byte list" where
  "frame_of payload = PutUint32 (word_of_nat (length payload)) @ payload"

lemma decode_frame:
  assumes "unmarshalMessage payload k = Inr m" "length payload \<le> MaxMessageSize"
  shows "decode k (frame_of payload @ rest) = Inr (m, rest)"
proof -
  have "unat (word_of_nat (length payload) :: u32) = length payload"
    using assms(2) by (simp add: unat_of_nat MaxMessageSize_def)
  moreover have "ReadFull 4 (PutUint32 v @ xs) = Inr (PutUint32 v, xs)" for v xs
    by (simp add: ReadFull_append)
  ultimately show ?thesis
    using assms by (simp add: decode_def frame_of_def lift_io_def ReadFull_append)
qed

lemma encode_None:
  assumes "writer_contract w contents" "encode w m s = (None, s')"
  obtains payload where "marshalMessage m = Inr payload" "length payload \<le> MaxMessageSize"
    "contents s' = contents s @ frame_of payload"
  using assms(2) writeAll_contract [OF assms(1)] that
  by (force simp: encode_def frame_of_def split: sum.splits if_splits option.splits prod.splits)

lemma encode_buf:
  "marshalMessage m = Inr payload \<Longrightarrow> length payload \<le> MaxMessageSize \<Longrightarrow>
   encode buf_write m s = (None, s @ frame_of payload)"
  by (simp add: encode_def frame_of_def)

lemma marshal_hello_fits:
  "wf_hello h \<Longrightarrow> marshalHello h = Inr p \<Longrightarrow> length p \<le> MaxMessageSize"
  using hello_layout_length [of h p] by (simp add: marshalHello_layout MaxMessageSize_def)

lemma decode_Inr_frame:
  assumes "decode k inb = Inr (m, rest)"
  obtains payload where "inb = frame_of payload @ rest" "length payload \<le> MaxMessageSize"
    "unmarshalMessage payload k = Inr m"
proof -
  from assms obtain header inb' payload where
    h: "ReadFull 4 inb = Inr (header, inb')"
    and sz: "unat (Uint32 header) \<le> MaxMessageSize"
    and pl: "ReadFull (unat (Uint32 header)) inb' = Inr (payload, rest)"
    and u: "unmarshalMessage payload k = Inr m"
    by (auto simp: decode_def rbind_eq_Inr Let_def split: if_splits)
  from h have 1: "inb = header @ inb'" "length header = 4" by (auto dest: ReadFull_Inr)
  from pl have 2: "inb' = payload @ rest" "length payload = unat (Uint32 header)"
    by (auto dest: ReadFull_Inr)
  have "frame_of payload = header @ payload"
    using 1(2) 2(2) by (simp add: frame_of_def PutUint32_Uint32_list)
  with 1 2 sz u show thesis by (intro that [of payload]) simp_all
qed

lemma marshalMessage_unmarshal:
  "unmarshalMessage p k = Inr m \<Longrightarrow> marshalMessage m = Inr p"
  by (cases k) (auto simp: hello.unmarshal_iff punch_info.unmarshal_iff attempt.unmarshal_iff
      outcome.unmarshal_iff)

lemma Negotiate_reads:
  assumes "wf_hello l" "wf_hello p" "marshalHello l = Inr lp" "marshalHello p = Inr pp"
  shows "Negotiate False buf_write l (out, frame_of pp @ rest) =
     (case RequiredCascade l p of
        Inl e \<Rightarrow> Inl (XRequired e)
      | Inr c \<Rightarrow> Inr (c ! 0, p, out @ frame_of lp, rest))"
proof -
  have e: "encode buf_write (MHello l) out = (None, out @ frame_of lp)"
    using assms marshal_hello_fits by (intro encode_buf) auto
  have "unmarshalMessage pp KHello = Inr (MHello p)"
    using assms by (auto simp: hello.unmarshal_iff)
  then have d: "decode KHello (frame_of pp @ rest) = Inr (MHello p, rest)"
    using assms marshal_hello_fits by (intro decode_frame) auto
  show ?thesis
    by (simp add: Negotiate_def swap_def e d as_hello_def split: sum.splits)
qed

section \<open>Properties\<close>

text \<open>Frames are exact and bounded. \<^verbatim>\<open>decode\<close> returns a message and leaves \<open>rest\<close> on the stream
  if and only if the stream starts with the length-prefixed encoding of that very message, of the
  expected type and of at most \<^verbatim>\<open>MaxMessageSize\<close> bytes: it never takes bytes that belong to the
  next message and never allocates more than the bound.\<close>

theorem decode_exact:
  "decode k inb = Inr (m, rest) \<longleftrightarrow>
   (\<exists>payload. inb = frame_of payload @ rest \<and> length payload \<le> MaxMessageSize
      \<and> marshalMessage m = Inr payload \<and> kind_of m = k \<and> wf_message m)"
proof
  assume "decode k inb = Inr (m, rest)"
  then obtain payload where "inb = frame_of payload @ rest" "length payload \<le> MaxMessageSize"
    and u: "unmarshalMessage payload k = Inr m"
    by (rule decode_Inr_frame)
  with u show "\<exists>payload. inb = frame_of payload @ rest \<and> length payload \<le> MaxMessageSize
      \<and> marshalMessage m = Inr payload \<and> kind_of m = k \<and> wf_message m"
    using marshalMessage_unmarshal unmarshal_kind by blast
next
  assume "\<exists>payload. inb = frame_of payload @ rest \<and> length payload \<le> MaxMessageSize
      \<and> marshalMessage m = Inr payload \<and> kind_of m = k \<and> wf_message m"
  then show "decode k inb = Inr (m, rest)"
    using unmarshal_marshal_message decode_frame by blast
qed

text \<open>Over any stream whose \<^verbatim>\<open>Write\<close> keeps the \<^verbatim>\<open>io.Writer\<close> contract, a message whose
  \<^verbatim>\<open>encode\<close> reported success is exactly the message the peer's \<^verbatim>\<open>decode\<close> returns, whatever
  follows it on the stream.\<close>

theorem encode_then_decode:
  assumes "writer_contract w contents" and "wf_message m" and "encode w m s = (None, s')"
  shows "\<exists>frame. contents s' = contents s @ frame
     \<and> (\<forall>rest. decode (kind_of m) (frame @ rest) = Inr (m, rest))"
proof -
  from assms(1,3) obtain payload where "marshalMessage m = Inr payload"
      "length payload \<le> MaxMessageSize" "contents s' = contents s @ frame_of payload"
    by (rule encode_None)
  then show ?thesis
    using assms(2) decode_frame unmarshal_marshal_message by blast
qed

theorem encode_then_decode_witness:
  "writer_contract buf_write id
   \<and> encode buf_write (MAttempt \<lparr>ATier = TierQUIC, Commit = True\<rparr>) []
      = (None, [0, 0, 0, 8, 1, 0, 4, 113, 117, 105, 99, 1])
   \<and> (\<exists>frame. [0, 0, 0, 8, 1, 0, 4, 113, 117, 105, 99, 1] = [] @ frame
        \<and> (\<forall>rest. decode KAttempt (frame @ rest)
               = Inr (MAttempt \<lparr>ATier = TierQUIC, Commit = True\<rparr>, rest)))"
proof -
  let ?m = "MAttempt \<lparr>ATier = TierQUIC, Commit = True\<rparr>"
  have e: "encode buf_write ?m [] = (None, [0, 0, 0, 8, 1, 0, 4, 113, 117, 105, 99, 1])"
    by (simp add: encode_def lift_codec_def marshalAttempt_def appendString_def maxTierNameLen_def
        TierQUIC_def codecVersion_def PutUint16_def PutUint32_def str_bytes_def MaxMessageSize_def)
  have w: "wf_message ?m" by (simp add: wf_message_def)
  show ?thesis
    using encode_then_decode [OF buf_write_contract w e] e buf_write_contract by simp
qed

text \<open>C13: the Hello exchange end to end. When each peer reads the bytes the other one wrote, both
  \<^verbatim>\<open>Negotiate\<close> calls return, each side holds exactly the other's Hello, both report the same
  resolved tier, and neither consumes bytes of the next phase; or both refuse the session.\<close>

theorem Negotiate_both_sides:
  assumes "wf_hello a" and "wf_hello b" and "marshalHello a = Inr pa" and "marshalHello b = Inr pb"
  shows "(\<exists>t. Negotiate False buf_write a ([], frame_of pb @ ra) = Inr (t, b, frame_of pa, ra)
            \<and> Negotiate False buf_write b ([], frame_of pa @ rb) = Inr (t, a, frame_of pb, rb))
     \<or> (\<exists>e e'. Negotiate False buf_write a ([], frame_of pb @ ra) = Inl (XRequired e)
            \<and> Negotiate False buf_write b ([], frame_of pa @ rb) = Inl (XRequired e'))"
proof (cases "RequiredCascade a b")
  case (Inl e)
  then obtain e' where "RequiredCascade b a = Inl e'"
    by (metis RequiredCascade_flip_Inr sum.exhaust sum.distinct(1))
  with Inl show ?thesis
    using Negotiate_reads [OF assms] Negotiate_reads [OF assms(2,1,4,3)] by simp
next
  case (Inr c)
  then show ?thesis
    using Negotiate_reads [OF assms, of "[]" ra] Negotiate_reads [OF assms(2,1,4,3), of "[]" rb]
      RequiredCascade_flip_Inr [OF Inr] by simp
qed

theorem Negotiate_both_sides_witness:
  "let h = \<lparr>SupportedTiers = [TierLibp2p], WireGuardPubKey = zero_key, RequiredTier = '''',
            PunchProbe = False, PunchAttempts = 2\<rparr>
   in \<exists>p. wf_hello h \<and> marshalHello h = Inr p
     \<and> ((\<exists>t. Negotiate False buf_write h ([], frame_of p @ []) = Inr (t, h, frame_of p, [])
            \<and> Negotiate False buf_write h ([], frame_of p @ []) = Inr (t, h, frame_of p, []))
       \<or> (\<exists>e e'. Negotiate False buf_write h ([], frame_of p @ []) = Inl (XRequired e)
            \<and> Negotiate False buf_write h ([], frame_of p @ []) = Inl (XRequired e')))"
proof -
  let ?h = "\<lparr>SupportedTiers = [TierLibp2p], WireGuardPubKey = zero_key, RequiredTier = '''',
            PunchProbe = False, PunchAttempts = 2\<rparr>"
  have wf: "wf_hello ?h" by (simp add: wf_hello_def zero_key_def)
  obtain p where m: "marshalHello ?h = Inr p"
    by (auto simp: marshalHello_layout hello_layout_def cascade_def codec_consts TierLibp2p_def)
  show ?thesis
    using Negotiate_both_sides [OF wf wf m m, of "[]" "[]"] wf m by (auto simp: Let_def)
qed

text \<open>The field limits of the codec do not imply the frame limit: 64 candidates of the maximum
  length marshal without an error, and \<^verbatim>\<open>encode\<close> then refuses the message as too large and writes
  nothing.\<close>

theorem PunchInfo_within_field_limits_too_large:
  "\<exists>i p. marshalPunchInfo i = Inr p \<and> length p = 262279
     \<and> encode w (MPunchInfo i) s = (Some (ErrMessageTooLarge 262279), s)"
proof -
  let ?i = "\<lparr>ICEUfrag = [], ICEPwd = [], ICECandidates = replicate 64 (replicate 4096 CHR ''a''),
            QUICCertFingerprint = []\<rparr>"
  obtain p where l: "punch_info_layout ?i p"
    by (auto simp: punch_info_layout_def codec_consts)
  have len: "length p = 262279"
    using l by (simp add: punch_info_layout_def length_enc_str length_concat sum_list_replicate
        comp_def)
  have m: "marshalPunchInfo ?i = Inr p" using l by (simp add: marshalPunchInfo_layout)
  then have "encode w (MPunchInfo ?i) s = (Some (ErrMessageTooLarge 262279), s)"
    by (simp add: encode_def lift_codec_def len MaxMessageSize_def)
  with m len show ?thesis by blast
qed

end
