(* ===== verification/Gomap.thy ===== *)
theory Gomap
  imports Prelude "HOL-Library.AList"
begin

text \<open>
  Go maps. A map is an association list with distinct keys: \<open>map_of\<close> reads it, \<open>AList.update\<close> and
  \<open>AList.delete\<close> write it, \<open>length\<close> is \<^verbatim>\<open>len\<close>, and a \<^verbatim>\<open>range\<close> loop visits the list in its order.
  Go leaves that order unspecified, so no theorem assumes anything about it: the statements hold
  for every list, hence for every order the runtime may pick. The locale \<open>go_map\<close> is the interface
  the components use, with the bookkeeping every bounded table of the program relies on.
\<close>

type_synonym ('k, 'v) gomap = "('k \<times> 'v) list"

abbreviation wf_gomap :: "('k, 'v) gomap \<Rightarrow> bool" where
  "wf_gomap m \<equiv> distinct (map fst m)"

locale go_map =
  fixes get :: "'m \<Rightarrow> 'k \<Rightarrow> 'v option"
    and put :: "'k \<Rightarrow> 'v \<Rightarrow> 'm \<Rightarrow> 'm"
    and del :: "'k \<Rightarrow> 'm \<Rightarrow> 'm"
    and len :: "'m \<Rightarrow> nat"
    and ok :: "'m \<Rightarrow> bool"
  assumes get_put: "get (put k v m) j = (if j = k then Some v else get m j)"
    and get_del: "get (del k m) j = (if j = k then None else get m j)"
    and ok_put: "ok m \<Longrightarrow> ok (put k v m)"
    and ok_del: "ok m \<Longrightarrow> ok (del k m)"
    and len_put: "len (put k v m) = (if get m k = None then Suc (len m) else len m)"
    and len_del: "ok m \<Longrightarrow> len (del k m) = (if get m k = None then len m else len m - 1)"
    and len_pos: "get m k \<noteq> None \<Longrightarrow> 0 < len m"
begin

lemma len_put_le: "len (put k v m) \<le> Suc (len m)"
  by (simp add: len_put)

lemma len_del_le: "ok m \<Longrightarrow> len (del k m) \<le> len m"
  by (simp add: len_del)

text \<open>A table that is capped before each insertion stays capped.\<close>

lemma len_put_cap: "len m < c \<or> (get m k \<noteq> None \<and> len m \<le> c) \<Longrightarrow> len (put k v m) \<le> c"
  by (auto simp: len_put)

text \<open>Deleting some present key makes room for one insertion.\<close>

lemma len_evict_put:
  assumes "ok m" "get m j \<noteq> None" "len m \<le> c"
  shows "len (put k v (del j m)) \<le> c"
  using assms len_pos [of m j] by (auto simp: len_put len_del)

end

lemma fst_set_delete: "wf_gomap m \<Longrightarrow> length (AList.delete k m) = (if map_of m k = None then length m else length m - 1)"
proof -
  assume d: "wf_gomap m"
  have "length (AList.delete k m) = length (removeAll k (map fst m))"
    by (metis AList.delete_keys length_map)
  also have "\<dots> = length (remove1 k (map fst m))"
    using d by (simp add: distinct_remove1_removeAll)
  finally show ?thesis by (simp add: length_remove1 map_of_eq_None_iff)
qed

lemma length_update: "length (AList.update k v m) = (if map_of m k = None then Suc (length m) else length m)"
  by (induction m) auto

interpretation gm: go_map map_of AList.update AList.delete length wf_gomap
proof
  fix m :: "('a, 'b) gomap" and k j v
  show "map_of (AList.update k v m) j = (if j = k then Some v else map_of m j)"
    by (simp add: update_conv')
  show "map_of (AList.delete k m) j = (if j = k then None else map_of m j)"
    by (simp add: delete_conv')
  show "wf_gomap m \<Longrightarrow> wf_gomap (AList.update k v m)" by (rule distinct_update)
  show "wf_gomap m \<Longrightarrow> wf_gomap (AList.delete k m)" by (rule distinct_delete)
  show "length (AList.update k v m) = (if map_of m k = None then Suc (length m) else length m)"
    by (rule length_update)
  show "wf_gomap m \<Longrightarrow> length (AList.delete k m) = (if map_of m k = None then length m else length m - 1)"
    by (rule fst_set_delete)
  show "map_of m k \<noteq> None \<Longrightarrow> 0 < length m" by auto
qed

section \<open>Contents and totals\<close>

lemma set_AList_delete: "set (AList.delete k m) = {x \<in> set m. fst x \<noteq> k}"
  by (induction m) auto

lemma set_AList_update: "wf_gomap m \<Longrightarrow> set (AList.update k v m) = insert (k, v) {x \<in> set m. fst x \<noteq> k}"
  by (induction m) (auto simp: image_iff)

text \<open>The sum of a quantity over a table, as the program keeps it in a running counter.\<close>

definition table_sum :: "('v \<Rightarrow> int) \<Rightarrow> ('k, 'v) gomap \<Rightarrow> int" where
  "table_sum f m = (\<Sum>x\<leftarrow>m. f (snd x))"

lemma table_sum_Nil [simp]: "table_sum f [] = 0"
  by (simp add: table_sum_def)

lemma table_sum_Cons [simp]: "table_sum f (x # m) = f (snd x) + table_sum f m"
  by (simp add: table_sum_def)

lemma table_sum_delete:
  "wf_gomap m \<Longrightarrow> map_of m k = Some v \<Longrightarrow> table_sum f (AList.delete k m) = table_sum f m - f v"
  by (induction m) (auto split: if_splits)

lemma table_sum_update:
  "wf_gomap m \<Longrightarrow> table_sum f (AList.update k v m) =
     table_sum f m + f v - (case map_of m k of None \<Rightarrow> 0 | Some u \<Rightarrow> f u)"
  by (induction m) (auto split: option.splits)

lemma table_sum_nonneg: "\<forall>x \<in> set m. 0 \<le> f (snd x) \<Longrightarrow> 0 \<le> table_sum f m"
  by (induction m) auto

end
