(* ===== verification/Fragment.thy ===== *)
theory Fragment
  imports Gomap
begin

text \<open>
  The datagram codec of \<^verbatim>\<open>internal/quictun/fragment.go\<close>: \<open>Send\<close> cuts a mux message into
  fragments that fit a QUIC DATAGRAM, \<open>accept\<close> puts them back together from whatever arrives, in
  whatever order, within bounds the peer cannot exceed. The QUIC connection underneath is the
  parameter \<open>xmit\<close> (what \<^verbatim>\<open>SendDatagram\<close> answers for a fragment). The table of partial messages
  is a Go map; \<^verbatim>\<open>remove\<close>'s pointer comparison becomes a comparison with the value stored, which is
  the same thing here because every caller has just read it under the same lock.

  Go's \<^verbatim>\<open>int\<close> has 64 bits, so none of the sums below can overflow; they are HOL integers.
\<close>

section \<open>Constants and state\<close>

definition datagramMagic :: u16 where "datagramMagic = 0x4d54"
definition datagramVersion :: byte where "datagramVersion = 1"
definition datagramHeaderSize :: nat where "datagramHeaderSize = 16"
definition datagramFragmentPayload :: int where "datagramFragmentPayload = 1000"
definition maxUDPDatagram :: int where "maxUDPDatagram = 2 + 65535"
definition flowmuxHeader :: int where "flowmuxHeader = 5"
definition maxDatagramMessage :: int where "maxDatagramMessage = flowmuxHeader + maxUDPDatagram"
definition maxPartialMessages :: nat where "maxPartialMessages = 128"
definition maxPartialBytes :: int where "maxPartialBytes = 4 * maxDatagramMessage"
definition partialTTL :: duration where "partialTTL = 30 * second"

lemmas fragment_consts = datagramFragmentPayload_def maxUDPDatagram_def flowmuxHeader_def
  maxDatagramMessage_def maxPartialMessages_def maxPartialBytes_def partialTTL_def second_def
  datagramHeaderSize_def

record partialDatagram =
  created :: gtime
  total :: int
  parts :: "byte list option list"
  received :: nat

record datagramCodec =
  nextID :: u32
  partial :: "(u32, partialDatagram) gomap"
  reserved :: int
  cclosed :: bool

datatype send_error = ErrDatagramTooLarge | ErrSend nat

definition newDatagramCodec :: datagramCodec where
  "newDatagramCodec = \<lparr>nextID = 0, partial = [], reserved = 0, cclosed = False\<rparr>"

section \<open>Sending\<close>

definition writeDatagramHeader :: "u32 \<Rightarrow> nat \<Rightarrow> nat \<Rightarrow> nat \<Rightarrow> byte list" where
  "writeDatagramHeader fid index count tot =
     PutUint16 datagramMagic @ [datagramVersion, 0] @ PutUint32 fid
     @ PutUint16 (word_of_nat index) @ PutUint16 (word_of_nat count) @ PutUint32 (word_of_nat tot)"

definition fragmentCount :: "int \<Rightarrow> int" where
  "fragmentCount tot =
     (let count = (tot + datagramFragmentPayload - 1) div datagramFragmentPayload
      in if count = 0 then 1 else count)"

definition fragment_at :: "u32 \<Rightarrow> byte list \<Rightarrow> nat \<Rightarrow> byte list" where
  "fragment_at fid message index =
     (let start = index * nat datagramFragmentPayload;
          end' = min (start + nat datagramFragmentPayload) (length message)
      in writeDatagramHeader fid index (nat (fragmentCount (int (length message)))) (length message)
         @ take (end' - start) (drop start message))"

fun send_fragments ::
  "(byte list \<Rightarrow> send_error option) \<Rightarrow> u32 \<Rightarrow> byte list \<Rightarrow> nat list \<Rightarrow> send_error option \<times> byte list list" where
  "send_fragments xmit fid message [] = (None, [])"
| "send_fragments xmit fid message (index # is) =
     (let fragment = fragment_at fid message index in
      case xmit fragment of
        Some err \<Rightarrow> (Some err, [fragment])
      | None \<Rightarrow> (case send_fragments xmit fid message is of (e, fs) \<Rightarrow> (e, fragment # fs)))"

text \<open>\<open>Send\<close> returns the error, the fragments handed to the connection and the new codec.\<close>

definition codec_Send ::
  "(byte list \<Rightarrow> send_error option) \<Rightarrow> byte list \<Rightarrow> datagramCodec
     \<Rightarrow> send_error option \<times> byte list list \<times> datagramCodec" where
  "codec_Send xmit message c =
     (if int (length message) > maxDatagramMessage then (Some ErrDatagramTooLarge, [], c)
      else let count = fragmentCount (int (length message));
               c' = c\<lparr>nextID := nextID c + 1\<rparr>
           in case send_fragments xmit (nextID c') message [0..<nat count] of
                (e, fs) \<Rightarrow> (e, fs, c'))"

section \<open>Receiving\<close>

definition validFragment :: "int \<Rightarrow> int \<Rightarrow> int \<Rightarrow> int \<Rightarrow> bool" where
  "validFragment index count tot payloadLen =
     (if tot < 0 \<or> tot > maxDatagramMessage \<or> count < 1 \<or> index < 0 \<or> index \<ge> count then False
      else if count \<noteq> fragmentCount tot then False
      else let start = index * datagramFragmentPayload;
               end' = min (start + datagramFragmentPayload) tot
           in payloadLen = end' - start)"

definition codec_remove :: "u32 \<Rightarrow> partialDatagram \<Rightarrow> datagramCodec \<Rightarrow> datagramCodec" where
  "codec_remove fid p c =
     (if map_of (partial c) fid \<noteq> Some p then c
      else c\<lparr>partial := AList.delete fid (partial c), reserved := reserved c - total p\<rparr>)"

fun codec_dropExpired_loop :: "gtime \<Rightarrow> (u32 \<times> partialDatagram) list \<Rightarrow> datagramCodec \<Rightarrow> datagramCodec" where
  "codec_dropExpired_loop now [] c = c"
| "codec_dropExpired_loop now ((fid, p) # xs) c =
     codec_dropExpired_loop now xs (if now - created p \<ge> partialTTL then codec_remove fid p c else c)"

definition codec_dropExpired :: "gtime \<Rightarrow> datagramCodec \<Rightarrow> datagramCodec" where
  "codec_dropExpired now c = codec_dropExpired_loop now (partial c) c"

text \<open>The inner loop of \<open>reserve\<close>: the entry created first, in iteration order on a tie.\<close>

fun oldest_of :: "(u32 \<times> partialDatagram) option \<Rightarrow> (u32 \<times> partialDatagram) list
    \<Rightarrow> (u32 \<times> partialDatagram) option" where
  "oldest_of best [] = best"
| "oldest_of best ((fid, p) # xs) =
     oldest_of (case best of
                  None \<Rightarrow> Some (fid, p)
                | Some (bid, b) \<Rightarrow> if created p < created b then Some (fid, p) else Some (bid, b)) xs"

text \<open>The outer loop removes one entry per round, so as many rounds as there are entries always
  suffice; \<open>reserve_enough\<close> below shows that the loop condition is false afterwards.\<close>

fun codec_reserve_loop :: "nat \<Rightarrow> int \<Rightarrow> datagramCodec \<Rightarrow> datagramCodec" where
  "codec_reserve_loop 0 need c = c"
| "codec_reserve_loop (Suc n) need c =
     (if (length (partial c) \<ge> maxPartialMessages \<or> reserved c + need > maxPartialBytes)
          \<and> length (partial c) > 0
      then case oldest_of None (partial c) of
             None \<Rightarrow> c
           | Some (oldestID, oldest) \<Rightarrow> codec_reserve_loop n need (codec_remove oldestID oldest c)
      else c)"

definition codec_reserve :: "int \<Rightarrow> datagramCodec \<Rightarrow> datagramCodec" where
  "codec_reserve need c = codec_reserve_loop (length (partial c)) need c"

text \<open>\<^verbatim>\<open>append([]byte(nil), payload...)\<close> is nil for an empty payload.\<close>

definition copy_part :: "byte list \<Rightarrow> byte list option" where
  "copy_part payload = (if payload = [] then None else Some payload)"

definition join_parts :: "byte list option list \<Rightarrow> byte list" where
  "join_parts ps = concat (map (\<lambda>q. case q of None \<Rightarrow> [] | Some b \<Rightarrow> b) ps)"

definition store_part ::
  "u32 \<Rightarrow> nat \<Rightarrow> byte list \<Rightarrow> partialDatagram \<Rightarrow> datagramCodec \<Rightarrow> byte list option \<times> datagramCodec" where
  "store_part fid index payload p c =
     (if parts p ! index \<noteq> None then (None, c)
      else let p' = p\<lparr>parts := (parts p)[index := copy_part payload], received := received p + 1\<rparr>;
               c' = c\<lparr>partial := AList.update fid p' (partial c)\<rparr>
           in if received p' \<noteq> length (parts p') then (None, c')
              else (Some (join_parts (parts p')), codec_remove fid p' c'))"

definition codec_accept :: "byte list \<Rightarrow> gtime \<Rightarrow> datagramCodec \<Rightarrow> byte list option \<times> datagramCodec" where
  "codec_accept fragment now c =
     (if length fragment < datagramHeaderSize then (None, c)
      else if Uint16 (take 2 fragment) \<noteq> datagramMagic \<or> fragment ! 2 \<noteq> datagramVersion
      then (None, c)
      else let fid = Uint32 (take 4 (drop 4 fragment));
               index = int (unat (Uint16 (take 2 (drop 8 fragment))));
               count = int (unat (Uint16 (take 2 (drop 10 fragment))));
               tot = int (unat (Uint32 (take 4 (drop 12 fragment))));
               payload = drop datagramHeaderSize fragment
           in if \<not> validFragment index count tot (int (length payload)) then (None, c)
              else if cclosed c then (None, c)
              else let c = codec_dropExpired now c in
                case map_of (partial c) fid of
                  None \<Rightarrow>
                    let c = codec_reserve tot c in
                    if length (partial c) \<ge> maxPartialMessages
                        \<or> reserved c + tot > maxPartialBytes then (None, c)
                    else let p = \<lparr>created = now, total = tot,
                                  parts = replicate (nat count) None, received = 0\<rparr>;
                             c = c\<lparr>partial := AList.update fid p (partial c),
                                   reserved := reserved c + tot\<rparr>
                         in store_part fid (nat index) payload p c
                | Some p \<Rightarrow>
                    if total p \<noteq> tot \<or> int (length (parts p)) \<noteq> count
                    then (None, c)
                    else store_part fid (nat index) payload p c)"

text \<open>\<open>Recv\<close> loops until a message is complete or the connection fails; here it runs over the
  fragments the connection delivers before its error.\<close>

fun codec_Recv :: "(byte list \<times> gtime) list \<Rightarrow> 'e \<Rightarrow> datagramCodec
    \<Rightarrow> ('e + byte list) \<times> (byte list \<times> gtime) list \<times> datagramCodec" where
  "codec_Recv [] err c = (Inl err, [], c)"
| "codec_Recv ((fragment, now) # fs) err c =
     (case codec_accept fragment now c of
        (Some message, c') \<Rightarrow> (Inr message, fs, c')
      | (None, c') \<Rightarrow> codec_Recv fs err c')"

definition codec_Close :: "datagramCodec \<Rightarrow> datagramCodec" where
  "codec_Close c = c\<lparr>cclosed := True, partial := [], reserved := 0\<rparr>"

section \<open>The invariant of the reassembler\<close>

definition part_len :: "int \<Rightarrow> int \<Rightarrow> int" where
  "part_len tot index = min (index * datagramFragmentPayload + datagramFragmentPayload) tot
     - index * datagramFragmentPayload"

definition wf_part :: "partialDatagram \<Rightarrow> bool" where
  "wf_part p \<longleftrightarrow>
     0 \<le> total p \<and> total p \<le> maxDatagramMessage
     \<and> int (length (parts p)) = fragmentCount (total p)
     \<and> received p = length (filter (\<lambda>q. q \<noteq> None) (parts p))
     \<and> received p < length (parts p)
     \<and> (\<forall>i < length (parts p). \<forall>b. parts p ! i = Some b \<longrightarrow> int (length b) = part_len (total p) (int i))"

definition wf_table :: "datagramCodec \<Rightarrow> bool" where
  "wf_table c \<longleftrightarrow>
     wf_gomap (partial c) \<and> reserved c = table_sum total (partial c)
     \<and> (\<forall>x \<in> set (partial c). wf_part (snd x))"

definition wf_codec :: "datagramCodec \<Rightarrow> bool" where
  "wf_codec c \<longleftrightarrow>
     wf_table c \<and> length (partial c) \<le> maxPartialMessages \<and> reserved c \<le> maxPartialBytes"

lemma wf_table_reserved_nonneg: "wf_table c \<Longrightarrow> 0 \<le> reserved c"
  by (auto simp: wf_table_def wf_part_def intro!: table_sum_nonneg)

lemma wf_table_lookup: "wf_table c \<Longrightarrow> map_of (partial c) k = Some p \<Longrightarrow> wf_part p"
  by (fastforce simp: wf_table_def dest: map_of_SomeD)

lemma codec_remove_wf_table: "wf_table c \<Longrightarrow> wf_table (codec_remove k p c)"
  by (auto simp: codec_remove_def wf_table_def table_sum_delete set_AList_delete gm.ok_del)

lemma codec_remove_shrinks:
  assumes "wf_table c"
  shows "length (partial (codec_remove k p c)) \<le> length (partial c)"
    and "reserved (codec_remove k p c) \<le> reserved c"
proof -
  show "length (partial (codec_remove k p c)) \<le> length (partial c)"
    using assms by (simp add: codec_remove_def wf_table_def gm.len_del_le)
  show "reserved (codec_remove k p c) \<le> reserved c"
    using assms wf_table_lookup [OF assms, of k p] by (auto simp: codec_remove_def wf_part_def)
qed

lemma codec_remove_frame [frame_simps]:
  "nextID (codec_remove k p c) = nextID c" "cclosed (codec_remove k p c) = cclosed c"
  by (simp_all add: codec_remove_def)

lemma dropExpired_loop_wf:
  "wf_table c \<Longrightarrow> wf_table (codec_dropExpired_loop now xs c)
     \<and> length (partial (codec_dropExpired_loop now xs c)) \<le> length (partial c)
     \<and> reserved (codec_dropExpired_loop now xs c) \<le> reserved c"
proof (induction now xs c rule: codec_dropExpired_loop.induct)
  case (2 now k p xs c)
  let ?c = "if now - created p \<ge> partialTTL then codec_remove k p c else c"
  have "wf_table ?c" "length (partial ?c) \<le> length (partial c)" "reserved ?c \<le> reserved c"
    using 2(2) by (auto simp: codec_remove_wf_table codec_remove_shrinks)
  with "2.IH" show ?case by fastforce
qed simp

lemma codec_dropExpired_wf: "wf_codec c \<Longrightarrow> wf_codec (codec_dropExpired now c)"
  using dropExpired_loop_wf [of c now "partial c"]
  by (auto simp: wf_codec_def codec_dropExpired_def)

lemma oldest_of_mem:
  "oldest_of best xs = Some (k, p) \<Longrightarrow> best = Some (k, p) \<or> (k, p) \<in> set xs"
  by (induction best xs rule: oldest_of.induct) (fastforce split: option.splits if_splits)+

lemma oldest_of_None: "oldest_of best xs = None \<longleftrightarrow> best = None \<and> xs = []"
  by (induction best xs rule: oldest_of.induct) (auto split: option.splits)

definition room_for :: "int \<Rightarrow> datagramCodec \<Rightarrow> bool" where
  "room_for need c \<longleftrightarrow> length (partial c) < maxPartialMessages \<and> reserved c + need \<le> maxPartialBytes"

lemma codec_remove_length:
  "wf_table c \<Longrightarrow> (k, p) \<in> set (partial c) \<Longrightarrow>
   length (partial (codec_remove k p c)) = length (partial c) - 1"
  by (simp add: codec_remove_def wf_table_def gm.len_del)

lemma reserve_loop_wf:
  "wf_table c \<Longrightarrow> length (partial c) \<le> n \<Longrightarrow> need \<le> maxPartialBytes \<Longrightarrow>
   wf_table (codec_reserve_loop n need c) \<and> room_for need (codec_reserve_loop n need c)"
proof (induction n arbitrary: c)
  case 0
  then show ?case by (simp add: room_for_def wf_table_def maxPartialMessages_def)
next
  case (Suc n)
  show ?case
  proof (cases "length (partial c) > 0")
    case False
    with Suc.prems show ?thesis by (simp add: room_for_def wf_table_def maxPartialMessages_def)
  next
    case True
    then obtain k p where kp: "oldest_of None (partial c) = Some (k, p)"
      by (cases "oldest_of None (partial c)") (auto simp: oldest_of_None)
    then have "(k, p) \<in> set (partial c)" by (auto dest: oldest_of_mem)
    then have "length (partial (codec_remove k p c)) \<le> n"
      using Suc.prems True by (simp add: codec_remove_length)
    with Suc.IH [of "codec_remove k p c"] Suc.prems kp True show ?thesis
      by (auto simp: codec_remove_wf_table room_for_def)
  qed
qed

lemma reserve_enough:
  "wf_table c \<Longrightarrow> need \<le> maxPartialBytes \<Longrightarrow>
   wf_table (codec_reserve need c) \<and> room_for need (codec_reserve need c)"
  by (simp add: codec_reserve_def reserve_loop_wf)

section \<open>Fragment arithmetic\<close>

lemma fragmentCount_pos: "0 \<le> tot \<Longrightarrow> 1 \<le> fragmentCount tot"
  by (simp add: fragmentCount_def Let_def fragment_consts) linarith

lemma fragmentCount_index:
  assumes "0 < tot" "0 \<le> i"
  shows "i < fragmentCount tot \<longleftrightarrow> i * 1000 < tot"
proof -
  have "fragmentCount tot = (tot + 999) div 1000"
    using assms(1) by (simp add: fragmentCount_def Let_def fragment_consts) linarith
  then show ?thesis using assms by linarith
qed

lemma part_len_pos: "0 < tot \<Longrightarrow> 0 \<le> i \<Longrightarrow> i < fragmentCount tot \<Longrightarrow> 0 < part_len tot i"
  by (simp add: fragmentCount_index part_len_def fragment_consts)

lemma validFragment_iff:
  "validFragment index count tot plen \<longleftrightarrow>
     0 \<le> tot \<and> tot \<le> maxDatagramMessage \<and> 0 \<le> index \<and> index < count
     \<and> count = fragmentCount tot \<and> plen = part_len tot index"
  using fragmentCount_pos [of tot]
  by (auto simp: validFragment_def part_len_def Let_def)

lemma empty_fragment_is_last:
  "validFragment index count tot 0 \<Longrightarrow> tot = 0 \<and> count = 1"
  using part_len_pos [of tot index]
  by (cases "tot = 0") (auto simp: validFragment_iff fragmentCount_def Let_def fragment_consts)

section \<open>Preservation\<close>

lemma length_filter_update_None:
  "i < length xs \<Longrightarrow> xs ! i = None \<Longrightarrow>
   length (filter (\<lambda>q. q \<noteq> None) (xs[i := Some b])) = Suc (length (filter (\<lambda>q. q \<noteq> None) xs))"
proof (induction xs arbitrary: i)
  case (Cons x xs)
  then show ?case by (cases i) auto
qed simp

lemma wf_part_store:
  assumes "wf_part p" "i < length (parts p)" "parts p ! i = None"
    "int (length b) = part_len (total p) (int i)" "b \<noteq> []" "Suc (received p) \<noteq> length (parts p)"
  shows "wf_part (p\<lparr>parts := (parts p)[i := Some b], received := Suc (received p)\<rparr>)"
proof -
  have "int (length b') = part_len (total p) (int j)"
    if "j < length (parts p)" "(parts p)[i := Some b] ! j = Some b'" for j b'
    using that assms by (cases "j = i") (auto simp: wf_part_def)
  then show ?thesis
    using assms by (auto simp: wf_part_def length_filter_update_None simp del: not_None_eq)
qed

lemma store_part_wf:
  assumes c: "wf_codec c" and p: "map_of (partial c) k = Some p"
    and v: "validFragment (int i) count (total p) (int (length payload))"
    and n: "int (length (parts p)) = count"
  shows "wf_codec (snd (store_part k i payload p c))"
proof -
  let ?p = "p\<lparr>parts := (parts p)[i := copy_part payload], received := received p + 1\<rparr>"
  let ?c = "c\<lparr>partial := AList.update k ?p (partial c)\<rparr>"
  have i: "i < length (parts p)" using v n by (auto simp: validFragment_iff)
  have wfp: "wf_part p" using c p by (auto simp: wf_codec_def intro: wf_table_lookup)
  have keys: "wf_gomap (partial ?c)" "length (partial ?c) = length (partial c)"
      "table_sum total (partial ?c) = table_sum total (partial c)"
    using c p by (simp_all add: wf_codec_def wf_table_def gm.ok_put gm.len_put table_sum_update)
  show ?thesis
  proof (cases "parts p ! i = None \<and> received p + 1 \<noteq> length (parts p)")
    case True
    have "payload \<noteq> []"
    proof
      assume "payload = []"
      then have "count = 1" using v empty_fragment_is_last by fastforce
      then show False using True n wfp by (auto simp: wf_part_def)
    qed
    then have "wf_part ?p"
      using True wfp i v n by (auto simp: copy_part_def validFragment_iff intro!: wf_part_store)
    then show ?thesis
      using True c keys i
      by (auto simp: store_part_def Let_def wf_codec_def wf_table_def set_AList_update)
  next
    case False
    show ?thesis
    proof (cases "parts p ! i = None")
      case True
      then have "snd (store_part k i payload p c) = codec_remove k ?p ?c"
        using False i by (simp add: store_part_def Let_def)
      also have "\<dots> = c\<lparr>partial := AList.delete k (partial c), reserved := reserved c - total p\<rparr>"
        by (simp add: codec_remove_def gm.get_put AList.delete_update_same)
      also have "\<dots> = codec_remove k p c" using p by (simp add: codec_remove_def)
      finally show ?thesis
        using c codec_remove_wf_table [of c k p] codec_remove_shrinks [of c k p]
        by (auto simp: wf_codec_def)
    qed (use c in \<open>simp add: store_part_def\<close>)
  qed
qed

lemma fresh_part_wf:
  fixes now :: gtime
  assumes "wf_table c" "room_for tot c" "map_of (partial c) k = None"
    "0 \<le> tot" "tot \<le> maxDatagramMessage"
  defines "p \<equiv> \<lparr>created = now, total = tot, parts = replicate (nat (fragmentCount tot)) None,
                 received = 0\<rparr>"
  shows "wf_codec (c\<lparr>partial := AList.update k p (partial c), reserved := reserved c + tot\<rparr>)"
proof -
  have "wf_part p"
    using assms(4,5) fragmentCount_pos [of tot] by (auto simp: p_def wf_part_def)
  moreover have "total p = tot" by (simp add: p_def)
  ultimately show ?thesis
    using assms(1-3)
    by (auto simp: wf_codec_def wf_table_def room_for_def gm.ok_put gm.len_put table_sum_update
        set_AList_update)
qed

lemma codec_remove_submap:
  "map_of (partial (codec_remove j p c)) k \<in> {None, map_of (partial c) k}"
  by (simp add: codec_remove_def gm.get_del)

lemma dropExpired_loop_submap:
  "map_of (partial (codec_dropExpired_loop now xs c)) k \<in> {None, map_of (partial c) k}"
proof (induction now xs c rule: codec_dropExpired_loop.induct)
  case (2 now j p xs c)
  then show ?case using codec_remove_submap [of j p c k] by (auto split: if_splits)
qed simp

lemma reserve_loop_submap:
  "map_of (partial (codec_reserve_loop n need c)) k \<in> {None, map_of (partial c) k}"
proof (induction n arbitrary: c)
  case (Suc n)
  have "map_of (partial (codec_reserve_loop n need (codec_remove j p c))) k \<in> {None, map_of (partial c) k}"
    for j p
    using Suc [of "codec_remove j p c"] codec_remove_submap [of j p c k] by auto
  then show ?case by (auto split: option.splits)
qed simp

lemma codec_reserve_submap:
  "map_of (partial (codec_reserve need c)) k \<in> {None, map_of (partial c) k}"
  unfolding codec_reserve_def by (rule reserve_loop_submap)

lemma codec_dropExpired_submap:
  "map_of (partial (codec_dropExpired now c)) k \<in> {None, map_of (partial c) k}"
  unfolding codec_dropExpired_def by (rule dropExpired_loop_submap)

lemma dropExpired_loop_keeps:
  "map_of (partial c) k = Some p \<Longrightarrow> now - created p < partialTTL \<Longrightarrow>
   map_of (partial (codec_dropExpired_loop now xs c)) k = Some p"
proof (induction now xs c rule: codec_dropExpired_loop.induct)
  case (2 now j q xs c)
  have "map_of (partial (if now - created q \<ge> partialTTL then codec_remove j q c else c)) k = Some p"
    using 2(2,3) by (auto simp: codec_remove_def gm.get_del)
  with 2 show ?case by simp
qed simp

lemma codec_dropExpired_keeps:
  "map_of (partial c) k = Some p \<Longrightarrow> now - created p < partialTTL \<Longrightarrow>
   map_of (partial (codec_dropExpired now c)) k = Some p"
  unfolding codec_dropExpired_def by (rule dropExpired_loop_keeps)

lemma dropExpired_loop_frame [frame_simps]:
  "cclosed (codec_dropExpired_loop now xs c) = cclosed c"
  by (induction now xs c rule: codec_dropExpired_loop.induct) (simp_all add: frame_simps)

lemma reserve_loop_frame [frame_simps]: "cclosed (codec_reserve_loop n need c) = cclosed c"
  by (induction n arbitrary: c) (auto simp: frame_simps split: option.splits)

lemma codec_reserve_frame [frame_simps]:
  "cclosed (codec_reserve need c) = cclosed c" "cclosed (codec_dropExpired now c) = cclosed c"
  by (simp_all add: codec_reserve_def codec_dropExpired_def frame_simps)

section \<open>The part of \<open>accept\<close> after parsing\<close>

definition accept_valid ::
  "u32 \<Rightarrow> nat \<Rightarrow> int \<Rightarrow> byte list \<Rightarrow> gtime \<Rightarrow> datagramCodec \<Rightarrow> byte list option \<times> datagramCodec" where
  "accept_valid k i tot payload now c =
     (let c1 = codec_dropExpired now c in
      case map_of (partial c1) k of
        None \<Rightarrow>
          let c2 = codec_reserve tot c1;
              p = \<lparr>created = now, total = tot, parts = replicate (nat (fragmentCount tot)) None,
                   received = 0\<rparr>
          in store_part k i payload p
               (c2\<lparr>partial := AList.update k p (partial c2), reserved := reserved c2 + tot\<rparr>)
      | Some p \<Rightarrow>
          if total p \<noteq> tot then (None, c1) else store_part k i payload p c1)"

lemma accept_eq_valid:
  assumes c: "wf_codec c" "\<not> cclosed c"
    and f: "\<not> length fragment < datagramHeaderSize" "Uint16 (take 2 fragment) = datagramMagic"
      "fragment ! 2 = datagramVersion"
    and k: "Uint32 (take 4 (drop 4 fragment)) = k"
    and i: "unat (Uint16 (take 2 (drop 8 fragment))) = i"
    and n: "int (unat (Uint16 (take 2 (drop 10 fragment)))) = n"
    and t: "int (unat (Uint32 (take 4 (drop 12 fragment)))) = tot"
    and p: "drop datagramHeaderSize fragment = payload"
    and v: "validFragment (int i) n tot (int (length payload))"
  shows "codec_accept fragment now c = accept_valid k i tot payload now c"
proof -
  let ?c1 = "codec_dropExpired now c"
  have n': "n = fragmentCount tot" and le: "tot \<le> maxDatagramMessage"
    using v by (simp_all add: validFragment_iff)
  have wf1: "wf_codec ?c1" using c(1) by (rule codec_dropExpired_wf)
  have "tot \<le> maxPartialBytes" using le by (simp add: fragment_consts)
  then have room: "\<not> (length (partial (codec_reserve tot ?c1)) \<ge> maxPartialMessages
      \<or> reserved (codec_reserve tot ?c1) + tot > maxPartialBytes)"
    using reserve_enough [of ?c1 tot] wf1 by (auto simp: wf_codec_def room_for_def)
  have "int (length (parts q)) = n" if "map_of (partial ?c1) k = Some q" "total q = tot" for q
    using that wf1 n' by (auto simp: wf_codec_def wf_part_def dest: wf_table_lookup)
  then show ?thesis
    using c f v room n' unfolding codec_accept_def accept_valid_def Let_def k i n t p
    by (auto split: option.splits)
qed

lemma accept_cases:
  assumes "wf_codec c"
  obtains (ignored) "codec_accept fragment now c = (None, c)"
  | (valid) k i tot payload where
      "validFragment (int i) (fragmentCount tot) tot (int (length payload))" "\<not> cclosed c"
      "codec_accept fragment now c = accept_valid k i tot payload now c"
proof -
  let ?i = "unat (Uint16 (take 2 (drop 8 fragment)))"
  let ?n = "int (unat (Uint16 (take 2 (drop 10 fragment))))"
  let ?tot = "int (unat (Uint32 (take 4 (drop 12 fragment))))"
  let ?payload = "drop datagramHeaderSize fragment"
  show thesis
  proof (cases "length fragment < datagramHeaderSize \<or> Uint16 (take 2 fragment) \<noteq> datagramMagic
      \<or> fragment ! 2 \<noteq> datagramVersion \<or> \<not> validFragment (int ?i) ?n ?tot (int (length ?payload))
      \<or> cclosed c")
    case True
    then have "codec_accept fragment now c = (None, c)"
      by (auto simp: codec_accept_def Let_def)
    then show thesis by (rule ignored)
  next
    case False
    then have v: "validFragment (int ?i) ?n ?tot (int (length ?payload))" by blast
    then have "?n = fragmentCount ?tot" by (simp add: validFragment_iff)
    with False v show thesis
      by (intro valid [of ?i ?tot ?payload]) (auto intro!: accept_eq_valid [OF assms])
  qed
qed

lemma accept_valid_wf:
  assumes "wf_codec c" "validFragment (int i) (fragmentCount tot) tot (int (length payload))"
  shows "wf_codec (snd (accept_valid k i tot payload now c))"
proof -
  let ?c1 = "codec_dropExpired now c"
  let ?c2 = "codec_reserve tot ?c1"
  let ?p = "\<lparr>created = now, total = tot, parts = replicate (nat (fragmentCount tot)) None,
             received = 0\<rparr>"
  have tot: "0 \<le> tot" "tot \<le> maxDatagramMessage" using assms(2) by (auto simp: validFragment_iff)
  then have mx: "tot \<le> maxPartialBytes" by (simp add: fragment_consts)
  have wf1: "wf_codec ?c1" using assms(1) by (rule codec_dropExpired_wf)
  show ?thesis
  proof (cases "map_of (partial ?c1) k")
    case None
    have "wf_table ?c2" "room_for tot ?c2"
      using reserve_enough [of ?c1 tot] wf1 mx by (auto simp: wf_codec_def)
    moreover have "map_of (partial ?c2) k = None"
      using None codec_reserve_submap [of tot ?c1 k] by auto
    ultimately have "wf_codec (?c2\<lparr>partial := AList.update k ?p (partial ?c2),
        reserved := reserved ?c2 + tot\<rparr>)"
      using tot by (intro fresh_part_wf)
    then show ?thesis
      using None assms(2) fragmentCount_pos [OF tot(1)]
      by (auto simp: accept_valid_def Let_def gm.get_put intro!: store_part_wf)
  next
    case (Some p)
    then have "int (length (parts p)) = fragmentCount (total p)"
      using wf1 wf_table_lookup [of ?c1 k p] by (simp add: wf_codec_def wf_part_def)
    then show ?thesis
      using Some wf1 assms(2) store_part_wf [OF wf1 Some, of i "fragmentCount tot" payload]
      by (auto simp: accept_valid_def Let_def)
  qed
qed

lemma codec_accept_wf: "wf_codec c \<Longrightarrow> wf_codec (snd (codec_accept fragment now c))"
proof -
  assume c: "wf_codec c"
  then show ?thesis
    by (cases rule: accept_cases [of c fragment now]) (simp_all add: c accept_valid_wf)
qed

section \<open>Chunks of a message\<close>

definition chunk :: "byte list \<Rightarrow> nat \<Rightarrow> byte list" where
  "chunk m i = take 1000 (drop (i * 1000) m)"

lemma concat_chunks: "concat (map (chunk m) [0..<n]) = take (n * 1000) m"
proof (induction n)
  case (Suc n)
  have "take (Suc n * 1000) m = take (n * 1000) m @ take 1000 (drop (n * 1000) m)"
    by (metis add.commute mult_Suc take_add)
  with Suc show ?case by (simp add: chunk_def)
qed simp

lemma fragmentCount_covers: "length m \<le> nat (fragmentCount (int (length m))) * 1000"
  by (simp add: fragmentCount_def Let_def fragment_consts) linarith

lemma concat_all_chunks:
  "concat (map (chunk m) [0..<nat (fragmentCount (int (length m)))]) = m"
  using fragmentCount_covers [of m] by (simp add: concat_chunks)

lemma length_chunk:
  "int i < fragmentCount (int (length m)) \<Longrightarrow>
   int (length (chunk m i)) = part_len (int (length m)) (int i)"
proof (cases "m = []")
  case False
  assume "int i < fragmentCount (int (length m))"
  with False have "int i * 1000 < int (length m)" by (simp add: fragmentCount_index)
  then show ?thesis by (auto simp: chunk_def part_len_def fragment_consts min_def)
qed (simp add: chunk_def part_len_def fragment_consts fragmentCount_def)

lemma chunk_nonempty: "int i < fragmentCount (int (length m)) \<Longrightarrow> m \<noteq> [] \<Longrightarrow> chunk m i \<noteq> []"
  by (auto simp: chunk_def fragmentCount_index)

lemma fragment_at_eq:
  "fragment_at k m i = writeDatagramHeader k i (nat (fragmentCount (int (length m)))) (length m) @ chunk m i"
  by (auto simp: fragment_at_def Let_def chunk_def fragment_consts min_def)

lemma fragmentCount_le: "0 \<le> tot \<Longrightarrow> tot \<le> maxDatagramMessage \<Longrightarrow> fragmentCount tot \<le> 66"
  by (simp add: fragmentCount_def Let_def fragment_consts) linarith

lemma length_writeDatagramHeader [simp]: "length (writeDatagramHeader k i n t) = 16"
  by (simp add: writeDatagramHeader_def)

lemma header_fields:
  fixes k :: u32 and xs :: "byte list"
  assumes "i < 65536" "n < 65536" "t < 4294967296"
  defines "f \<equiv> writeDatagramHeader k i n t @ xs"
  shows "Uint16 (take 2 f) = datagramMagic" "f ! 2 = datagramVersion"
    "Uint32 (take 4 (drop 4 f)) = k" "unat (Uint16 (take 2 (drop 8 f))) = i"
    "unat (Uint16 (take 2 (drop 10 f))) = n" "unat (Uint32 (take 4 (drop 12 f))) = t"
    "drop datagramHeaderSize f = xs" "\<not> length f < datagramHeaderSize"
proof -
  show "Uint16 (take 2 f) = datagramMagic" by (simp add: f_def writeDatagramHeader_def)
  show "f ! 2 = datagramVersion" by (simp add: f_def writeDatagramHeader_def nth_append)
  show "Uint32 (take 4 (drop 4 f)) = k" by (simp add: f_def writeDatagramHeader_def drop_Cons')
  show "unat (Uint16 (take 2 (drop 8 f))) = i"
    using assms by (simp add: f_def writeDatagramHeader_def drop_Cons' unat_of_nat)
  show "unat (Uint16 (take 2 (drop 10 f))) = n"
    using assms by (simp add: f_def writeDatagramHeader_def drop_Cons' unat_of_nat)
  show "unat (Uint32 (take 4 (drop 12 f))) = t"
    using assms by (simp add: f_def writeDatagramHeader_def drop_Cons' unat_of_nat)
  show "drop datagramHeaderSize f = xs" "\<not> length f < datagramHeaderSize"
    by (simp_all add: f_def datagramHeaderSize_def)
qed

text \<open>What the reassembler does with a fragment \<open>Send\<close> made.\<close>

lemma accept_fragment_at:
  assumes c: "wf_codec c" "\<not> cclosed c"
    and m: "int (length m) \<le> maxDatagramMessage" and i: "int i < fragmentCount (int (length m))"
  shows "codec_accept (fragment_at k m i) now c = accept_valid k i (int (length m)) (chunk m i) now c"
proof -
  have n66: "fragmentCount (int (length m)) \<le> 66" using m by (simp add: fragmentCount_le)
  have bounds: "i < 65536" "nat (fragmentCount (int (length m))) < 65536" "length m < 4294967296"
    using i m n66 by (auto simp: fragment_consts)
  note h = header_fields [OF bounds, of k "chunk m i", folded fragment_at_eq]
  have "validFragment (int i) (fragmentCount (int (length m))) (int (length m)) (int (length (chunk m i)))"
    using m i by (simp add: validFragment_iff length_chunk)
  moreover have "int (nat (fragmentCount (int (length m)))) = fragmentCount (int (length m))"
    using fragmentCount_pos [of "int (length m)"] by simp
  ultimately show ?thesis
    using c h by (intro accept_eq_valid [where n = "fragmentCount (int (length m))"]) simp_all
qed

section \<open>Reassembly of genuine fragments\<close>

text \<open>\<open>sent\<close> is what the peer sent under each identifier. A reassembler is genuine when every part
  it holds is a chunk of the message sent under that identifier.\<close>

definition genuine_part :: "byte list \<Rightarrow> partialDatagram \<Rightarrow> bool" where
  "genuine_part m p \<longleftrightarrow>
     total p = int (length m)
     \<and> (\<forall>i < length (parts p). \<forall>b. parts p ! i = Some b \<longrightarrow> b = chunk m i)"

definition genuine :: "(u32 \<Rightarrow> byte list option) \<Rightarrow> datagramCodec \<Rightarrow> bool" where
  "genuine sent c \<longleftrightarrow>
     (\<forall>k p. map_of (partial c) k = Some p \<longrightarrow> (\<exists>m. sent k = Some m \<and> genuine_part m p))"

definition genuine_fragment :: "(u32 \<Rightarrow> byte list option) \<Rightarrow> byte list \<Rightarrow> bool" where
  "genuine_fragment sent f \<longleftrightarrow>
     (\<exists>k m i. sent k = Some m \<and> int (length m) \<le> maxDatagramMessage
        \<and> int i < fragmentCount (int (length m)) \<and> f = fragment_at k m i)"

lemma genuine_submap:
  "genuine sent c \<Longrightarrow> (\<And>k. map_of (partial c') k \<in> {None, map_of (partial c) k}) \<Longrightarrow> genuine sent c'"
  unfolding genuine_def by (metis insertE singletonD option.distinct(1))

lemma filter_full: "length (filter P xs) = length xs \<Longrightarrow> i < length xs \<Longrightarrow> P (xs ! i)"
  by (metis filter_id_conv length_filter_less less_irrefl nth_mem)

lemma complete_parts:
  assumes p: "wf_part p" "genuine_part m p" and i: "i < length (parts p)" "parts p ! i = None"
    and full: "Suc (received p) = length (parts p)"
  shows "join_parts ((parts p)[i := copy_part (chunk m i)]) = m"
proof -
  let ?q = "(parts p)[i := Some (chunk m i)]"
  have n: "length (parts p) = nat (fragmentCount (int (length m)))"
    using p by (metis genuine_part_def nat_int wf_part_def)
  have all: "?q ! j \<noteq> None" if "j < length (parts p)" for j
    using filter_full [of "\<lambda>q. q \<noteq> None" ?q j] that p(1) i full
    by (simp add: wf_part_def length_filter_update_None del: not_None_eq)
  have "?q = map (\<lambda>j. Some (chunk m j)) [0..<length (parts p)]"
  proof (rule nth_equalityI)
    fix j assume j: "j < length ?q"
    then have "?q ! j \<noteq> None" using all by simp
    then show "?q ! j = map (\<lambda>j. Some (chunk m j)) [0..<length (parts p)] ! j"
      using j p(2) by (cases "j = i") (auto simp: genuine_part_def)
  qed simp
  then have "join_parts ?q = concat (map (chunk m) [0..<length (parts p)])"
    by (simp add: join_parts_def comp_def)
  also have "\<dots> = m" by (simp add: n concat_all_chunks)
  finally have q: "join_parts ?q = m" .
  have "join_parts ((parts p)[i := copy_part (chunk m i)]) = join_parts ?q"
    by (auto simp: join_parts_def copy_part_def map_update)
  with q show ?thesis by simp
qed

lemma store_part_genuine:
  assumes c: "wf_codec c" "genuine sent c" and p: "map_of (partial c) k = Some p"
    and m: "sent k = Some m" "genuine_part m p" and i: "i < length (parts p)"
  shows "genuine sent (snd (store_part k i (chunk m i) p c))"
    and "fst (store_part k i (chunk m i) p c) \<in> {None, Some m}"
proof -
  let ?p = "p\<lparr>parts := (parts p)[i := copy_part (chunk m i)], received := received p + 1\<rparr>"
  let ?c = "c\<lparr>partial := AList.update k ?p (partial c)\<rparr>"
  have "genuine_part m ?p"
  proof -
    have "b = chunk m j" if "j < length (parts p)" "(parts p)[i := copy_part (chunk m i)] ! j = Some b" for j b
      using that m(2) by (cases "j = i") (auto simp: genuine_part_def copy_part_def split: if_splits)
    then show ?thesis using m(2) by (simp add: genuine_part_def)
  qed
  then have g: "genuine sent ?c"
    using c(2) m(1) by (auto simp: genuine_def gm.get_put)
  then have "genuine sent (codec_remove k ?p ?c)"
    by (rule genuine_submap) (rule codec_remove_submap)
  with g c show "genuine sent (snd (store_part k i (chunk m i) p c))"
    by (auto simp only: store_part_def Let_def snd_conv split: if_splits)
  have "wf_part p" using c p by (auto simp: wf_codec_def intro: wf_table_lookup)
  then show "fst (store_part k i (chunk m i) p c) \<in> {None, Some m}"
    using m(2) i complete_parts by (auto simp: store_part_def Let_def)
qed

lemma accept_valid_genuine:
  assumes c: "wf_codec c" "genuine sent c" and m: "sent k = Some m"
    and i: "int i < fragmentCount (int (length m))" "int (length m) \<le> maxDatagramMessage"
  shows "genuine sent (snd (accept_valid k i (int (length m)) (chunk m i) now c))
     \<and> fst (accept_valid k i (int (length m)) (chunk m i) now c) \<in> {None, Some m}"
proof -
  let ?c1 = "codec_dropExpired now c"
  let ?c2 = "codec_reserve (int (length m)) ?c1"
  let ?p = "\<lparr>created = now, total = int (length m),
             parts = replicate (nat (fragmentCount (int (length m)))) None, received = 0\<rparr>"
  let ?c3 = "?c2\<lparr>partial := AList.update k ?p (partial ?c2), reserved := reserved ?c2 + int (length m)\<rparr>"
  have wf1: "wf_codec ?c1" using c(1) by (rule codec_dropExpired_wf)
  have g1: "genuine sent ?c1" using c(2) codec_dropExpired_submap by (rule genuine_submap)
  show ?thesis
  proof (cases "map_of (partial ?c1) k")
    case None
    have g2: "genuine sent ?c2" using g1 codec_reserve_submap by (rule genuine_submap)
    have gp: "genuine_part m ?p" by (simp add: genuine_part_def)
    have g3: "genuine sent ?c3" using g2 gp m by (auto simp: genuine_def gm.get_put)
    have "int (length m) \<le> maxPartialBytes" using i(2) by (simp add: fragment_consts)
    then have "wf_table ?c2 \<and> room_for (int (length m)) ?c2"
      using reserve_enough [of ?c1] wf1 by (simp add: wf_codec_def)
    moreover have "map_of (partial ?c2) k = None"
      using None codec_reserve_submap [of "int (length m)" ?c1 k] by auto
    ultimately have wf3: "wf_codec ?c3" using i(2) by (intro fresh_part_wf) auto
    have i': "i < length (parts ?p)" using i(1) by simp
    have "map_of (partial ?c3) k = Some ?p" by (simp add: gm.get_put)
    note st = store_part_genuine [OF wf3 g3 this m gp i']
    have "accept_valid k i (int (length m)) (chunk m i) now c = store_part k i (chunk m i) ?p ?c3"
      using None by (simp add: accept_valid_def Let_def)
    with st show ?thesis by simp
  next
    case (Some p)
    then have gp: "genuine_part m p" using g1 m by (fastforce simp: genuine_def)
    then have tot: "total p = int (length m)" by (simp add: genuine_part_def)
    have "wf_part p" using Some wf1 by (auto simp: wf_codec_def intro: wf_table_lookup)
    then have i': "i < length (parts p)" using i(1) tot by (simp add: wf_part_def)
    note st = store_part_genuine [OF wf1 g1 Some m gp i']
    have "accept_valid k i (int (length m)) (chunk m i) now c = store_part k i (chunk m i) p ?c1"
      using Some tot by (simp add: accept_valid_def Let_def)
    with st show ?thesis by simp
  qed
qed

section \<open>Arrival in any order\<close>

text \<open>The reassembler holds exactly the chunks \<open>S\<close> of the message \<open>m\<close> under identifier \<open>k\<close>, in an
  entry that was created no earlier than \<open>t0\<close>.\<close>

definition holds :: "u32 \<Rightarrow> byte list \<Rightarrow> gtime \<Rightarrow> nat set \<Rightarrow> datagramCodec \<Rightarrow> bool" where
  "holds k m t0 S c \<longleftrightarrow>
     wf_codec c \<and> \<not> cclosed c
     \<and> (if S = {} then map_of (partial c) k = None
        else \<exists>p. map_of (partial c) k = Some p \<and> total p = int (length m) \<and> t0 \<le> created p
           \<and> (\<forall>i < length (parts p). parts p ! i = (if i \<in> S then Some (chunk m i) else None)))"

lemma card_index_set:
  assumes "\<forall>i < length xs. (xs ! i \<noteq> None) = (i \<in> S)"
  shows "length (filter (\<lambda>q. q \<noteq> None) xs) = card (S \<inter> {..<length xs})"
proof -
  have "{i. i < length xs \<and> xs ! i \<noteq> None} = S \<inter> {..<length xs}" using assms by auto
  then show ?thesis by (simp add: length_filter_conv_card del: not_None_eq)
qed

lemma store_part_holds:
  assumes c: "wf_codec c" "\<not> cclosed c" and p: "map_of (partial c) k = Some p" "total p = int (length m)"
      "t0 \<le> created p" and P: "\<forall>i < length (parts p). parts p ! i = (if i \<in> S then Some (chunk m i) else None)"
    and S: "S \<subset> {..<nat (fragmentCount (int (length m)))}"
    and i: "int i < fragmentCount (int (length m))" "i \<notin> S"
  shows "if insert i S = {..<nat (fragmentCount (int (length m)))}
     then fst (store_part k i (chunk m i) p c) = Some m
     else fst (store_part k i (chunk m i) p c) = None
        \<and> holds k m t0 (insert i S) (snd (store_part k i (chunk m i) p c))"
proof -
  let ?n = "nat (fragmentCount (int (length m)))"
  have wfp: "wf_part p" using c p by (auto simp: wf_codec_def intro: wf_table_lookup)
  then have n: "length (parts p) = ?n" using p(2) by (metis nat_int wf_part_def)
  have i': "i < length (parts p)" using i(1) n by simp
  have fin: "finite S" using S finite_subset by blast
  have SI: "S \<inter> {..<?n} = S" using S by auto
  have "received p = card (S \<inter> {..<length (parts p)})"
    using wfp P card_index_set [of "parts p" S] by (simp add: wf_part_def del: not_None_eq)
  then have rc: "received p = card S" by (simp add: n SI)
  have full: "Suc (received p) = length (parts p) \<longleftrightarrow> insert i S = {..<?n}"
  proof
    assume "Suc (received p) = length (parts p)"
    then have "card (insert i S) = card {..<?n}" using rc n fin i(2) by simp
    then show "insert i S = {..<?n}" using S i' n by (intro card_subset_eq) auto
  next
    assume "insert i S = {..<?n}"
    then have "card (insert i S) = ?n" by simp
    then show "Suc (received p) = length (parts p)" using rc n fin i(2) by simp
  qed
  have gp: "genuine_part m p" using p(2) P by (auto simp: genuine_part_def split: if_splits)
  show ?thesis
  proof (cases "insert i S = {..<?n}")
    case True
    with full wfp gp i' P i(2) show ?thesis
      by (auto simp: store_part_def Let_def complete_parts)
  next
    case False
    have "m \<noteq> []"
    proof
      assume "m = []"
      then have "?n = 1" by (simp add: fragmentCount_def fragment_consts)
      then show False using False S i' n by auto
    qed
    then have ne: "chunk m i \<noteq> []" using i(1) by (intro chunk_nonempty)
    have "wf_codec (snd (store_part k i (chunk m i) p c))"
      using c p wfp i
      by (intro store_part_wf) (auto simp: wf_part_def validFragment_iff length_chunk)
    moreover have "store_part k i (chunk m i) p c = (None, c\<lparr>partial := AList.update k
        (p\<lparr>parts := (parts p)[i := Some (chunk m i)], received := Suc (received p)\<rparr>) (partial c)\<rparr>)"
      using False full P i' i(2) ne by (simp add: store_part_def Let_def copy_part_def)
    moreover have "\<forall>j < length (parts p). (parts p)[i := Some (chunk m i)] ! j
        = (if j \<in> insert i S then Some (chunk m j) else None)"
      using P i' by (simp add: nth_list_update)
    ultimately show ?thesis
      using False c p by (simp add: holds_def gm.get_put)
  qed
qed

lemma accept_step_any_order:
  assumes h: "holds k m t0 S c" and m: "int (length m) \<le> maxDatagramMessage"
    and i: "int i < fragmentCount (int (length m))"
    and S: "S \<subset> {..<nat (fragmentCount (int (length m)))}"
    and t: "t0 \<le> now" "now < t0 + partialTTL"
  shows "if insert i S = {..<nat (fragmentCount (int (length m)))}
     then fst (codec_accept (fragment_at k m i) now c) = Some m
     else fst (codec_accept (fragment_at k m i) now c) = None
        \<and> holds k m t0 (insert i S) (snd (codec_accept (fragment_at k m i) now c))"
proof -
  let ?tot = "int (length m)"
  let ?c1 = "codec_dropExpired now c"
  have c: "wf_codec c" "\<not> cclosed c" using h by (auto simp: holds_def)
  have c1: "wf_codec ?c1" "\<not> cclosed ?c1"
    using c by (simp_all add: codec_dropExpired_wf frame_simps)
  have acc: "codec_accept (fragment_at k m i) now c = accept_valid k i ?tot (chunk m i) now c"
    using c m i by (rule accept_fragment_at)
  show ?thesis
  proof (cases "S = {}")
    case True
    let ?c2 = "codec_reserve ?tot ?c1"
    let ?p = "\<lparr>created = now, total = ?tot, parts = replicate (nat (fragmentCount ?tot)) None,
               received = 0\<rparr>"
    let ?c3 = "?c2\<lparr>partial := AList.update k ?p (partial ?c2), reserved := reserved ?c2 + ?tot\<rparr>"
    have None: "map_of (partial ?c1) k = None"
      using h True codec_dropExpired_submap [of now c k] by (auto simp: holds_def)
    have "?tot \<le> maxPartialBytes" using m by (simp add: fragment_consts)
    then have "wf_table ?c2 \<and> room_for ?tot ?c2"
      using reserve_enough [of ?c1] c1 by (simp add: wf_codec_def)
    moreover have "map_of (partial ?c2) k = None"
      using None codec_reserve_submap [of ?tot ?c1 k] by auto
    ultimately have wf3: "wf_codec ?c3" using m by (intro fresh_part_wf) auto
    have cl3: "\<not> cclosed ?c3" using c1 by (simp add: frame_simps)
    have av: "accept_valid k i ?tot (chunk m i) now c = store_part k i (chunk m i) ?p ?c3"
      using None by (simp add: accept_valid_def Let_def)
    have "map_of (partial ?c3) k = Some ?p" by (simp add: gm.get_put)
    from store_part_holds [OF wf3 cl3 this, of m t0 S i] show ?thesis
      unfolding acc av using S i t True by auto
  next
    case False
    then obtain p where p: "map_of (partial c) k = Some p" "total p = ?tot" "t0 \<le> created p"
      and P: "\<forall>i < length (parts p). parts p ! i = (if i \<in> S then Some (chunk m i) else None)"
      using h by (auto simp: holds_def)
    have p1: "map_of (partial ?c1) k = Some p"
      using p t by (intro codec_dropExpired_keeps) auto
    have av: "accept_valid k i ?tot (chunk m i) now c = store_part k i (chunk m i) p ?c1"
      using p1 p by (simp add: accept_valid_def Let_def)
    show ?thesis
    proof (cases "i \<in> S")
      case True
      have "wf_part p" using p1 c1 by (auto simp: wf_codec_def intro: wf_table_lookup)
      then have "i < length (parts p)" using i p(2) by (auto simp: wf_part_def)
      then have "store_part k i (chunk m i) p ?c1 = (None, ?c1)"
        using P True by (simp add: store_part_def)
      then show ?thesis
        unfolding acc av using True S c1 p p1 P by (auto simp: holds_def insert_absorb)
    next
      case nS: False
      from store_part_holds [OF c1 p1 p(2,3) P S i nS] show ?thesis unfolding acc av .
    qed
  qed
qed

lemma Recv_any_order:
  assumes "holds k m t0 S c" and "int (length m) \<le> maxDatagramMessage"
    and "\<forall>(j, t) \<in> set (ys @ [(i, t')]). int j < fragmentCount (int (length m)) \<and> t0 \<le> t \<and> t < t0 + partialTTL"
    and "S \<union> fst ` set ys \<subset> {..<nat (fragmentCount (int (length m)))}"
    and "insert i (S \<union> fst ` set ys) = {..<nat (fragmentCount (int (length m)))}"
  shows "\<exists>c'. codec_Recv (map (\<lambda>(j, t). (fragment_at k m j, t)) (ys @ [(i, t')])) err c = (Inr m, [], c')"
  using assms
proof (induction ys arbitrary: S c)
  case Nil
  then show ?case
    using accept_step_any_order [of k m t0 S c i t'] by (auto split: prod.splits)
next
  case (Cons x ys)
  obtain j t where x: "x = (j, t)" by (cases x)
  have S: "S \<subset> {..<nat (fragmentCount (int (length m)))}" "insert j S \<noteq> {..<nat (fragmentCount (int (length m)))}"
    using Cons.prems(4) x by auto
  have "fst (codec_accept (fragment_at k m j) t c) = None
      \<and> holds k m t0 (insert j S) (snd (codec_accept (fragment_at k m j) t c))"
    using accept_step_any_order [of k m t0 S c j t] S Cons.prems x by auto
  then obtain c1 where 1: "codec_accept (fragment_at k m j) t c = (None, c1)" "holds k m t0 (insert j S) c1"
    by (cases "codec_accept (fragment_at k m j) t c") auto
  have "insert j S \<union> fst ` set ys = S \<union> fst ` set (x # ys)" using x by auto
  with Cons.IH [OF 1(2)] Cons.prems show ?case by (simp add: x 1(1))
qed

lemma Recv_preserves:
  assumes "wf_codec c" "genuine sent c" "\<forall>(f, t) \<in> set fs. genuine_fragment sent f"
    "codec_Recv fs err c = (r, fs', c')"
  shows "wf_codec c' \<and> genuine sent c' \<and> (\<forall>m. r = Inr m \<longrightarrow> m \<in> ran sent)"
  using assms
proof (induction fs err c rule: codec_Recv.induct)
  case (2 f now fs err c)
  from "2.prems"(3) obtain k m i where f: "sent k = Some m" "int (length m) \<le> maxDatagramMessage"
      "int i < fragmentCount (int (length m))" "f = fragment_at k m i"
    by (auto simp: genuine_fragment_def)
  obtain o1 c1 where a: "codec_accept f now c = (o1, c1)" by (cases "codec_accept f now c")
  have wf1: "wf_codec c1" using codec_accept_wf [OF "2.prems"(1), of f now] a by simp
  have "genuine sent c1 \<and> o1 \<in> {None, Some m}"
  proof (cases "cclosed c")
    case True
    then have "codec_accept f now c = (None, c)" by (simp add: codec_accept_def Let_def)
    with a "2.prems"(2) show ?thesis by simp
  next
    case False
    then have "codec_accept f now c = accept_valid k i (int (length m)) (chunk m i) now c"
      using accept_fragment_at "2.prems"(1) f by simp
    with accept_valid_genuine [OF "2.prems"(1,2) f(1,3,2), of now] a show ?thesis by simp
  qed
  then have g1: "genuine sent c1" and o1: "o1 = None \<or> o1 = Some m" by auto
  show ?case
  proof (cases o1)
    case None
    then show ?thesis using "2.IH" a wf1 g1 "2.prems"(3,4) by auto
  next
    case (Some m')
    then show ?thesis using "2.prems"(4) a wf1 g1 o1 f(1) by (auto intro: ranI)
  qed
qed auto

lemma send_fragments_None:
  "send_fragments xmit k m is = (None, fs) \<Longrightarrow> fs = map (fragment_at k m) is"
  by (induction "is" arbitrary: fs) (auto simp: Let_def split: option.splits prod.splits)

lemma send_fragments_subset:
  "send_fragments xmit k m is = (e, fs) \<Longrightarrow> set fs \<subseteq> fragment_at k m ` set is"
  by (induction "is" arbitrary: e fs) (fastforce simp: Let_def split: option.splits prod.splits)+

definition fragment_index :: "byte list \<Rightarrow> nat" where
  "fragment_index f = unat (Uint16 (take 2 (drop 8 f)))"

lemma fragment_index_at:
  assumes "int (length m) \<le> maxDatagramMessage" "int i < fragmentCount (int (length m))"
  shows "fragment_index (fragment_at k m i) = i"
proof -
  have "fragmentCount (int (length m)) \<le> 66" using assms by (simp add: fragmentCount_le)
  then have "i < 65536" "nat (fragmentCount (int (length m))) < 65536" "length m < 4294967296"
    using assms by (auto simp: fragment_consts)
  from header_fields(4) [OF this] show ?thesis by (simp add: fragment_index_def fragment_at_eq)
qed

lemma Send_Recv_lemma:
  assumes snd: "codec_Send xmit message s = (None, fs, s')"
    and rcv: "wf_codec c" "\<not> cclosed c" "map_of (partial c) (nextID s') = None"
    and all: "fst ` set (arrivals @ [(f, t)]) = set fs" and last: "f \<notin> fst ` set arrivals"
    and time: "\<forall>(g, u) \<in> set (arrivals @ [(f, t)]). t0 \<le> u \<and> u < t0 + partialTTL"
  shows "\<exists>c'. codec_Recv (arrivals @ [(f, t)]) err c = (Inr message, [], c')"
proof -
  let ?k = "nextID s'" and ?n = "nat (fragmentCount (int (length message)))"
  let ?ix = "\<lambda>(g, u). (fragment_index g, u)"
  from snd have m: "int (length message) \<le> maxDatagramMessage"
    and "send_fragments xmit ?k message [0..<?n] = (None, fs)"
    by (auto simp: codec_Send_def Let_def split: if_splits prod.splits)
  then have fs: "set fs = fragment_at ?k message ` {..<?n}"
    by (auto dest!: send_fragments_None)
  have ix: "fragment_index g < ?n" "fragment_at ?k message (fragment_index g) = g"
    if "g \<in> set fs" for g
    using that m by (auto simp: fs fragment_index_at zless_nat_conj)
  have mem: "g \<in> set fs" if "(g, u) \<in> set (arrivals @ [(f, t)])" for g u
    using that all by force
  have arr: "arrivals @ [(f, t)]
      = map (\<lambda>(j, u). (fragment_at ?k message j, u)) (map ?ix arrivals @ [(fragment_index f, t)])"
    using ix(2) [OF mem] ix(2) [OF mem, of f t]
    by (auto simp: comp_def intro!: map_idI [symmetric])
  have ixs: "fragment_index ` set fs = {..<?n}"
    unfolding fs using m by (auto simp: image_image fragment_index_at zless_nat_conj)
  have inj: "fragment_index g = fragment_index f \<Longrightarrow> g = f" if "(g, u) \<in> set arrivals" for g u
    using ix(2) [OF mem, of g u] ix(2) [OF mem, of f t] that by (metis Un_iff list.set_intros(1) set_append)
  have ys: "fst ` set (map ?ix arrivals) = fragment_index ` fst ` set arrivals"
    by (auto simp: image_image split_beta)
  have nin: "fragment_index f \<notin> fst ` set (map ?ix arrivals)"
    unfolding ys using inj last by force
  have un: "insert (fragment_index f) (fst ` set (map ?ix arrivals)) = {..<?n}"
    unfolding ys ixs [symmetric] all [symmetric] by simp
  have h: "holds ?k message t0 {} c" using rcv by (simp add: holds_def)
  have "\<forall>(j, u) \<in> set (map ?ix arrivals @ [(fragment_index f, t)]).
      int j < fragmentCount (int (length message)) \<and> t0 \<le> u \<and> u < t0 + partialTTL"
    using ix(1) [OF mem] ix(1) [OF mem, of f t] time by (fastforce simp: zless_nat_conj)
  moreover have "{} \<union> fst ` set (map ?ix arrivals) \<subset> {..<?n}"
    and "insert (fragment_index f) ({} \<union> fst ` set (map ?ix arrivals)) = {..<?n}"
    unfolding un [symmetric] using nin by (blast, simp)
  ultimately show ?thesis
    unfolding arr using h m by (intro Recv_any_order)
qed

section \<open>Properties\<close>

text \<open>C24: whatever the peer sends. From a new codec, after any sequence of inbound datagrams at any
  times, at most 128 messages are partially assembled, the memory reserved for them is within
  \<^verbatim>\<open>maxPartialBytes\<close> and is exactly the sum of their announced sizes, and every partial message is
  well-formed (no part of the wrong length, none counted twice, none already complete).\<close>

theorem accept_bounded_by_any_peer:
  "wf_codec (fold (\<lambda>(f, t) c. snd (codec_accept f t c)) inputs newDatagramCodec)"
proof -
  have "wf_codec c \<Longrightarrow> wf_codec (fold (\<lambda>(f, t) c. snd (codec_accept f t c)) inputs c)" for c
    by (induction inputs arbitrary: c) (auto simp: codec_accept_wf)
  moreover have "wf_codec newDatagramCodec"
    by (simp add: wf_codec_def wf_table_def newDatagramCodec_def fragment_consts)
  ultimately show ?thesis by blast
qed

text \<open>C12: reassembly never makes a message up. If every fragment that arrives is one \<open>Send\<close> made for
  a message of the peer, in any interleaving, with losses, duplicates and evictions, then what
  \<open>Recv\<close> returns is a message the peer sent, and the reassembler keeps only genuine parts.\<close>

theorem Recv_integrity:
  assumes "wf_codec c" and "genuine sent c"
    and "\<forall>(f, t) \<in> set fs. genuine_fragment sent f"
    and "codec_Recv fs err c = (Inr message, fs', c')"
  shows "message \<in> ran sent \<and> wf_codec c' \<and> genuine sent c'"
  using Recv_preserves [OF assms] by blast

theorem Recv_integrity_witness:
  "\<exists>fs' c'. codec_Recv [(fragment_at 1 [7] 0, 5)] () newDatagramCodec = (Inr [7], fs', c')
     \<and> [7] \<in> ran [1 \<mapsto> [7 :: byte]] \<and> wf_codec c' \<and> genuine [1 \<mapsto> [7]] c'"
proof -
  have w: "wf_codec newDatagramCodec"
    by (simp add: wf_codec_def wf_table_def newDatagramCodec_def fragment_consts)
  have g: "genuine [1 \<mapsto> [7]] newDatagramCodec" by (simp add: genuine_def newDatagramCodec_def)
  have f: "\<forall>(f, t) \<in> set [(fragment_at 1 [7] 0, 5 :: int)]. genuine_fragment [1 \<mapsto> [7]] f"
    by (auto simp: genuine_fragment_def fragmentCount_def fragment_consts
        intro!: exI [of _ "1 :: u32"] exI [of _ "[7 :: byte]"] exI [of _ "0 :: nat"])
  have "holds 1 [7] 0 {} newDatagramCodec"
    using w by (simp add: holds_def newDatagramCodec_def)
  then obtain c' where r: "codec_Recv [(fragment_at 1 [7] 0, 5)] () newDatagramCodec = (Inr [7], [], c')"
    using Recv_any_order [of 1 "[7]" 0 "{}" newDatagramCodec "[]" 0 5 "()"]
    by (auto simp: fragmentCount_def fragment_consts)
  show ?thesis using Recv_integrity [OF w g f r] by (intro exI [of _ "[]"] exI [of _ c'] conjI r) auto
qed

text \<open>C11: a message survives the datagram channel in any order. If \<open>Send\<close> succeeded, and all its
  fragments reach the peer within the partial lifetime, in any order and with duplicates (the last
  to arrive not being one), then \<open>Recv\<close> consumes exactly those datagrams and returns the message,
  whatever else the peer's reassembler was holding.\<close>

theorem Send_Recv_any_order:
  assumes snd: "codec_Send xmit message s = (None, fs, s')"
    and rcv: "wf_codec c" "\<not> cclosed c" "map_of (partial c) (nextID s') = None"
    and all: "fst ` set (arrivals @ [(f, t)]) = set fs" and last: "f \<notin> fst ` set arrivals"
    and time: "\<forall>(g, u) \<in> set (arrivals @ [(f, t)]). t0 \<le> u \<and> u < t0 + partialTTL"
  shows "\<exists>c'. codec_Recv (arrivals @ [(f, t)]) err c = (Inr message, [], c')"
  using assms by (rule Send_Recv_lemma)

theorem Send_Recv_any_order_witness:
  "\<exists>fs s' c'. codec_Send (\<lambda>_. None) [7, 8] newDatagramCodec = (None, fs, s')
     \<and> codec_Recv ([] @ [(fragment_at 1 [7, 8] 0, 5)]) () newDatagramCodec = (Inr [7, 8], [], c')"
proof -
  have w: "wf_codec newDatagramCodec"
    by (simp add: wf_codec_def wf_table_def newDatagramCodec_def fragment_consts)
  have "fragmentCount 2 = 1" by (simp add: fragmentCount_def fragment_consts)
  then have s: "codec_Send (\<lambda>_. None) [7, 8] newDatagramCodec
      = (None, [fragment_at 1 [7, 8] 0], newDatagramCodec\<lparr>nextID := 1\<rparr>)"
    by (simp add: codec_Send_def newDatagramCodec_def fragment_consts)
  have "\<exists>c'. codec_Recv ([] @ [(fragment_at 1 [7, 8] 0, 5)]) () newDatagramCodec = (Inr [7, 8], [], c')"
    by (rule Send_Recv_any_order [OF s w, of _ _ _ 0])
       (simp_all add: newDatagramCodec_def fragment_consts)
  with s show ?thesis by blast
qed

end
