(* ===== verification/Flowmux.thy ===== *)
theory Flowmux
  imports Gomap "HOL-Library.Multiset"
begin

text \<open>
  The flow multiplexer of \<^verbatim>\<open>internal/flowmux/flowmux.go\<close>. A \<open>mux\<close> keeps its flow objects in a
  heap (the address of a flow is its position, allocation appends) because the tables hold pointers
  and \<open>remove\<close> and \<open>touch\<close> compare them. Every section of the code that runs under one lock, or is
  one channel operation, is one definition; the methods compose them in the order of the source.
  \<open>mux_step\<close> at the end interleaves those sections freely, as goroutines do.

  The channel underneath is the parameter \<open>xmit\<close>, what \<^verbatim>\<open>Config.Send\<close> answers for a frame; every
  frame handed to it is logged in \<open>sent\<close>, every call of \<^verbatim>\<open>Config.OnDrop\<close> in \<open>drops\<close>. The time of
  each section is its argument \<open>now\<close>. A method that may block takes the \<^verbatim>\<open>select\<close> case the scheduler
  picks and is \<open>None\<close> when that case is not ready. Buffers are values, so \<^verbatim>\<open>framePool\<close>, which reuses
  them, has no counterpart.
\<close>

section \<open>Constants and configuration\<close>

definition Header :: nat where "Header = 5"
definition inboundBacklog :: nat where "inboundBacklog = 64"
definition flowQueue :: nat where "flowQueue = 64"
definition defaultFINRetryInterval :: duration where "defaultFINRetryInterval = second"
definition defaultFINRetryCount :: int where "defaultFINRetryCount = 3"
definition defaultIdleTimeout :: duration where "defaultIdleTimeout = 2 * (60 * second)"
definition defaultTombstoneTTL :: duration where "defaultTombstoneTTL = 60 * second"
definition defaultMaxPending :: int where "defaultMaxPending = 1024"
definition defaultMaxTombstones :: int where "defaultMaxTombstones = 1024"

lemmas mux_consts = Header_def inboundBacklog_def flowQueue_def defaultFINRetryInterval_def
  defaultFINRetryCount_def defaultIdleTimeout_def defaultTombstoneTTL_def defaultMaxPending_def
  defaultMaxTombstones_def second_def

definition frameData :: byte where "frameData = 0"
definition frameFIN :: byte where "frameFIN = 1"
definition frameFINAck :: byte where "frameFINAck = 2"

lemmas frame_kinds = frameData_def frameFIN_def frameFINAck_def

record muxConfig =
  Dialing :: bool
  FINRetryInterval :: duration
  FINRetryCount :: int
  IdleTimeout :: duration
  TombstoneTTL :: duration
  MaxPending :: int
  MaxTombstones :: int

definition finRetryInterval :: "muxConfig \<Rightarrow> duration" where
  "finRetryInterval c = (if FINRetryInterval c > 0 then FINRetryInterval c else defaultFINRetryInterval)"

definition finRetryCount :: "muxConfig \<Rightarrow> int" where
  "finRetryCount c = (if FINRetryCount c > 0 then FINRetryCount c else defaultFINRetryCount)"

definition idleTimeout :: "muxConfig \<Rightarrow> duration" where
  "idleTimeout c = (if IdleTimeout c > 0 then IdleTimeout c else defaultIdleTimeout)"

definition tombstoneTTL :: "muxConfig \<Rightarrow> duration" where
  "tombstoneTTL c = (if TombstoneTTL c > 0 then TombstoneTTL c else defaultTombstoneTTL)"

definition maxPending :: "muxConfig \<Rightarrow> int" where
  "maxPending c = (if MaxPending c > 0 then MaxPending c else defaultMaxPending)"

definition maxTombstones :: "muxConfig \<Rightarrow> int" where
  "maxTombstones c = (if MaxTombstones c > 0 then MaxTombstones c else defaultMaxTombstones)"

lemmas mux_getters = finRetryInterval_def finRetryCount_def idleTimeout_def tombstoneTTL_def
  maxPending_def maxTombstones_def

section \<open>State\<close>

record flow =
  flow_id :: u32
  packets :: "byte list list"
  flow_closed :: bool
  flow_err :: "io_error option"
  lastActivity :: gtime

record pendingFIN =
  pend_next :: gtime
  retries :: int

type_synonym addr = nat

record mux =
  cfg :: muxConfig
  heap :: "flow list"
  flows :: "(u32, addr) gomap"
  pending :: "(u32, pendingFIN) gomap"
  tombstones :: "(u32, gtime) gomap"
  next_id :: u32
  mux_closed :: bool
  inbound :: "addr list"
  recvDone :: bool
  recvErr :: "io_error option"
  maintStopped :: bool
  closeCalled :: bool
  sent :: "byte list list"
  drops :: "(u32 \<times> string) list"

definition mux_New :: "muxConfig \<Rightarrow> mux" where
  "mux_New c = \<lparr>cfg = c, heap = [], flows = [], pending = [], tombstones = [],
     next_id = (if Dialing c then 0 else 1), mux_closed = False, inbound = [], recvDone = False,
     recvErr = None, maintStopped = False, closeCalled = False, sent = [], drops = []\<rparr>"

definition newFlow :: "u32 \<Rightarrow> gtime \<Rightarrow> flow" where
  "newFlow k now = \<lparr>flow_id = k, packets = [], flow_closed = False, flow_err = None, lastActivity = now\<rparr>"

definition alloc :: "flow \<Rightarrow> mux \<Rightarrow> addr \<times> mux" where
  "alloc f m = (length (heap m), m\<lparr>heap := heap m @ [f]\<rparr>)"

definition upd_flow :: "addr \<Rightarrow> (flow \<Rightarrow> flow) \<Rightarrow> mux \<Rightarrow> mux" where
  "upd_flow a g m = m\<lparr>heap := (heap m)[a := g (heap m ! a)]\<rparr>"

section \<open>Sections under one lock\<close>

definition sendFrame :: "(byte list \<Rightarrow> io_error option) \<Rightarrow> byte list \<Rightarrow> mux \<Rightarrow> io_error option \<times> mux" where
  "sendFrame xmit frame m = (xmit frame, m\<lparr>sent := sent m @ [frame]\<rparr>)"

definition control_frame :: "u32 \<Rightarrow> byte \<Rightarrow> byte list" where
  "control_frame k kind = PutUint32 k @ [kind]"

definition sendControl :: "(byte list \<Rightarrow> io_error option) \<Rightarrow> u32 \<Rightarrow> byte \<Rightarrow> mux \<Rightarrow> io_error option \<times> mux" where
  "sendControl xmit k kind m = sendFrame xmit (control_frame k kind) m"

definition mux_OpenStream :: "gtime \<Rightarrow> mux \<Rightarrow> (io_error + addr) \<times> mux" where
  "mux_OpenStream now m =
     (if mux_closed m then (Inl ErrClosed, m)
      else let k = next_id m;
               (a, m1) = alloc (newFlow k now) (m\<lparr>next_id := next_id m + 2\<rparr>)
           in (Inr a, m1\<lparr>flows := AList.update k a (flows m1)\<rparr>))"

definition lookupOrCreate :: "u32 \<Rightarrow> gtime \<Rightarrow> mux \<Rightarrow> (addr option \<times> bool) \<times> mux" where
  "lookupOrCreate k now m =
     (if mux_closed m then ((None, False), m)
      else case map_of (flows m) k of
        Some a \<Rightarrow> ((Some a, False), m)
      | None \<Rightarrow>
          if map_of (tombstones m) k \<noteq> None then ((None, False), m)
          else if (k AND 1 = 0) = Dialing (cfg m) then ((None, False), m)
          else let (a, m1) = alloc (newFlow k now) m
               in ((Some a, True), m1\<lparr>flows := AList.update k a (flows m1)\<rparr>))"

definition stopped :: "mux \<Rightarrow> bool" where
  "stopped m = mux_closed m"

definition tombstoned :: "u32 \<Rightarrow> mux \<Rightarrow> bool" where
  "tombstoned k m \<longleftrightarrow> map_of (tombstones m) k \<noteq> None"

definition take_flow :: "u32 \<Rightarrow> mux \<Rightarrow> addr option \<times> mux" where
  "take_flow k m =
     (case map_of (flows m) k of
        None \<Rightarrow> (None, m)
      | Some a \<Rightarrow> (Some a, m\<lparr>flows := AList.delete k (flows m)\<rparr>))"

text \<open>The loop that evicts deletes one entry and breaks: the first in iteration order.\<close>

definition addTombstoneLocked :: "u32 \<Rightarrow> gtime \<Rightarrow> mux \<Rightarrow> mux" where
  "addTombstoneLocked k until m =
     (let ts = (if map_of (tombstones m) k = None \<and> int (length (tombstones m)) \<ge> maxTombstones (cfg m)
                then (case tombstones m of [] \<Rightarrow> [] | (evict, _) # _ \<Rightarrow> AList.delete evict (tombstones m))
                else tombstones m)
      in m\<lparr>tombstones := AList.update k until ts\<rparr>)"

definition takeAndTombstone :: "u32 \<Rightarrow> gtime \<Rightarrow> mux \<Rightarrow> addr option \<times> mux" where
  "takeAndTombstone k now m =
     (let m1 = addTombstoneLocked k (now + tombstoneTTL (cfg m)) m
      in (map_of (flows m1) k, m1\<lparr>flows := AList.delete k (flows m1)\<rparr>))"

definition acknowledgeFIN :: "u32 \<Rightarrow> mux \<Rightarrow> mux" where
  "acknowledgeFIN k m = m\<lparr>pending := AList.delete k (pending m)\<rparr>"

definition registerFIN :: "u32 \<Rightarrow> gtime \<Rightarrow> mux \<Rightarrow> mux" where
  "registerFIN k now m =
     (if \<not> mux_closed m \<and> int (length (pending m)) < maxPending (cfg m)
      then m\<lparr>pending := AList.update k
               \<lparr>pend_next = now + finRetryInterval (cfg m), retries = 0\<rparr> (pending m)\<rparr>
      else m)"

definition beginFIN :: "(byte list \<Rightarrow> io_error option) \<Rightarrow> u32 \<Rightarrow> gtime \<Rightarrow> mux \<Rightarrow> io_error option \<times> mux" where
  "beginFIN xmit k now m = sendControl xmit k frameFIN (registerFIN k now m)"

definition mux_remove :: "addr \<Rightarrow> mux \<Rightarrow> mux" where
  "mux_remove a m =
     (let k = flow_id (heap m ! a)
      in if map_of (flows m) k = Some a then m\<lparr>flows := AList.delete k (flows m)\<rparr> else m)"

definition mux_touch :: "addr \<Rightarrow> gtime \<Rightarrow> mux \<Rightarrow> mux" where
  "mux_touch a now m =
     (if map_of (flows m) (flow_id (heap m ! a)) = Some a
      then upd_flow a (\<lambda>f. f\<lparr>lastActivity := now\<rparr>) m else m)"

section \<open>Flows\<close>

definition flow_shut :: "io_error \<Rightarrow> addr \<Rightarrow> mux \<Rightarrow> mux" where
  "flow_shut cause a m =
     upd_flow a (\<lambda>f. if flow_closed f then f else f\<lparr>flow_err := Some cause, flow_closed := True\<rparr>) m"

definition enqueue :: "byte list \<Rightarrow> addr \<Rightarrow> mux \<Rightarrow> mux" where
  "enqueue payload a m =
     upd_flow a (\<lambda>f. if length (packets f) < flowQueue then f\<lparr>packets := packets f @ [payload]\<rparr> else f) m"

definition flow_deliver :: "gtime \<Rightarrow> byte list \<Rightarrow> addr \<Rightarrow> mux \<Rightarrow> mux" where
  "flow_deliver now payload a m = enqueue payload a (mux_touch a now m)"

datatype recv_case = OnPackets | OnClosed

definition flow_recv :: "recv_case \<Rightarrow> addr \<Rightarrow> mux \<Rightarrow> ((io_error option + byte list) \<times> mux) option" where
  "flow_recv sel a m =
     (let f = heap m ! a;
          pop = (\<lambda>p ps. Some (Inr p, upd_flow a (\<lambda>f. f\<lparr>packets := ps\<rparr>) m))
      in case sel of
           OnPackets \<Rightarrow> (case packets f of [] \<Rightarrow> None | p # ps \<Rightarrow> pop p ps)
         | OnClosed \<Rightarrow>
             if \<not> flow_closed f then None
             else (case packets f of [] \<Rightarrow> Some (Inl (flow_err f), m) | p # ps \<Rightarrow> pop p ps))"

definition data_frame :: "u32 \<Rightarrow> byte list \<Rightarrow> byte list" where
  "data_frame k payload = PutUint32 k @ [frameData] @ payload"

definition flow_send ::
  "(byte list \<Rightarrow> io_error option) \<Rightarrow> gtime \<Rightarrow> byte list \<Rightarrow> addr \<Rightarrow> mux \<Rightarrow> io_error option \<times> mux" where
  "flow_send xmit now payload a m =
     (if flow_closed (heap m ! a) then (Some ErrClosed, m)
      else case sendFrame xmit (data_frame (flow_id (heap m ! a)) payload) m of
             (Some e, m1) \<Rightarrow> (Some e, m1)
           | (None, m1) \<Rightarrow> (None, mux_touch a now m1))"

definition flow_close ::
  "(byte list \<Rightarrow> io_error option) \<Rightarrow> gtime \<Rightarrow> addr \<Rightarrow> mux \<Rightarrow> io_error option \<times> mux" where
  "flow_close xmit now a m =
     (if flow_closed (heap m ! a) then (None, m)
      else beginFIN xmit (flow_id (heap m ! a)) now (mux_remove a (flow_shut ErrClosed a m)))"

section \<open>The receive loop\<close>

definition on_drop :: "u32 \<Rightarrow> string \<Rightarrow> mux \<Rightarrow> mux" where
  "on_drop k reason m = m\<lparr>drops := drops m @ [(k, reason)]\<rparr>"

definition offer :: "addr \<Rightarrow> mux \<Rightarrow> mux" where
  "offer a m = m\<lparr>inbound := inbound m @ [a]\<rparr>"

definition mux_handle :: "(byte list \<Rightarrow> io_error option) \<Rightarrow> gtime \<Rightarrow> byte list \<Rightarrow> mux \<Rightarrow> mux" where
  "mux_handle xmit now msg m =
     (if length msg < Header then m
      else let k = Uint32 (take 4 msg); kind = msg ! 4; payload = drop Header msg in
        if kind = frameFIN then
          (if payload \<noteq> [] then m
           else case takeAndTombstone k now m of (f, m1) \<Rightarrow>
             let m2 = (case f of None \<Rightarrow> m1 | Some a \<Rightarrow> flow_shut EOF a m1)
             in snd (sendControl xmit k frameFINAck m2))
        else if kind = frameFINAck then (if payload = [] then acknowledgeFIN k m else m)
        else if kind = frameData then
          (if payload = [] then m
           else case lookupOrCreate k now m of
             ((None, _), m1) \<Rightarrow>
               if stopped m1 then m1
               else if tombstoned k m1 then m1
               else on_drop k ''flow ID in local namespace'' m1
           | ((Some a, fresh), m1) \<Rightarrow>
               if fresh \<and> length (inbound m1) \<ge> inboundBacklog
               then on_drop k ''accept backlog full'' (mux_remove a m1)
               else flow_deliver now payload a (if fresh then offer a m1 else m1))
        else m)"

definition stopMaintenance :: "mux \<Rightarrow> mux" where
  "stopMaintenance m = m\<lparr>maintStopped := True\<rparr>"

definition clear_tables :: "mux \<Rightarrow> mux" where
  "clear_tables m = m\<lparr>mux_closed := True, flows := [], pending := [], tombstones := []\<rparr>"

definition shutAll :: "io_error \<Rightarrow> mux \<Rightarrow> mux" where
  "shutAll cause m = fold (flow_shut cause) (map snd (flows m)) (clear_tables m)"

definition mux_Close :: "mux \<Rightarrow> mux" where
  "mux_Close m = (if closeCalled m then m
     else shutAll ErrClosed (stopMaintenance (m\<lparr>closeCalled := True\<rparr>)))"

definition finish_receive :: "io_error \<Rightarrow> mux \<Rightarrow> mux" where
  "finish_receive err m = m\<lparr>recvErr := Some err\<rparr>"

fun mux_receive :: "(byte list \<Rightarrow> io_error option) \<Rightarrow> (byte list \<times> gtime) list \<Rightarrow> io_error \<Rightarrow> mux \<Rightarrow> mux" where
  "mux_receive xmit [] err m =
     (shutAll err (stopMaintenance (finish_receive err m)))\<lparr>recvDone := True\<rparr>"
| "mux_receive xmit ((msg, now) # msgs) err m =
     mux_receive xmit msgs err (if length msg < Header then m else mux_handle xmit now msg m)"

datatype accept_case = OnInbound | OnCtx | OnRecvDone

datatype accept_error = AcceptCtx | AcceptRecv io_error | AcceptClosed

definition mux_AcceptStream ::
  "accept_case \<Rightarrow> bool \<Rightarrow> mux \<Rightarrow> ((accept_error + addr) \<times> mux) option" where
  "mux_AcceptStream sel ctx_done m =
     (case sel of
        OnInbound \<Rightarrow> (case inbound m of [] \<Rightarrow> None | a # as \<Rightarrow> Some (Inr a, m\<lparr>inbound := as\<rparr>))
      | OnCtx \<Rightarrow> if ctx_done then Some (Inl AcceptCtx, m) else None
      | OnRecvDone \<Rightarrow>
          if \<not> recvDone m then None
          else (case inbound m of
                  a # as \<Rightarrow> Some (Inr a, m\<lparr>inbound := as\<rparr>)
                | [] \<Rightarrow> (case recvErr m of
                           Some e \<Rightarrow> Some (Inl (AcceptRecv e), m)
                         | None \<Rightarrow> Some (Inl AcceptClosed, m))))"

section \<open>Maintenance\<close>

fun maint_pending :: "muxConfig \<Rightarrow> gtime \<Rightarrow> (u32, pendingFIN) gomap \<Rightarrow> (u32, pendingFIN) gomap \<times> u32 list" where
  "maint_pending c now [] = ([], [])"
| "maint_pending c now ((k, p) # ps) =
     (case maint_pending c now ps of (ps', retry) \<Rightarrow>
        if now < pend_next p then ((k, p) # ps', retry)
        else if retries p \<ge> finRetryCount c then (ps', retry)
        else ((k, p\<lparr>retries := retries p + 1, pend_next := now + finRetryInterval c\<rparr>) # ps', k # retry))"

fun maint_flows :: "gtime \<Rightarrow> (u32, addr) gomap \<Rightarrow> mux \<Rightarrow> addr list \<times> mux" where
  "maint_flows now [] m = ([], m)"
| "maint_flows now ((k, a) # fs) m =
     (if now - lastActivity (heap m ! a) \<ge> idleTimeout (cfg m)
      then let m1 = addTombstoneLocked k (now + tombstoneTTL (cfg m))
                      (m\<lparr>flows := AList.delete k (flows m)\<rparr>);
               m2 = (if int (length (pending m1)) < maxPending (cfg m1)
                     then m1\<lparr>pending := AList.update k
                            \<lparr>pend_next = now + finRetryInterval (cfg m1), retries = 0\<rparr> (pending m1)\<rparr>
                     else m1)
           in case maint_flows now fs m2 of (idle, m3) \<Rightarrow> (a # idle, m3)
      else maint_flows now fs m)"

definition maint_locked :: "gtime \<Rightarrow> mux \<Rightarrow> (addr list \<times> u32 list) \<times> mux" where
  "maint_locked now m =
     (let m1 = m\<lparr>tombstones := filter (\<lambda>(k, until). now < until) (tombstones m)\<rparr>;
          (ps, retry) = maint_pending (cfg m1) now (pending m1);
          (idle, m2) = maint_flows now (flows m1) (m1\<lparr>pending := ps\<rparr>)
      in ((idle, retry), m2))"

definition maintenance :: "(byte list \<Rightarrow> io_error option) \<Rightarrow> gtime \<Rightarrow> mux \<Rightarrow> mux" where
  "maintenance xmit now m =
     (if mux_closed m then m
      else case maint_locked now m of ((idle, retry), m1) \<Rightarrow>
        let m2 = fold (\<lambda>a m. snd (sendControl xmit (flow_id (heap m ! a)) frameFIN
                                     (flow_shut ErrClosed a m))) idle m1
        in fold (\<lambda>k m. snd (sendControl xmit k frameFIN m)) retry m2)"

definition maintain_interval :: "muxConfig \<Rightarrow> duration" where
  "maintain_interval c =
     (let interval = finRetryInterval c; idle = idleTimeout c div 2
      in if idle > 0 \<and> idle < interval then idle else interval)"

text \<open>The maintenance goroutine: one run per tick until \<open>stopMaintenance\<close> closed its channel.\<close>

definition maintain :: "(byte list \<Rightarrow> io_error option) \<Rightarrow> gtime list \<Rightarrow> mux \<Rightarrow> mux" where
  "maintain xmit ticks m = fold (\<lambda>now m. if maintStopped m then m else maintenance xmit now m) ticks m"

section \<open>The invariant\<close>

text \<open>The half of the identifier space this side allocates.\<close>

definition own :: "muxConfig \<Rightarrow> u32 \<Rightarrow> bool" where
  "own c k \<longleftrightarrow> (k AND 1 = 0) = Dialing c"

definition first_id :: "muxConfig \<Rightarrow> u32" where
  "first_id c = (if Dialing c then 0 else 1)"

definition own_ids :: "mux \<Rightarrow> u32 list" where
  "own_ids m = filter (own (cfg m)) (map flow_id (heap m))"

definition wf_flow :: "flow \<Rightarrow> bool" where
  "wf_flow f \<longleftrightarrow> length (packets f) \<le> flowQueue \<and> (flow_closed f \<longleftrightarrow> flow_err f \<noteq> None)"

definition tables_inv :: "mux \<Rightarrow> bool" where
  "tables_inv m \<longleftrightarrow>
     wf_gomap (flows m) \<and> wf_gomap (pending m) \<and> wf_gomap (tombstones m)
     \<and> int (length (pending m)) \<le> maxPending (cfg m)
     \<and> int (length (tombstones m)) \<le> maxTombstones (cfg m)
     \<and> (\<forall>(k, a) \<in> set (flows m). a < length (heap m) \<and> flow_id (heap m ! a) = k)
     \<and> (mux_closed m \<longrightarrow> flows m = [] \<and> pending m = [])"

definition queues_inv :: "mux \<Rightarrow> bool" where
  "queues_inv m \<longleftrightarrow>
     (\<forall>f \<in> set (heap m). wf_flow f) \<and> length (inbound m) \<le> inboundBacklog
     \<and> (\<forall>a \<in> set (inbound m). a < length (heap m) \<and> \<not> own (cfg m) (flow_id (heap m ! a)))"

definition ids_inv :: "mux \<Rightarrow> bool" where
  "ids_inv m \<longleftrightarrow>
     own_ids m = map (\<lambda>i. first_id (cfg m) + 2 * word_of_nat i) [0..<length (own_ids m)]
     \<and> next_id m = first_id (cfg m) + 2 * word_of_nat (length (own_ids m))"

definition mux_inv :: "mux \<Rightarrow> bool" where
  "mux_inv m \<longleftrightarrow> tables_inv m \<and> queues_inv m \<and> ids_inv m"

lemmas mux_inv_defs = mux_inv_def tables_inv_def queues_inv_def ids_inv_def

lemma max_pos: "0 < maxPending c" "0 < maxTombstones c"
  by (auto simp: mux_getters mux_consts)

lemma own_iff_even: "own c k \<longleftrightarrow> even k = Dialing c"
  by (simp add: own_def and_one_eq even_iff_mod_2_eq_zero)

lemma own_first: "own c (first_id c + 2 * w)"
  by (simp add: own_iff_even first_id_def)

lemma mux_New_inv: "mux_inv (mux_New c)"
  using max_pos [of c]
  by (simp add: mux_inv_defs mux_New_def own_ids_def first_id_def)

subsection \<open>Heap updates\<close>

definition keeps_flow :: "(flow \<Rightarrow> flow) \<Rightarrow> bool" where
  "keeps_flow g \<longleftrightarrow> (\<forall>f. wf_flow f \<longrightarrow> wf_flow (g f)) \<and> (\<forall>f. flow_id (g f) = flow_id f)"

lemma map_flow_id_upd:
  assumes "\<forall>f. flow_id (g f) = flow_id f"
  shows "map flow_id (heap (upd_flow a g m)) = map flow_id (heap m)"
  using assms by (auto simp: upd_flow_def map_update list_update_id intro!: nth_equalityI)
    (metis list_update_beyond list_update_id length_map nth_list_update nth_map not_le)

lemma upd_flow_frame [frame_simps]:
  "cfg (upd_flow a g m) = cfg m" "flows (upd_flow a g m) = flows m"
  "pending (upd_flow a g m) = pending m" "tombstones (upd_flow a g m) = tombstones m"
  "next_id (upd_flow a g m) = next_id m" "mux_closed (upd_flow a g m) = mux_closed m"
  "inbound (upd_flow a g m) = inbound m" "sent (upd_flow a g m) = sent m"
  "drops (upd_flow a g m) = drops m" "length (heap (upd_flow a g m)) = length (heap m)"
  "recvDone (upd_flow a g m) = recvDone m" "recvErr (upd_flow a g m) = recvErr m"
  "maintStopped (upd_flow a g m) = maintStopped m" "closeCalled (upd_flow a g m) = closeCalled m"
  by (simp_all add: upd_flow_def)

lemma upd_flow_nth:
  "b < length (heap m) \<Longrightarrow> heap (upd_flow a g m) ! b = (if a = b then g (heap m ! b) else heap m ! b)"
  by (simp add: upd_flow_def nth_list_update)

lemma upd_flow_id:
  assumes "\<forall>f. flow_id (g f) = flow_id f" "b < length (heap m)"
  shows "flow_id (heap (upd_flow a g m) ! b) = flow_id (heap m ! b)"
  using assms by (simp add: upd_flow_nth)

lemma upd_flow_inv:
  assumes "mux_inv m" "keeps_flow g"
  shows "mux_inv (upd_flow a g m)"
proof -
  have g: "\<forall>f. flow_id (g f) = flow_id f" "\<And>f. wf_flow f \<Longrightarrow> wf_flow (g f)"
    using assms(2) by (auto simp: keeps_flow_def)
  have "own_ids (upd_flow a g m) = own_ids m"
    by (simp add: own_ids_def frame_simps map_flow_id_upd [OF g(1)])
  then have "ids_inv (upd_flow a g m)"
    using assms(1) by (simp add: mux_inv_defs frame_simps)
  moreover have "tables_inv (upd_flow a g m)"
    using assms(1) by (auto simp: mux_inv_defs frame_simps upd_flow_id [OF g(1)])
  moreover have "\<forall>f \<in> set (heap (upd_flow a g m)). wf_flow f"
  proof
    fix f assume "f \<in> set (heap (upd_flow a g m))"
    then obtain b where "b < length (heap m)" "f = heap (upd_flow a g m) ! b"
      by (auto simp: in_set_conv_nth frame_simps)
    then show "wf_flow f"
      using assms(1) g(2) by (auto simp: mux_inv_defs upd_flow_nth)
  qed
  ultimately show ?thesis
    using assms(1) by (auto simp: mux_inv_defs frame_simps upd_flow_id [OF g(1)])
qed

lemma flow_shut_inv: "mux_inv m \<Longrightarrow> mux_inv (flow_shut cause a m)"
  unfolding flow_shut_def by (rule upd_flow_inv) (auto simp: keeps_flow_def wf_flow_def)

lemma enqueue_inv: "mux_inv m \<Longrightarrow> mux_inv (enqueue p a m)"
  unfolding enqueue_def by (rule upd_flow_inv) (auto simp: keeps_flow_def wf_flow_def)

lemma mux_touch_inv: "mux_inv m \<Longrightarrow> mux_inv (mux_touch a now m)"
  unfolding mux_touch_def by (auto intro!: upd_flow_inv simp: keeps_flow_def wf_flow_def)

lemma flow_recv_inv:
  assumes "mux_inv m" "a < length (heap m)" "flow_recv sel a m = Some (r, m')"
  shows "mux_inv m'"
proof -
  have "wf_flow (heap m ! a)" using assms(1,2) by (simp add: mux_inv_defs)
  then have l: "packets (heap m ! a) = p # ps \<Longrightarrow> length ps \<le> flowQueue" for p ps
    by (simp add: wf_flow_def)
  have "m' = m \<or> (\<exists>p ps. packets (heap m ! a) = p # ps \<and> m' = upd_flow a (\<lambda>f. f\<lparr>packets := ps\<rparr>) m)"
    using assms(3) by (auto simp: flow_recv_def Let_def split: recv_case.splits list.splits if_splits)
  then show ?thesis
    using assms(1) l by (auto intro!: upd_flow_inv simp: keeps_flow_def wf_flow_def)
qed

subsection \<open>Table updates\<close>

text \<open>A state that differs only in its tables, and whose tables are fine, keeps the invariant.\<close>

lemma mux_inv_tables:
  assumes "mux_inv m" "tables_inv m'" "heap m' = heap m" "cfg m' = cfg m" "inbound m' = inbound m"
    "next_id m' = next_id m"
  shows "mux_inv m'"
  using assms by (simp add: mux_inv_def queues_inv_def ids_inv_def own_ids_def)

lemma delete_flow_inv:
  assumes "mux_inv m"
  shows "mux_inv (m\<lparr>flows := AList.delete k (flows m)\<rparr>)"
  using assms
  by (intro mux_inv_tables [OF assms]) (auto simp: mux_inv_def tables_inv_def set_AList_delete gm.ok_del)

lemma mux_remove_inv: "mux_inv m \<Longrightarrow> mux_inv (mux_remove a m)"
  by (simp add: mux_remove_def Let_def delete_flow_inv)

lemma acknowledgeFIN_inv:
  assumes "mux_inv m"
  shows "mux_inv (acknowledgeFIN k m)"
proof -
  have "wf_gomap (pending m)" using assms by (simp add: mux_inv_defs)
  then have "length (AList.delete k (pending m)) \<le> length (pending m)" by (rule gm.len_del_le)
  then show ?thesis
    unfolding acknowledgeFIN_def using assms
    by (intro mux_inv_tables [OF assms]) (auto simp: mux_inv_def tables_inv_def gm.ok_del)
qed

lemma put_pending_inv:
  assumes "mux_inv m" "\<not> mux_closed m" "int (length (pending m)) < maxPending (cfg m)"
  shows "mux_inv (m\<lparr>pending := AList.update k p (pending m)\<rparr>)"
  using assms gm.len_put_le [of k p "pending m"]
  by (intro mux_inv_tables [OF assms(1)]) (auto simp: mux_inv_def tables_inv_def gm.ok_put)

lemma registerFIN_inv: "mux_inv m \<Longrightarrow> mux_inv (registerFIN k now m)"
  by (simp add: registerFIN_def put_pending_inv)

lemma addTombstone_table:
  fixes ts :: "(u32, gtime) gomap" and k :: u32 and c :: int
  assumes "wf_gomap ts" "int (length ts) \<le> c" "0 < c"
  defines "ts' \<equiv> (if map_of ts k = None \<and> int (length ts) \<ge> c
                then (case ts of [] \<Rightarrow> [] | (evict, _) # _ \<Rightarrow> AList.delete evict ts) else ts)"
  shows "wf_gomap (AList.update k v ts') \<and> int (length (AList.update k v ts')) \<le> c"
proof (cases "map_of ts k = None \<and> int (length ts) \<ge> c")
  case True
  then obtain j u us where ts: "ts = (j, u) # us" using assms(3) by (cases ts) auto
  then have "length (AList.update k v (AList.delete j ts)) \<le> nat c"
    using assms(1,2) by (intro gm.len_evict_put) auto
  then show ?thesis
    using True ts assms(1,3) by (simp add: ts'_def gm.ok_put gm.ok_del)
next
  case False
  then have "length (AList.update k v ts) \<le> nat c"
    using assms(2) by (intro gm.len_put_cap) auto
  moreover have "ts' = ts" using False by (auto simp: ts'_def)
  ultimately show ?thesis using assms(1,3) by (simp add: gm.ok_put)
qed

lemma addTombstoneLocked_frame [frame_simps]:
  "flows (addTombstoneLocked k u m) = flows m" "pending (addTombstoneLocked k u m) = pending m"
  "heap (addTombstoneLocked k u m) = heap m" "cfg (addTombstoneLocked k u m) = cfg m"
  "inbound (addTombstoneLocked k u m) = inbound m" "next_id (addTombstoneLocked k u m) = next_id m"
  "mux_closed (addTombstoneLocked k u m) = mux_closed m" "sent (addTombstoneLocked k u m) = sent m"
  by (simp_all add: addTombstoneLocked_def Let_def)

lemma addTombstoneLocked_inv:
  assumes "mux_inv m"
  shows "mux_inv (addTombstoneLocked k u m)"
  using addTombstone_table [of "tombstones m" "maxTombstones (cfg m)" k u] max_pos(2) [of "cfg m"] assms
  by (intro mux_inv_tables [OF assms]) (auto simp: mux_inv_def tables_inv_def addTombstoneLocked_def Let_def)

lemma addTombstoneLocked_get: "map_of (tombstones (addTombstoneLocked k u m)) k = Some u"
  by (simp add: addTombstoneLocked_def Let_def gm.get_put)

lemma takeAndTombstone_inv: "mux_inv m \<Longrightarrow> mux_inv (snd (takeAndTombstone k now m))"
  by (simp add: takeAndTombstone_def Let_def delete_flow_inv addTombstoneLocked_inv)

subsection \<open>Allocation\<close>

lemma alloc_inv:
  assumes m: "mux_inv m" and nc: "\<not> mux_closed m"
    and k: "if own (cfg m) k then k = next_id m \<and> nx = next_id m + 2 else nx = next_id m"
  shows "mux_inv (m\<lparr>next_id := nx, heap := heap m @ [newFlow k now],
                     flows := AList.update k (length (heap m)) (flows m)\<rparr>)" (is "mux_inv ?m")
proof -
  have "tables_inv ?m"
    using m nc by (auto simp: mux_inv_defs gm.ok_put set_AList_update nth_append newFlow_def)
  moreover have "queues_inv ?m"
    using m by (auto simp: mux_inv_defs newFlow_def wf_flow_def nth_append)
  moreover have "ids_inv ?m"
    using m k by (cases "own (cfg m) k") (simp_all add: mux_inv_defs own_ids_def newFlow_def algebra_simps)
  ultimately show ?thesis by (simp add: mux_inv_def)
qed

lemma mux_OpenStream_eq:
  "\<not> mux_closed m \<Longrightarrow> mux_OpenStream now m = (Inr (length (heap m)),
     m\<lparr>next_id := next_id m + 2, heap := heap m @ [newFlow (next_id m) now],
       flows := AList.update (next_id m) (length (heap m)) (flows m)\<rparr>)"
  by (simp add: mux_OpenStream_def alloc_def Let_def)

lemma mux_OpenStream_inv:
  assumes "mux_inv m"
  shows "mux_inv (snd (mux_OpenStream now m))"
proof (cases "mux_closed m")
  case False
  have "own (cfg m) (next_id m)" using assms own_first by (simp add: mux_inv_defs)
  then show ?thesis using False alloc_inv [OF assms False] by (simp add: mux_OpenStream_eq)
qed (simp add: mux_OpenStream_def assms)

lemma lookupOrCreate_cases [consumes 1, case_names found refused fresh]:
  assumes "lookupOrCreate k now m = ((f, fresh), m')"
  obtains a where "\<not> mux_closed m" "map_of (flows m) k = Some a" "f = Some a" "\<not> fresh" "m' = m"
  | "f = None" "\<not> fresh" "m' = m" "mux_closed m \<or> map_of (flows m) k = None \<and> (tombstoned k m \<or> own (cfg m) k)"
  | "\<not> mux_closed m" "map_of (flows m) k = None" "\<not> tombstoned k m" "\<not> own (cfg m) k"
    "f = Some (length (heap m))" "fresh"
    "m' = m\<lparr>heap := heap m @ [newFlow k now], flows := AList.update k (length (heap m)) (flows m)\<rparr>"
  using assms
  by (auto simp: lookupOrCreate_def alloc_def Let_def tombstoned_def own_def split: if_splits option.splits)

lemma lookupOrCreate_inv: "mux_inv m \<Longrightarrow> mux_inv (snd (lookupOrCreate k now m))"
proof -
  assume m: "mux_inv m"
  obtain f fresh m' where l: "lookupOrCreate k now m = ((f, fresh), m')"
    by (metis prod.exhaust)
  then show ?thesis
  proof (cases rule: lookupOrCreate_cases)
    case fresh
    then show ?thesis using alloc_inv [OF m fresh(1), of k "next_id m" now] l by simp
  qed (use m l in auto)
qed

subsection \<open>Maintenance\<close>

lemma maint_pending_keys:
  assumes "maint_pending c now ps = (ps', retry)"
  shows "fst ` set ps' \<subseteq> fst ` set ps" "length ps' \<le> length ps" "wf_gomap ps \<Longrightarrow> wf_gomap ps'"
proof -
  have "fst ` set ps' \<subseteq> fst ` set ps \<and> length ps' \<le> length ps \<and> (wf_gomap ps \<longrightarrow> wf_gomap ps')"
    using assms
  proof (induction ps arbitrary: ps' retry)
    case (Cons x ps)
    obtain k p where x: "x = (k, p)" by (cases x)
    obtain qs rs where q: "maint_pending c now ps = (qs, rs)" by (metis prod.exhaust)
    have "ps' = qs \<or> (\<exists>p'. ps' = (k, p') # qs)"
      using Cons.prems by (auto simp: x q split: if_splits)
    then show ?case using Cons.IH [OF q] by (elim disjE exE) (auto simp: x subset_iff image_iff Bex_def)
  qed simp
  then show "fst ` set ps' \<subseteq> fst ` set ps" "length ps' \<le> length ps" "wf_gomap ps \<Longrightarrow> wf_gomap ps'"
    by blast+
qed

lemma maint_flows_inv:
  "mux_inv m \<Longrightarrow> \<not> mux_closed m \<Longrightarrow> mux_inv (snd (maint_flows now fs m))"
proof (induction now fs m rule: maint_flows.induct)
  case (2 now k a fs m)
  let ?m1 = "addTombstoneLocked k (now + tombstoneTTL (cfg m)) (m\<lparr>flows := AList.delete k (flows m)\<rparr>)"
  let ?m2 = "if int (length (pending ?m1)) < maxPending (cfg ?m1)
      then ?m1\<lparr>pending := AList.update k \<lparr>pend_next = now + finRetryInterval (cfg ?m1), retries = 0\<rparr>
              (pending ?m1)\<rparr> else ?m1"
  have c1: "\<not> mux_closed ?m1" using "2.prems" by (simp add: frame_simps)
  have "mux_inv ?m1" using "2.prems" by (intro addTombstoneLocked_inv delete_flow_inv)
  then have "mux_inv ?m2" "\<not> mux_closed ?m2" using c1 put_pending_inv [of ?m1] by auto
  with "2.IH"(1) [OF _ refl refl] "2.IH"(2) "2.prems" show ?case
    by (simp add: Let_def split_beta)
qed simp

lemma maint_locked_inv:
  assumes "mux_inv m" "\<not> mux_closed m"
  shows "mux_inv (snd (maint_locked now m))"
proof -
  obtain ps retry where ps: "maint_pending (cfg m) now (pending m) = (ps, retry)"
    by (metis prod.exhaust)
  let ?m1 = "m\<lparr>tombstones := filter (\<lambda>(k, until). now < until) (tombstones m), pending := ps\<rparr>"
  have "int (length (filter P (tombstones m))) \<le> maxTombstones (cfg m)" for P
  proof -
    have "int (length (tombstones m)) \<le> maxTombstones (cfg m)" using assms(1) by (simp add: mux_inv_defs)
    then show ?thesis using length_filter_le [of P "tombstones m"] by linarith
  qed
  then have "mux_inv ?m1"
    using assms maint_pending_keys [OF ps]
    by (intro mux_inv_tables [OF assms(1)]) (auto simp: mux_inv_def tables_inv_def distinct_map_filter)
  from maint_flows_inv [OF this, of now "flows m"] assms(2) ps show ?thesis
    by (simp add: maint_locked_def Let_def split_beta)
qed

subsection \<open>Ending the mux, accepting\<close>

lemma clear_tables_inv: "mux_inv m \<Longrightarrow> mux_inv (clear_tables m)"
  using max_pos [of "cfg m"] by (simp add: mux_inv_defs clear_tables_def own_ids_def)

lemma mux_AcceptStream_state:
  "mux_AcceptStream sel ctx m = Some (r, m') \<Longrightarrow>
   m' = m \<or> (\<exists>a as. inbound m = a # as \<and> r = Inr a \<and> m' = m\<lparr>inbound := as\<rparr>)"
  by (auto simp: mux_AcceptStream_def split: accept_case.splits list.splits option.splits if_splits)

lemma mux_AcceptStream_inv:
  assumes "mux_inv m" "mux_AcceptStream sel ctx m = Some (r, m')"
  shows "mux_inv m'"
  using mux_AcceptStream_state [OF assms(2)] assms(1)
  by (elim disjE exE) (simp_all add: mux_inv_defs own_ids_def)

lemma offer_inv:
  "mux_inv m \<Longrightarrow> a < length (heap m) \<Longrightarrow> \<not> own (cfg m) (flow_id (heap m ! a)) \<Longrightarrow>
   length (inbound m) < inboundBacklog \<Longrightarrow> mux_inv (offer a m)"
  by (auto simp: mux_inv_defs offer_def own_ids_def)

section \<open>Interleavings\<close>

text \<open>What may happen next, in any goroutine. Operations on a flow need an address of the heap; a
  channel send needs room. \<open>reorder\<close> is Go's freedom to visit a map in any order. A frame or drop
  report may be logged at any time: only its effect on the state counts here.\<close>

inductive mux_step :: "mux \<Rightarrow> mux \<Rightarrow> bool" where
  open_stream: "mux_step m (snd (mux_OpenStream now m))"
| lookup: "mux_step m (snd (lookupOrCreate k now m))"
| offer: "a < length (heap m) \<Longrightarrow> \<not> own (cfg m) (flow_id (heap m ! a)) \<Longrightarrow>
    length (inbound m) < inboundBacklog \<Longrightarrow> mux_step m (offer a m)"
| remove: "mux_step m (mux_remove a m)"
| touch: "mux_step m (mux_touch a now m)"
| shut: "mux_step m (flow_shut cause a m)"
| enqueue: "mux_step m (enqueue payload a m)"
| recv: "a < length (heap m) \<Longrightarrow> flow_recv sel a m = Some (r, m') \<Longrightarrow> mux_step m m'"
| accept: "mux_AcceptStream sel2 ctx_done m = Some (r2, m') \<Longrightarrow> mux_step m m'"
| fin: "mux_step m (snd (takeAndTombstone k now m))"
| ack: "mux_step m (acknowledgeFIN k m)"
| register: "mux_step m (registerFIN k now m)"
| send: "mux_step m (snd (sendFrame xmit frame m))"
| drop: "mux_step m (on_drop k reason m)"
| maint: "\<not> mux_closed m \<Longrightarrow> mux_step m (snd (maint_locked now m))"
| clear: "mux_step m (clear_tables m)"
| stop: "mux_step m (stopMaintenance m)"
| call_close: "mux_step m (m\<lparr>closeCalled := True\<rparr>)"
| recv_error: "mux_step m (finish_receive err m)"
| recv_done: "mux_step m (m\<lparr>recvDone := True\<rparr>)"
| reorder: "mset fs = mset (flows m) \<Longrightarrow> mset ps = mset (pending m) \<Longrightarrow> mset ts = mset (tombstones m) \<Longrightarrow>
    mux_step m (m\<lparr>flows := fs, pending := ps, tombstones := ts\<rparr>)"

inductive_cases mux_stepE: "mux_step m m'"

lemma reorder_inv:
  assumes "mux_inv m" "mset fs = mset (flows m)" "mset ps = mset (pending m)" "mset ts = mset (tombstones m)"
  shows "mux_inv (m\<lparr>flows := fs, pending := ps, tombstones := ts\<rparr>)"
proof -
  have w: "wf_gomap fs = wf_gomap (flows m)" "wf_gomap ps = wf_gomap (pending m)"
    "wf_gomap ts = wf_gomap (tombstones m)"
    using assms(2-4) by (metis mset_map mset_eq_imp_distinct_iff)+
  have l: "length ps = length (pending m)" "length ts = length (tombstones m)" "length fs = length (flows m)"
    using assms(2-4) by (metis mset_eq_length)+
  have s: "set fs = set (flows m)" using assms(2) by (metis mset_eq_setD)
  have e: "flows m = [] \<Longrightarrow> fs = []" "pending m = [] \<Longrightarrow> ps = []" using assms(2,3) by auto
  have "tables_inv m" using assms(1) by (simp add: mux_inv_def)
  then have "tables_inv (m\<lparr>flows := fs, pending := ps, tombstones := ts\<rparr>)"
    using w l s e by (simp add: tables_inv_def)
  then show ?thesis by (rule mux_inv_tables [OF assms(1)]) simp_all
qed

lemma mux_inv_frame:
  "mux_inv m \<Longrightarrow> mux_inv (m\<lparr>sent := x\<rparr>)" "mux_inv m \<Longrightarrow> mux_inv (m\<lparr>drops := y\<rparr>)"
  "mux_inv m \<Longrightarrow> mux_inv (m\<lparr>maintStopped := b\<rparr>)" "mux_inv m \<Longrightarrow> mux_inv (m\<lparr>closeCalled := b\<rparr>)"
  "mux_inv m \<Longrightarrow> mux_inv (m\<lparr>recvErr := e\<rparr>)" "mux_inv m \<Longrightarrow> mux_inv (m\<lparr>recvDone := b\<rparr>)"
  by (simp_all add: mux_inv_defs own_ids_def)

lemmas section_inv = mux_OpenStream_inv lookupOrCreate_inv offer_inv mux_remove_inv mux_touch_inv
  flow_shut_inv enqueue_inv takeAndTombstone_inv
  acknowledgeFIN_inv registerFIN_inv maint_locked_inv clear_tables_inv reorder_inv mux_inv_frame

lemma mux_step_inv: "mux_step m m' \<Longrightarrow> mux_inv m \<Longrightarrow> mux_inv m'"
proof (induction rule: mux_step.induct)
  case (recv a m sel r m')
  then show ?case by (blast intro: flow_recv_inv)
next
  case (accept sel ctx m r m')
  then show ?case by (blast intro: mux_AcceptStream_inv)
qed (simp_all add: section_inv sendFrame_def on_drop_def stopMaintenance_def finish_receive_def)

abbreviation mux_steps :: "mux \<Rightarrow> mux \<Rightarrow> bool" where
  "mux_steps \<equiv> mux_step\<^sup>*\<^sup>*"

lemma mux_steps_inv: "mux_steps m m' \<Longrightarrow> mux_inv m \<Longrightarrow> mux_inv m'"
  by (induction rule: rtranclp_induct) (auto intro: mux_step_inv)

subsection \<open>The methods are sequences of sections\<close>

lemma step_trans: "mux_step m m' \<Longrightarrow> mux_steps m' m'' \<Longrightarrow> mux_steps m m''"
  by (rule converse_rtranclp_into_rtranclp)

lemma one_step: "mux_step m m' \<Longrightarrow> mux_steps m m'"
  by (rule r_into_rtranclp)

lemma sendControl_step: "mux_step m (snd (sendControl xmit k kind m))"
  by (simp only: sendControl_def mux_step.send)

lemma flow_deliver_steps: "mux_steps m (flow_deliver now p a m)"
  unfolding flow_deliver_def
  by (rule step_trans [OF mux_step.touch one_step [OF mux_step.enqueue]])

lemma mux_handle_steps: "mux_steps m (mux_handle xmit now msg m)"
proof -
  let ?k = "Uint32 (take 4 msg)"
  have FIN: "mux_steps m (case takeAndTombstone ?k now m of (f, m1) \<Rightarrow>
      snd (sendControl xmit ?k frameFINAck (case f of None \<Rightarrow> m1 | Some a \<Rightarrow> flow_shut EOF a m1)))"
  proof -
    obtain f m1 where f: "takeAndTombstone ?k now m = (f, m1)" by (metis prod.exhaust)
    then have "mux_step m m1" using mux_step.fin [of m ?k now] by simp
    moreover have "mux_steps m1 (case f of None \<Rightarrow> m1 | Some a \<Rightarrow> flow_shut EOF a m1)"
      by (cases f) (auto intro: mux_step.shut)
    ultimately show ?thesis using sendControl_step
      by (simp add: f) (meson converse_rtranclp_into_rtranclp rtranclp.rtrancl_into_rtrancl)
  qed
  have DATA: "mux_steps m (case lookupOrCreate ?k now m of
      ((None, _), m1) \<Rightarrow> if stopped m1 then m1 else if tombstoned ?k m1 then m1
         else on_drop ?k ''flow ID in local namespace'' m1
    | ((Some a, fresh), m1) \<Rightarrow>
         if fresh \<and> length (inbound m1) \<ge> inboundBacklog
         then on_drop ?k ''accept backlog full'' (mux_remove a m1)
         else flow_deliver now (drop Header msg) a (if fresh then offer a m1 else m1))"
  proof -
    obtain f fresh m1 where l: "lookupOrCreate ?k now m = ((f, fresh), m1)" by (metis prod.exhaust)
    then have s1: "mux_step m m1" using mux_step.lookup [of m ?k now] by simp
    from l show ?thesis
    proof (cases rule: lookupOrCreate_cases)
      case (found a)
      then show ?thesis using s1 flow_deliver_steps by (simp add: l step_trans)
    next
      case refused
      then show ?thesis using s1 by (simp add: l mux_step.drop r_into_rtranclp)
    next
      case fresh
      then have "length (inbound m1) < inboundBacklog \<Longrightarrow> mux_step m1 (offer (length (heap m)) m1)"
        by (intro mux_step.offer) (auto simp: newFlow_def)
      then have "length (inbound m1) < inboundBacklog \<Longrightarrow>
          mux_steps m1 (flow_deliver now (drop Header msg) (length (heap m)) (offer (length (heap m)) m1))"
        using flow_deliver_steps step_trans by blast
      moreover have "mux_steps m1 (on_drop ?k ''accept backlog full'' (mux_remove (length (heap m)) m1))"
        by (rule step_trans [OF mux_step.remove one_step [OF mux_step.drop]])
      ultimately show ?thesis using fresh(5,6) step_trans [OF s1] by (simp add: l)
    qed
  qed
  show ?thesis using FIN DATA mux_step.ack
    by (auto simp: mux_handle_def Let_def simp del: fold_simps)
qed

lemma flow_send_steps: "mux_steps m (snd (flow_send xmit now payload a m))"
proof -
  let ?m1 = "snd (sendFrame xmit (data_frame (flow_id (heap m ! a)) payload) m)"
  have "mux_step m ?m1" by (rule mux_step.send)
  then show ?thesis
    using step_trans [OF _ one_step [OF mux_step.touch], of m ?m1 a now]
    by (auto simp: flow_send_def sendFrame_def split: option.splits)
qed

lemma flow_close_steps: "mux_steps m (snd (flow_close xmit now a m))"
proof (cases "flow_closed (heap m ! a)")
  case False
  have "mux_steps m (mux_remove a (flow_shut ErrClosed a m))"
    by (rule step_trans [OF mux_step.shut one_step [OF mux_step.remove]])
  moreover have "mux_steps m' (snd (beginFIN xmit k now m'))" for m' k
    unfolding beginFIN_def by (rule step_trans [OF mux_step.register one_step [OF sendControl_step]])
  ultimately show ?thesis using False by (simp add: flow_close_def) (meson rtranclp_trans)
qed (simp add: flow_close_def)

lemma fold_steps: "(\<And>x m. mux_steps m (g x m)) \<Longrightarrow> mux_steps m (fold g xs m)"
proof (induction xs arbitrary: m)
  case (Cons x xs)
  show ?case using rtranclp_trans [OF Cons.prems Cons.IH [OF Cons.prems]] by simp
qed simp

lemma maintenance_steps: "mux_steps m (maintenance xmit now m)"
proof (cases "mux_closed m")
  case False
  obtain idle retry m1 where l: "maint_locked now m = ((idle, retry), m1)" by (metis prod.exhaust)
  let ?m2 = "fold (\<lambda>a m. snd (sendControl xmit (flow_id (heap m ! a)) frameFIN (flow_shut ErrClosed a m))) idle m1"
  have "mux_step m m1" using False l mux_step.maint [of m now] by simp
  moreover have "mux_steps m1 ?m2"
    by (intro fold_steps step_trans [OF mux_step.shut one_step [OF sendControl_step]])
  moreover have "mux_steps ?m2 (fold (\<lambda>k m. snd (sendControl xmit k frameFIN m)) retry ?m2)"
    by (intro fold_steps one_step [OF sendControl_step])
  ultimately show ?thesis
    using False by (simp add: maintenance_def l Let_def)
qed (simp add: maintenance_def)

lemma maintain_steps: "mux_steps m (maintain xmit ticks m)"
  unfolding maintain_def by (intro fold_steps) (simp add: maintenance_steps)

lemma shutAll_steps: "mux_steps m (shutAll cause m)"
  unfolding shutAll_def
  by (rule step_trans [OF mux_step.clear fold_steps [OF one_step [OF mux_step.shut]]])

lemma mux_Close_steps: "mux_steps m (mux_Close m)"
  unfolding mux_Close_def
  using step_trans [OF mux_step.call_close step_trans [OF mux_step.stop shutAll_steps]] by simp

lemma mux_receive_steps: "mux_steps m (mux_receive xmit msgs err m)"
proof (induction xmit msgs err m rule: mux_receive.induct)
  case (1 xmit err m)
  have "mux_steps m (shutAll err (stopMaintenance (finish_receive err m)))"
    by (rule step_trans [OF mux_step.recv_error step_trans [OF mux_step.stop shutAll_steps]])
  then show ?case using mux_step.recv_done by (simp add: rtranclp.rtrancl_into_rtrancl)
next
  case (2 xmit msg now msgs err m)
  then show ?case using mux_handle_steps [of m xmit now msg]
    by (auto intro: rtranclp_trans)
qed

subsection \<open>What no step can undo\<close>

definition flow_history :: "mux \<Rightarrow> mux \<Rightarrow> bool" where
  "flow_history m m' \<longleftrightarrow>
     cfg m' = cfg m \<and> length (heap m) \<le> length (heap m') \<and> (mux_closed m \<longrightarrow> mux_closed m')
     \<and> (\<forall>a < length (heap m). flow_id (heap m' ! a) = flow_id (heap m ! a)
          \<and> (flow_closed (heap m ! a) \<longrightarrow>
               flow_closed (heap m' ! a) \<and> flow_err (heap m' ! a) = flow_err (heap m ! a)))"

lemma flow_history_refl [simp]: "flow_history m m"
  by (simp add: flow_history_def)

lemma flow_history_trans: "flow_history a b \<Longrightarrow> flow_history b c \<Longrightarrow> flow_history a c"
  by (fastforce simp: flow_history_def)

lemma flow_history_tables:
  "heap m' = heap m \<Longrightarrow> cfg m' = cfg m \<Longrightarrow> (mux_closed m \<longrightarrow> mux_closed m') \<Longrightarrow> flow_history m m'"
  by (simp add: flow_history_def)

lemma flow_history_upd:
  assumes "\<forall>f. flow_id (g f) = flow_id f"
    "\<forall>f. flow_closed f \<longrightarrow> flow_closed (g f) \<and> flow_err (g f) = flow_err f"
  shows "flow_history m (upd_flow a g m)"
  using assms by (simp add: flow_history_def frame_simps upd_flow_nth)

lemma maint_flows_frame:
  "heap (snd (maint_flows now fs m)) = heap m \<and> cfg (snd (maint_flows now fs m)) = cfg m
   \<and> mux_closed (snd (maint_flows now fs m)) = mux_closed m \<and> sent (snd (maint_flows now fs m)) = sent m
   \<and> inbound (snd (maint_flows now fs m)) = inbound m"
proof (induction now fs m rule: maint_flows.induct)
  case (2 now k a fs m)
  show ?case
    using "2.IH"(1) [OF _ refl refl] "2.IH"(2)
    by (simp add: Let_def split_beta frame_simps)
qed simp

lemma mux_step_history: "mux_step m m' \<Longrightarrow> flow_history m m'"
proof (induction rule: mux_step.induct)
  case (open_stream m now)
  show ?case by (cases "mux_closed m") (auto simp: mux_OpenStream_def alloc_def Let_def flow_history_def nth_append)
next
  case (lookup m k now)
  obtain f fresh m1 where l: "lookupOrCreate k now m = ((f, fresh), m1)" by (metis prod.exhaust)
  then show ?case
    by (cases rule: lookupOrCreate_cases) (auto simp: l flow_history_def nth_append)
next
  case (recv a m sel r m')
  then show ?case
    by (auto simp: flow_recv_def Let_def intro!: flow_history_upd
        split: recv_case.splits list.splits if_splits)
next
  case (accept sel ctx m r m')
  then show ?case
    by (auto simp: mux_AcceptStream_def intro!: flow_history_tables
        split: accept_case.splits list.splits option.splits if_splits)
next
  case (maint m now)
  show ?case using maint_flows_frame by (auto simp: maint_locked_def Let_def split_beta intro!: flow_history_tables)
qed (auto simp: offer_def mux_remove_def mux_touch_def flow_shut_def enqueue_def takeAndTombstone_def
      acknowledgeFIN_def registerFIN_def sendFrame_def on_drop_def clear_tables_def stopMaintenance_def
      finish_receive_def Let_def frame_simps intro!: flow_history_upd flow_history_tables)

lemma mux_steps_history: "mux_steps m m' \<Longrightarrow> flow_history m m'"
  by (induction rule: rtranclp_induct) (auto intro: flow_history_trans mux_step_history)

section \<open>Delivery\<close>

definition queue_of :: "mux \<Rightarrow> u32 \<Rightarrow> byte list list" where
  "queue_of m k = (case map_of (flows m) k of None \<Rightarrow> [] | Some a \<Rightarrow> packets (heap m ! a))"

text \<open>The conditions under which \<open>handle\<close> can queue DATA for flow \<open>k\<close>.\<close>

definition accepts :: "mux \<Rightarrow> u32 \<Rightarrow> bool" where
  "accepts m k \<longleftrightarrow> \<not> mux_closed m
     \<and> (case map_of (flows m) k of
          Some a \<Rightarrow> length (packets (heap m ! a)) < flowQueue
        | None \<Rightarrow> \<not> tombstoned k m \<and> \<not> own (cfg m) k \<and> length (inbound m) < inboundBacklog)"

lemma frame_fields:
  "length (data_frame k p) = 5 + length p" "take 4 (data_frame k p) = PutUint32 k"
  "data_frame k p ! 4 = frameData" "drop 5 (data_frame k p) = p"
  "length (control_frame k c) = 5" "take 4 (control_frame k c) = PutUint32 k"
  "control_frame k c ! 4 = c" "drop 5 (control_frame k c) = []"
  by (simp_all add: data_frame_def control_frame_def nth_append)

lemma data_frame_eq_iff [simp]: "data_frame k p = data_frame k' p' \<longleftrightarrow> k = k' \<and> p = p'"
  using frame_fields(2,4) by (metis Uint32_Put)

lemma control_frame_eq_iff [simp]: "control_frame k c = control_frame k' c' \<longleftrightarrow> k = k' \<and> c = c'"
  using frame_fields(6,7) by (metis Uint32_Put)

lemma handle_data:
  assumes "p \<noteq> []"
  shows "mux_handle xmit now (data_frame k p) m =
     (case lookupOrCreate k now m of
        ((None, _), m1) \<Rightarrow>
          if stopped m1 then m1 else if tombstoned k m1 then m1
          else on_drop k ''flow ID in local namespace'' m1
      | ((Some a, fresh), m1) \<Rightarrow>
          if fresh \<and> length (inbound m1) \<ge> inboundBacklog
          then on_drop k ''accept backlog full'' (mux_remove a m1)
          else flow_deliver now p a (if fresh then offer a m1 else m1))"
  using assms by (simp add: mux_handle_def frame_fields Let_def Header_def frame_kinds)

lemma handle_fin:
  "mux_handle xmit now (control_frame k frameFIN) m =
     (case takeAndTombstone k now m of (f, m1) \<Rightarrow>
        snd (sendControl xmit k frameFINAck (case f of None \<Rightarrow> m1 | Some a \<Rightarrow> flow_shut EOF a m1)))"
  by (simp add: mux_handle_def frame_fields Let_def Header_def)

lemma flow_deliver_heap:
  assumes "a < length (heap m)" "b < length (heap m)"
  shows "packets (heap (flow_deliver now p a m) ! b) =
           (if a = b \<and> length (packets (heap m ! a)) < flowQueue then packets (heap m ! b) @ [p]
            else packets (heap m ! b))"
  using assms
  by (auto simp: flow_deliver_def enqueue_def mux_touch_def frame_simps upd_flow_nth)

lemma flow_deliver_flows [frame_simps]: "flows (flow_deliver now p a m) = flows m"
  by (simp add: flow_deliver_def enqueue_def mux_touch_def frame_simps)

lemma mux_inv_lookup:
  "mux_inv m \<Longrightarrow> map_of (flows m) k = Some a \<Longrightarrow> a < length (heap m) \<and> flow_id (heap m ! a) = k"
  by (fastforce simp: mux_inv_defs dest: map_of_SomeD)

lemma handle_queues_data:
  assumes "mux_inv r" "accepts r k" "p \<noteq> []"
  shows "queue_of (mux_handle xmit now (data_frame k p) r) k = queue_of r k @ [p]"
proof (cases "map_of (flows r) k")
  case (Some a)
  with assms(2) have "lookupOrCreate k now r = ((Some a, False), r)"
    by (simp add: lookupOrCreate_def accepts_def)
  then show ?thesis
    using Some assms mux_inv_lookup [OF assms(1) Some]
    by (simp add: handle_data queue_of_def flow_deliver_heap frame_simps accepts_def)
next
  case None
  let ?m1 = "r\<lparr>heap := heap r @ [newFlow k now], flows := AList.update k (length (heap r)) (flows r)\<rparr>"
  have "lookupOrCreate k now r = ((Some (length (heap r)), True), ?m1)"
    using None assms(2)
    by (auto simp: lookupOrCreate_def accepts_def tombstoned_def own_def alloc_def Let_def)
  then show ?thesis
    using None assms
    by (simp add: handle_data queue_of_def accepts_def flow_deliver_heap frame_simps offer_def gm.get_put
        newFlow_def flowQueue_def)
qed

lemma flow_recv_head:
  assumes "a < length (heap m)" "packets (heap m ! a) = p # ps" "sel = OnPackets \<or> flow_closed (heap m ! a)"
  shows "\<exists>m'. flow_recv sel a m = Some (Inr p, m') \<and> packets (heap m' ! a) = ps"
  using assms by (cases sel) (auto simp: flow_recv_def Let_def upd_flow_nth)

section \<open>Tombstones\<close>

lemma takeAndTombstone_effect:
  "takeAndTombstone k now m = (f, m1) \<Longrightarrow> f = map_of (flows m) k \<and> map_of (flows m1) k = None
     \<and> tombstoned k m1 \<and> heap m1 = heap m \<and> mux_closed m1 = mux_closed m \<and> sent m1 = sent m"
  by (auto simp: takeAndTombstone_def Let_def gm.get_del tombstoned_def addTombstoneLocked_get frame_simps)

lemma late_data_ignored:
  assumes "map_of (flows m) k = None" "tombstoned k m"
  shows "mux_handle xmit now (data_frame k p) m = m"
proof (cases "p = []")
  case True
  then show ?thesis by (simp add: mux_handle_def frame_fields Let_def Header_def frame_kinds)
next
  case False
  have "lookupOrCreate k now m = ((None, False), m)"
    using assms by (simp add: lookupOrCreate_def tombstoned_def)
  with False assms(2) show ?thesis by (simp add: handle_data)
qed

lemma maint_flows_lookup:
  "map_of (flows m) k = None \<Longrightarrow> map_of (flows (snd (maint_flows now fs m))) k = None"
proof (induction now fs m rule: maint_flows.induct)
  case (2 now j a fs m)
  show ?case
    using "2.IH"(1) [OF _ refl refl] "2.IH"(2) "2.prems"
    by (simp add: Let_def split_beta frame_simps gm.get_del)
qed simp

lemma map_of_mset_None: "mset xs = mset ys \<Longrightarrow> map_of xs k = None \<longleftrightarrow> map_of ys k = None"
  by (metis map_of_eq_None_iff mset_eq_setD set_map)

lemma step_no_resurrection:
  assumes "mux_step m m'" "mux_inv m" "map_of (flows m) k = None" "tombstoned k m" "\<not> own (cfg m) k"
  shows "map_of (flows m') k = None"
  using assms
proof (induction rule: mux_step.induct)
  case (open_stream m now)
  have "own (cfg m) (next_id m)" using open_stream own_first by (simp add: mux_inv_defs)
  then show ?case using open_stream
    by (auto simp: mux_OpenStream_def alloc_def Let_def gm.get_put)
next
  case (lookup m j now)
  obtain f fresh m1 where l: "lookupOrCreate j now m = ((f, fresh), m1)" by (metis prod.exhaust)
  then show ?case using lookup
    by (cases rule: lookupOrCreate_cases) (auto simp: l gm.get_put)
next
  case (recv a m sel r m')
  then show ?case
    by (auto simp: flow_recv_def Let_def frame_simps split: recv_case.splits list.splits if_splits)
next
  case (accept sel ctx m r m')
  then show ?case using mux_AcceptStream_state [OF accept(1)] by auto
next
  case (maint m now)
  then show ?case by (auto simp: maint_locked_def Let_def split_beta maint_flows_lookup)
next
  case (reorder fs m ps ts)
  then show ?case using map_of_mset_None [OF reorder(1), of k] by simp
qed (auto simp: offer_def mux_remove_def mux_touch_def flow_shut_def enqueue_def takeAndTombstone_def
      acknowledgeFIN_def registerFIN_def sendFrame_def on_drop_def clear_tables_def stopMaintenance_def
      finish_receive_def Let_def frame_simps gm.get_del)

section \<open>Retransmission of FIN\<close>

lemma maint_pending_lookup:
  assumes "wf_gomap ps" "maint_pending c now ps = (ps', retry)"
  shows "map_of ps' k = (case map_of ps k of
       None \<Rightarrow> None
     | Some p \<Rightarrow> if now < pend_next p then Some p
         else if retries p \<ge> finRetryCount c then None
         else Some (p\<lparr>retries := retries p + 1, pend_next := now + finRetryInterval c\<rparr>))"
    and "count_list retry k = (case map_of ps k of
       None \<Rightarrow> 0
     | Some p \<Rightarrow> if \<not> now < pend_next p \<and> retries p < finRetryCount c then 1 else 0)"
proof -
  have "map_of ps' k = (case map_of ps k of
       None \<Rightarrow> None
     | Some p \<Rightarrow> if now < pend_next p then Some p
         else if retries p \<ge> finRetryCount c then None
         else Some (p\<lparr>retries := retries p + 1, pend_next := now + finRetryInterval c\<rparr>))
    \<and> count_list retry k = (case map_of ps k of
       None \<Rightarrow> 0
     | Some p \<Rightarrow> if \<not> now < pend_next p \<and> retries p < finRetryCount c then 1 else 0)"
    using assms
  proof (induction ps arbitrary: ps' retry)
    case (Cons x ps)
    obtain j q where x: "x = (j, q)" by (cases x)
    obtain qs rs where r: "maint_pending c now ps = (qs, rs)" by (metis prod.exhaust)
    have "map_of ps j = None" using Cons.prems(1) by (simp add: x map_of_eq_None_iff)
    then show ?case
      using Cons.IH [OF _ r] Cons.prems by (cases "j = k") (auto simp: x r split: if_splits)
  qed auto
  then show "map_of ps' k = (case map_of ps k of
       None \<Rightarrow> None
     | Some p \<Rightarrow> if now < pend_next p then Some p
         else if retries p \<ge> finRetryCount c then None
         else Some (p\<lparr>retries := retries p + 1, pend_next := now + finRetryInterval c\<rparr>))"
    and "count_list retry k = (case map_of ps k of
       None \<Rightarrow> 0
     | Some p \<Rightarrow> if \<not> now < pend_next p \<and> retries p < finRetryCount c then 1 else 0)"
    by blast+
qed

lemma maint_flows_pending:
  assumes "\<forall>(j, a) \<in> set fs. j \<noteq> k"
  shows "map_of (pending (snd (maint_flows now fs m))) k = map_of (pending m) k"
  using assms
proof (induction now fs m rule: maint_flows.induct)
  case (2 now j a fs m)
  have jk: "k \<noteq> j" "\<forall>(j, a) \<in> set fs. j \<noteq> k" using "2.prems" by auto
  show ?case
    using "2.IH"(1) [OF _ refl refl jk(2)] "2.IH"(2) [OF _ jk(2)] jk(1)
    by (simp add: Let_def split_beta frame_simps gm.get_put)
qed simp

lemma maint_flows_idle: "fst (maint_flows now fs m) = map snd
    (filter (\<lambda>(k, a). now - lastActivity (heap m ! a) \<ge> idleTimeout (cfg m)) fs)"
proof (induction now fs m rule: maint_flows.induct)
  case (2 now k a fs m)
  show ?case
    using "2.IH"(1) [OF _ refl refl] "2.IH"(2)
    by (simp add: Let_def split_beta frame_simps)
qed simp

definition reap :: "(byte list \<Rightarrow> io_error option) \<Rightarrow> addr \<Rightarrow> mux \<Rightarrow> mux" where
  "reap xmit a m = snd (sendControl xmit (flow_id (heap m ! a)) frameFIN (flow_shut ErrClosed a m))"

lemma reap_frame [frame_simps]:
  "flows (reap xmit a m) = flows m" "pending (reap xmit a m) = pending m" "cfg (reap xmit a m) = cfg m"
  "mux_closed (reap xmit a m) = mux_closed m" "length (heap (reap xmit a m)) = length (heap m)"
  "tombstones (reap xmit a m) = tombstones m"
  "sent (reap xmit a m) = sent m @ [control_frame (flow_id (heap m ! a)) frameFIN]"
  by (simp_all add: reap_def sendControl_def sendFrame_def flow_shut_def frame_simps)

lemma reap_id: "b < length (heap m) \<Longrightarrow> flow_id (heap (reap xmit a m) ! b) = flow_id (heap m ! b)"
  by (simp add: reap_def sendControl_def sendFrame_def flow_shut_def upd_flow_nth)

lemma fold_reap:
  assumes "\<forall>a \<in> set as. a < length (heap m)"
  shows "flows (fold (reap xmit) as m) = flows m \<and> pending (fold (reap xmit) as m) = pending m
     \<and> cfg (fold (reap xmit) as m) = cfg m \<and> mux_closed (fold (reap xmit) as m) = mux_closed m
     \<and> sent (fold (reap xmit) as m) = sent m @ map (\<lambda>a. control_frame (flow_id (heap m ! a)) frameFIN) as"
  using assms
proof (induction as arbitrary: m)
  case (Cons a as)
  then have "\<forall>b \<in> set as. b < length (heap (reap xmit a m))" by (simp add: frame_simps)
  from Cons.IH [OF this] Cons.prems show ?case by (simp add: frame_simps reap_id cong: map_cong)
qed simp

lemma fold_retry:
  "fold (\<lambda>k m. snd (sendControl xmit k frameFIN m)) ks m
     = m\<lparr>sent := sent m @ map (\<lambda>k. control_frame k frameFIN) ks\<rparr>"
  by (induction ks arbitrary: m) (simp_all add: sendControl_def sendFrame_def)

lemma maintenance_eq:
  "\<not> mux_closed m \<Longrightarrow> maintenance xmit now m =
     (case maint_locked now m of ((idle, retry), m1) \<Rightarrow>
        (let m2 = fold (reap xmit) idle m1
         in m2\<lparr>sent := sent m2 @ map (\<lambda>k. control_frame k frameFIN) retry\<rparr>))"
  by (simp add: maintenance_def fold_retry reap_def [abs_def] split_beta Let_def)

lemma count_control: "count_list (map (\<lambda>k. control_frame k c) ks) (control_frame k c) = count_list ks k"
  by (induction ks) auto

lemma count_control_none: "k \<notin> f ` set as \<Longrightarrow>
    count_list (map (\<lambda>a. control_frame (f a) c) as) (control_frame k c) = 0"
  by (induction as) auto

lemma maintenance_pending:
  assumes m: "mux_inv m" "\<not> mux_closed m" "map_of (flows m) k = None"
    and m'_def: "m' = maintenance xmit now m"
  shows "mux_inv m' \<and> \<not> mux_closed m' \<and> map_of (flows m') k = None \<and> cfg m' = cfg m"
    and "map_of (pending m') k = (case map_of (pending m) k of
       None \<Rightarrow> None
     | Some p \<Rightarrow> if now < pend_next p then Some p
         else if retries p \<ge> finRetryCount (cfg m) then None
         else Some (p\<lparr>retries := retries p + 1, pend_next := now + finRetryInterval (cfg m)\<rparr>))"
    and "count_list (sent m') (control_frame k frameFIN) = count_list (sent m) (control_frame k frameFIN)
       + (case map_of (pending m) k of
       None \<Rightarrow> 0
     | Some p \<Rightarrow> if \<not> now < pend_next p \<and> retries p < finRetryCount (cfg m) then 1 else 0)"
proof -
  obtain ps retry where ps: "maint_pending (cfg m) now (pending m) = (ps, retry)"
    by (metis prod.exhaust)
  let ?m1 = "m\<lparr>tombstones := filter (\<lambda>(k, until). now < until) (tombstones m), pending := ps\<rparr>"
  obtain idle m2 where f: "maint_flows now (flows m) ?m1 = (idle, m2)" by (metis prod.exhaust)
  have l: "maint_locked now m = ((idle, retry), m2)"
    by (simp add: maint_locked_def ps f)
  have fr: "heap m2 = heap m" "cfg m2 = cfg m" "mux_closed m2 = mux_closed m" "sent m2 = sent m"
    using maint_flows_frame [of now "flows m" ?m1] by (simp_all add: f)
  have nk: "\<forall>(j, a) \<in> set (flows m). j \<noteq> k" using m(3) by (auto simp: map_of_eq_None_iff image_iff)
  have i1: "set idle \<subseteq> snd ` set (flows m)"
    using maint_flows_idle [of now "flows m" ?m1] by (auto simp: f)
  have val: "\<forall>(j, a) \<in> set (flows m). a < length (heap m) \<and> flow_id (heap m ! a) = j"
    using m(1) by (simp add: mux_inv_defs)
  then have i2: "\<forall>a \<in> set idle. a < length (heap m2)" and i3: "k \<notin> (\<lambda>a. flow_id (heap m2 ! a)) ` set idle"
    using i1 nk by (fastforce simp: fr)+
  have r: "flows m' = flows m2" "pending m' = pending m2" "cfg m' = cfg m" "mux_closed m' = mux_closed m"
    "sent m' = sent m @ map (\<lambda>a. control_frame (flow_id (heap m2 ! a)) frameFIN) idle
       @ map (\<lambda>k. control_frame k frameFIN) retry"
    using fold_reap [OF i2, of xmit] by (simp_all add: m'_def maintenance_eq m(2) l Let_def fr)
  have wf: "wf_gomap (pending m)" using m(1) by (simp add: mux_inv_defs)
  have "map_of (flows m2) k = None"
    using maint_flows_lookup [of ?m1 k now "flows m"] m(3) by (simp add: f)
  moreover have "mux_inv m'" unfolding m'_def using maintenance_steps m(1) by (rule mux_steps_inv)
  ultimately show "mux_inv m' \<and> \<not> mux_closed m' \<and> map_of (flows m') k = None \<and> cfg m' = cfg m"
    using r m(2) by simp
  have "map_of (pending m2) k = map_of ps k"
    using maint_flows_pending [OF nk, of now ?m1] by (simp add: f)
  then show "map_of (pending m') k = (case map_of (pending m) k of
       None \<Rightarrow> None
     | Some p \<Rightarrow> if now < pend_next p then Some p
         else if retries p \<ge> finRetryCount (cfg m) then None
         else Some (p\<lparr>retries := retries p + 1, pend_next := now + finRetryInterval (cfg m)\<rparr>))"
    unfolding r(2) maint_pending_lookup(1) [OF wf ps, of k] .
  show "count_list (sent m') (control_frame k frameFIN) = count_list (sent m) (control_frame k frameFIN)
       + (case map_of (pending m) k of
       None \<Rightarrow> 0
     | Some p \<Rightarrow> if \<not> now < pend_next p \<and> retries p < finRetryCount (cfg m) then 1 else 0)"
    by (simp add: r(5) count_control count_control_none [OF i3] maint_pending_lookup(2) [OF wf ps])
qed

fun spaced :: "duration \<Rightarrow> gtime \<Rightarrow> gtime list \<Rightarrow> bool" where
  "spaced d t0 [] \<longleftrightarrow> True"
| "spaced d t0 (t # ts) \<longleftrightarrow> t0 \<le> t \<and> spaced d (t + d) ts"

section \<open>Lemmas for the remaining properties\<close>

lemma mux_steps_cfg: "mux_steps m m' \<Longrightarrow> cfg m' = cfg m"
  using mux_steps_history by (auto simp: flow_history_def)

lemma word_double_inj:
  assumes "(w :: u32) = 2 * word_of_nat i" "w = 2 * word_of_nat n" "i < 2 ^ 31" "n < 2 ^ 31"
  shows "i = n"
proof -
  have "unat (2 * word_of_nat j :: u32) = 2 * j" if "j < 2 ^ 31" for j
  proof -
    have "(2 * word_of_nat j :: u32) = word_of_nat (2 * j)" by simp
    moreover have "2 * j < 2 ^ 32" using that by simp
    ultimately show ?thesis by (simp only: unat_of_nat) simp
  qed
  from this [OF assms(3)] this [OF assms(4)] show ?thesis using assms(1,2) by simp
qed

lemma next_id_fresh:
  assumes "mux_inv m" "length (own_ids m) < 2 ^ 31"
  shows "next_id m \<notin> flow_id ` set (heap m)"
proof
  let ?n = "length (own_ids m)"
  assume "next_id m \<in> flow_id ` set (heap m)"
  moreover have "own (cfg m) (next_id m)" using assms(1) own_first by (simp add: mux_inv_defs)
  ultimately have "next_id m \<in> set (own_ids m)" by (auto simp: own_ids_def)
  moreover have "own_ids m = map (\<lambda>i. first_id (cfg m) + 2 * word_of_nat i) [0..<?n]"
    and nx: "next_id m = first_id (cfg m) + 2 * word_of_nat ?n" using assms(1) by (auto simp: mux_inv_defs)
  ultimately obtain i where i: "i < ?n" "next_id m = first_id (cfg m) + 2 * word_of_nat i"
    by (metis (no_types, lifting) atLeastLessThan_iff imageE set_map set_upt)
  from i(2) nx have "(2 * word_of_nat i :: u32) = 2 * word_of_nat ?n" by (metis add_left_cancel)
  from word_double_inj [OF refl this] i(1) assms(2) show False by linarith
qed

lemma flow_shut_closed:
  "a < length (heap m) \<Longrightarrow> flow_closed (heap (flow_shut cause b m) ! a) \<longleftrightarrow> a = b \<or> flow_closed (heap m ! a)"
  by (auto simp: flow_shut_def upd_flow_nth)

lemma flow_shut_length [simp]: "length (heap (flow_shut cause b m)) = length (heap m)"
  by (simp add: flow_shut_def frame_simps)

lemma fold_shut_closed:
  "a < length (heap m) \<Longrightarrow> a \<in> set as \<or> flow_closed (heap m ! a) \<Longrightarrow>
   flow_closed (heap (fold (flow_shut cause) as m) ! a)"
proof (induction as arbitrary: m)
  case (Cons b as)
  show ?case using Cons.IH [of "flow_shut cause b m"] Cons.prems by (auto simp: flow_shut_closed)
qed simp

lemma fold_shut_frame:
  "flows (fold (flow_shut cause) as m) = flows m \<and> pending (fold (flow_shut cause) as m) = pending m
   \<and> mux_closed (fold (flow_shut cause) as m) = mux_closed m \<and> sent (fold (flow_shut cause) as m) = sent m
   \<and> length (heap (fold (flow_shut cause) as m)) = length (heap m)"
  by (induction as arbitrary: m) (simp_all add: flow_shut_def frame_simps)

lemma flow_shut_other: "a \<noteq> b \<Longrightarrow> heap (flow_shut cause a m) ! b = heap m ! b"
  by (simp add: flow_shut_def upd_flow_def)

lemma flow_deliver_other: "a \<noteq> b \<Longrightarrow> heap (flow_deliver now p a m) ! b = heap m ! b"
  by (simp add: flow_deliver_def enqueue_def mux_touch_def upd_flow_def)

lemma handle_other_flow:
  assumes m: "mux_inv m" and b: "b < length (heap m)" "flow_id (heap m ! b) \<noteq> Uint32 (take 4 msg)"
  shows "heap (mux_handle xmit now msg m) ! b = heap m ! b"
proof -
  let ?k = "Uint32 (take 4 msg)"
  have ne: "map_of (flows m) ?k = Some a \<Longrightarrow> a \<noteq> b" for a
    using mux_inv_lookup [OF m, of ?k a] b(2) by auto
  obtain f m1 where t: "takeAndTombstone ?k now m = (f, m1)" by (metis prod.exhaust)
  have FIN: "heap (snd (sendControl xmit ?k frameFINAck
      (case f of None \<Rightarrow> m1 | Some a \<Rightarrow> flow_shut EOF a m1))) ! b = heap m ! b"
    using takeAndTombstone_effect [OF t] ne
    by (auto simp: sendControl_def sendFrame_def flow_shut_other split: option.splits)
  obtain g fresh m2 where l: "lookupOrCreate ?k now m = ((g, fresh), m2)" by (metis prod.exhaust)
  then have DATA: "heap (case g of None \<Rightarrow> if stopped m2 then m2 else if tombstoned ?k m2 then m2
         else on_drop ?k r1 m2
     | Some a \<Rightarrow> if fresh \<and> length (inbound m2) \<ge> inboundBacklog then on_drop ?k r2 (mux_remove a m2)
         else flow_deliver now p a (if fresh then offer a m2 else m2)) ! b = heap m ! b" for r1 r2 p
  proof (cases rule: lookupOrCreate_cases)
    case (found a)
    then show ?thesis using ne by (simp add: flow_deliver_other)
  next
    case fresh
    then show ?thesis using b(1)
      by (simp add: flow_deliver_other offer_def on_drop_def mux_remove_def Let_def nth_append)
  qed (simp add: on_drop_def)
  show ?thesis
    using FIN DATA by (auto simp: mux_handle_def Let_def t l acknowledgeFIN_def split: option.splits)
qed

section \<open>Properties\<close>

text \<open>C10: the multiplexer under concurrency. Whatever the goroutines do, in any interleaving of the
  locked sections and channel operations and in any map order, every table entry names a live heap
  object of that very identifier, the pending, tombstone, backlog and packet-queue bounds hold,
  only peer-started flows wait to be accepted, a closed mux has no flow and no pending FIN, and
  identifiers of this side were handed out in sequence.\<close>

theorem mux_inv_all_interleavings:
  assumes "mux_step\<^sup>*\<^sup>* (mux_New c) m"
  shows "mux_inv m"
  using assms mux_New_inv by (rule mux_steps_inv)

definition sample_config :: "bool \<Rightarrow> muxConfig" where
  "sample_config d = \<lparr>Dialing = d, FINRetryInterval = 0, FINRetryCount = 0, IdleTimeout = 0,
     TombstoneTTL = 0, MaxPending = 0, MaxTombstones = 0\<rparr>"

theorem mux_inv_all_interleavings_witness:
  "mux_inv (mux_handle (\<lambda>_. None) 5 (data_frame 0 [7]) (mux_New (sample_config False)))"
  by (rule mux_inv_all_interleavings [OF mux_handle_steps])

text \<open>Every method of the multiplexer is such an interleaving: the receive loop's \<open>handle\<close>, the
  sender's \<open>send\<close> and \<open>close\<close>, maintenance, the receive loop to its end, and \<open>Close\<close>.\<close>

theorem methods_are_interleavings:
  "mux_step\<^sup>*\<^sup>* m (mux_handle xmit now msg m)
   \<and> mux_step\<^sup>*\<^sup>* m (snd (flow_send xmit now payload a m))
   \<and> mux_step\<^sup>*\<^sup>* m (snd (flow_close xmit now a m))
   \<and> mux_step\<^sup>*\<^sup>* m (maintain xmit ticks m)
   \<and> mux_step\<^sup>*\<^sup>* m (mux_receive xmit msgs err m)
   \<and> mux_step\<^sup>*\<^sup>* m (mux_Close m)"
  by (intro conjI mux_handle_steps flow_send_steps flow_close_steps maintain_steps
      mux_receive_steps mux_Close_steps)

text \<open>A flow ends once. After it was shut, no interleaving reopens it, changes the cause its
  readers see, or gives its object another identifier; a closed mux stays closed.\<close>

theorem flow_end_is_final:
  assumes "mux_step\<^sup>*\<^sup>* m m'" and "a < length (heap m)" and "flow_closed (heap m ! a)"
  shows "flow_closed (heap m' ! a) \<and> flow_err (heap m' ! a) = flow_err (heap m ! a)
     \<and> flow_id (heap m' ! a) = flow_id (heap m ! a)
     \<and> fst (flow_send xmit now payload a m') = Some ErrClosed
     \<and> (mux_closed m \<longrightarrow> mux_closed m')"
  using mux_steps_history [OF assms(1)] assms(2,3) by (simp add: flow_history_def flow_send_def)

theorem flow_end_is_final_witness:
  "fst (flow_send (\<lambda>_. None) 9 [1] 0
      (mux_handle (\<lambda>_. None) 5 (data_frame 0 [7])
        (snd (flow_close (\<lambda>_. None) 1 0 (snd (mux_OpenStream 0 (mux_New (sample_config True))))))))
   = Some ErrClosed"
proof -
  let ?m = "snd (flow_close (\<lambda>_. None) 1 0 (snd (mux_OpenStream 0 (mux_New (sample_config True)))))"
  have "flow_closed (heap ?m ! 0)" "length (heap ?m) = 1"
    by (simp_all add: flow_close_def mux_OpenStream_def mux_New_def alloc_def newFlow_def Let_def
        beginFIN_def registerFIN_def sendControl_def sendFrame_def mux_remove_def flow_shut_def upd_flow_def)
  then show ?thesis using flow_end_is_final [OF mux_handle_steps, of 0 ?m] by simp
qed

text \<open>Identifiers of locally opened flows. In every reachable state that is not closed, as long
  as this side opened fewer than \<open>2\<^sup>3\<^sup>1\<close> flows, \<open>OpenStream\<close> succeeds with an identifier of its own
  half of the space that no flow object ever had, and no other table entry changes.\<close>

theorem OpenStream_fresh:
  assumes "mux_step\<^sup>*\<^sup>* (mux_New c) m" and "\<not> mux_closed m" and "length (own_ids m) < 2 ^ 31"
  shows "\<exists>a m'. mux_OpenStream now m = (Inr a, m')
     \<and> own c (flow_id (heap m' ! a)) \<and> flow_id (heap m' ! a) \<notin> flow_id ` set (heap m)
     \<and> map_of (flows m') (flow_id (heap m' ! a)) = Some a
     \<and> (\<forall>k. k \<noteq> flow_id (heap m' ! a) \<longrightarrow> map_of (flows m') k = map_of (flows m) k)"
proof -
  have inv: "mux_inv m" using assms(1) mux_New_inv by (rule mux_steps_inv)
  have "cfg m = c" using mux_steps_cfg [OF assms(1)] by (simp add: mux_New_def)
  then have "own c (next_id m)" using inv own_first by (auto simp: mux_inv_defs)
  then show ?thesis
    using next_id_fresh [OF inv assms(3)] assms(2)
    by (simp add: mux_OpenStream_eq newFlow_def gm.get_put)
qed

theorem OpenStream_fresh_witness:
  "\<exists>a m'. mux_OpenStream 3 (mux_New (sample_config True)) = (Inr a, m')
     \<and> own (sample_config True) (flow_id (heap m' ! a))"
proof -
  have "\<not> mux_closed (mux_New (sample_config True))"
    "length (own_ids (mux_New (sample_config True))) < 2 ^ 31"
    by (simp_all add: mux_New_def own_ids_def)
  from OpenStream_fresh [OF rtranclp.rtrancl_refl this, of 3] show ?thesis by blast
qed

text \<open>Sending and delivery. A frame that \<open>send\<close> handed to the channel and that reaches a peer able
  to take it (not closed, room in the queue, or a new flow of the sender's half with room in the
  backlog) is appended to that flow's queue unchanged, behind what was already there, and a reader
  of an empty queue receives it.\<close>

theorem send_then_handle:
  assumes "flow_send xmit t payload a s = (None, s')" and "payload \<noteq> []"
    and "mux_inv r" and "accepts r (flow_id (heap s ! a))"
  shows "\<exists>frame. sent s' = sent s @ [frame]
     \<and> queue_of (mux_handle xmit' t' frame r) (flow_id (heap s ! a)) = queue_of r (flow_id (heap s ! a)) @ [payload]
     \<and> (queue_of r (flow_id (heap s ! a)) = [] \<longrightarrow>
         (\<exists>b r'. map_of (flows (mux_handle xmit' t' frame r)) (flow_id (heap s ! a)) = Some b
            \<and> flow_recv OnPackets b (mux_handle xmit' t' frame r) = Some (Inr payload, r')))"
proof -
  let ?k = "flow_id (heap s ! a)" and ?r = "mux_handle xmit' t' (data_frame (flow_id (heap s ! a)) payload) r"
  have "sent s' = sent s @ [data_frame ?k payload]"
    using assms(1)
    by (auto simp: flow_send_def sendFrame_def mux_touch_def frame_simps split: if_splits option.splits)
  moreover have q: "queue_of ?r ?k = queue_of r ?k @ [payload]"
    using assms(2-4) by (simp add: handle_queues_data)
  moreover have "\<exists>b r'. map_of (flows ?r) ?k = Some b \<and> flow_recv OnPackets b ?r = Some (Inr payload, r')"
    if "queue_of r ?k = []"
  proof -
    from q that obtain b where b: "map_of (flows ?r) ?k = Some b" "packets (heap ?r ! b) = [payload]"
      by (auto simp: queue_of_def split: option.splits)
    have "mux_inv ?r" using mux_handle_steps assms(3) by (rule mux_steps_inv)
    with b show ?thesis
      using mux_inv_lookup [of ?r ?k b] flow_recv_head [of b ?r payload "[]" OnPackets] by auto
  qed
  ultimately show ?thesis by blast
qed

theorem send_then_handle_witness:
  "\<exists>s' frame. flow_send (\<lambda>_. None) 1 [7, 8] 0 (snd (mux_OpenStream 0 (mux_New (sample_config True)))) = (None, s')
     \<and> queue_of (mux_handle (\<lambda>_. None) 2 frame (mux_New (sample_config False))) 0 = [[7, 8]]"
proof -
  let ?s = "snd (mux_OpenStream 0 (mux_New (sample_config True)))" and ?r = "mux_New (sample_config False)"
  have k: "flow_id (heap ?s ! 0) = 0"
    by (simp add: mux_OpenStream_def mux_New_def alloc_def newFlow_def sample_config_def)
  obtain s' where s: "flow_send (\<lambda>_. None) 1 [7, 8] 0 ?s = (None, s')"
  proof
    show "flow_send (\<lambda>_. None) 1 [7, 8] 0 ?s
        = (None, mux_touch 0 1 (?s\<lparr>sent := sent ?s @ [data_frame (flow_id (heap ?s ! 0)) [7, 8]]\<rparr>))"
      by (simp add: flow_send_def sendFrame_def mux_OpenStream_def mux_New_def alloc_def newFlow_def Let_def)
  qed
  have "accepts ?r 0" "queue_of ?r 0 = []"
    by (simp_all add: accepts_def mux_New_def tombstoned_def own_def sample_config_def mux_consts queue_of_def)
  then show ?thesis
    using send_then_handle [OF s _ mux_New_inv, of "sample_config False" "\<lambda>_. None" 2] s k by auto
qed

text \<open>A FIN closes a flow for good. Handling one answers with exactly one FIN\_ACK, removes the
  flow, ends it with end-of-file for its readers, and from then on DATA that the FIN overtook is
  ignored: it neither recreates the flow nor is reported.\<close>

theorem FIN_closes_flow:
  assumes "mux_inv m"
  shows "sent (mux_handle xmit now (control_frame k frameFIN) m) = sent m @ [control_frame k frameFINAck]
     \<and> map_of (flows (mux_handle xmit now (control_frame k frameFIN) m)) k = None
     \<and> (\<forall>a. map_of (flows m) k = Some a \<longrightarrow>
          flow_closed (heap (mux_handle xmit now (control_frame k frameFIN) m) ! a))
     \<and> mux_handle xmit' now' (data_frame k payload) (mux_handle xmit now (control_frame k frameFIN) m)
         = mux_handle xmit now (control_frame k frameFIN) m"
proof -
  obtain f m1 where t: "takeAndTombstone k now m = (f, m1)" by (metis prod.exhaust)
  note e = takeAndTombstone_effect [OF t]
  let ?m2 = "case f of None \<Rightarrow> m1 | Some a \<Rightarrow> flow_shut EOF a m1"
  have h: "mux_handle xmit now (control_frame k frameFIN) m
      = ?m2\<lparr>sent := sent m @ [control_frame k frameFINAck]\<rparr>" (is "_ = ?h")
    using e by (simp add: handle_fin t sendControl_def sendFrame_def flow_shut_def frame_simps split: option.splits)
  have "map_of (flows ?h) k = None" "tombstoned k ?h"
    using e by (auto simp: flow_shut_def tombstoned_def frame_simps split: option.splits)
  moreover have "map_of (flows m) k = Some a \<Longrightarrow> flow_closed (heap ?h ! a)" for a
    using e mux_inv_lookup [OF assms, of k a] by (simp add: flow_shut_closed)
  ultimately show ?thesis unfolding h using late_data_ignored by simp
qed

theorem FIN_closes_flow_witness:
  "mux_handle (\<lambda>_. None) 9 (data_frame 0 [7])
      (mux_handle (\<lambda>_. None) 5 (control_frame 0 frameFIN) (mux_New (sample_config False)))
   = mux_handle (\<lambda>_. None) 5 (control_frame 0 frameFIN) (mux_New (sample_config False))"
  using FIN_closes_flow [OF mux_New_inv] by blast

text \<open>No resurrection under concurrency. While the tombstone of a peer flow is in the table, no
  section of any goroutine puts a flow under that identifier.\<close>

theorem tombstone_blocks_recreation:
  assumes "mux_step\<^sup>*\<^sup>* (mux_New c) m" and "tombstoned k m" and "map_of (flows m) k = None" and "\<not> own c k"
    and "mux_step m m'"
  shows "map_of (flows m') k = None"
  using step_no_resurrection [OF assms(5)] assms(2-4) mux_steps_inv [OF assms(1) mux_New_inv]
    mux_steps_cfg [OF assms(1)] by (simp add: mux_New_def)

theorem tombstone_blocks_recreation_witness:
  "map_of (flows (snd (lookupOrCreate 0 9
     (mux_handle (\<lambda>_. None) 5 (control_frame 0 frameFIN) (mux_New (sample_config False)))))) 0 = None"
proof (rule tombstone_blocks_recreation [OF mux_handle_steps _ _ _ mux_step.lookup])
  let ?m = "mux_handle (\<lambda>_. None) 5 (control_frame 0 frameFIN) (mux_New (sample_config False))"
  show "tombstoned 0 ?m" "map_of (flows ?m) 0 = None" "\<not> own (sample_config False) 0"
    by (simp_all add: handle_fin takeAndTombstone_def sendControl_def sendFrame_def tombstoned_def
        addTombstoneLocked_def mux_New_def sample_config_def own_def Let_def)
qed

text \<open>The FIN of a closed flow between maintenance runs and messages of the peer, in any order. A message
  acknowledges it, leaves it alone, or, being DATA for an identifier of the peer's half, may start the flow anew.\<close>

datatype fin_event = MaintTick gtime | PeerMessage gtime "byte list"

fun fin_step :: "(byte list \<Rightarrow> io_error option) \<Rightarrow> fin_event \<Rightarrow> mux \<Rightarrow> mux" where
  "fin_step xmit (MaintTick now) m = maintenance xmit now m"
| "fin_step xmit (PeerMessage now msg) m = mux_handle xmit now msg m"

fun acks :: "u32 \<Rightarrow> fin_event \<Rightarrow> bool" where
  "acks k (PeerMessage now msg) = (length msg = Header \<and> Uint32 (take 4 msg) = k \<and> msg ! 4 = frameFINAck)"
| "acks k _ = False"

fun restarts :: "u32 \<Rightarrow> fin_event \<Rightarrow> bool" where
  "restarts k (PeerMessage now msg) = (Header < length msg \<and> Uint32 (take 4 msg) = k \<and> msg ! 4 = frameData)"
| "restarts k _ = False"

fun fin_ticks :: "fin_event list \<Rightarrow> gtime list" where
  "fin_ticks [] = []"
| "fin_ticks (MaintTick now # evs) = now # fin_ticks evs"
| "fin_ticks (_ # evs) = fin_ticks evs"

abbreviation FINs :: "u32 \<Rightarrow> mux \<Rightarrow> nat" where
  "FINs k m \<equiv> count_list (sent m) (control_frame k frameFIN)"

definition fin_gone :: "u32 \<Rightarrow> mux \<Rightarrow> bool" where
  "fin_gone k m \<longleftrightarrow> mux_inv m \<and> \<not> mux_closed m \<and> map_of (flows m) k = None"

lemma lookupOrCreate_pending:
  assumes "lookupOrCreate j now m = ((f, fresh), m')"
  shows "pending m' = pending m \<and> sent m' = sent m \<and> mux_closed m' = mux_closed m
    \<and> (map_of (flows m) k = None \<longrightarrow> own (cfg m) k \<or> j \<noteq> k \<longrightarrow> map_of (flows m') k = None)"
  using assms by (auto simp: lookupOrCreate_def alloc_def own_def Let_def gm.get_put split: if_splits option.splits)

lemma handle_fin_pending:
  assumes g: "fin_gone k m" and o: "own (cfg m) k \<or> \<not> restarts k (PeerMessage now msg)" and m': "m' = mux_handle xmit now msg m"
  shows "fin_gone k m' \<and> cfg m' = cfg m \<and> FINs k m' = FINs k m
    \<and> map_of (pending m') k = (if acks k (PeerMessage now msg) then None else map_of (pending m) k)"
proof -
  let ?j = "Uint32 (take 4 msg)"
  have s: "mux_steps m m'" unfolding m' by (rule mux_handle_steps)
  have i: "mux_inv m'" using mux_steps_inv [OF s] g by (simp add: fin_gone_def)
  have c: "cfg m' = cfg m" using mux_steps_history [OF s] by (simp add: flow_history_def)
  obtain f m1 where t: "takeAndTombstone ?j now m = (f, m1)" by (metis prod.exhaust)
  obtain h fresh m2 where l: "lookupOrCreate ?j now m = ((h, fresh), m2)" by (metis prod.exhaust)
  have t1: "pending m1 = pending m" "sent m1 = sent m" "mux_closed m1 = mux_closed m" "map_of (flows m1) k = None"
    using t g by (auto simp: takeAndTombstone_def addTombstoneLocked_def fin_gone_def gm.get_del Let_def)
  note l1 = lookupOrCreate_pending [OF l, of k]
  have "\<not> mux_closed m' \<and> map_of (flows m') k = None \<and> FINs k m' = FINs k m
    \<and> map_of (pending m') k = (if acks k (PeerMessage now msg) then None else map_of (pending m) k)"
  proof (cases "length msg < Header")
    case True
    then show ?thesis using g by (auto simp: m' mux_handle_def fin_gone_def)
  next
    case False
    consider (fin) "msg ! 4 = frameFIN" | (ack) "msg ! 4 = frameFINAck" | (data) "msg ! 4 = frameData"
      | (other) "msg ! 4 \<notin> {frameFIN, frameFINAck, frameData}" by blast
    then show ?thesis
    proof cases
      case fin
      then show ?thesis using g t1 False
        by (auto simp: m' mux_handle_def fin_gone_def t Let_def sendControl_def sendFrame_def flow_shut_def frame_simps frame_kinds split: option.splits)
    next
      case ack
      then show ?thesis using g False
        by (auto simp: m' mux_handle_def fin_gone_def acknowledgeFIN_def Let_def Header_def gm.get_del frame_kinds)
    next
      case data
      then show ?thesis using g l1 False o
        by (auto simp: m' mux_handle_def fin_gone_def l Let_def Header_def on_drop_def mux_remove_def offer_def flow_deliver_def enqueue_def mux_touch_def
            frame_simps gm.get_del frame_kinds split: option.splits if_splits)
    next
      case other
      then show ?thesis using g False by (auto simp: m' mux_handle_def fin_gone_def Let_def)
    qed
  qed
  then show ?thesis using i c by (simp add: fin_gone_def)
qed

definition fin_left :: "u32 \<Rightarrow> mux \<Rightarrow> nat" where
  "fin_left k m = (case map_of (pending m) k of None \<Rightarrow> 0 | Some p \<Rightarrow> nat (finRetryCount (cfg m) - retries p))"

lemma fin_step_gone:
  assumes g: "fin_gone k m" and o: "own (cfg m) k \<or> \<not> restarts k ev" and m': "m' = fin_step xmit ev m"
  shows "fin_gone k m' \<and> cfg m' = cfg m \<and> FINs k m \<le> FINs k m' \<and> FINs k m' + fin_left k m' \<le> FINs k m + fin_left k m
    \<and> (map_of (pending m) k = None \<or> acks k ev \<longrightarrow> map_of (pending m') k = None \<and> FINs k m' = FINs k m)"
proof (cases ev)
  case (MaintTick now)
  note mp = maintenance_pending [OF _ _ _ refl, of m k xmit now]
  show ?thesis using mp g by (auto simp: m' MaintTick fin_gone_def fin_left_def split: option.splits if_splits)
next
  case (PeerMessage now msg)
  have "m' = mux_handle xmit now msg m" by (simp add: m' PeerMessage)
  from handle_fin_pending [OF g _ this] show ?thesis using o PeerMessage by (auto simp: fin_left_def split: option.splits)
qed

lemma fin_run_gone:
  assumes "fin_gone k m" "own (cfg m) k \<or> \<not> (\<exists>ev \<in> set evs. restarts k ev)" "m' = fold (fin_step xmit) evs m"
  shows "fin_gone k m' \<and> cfg m' = cfg m \<and> FINs k m' + fin_left k m' \<le> FINs k m + fin_left k m
    \<and> (map_of (pending m) k = None \<longrightarrow> map_of (pending m') k = None \<and> FINs k m' = FINs k m)"
  using assms
proof (induction evs arbitrary: m)
  case (Cons ev evs)
  have o: "own (cfg m) k \<or> \<not> restarts k ev" using Cons.prems(2) by auto
  note s = fin_step_gone [OF Cons.prems(1) o refl, of xmit]
  have "fin_gone k (fin_step xmit ev m)" "own (cfg (fin_step xmit ev m)) k \<or> \<not> (\<exists>ev \<in> set evs. restarts k ev)"
    "m' = fold (fin_step xmit) evs (fin_step xmit ev m)" using s Cons.prems by auto
  from Cons.IH [OF this] s show ?case by auto
qed simp

lemma fin_run_ticks:
  assumes "fin_gone k m" "own (cfg m) k \<or> \<not> (\<exists>ev \<in> set evs. restarts k ev)" "map_of (pending m) k = Some p"
    "retries p \<le> finRetryCount (cfg m)" "spaced (finRetryInterval (cfg m)) (pend_next p) (fin_ticks evs)"
    "nat (finRetryCount (cfg m) - retries p) < length (fin_ticks evs)" "m' = fold (fin_step xmit) evs m"
  shows "map_of (pending m') k = None
    \<and> (\<not> (\<exists>ev \<in> set evs. acks k ev) \<longrightarrow> FINs k m' = FINs k m + nat (finRetryCount (cfg m) - retries p))"
  using assms
proof (induction evs arbitrary: m p)
  case (Cons ev evs)
  let ?m = "fin_step xmit ev m"
  have o: "own (cfg m) k \<or> \<not> restarts k ev" using Cons.prems(2) by auto
  note s = fin_step_gone [OF Cons.prems(1) o refl, of xmit]
  have r: "fin_gone k ?m" "own (cfg ?m) k \<or> \<not> (\<exists>ev \<in> set evs. restarts k ev)" "m' = fold (fin_step xmit) evs ?m"
    using s Cons.prems by auto
  show ?case
  proof (cases ev)
    case (PeerMessage now msg)
    show ?thesis
    proof (cases "acks k ev")
      case True
      then show ?thesis using s fin_run_gone [OF r] by auto
    next
      case False
      have h: "map_of (pending ?m) k = Some p" "FINs k ?m = FINs k m" "cfg ?m = cfg m"
        using handle_fin_pending [OF Cons.prems(1) _ refl, of now msg xmit] o False Cons.prems(3) PeerMessage by auto
      show ?thesis using Cons.IH [OF r(1,2) h(1) _ _ _ r(3), unfolded h(2,3)] Cons.prems(4-6) PeerMessage False by simp
    qed
  next
    case (MaintTick t)
    have g: "mux_inv m" "\<not> mux_closed m" "map_of (flows m) k = None" using Cons.prems(1) by (simp_all add: fin_gone_def)
    note mp = maintenance_pending [OF g refl, of xmit t]
    have due: "\<not> t < pend_next p" using Cons.prems(5) MaintTick by simp
    show ?thesis
    proof (cases "retries p < finRetryCount (cfg m)")
      case True
      let ?p = "p\<lparr>retries := retries p + 1, pend_next := t + finRetryInterval (cfg m)\<rparr>"
      have n: "nat (finRetryCount (cfg m) - retries p) = Suc (nat (finRetryCount (cfg m) - retries ?p))" using True by simp
      have h: "map_of (pending ?m) k = Some ?p" "FINs k ?m = Suc (FINs k m)" "cfg ?m = cfg m"
        using mp Cons.prems(3) due True MaintTick by simp_all
      show ?thesis using Cons.IH [OF r(1,2) h(1) _ _ _ r(3), unfolded h(2,3)] Cons.prems(5,6) MaintTick True n by simp
    next
      case False
      then have h: "map_of (pending ?m) k = None" "FINs k ?m = FINs k m" using mp Cons.prems(3) due MaintTick by simp_all
      then show ?thesis using fin_run_gone [OF r] False by simp
    qed
  qed
qed simp

text \<open>C20: teardown does not retransmit forever. Once the FIN of a closed flow is pending, whatever maintenance runs and
  messages of the peer follow (as long as the peer does not start a flow of that identifier anew, which it cannot for
  one of this side): the FIN is retransmitted at most as often as the configured count still allows; an acknowledgement ends
  it at once and nothing is sent for it afterwards; and after one due maintenance run more than the count still allows it is
  forgotten, having been retransmitted exactly that often if no acknowledgement came.\<close>

theorem FIN_retransmission_ends:
  assumes "mux_inv m" and "\<not> mux_closed m" and "map_of (flows m) k = None"
    and "map_of (pending m) k = Some p" and "retries p \<le> finRetryCount (cfg m)"
    and "own (cfg m) k \<or> \<not> (\<exists>ev \<in> set evs. restarts k ev)"
    and "m' = fold (fin_step xmit) evs m" and "n = nat (finRetryCount (cfg m) - retries p)"
  shows "FINs k m' \<le> FINs k m + n
    \<and> (\<forall>evs1 ev evs2. evs = evs1 @ ev # evs2 \<and> acks k ev \<longrightarrow>
         map_of (pending m') k = None \<and> FINs k m' = FINs k (fold (fin_step xmit) evs1 m))
    \<and> (spaced (finRetryInterval (cfg m)) (pend_next p) (fin_ticks evs) \<and> n < length (fin_ticks evs) \<longrightarrow>
         map_of (pending m') k = None \<and> (\<not> (\<exists>ev \<in> set evs. acks k ev) \<longrightarrow> FINs k m' = FINs k m + n))"
proof (intro conjI allI impI)
  have g: "fin_gone k m" using assms(1-3) by (simp add: fin_gone_def)
  show "FINs k m' \<le> FINs k m + n" using fin_run_gone [OF g assms(6,7)] assms(4,8) by (simp add: fin_left_def)
  have ack: "map_of (pending m') k = None \<and> FINs k m' = FINs k (fold (fin_step xmit) evs1 m)"
    if e: "evs = evs1 @ ev # evs2 \<and> acks k ev" for evs1 ev evs2
  proof -
    let ?m1 = "fold (fin_step xmit) evs1 m" and ?m2 = "fin_step xmit ev (fold (fin_step xmit) evs1 m)"
    have r1: "fin_gone k ?m1" "cfg ?m1 = cfg m" using fin_run_gone [OF g _ refl, of evs1 xmit] assms(6) e by auto
    have r2: "fin_gone k ?m2" "cfg ?m2 = cfg m" "map_of (pending ?m2) k = None" "FINs k ?m2 = FINs k ?m1"
      using fin_step_gone [OF r1(1) _ refl, of ev xmit] r1(2) assms(6) e by auto
    show ?thesis using fin_run_gone [OF r2(1) _ refl, of evs2 xmit] r2 assms(6,7) e by auto
  qed
  then show "map_of (pending m') k = None" "FINs k m' = FINs k (fold (fin_step xmit) evs1 m)"
    if "evs = evs1 @ ev # evs2 \<and> acks k ev" for evs1 ev evs2 using that by blast+
  show "map_of (pending m') k = None"
    if "spaced (finRetryInterval (cfg m)) (pend_next p) (fin_ticks evs) \<and> n < length (fin_ticks evs)"
    using fin_run_ticks [OF g assms(6,4,5) _ _ assms(7)] that assms(8) by simp
  show "FINs k m' = FINs k m + n"
    if "spaced (finRetryInterval (cfg m)) (pend_next p) (fin_ticks evs) \<and> n < length (fin_ticks evs)" "\<not> (\<exists>ev \<in> set evs. acks k ev)"
    using fin_run_ticks [OF g assms(6,4,5) _ _ assms(7)] that assms(8) by simp
qed

text \<open>A retransmission, a DATA message for another flow, then the acknowledgement.\<close>

theorem FIN_retransmission_ends_witness:
  "let m = registerFIN 0 0 (mux_New (sample_config True));
       m' = fold (fin_step (\<lambda>_. None)) [MaintTick second, PeerMessage second (data_frame 7 [1]), PeerMessage second (control_frame 0 frameFINAck),
              MaintTick (2 * second)] m
   in FINs 0 m' \<le> 3 \<and> map_of (pending m') 0 = None \<and> FINs 0 m' = FINs 0 (fold (fin_step (\<lambda>_. None)) [MaintTick second, PeerMessage second (data_frame 7 [1])] m)"
proof -
  let ?m = "registerFIN 0 0 (mux_New (sample_config True))"
  let ?a = "PeerMessage second (control_frame 0 frameFINAck)" and ?e = "[MaintTick second, PeerMessage second (data_frame 7 [1])]"
  have m: "mux_inv ?m" by (intro registerFIN_inv mux_New_inv)
  have p: "map_of (pending ?m) 0 = Some \<lparr>pend_next = second, retries = 0\<rparr>" "\<not> mux_closed ?m"
    "map_of (flows ?m) 0 = None" "cfg ?m = sample_config True" "sent ?m = []"
    by (simp_all add: registerFIN_def mux_New_def sample_config_def mux_getters mux_consts)
  have c: "finRetryCount (cfg ?m) = 3" unfolding p(4) by (simp add: sample_config_def mux_getters mux_consts)
  have o: "own (cfg ?m) 0 \<or> \<not> (\<exists>ev \<in> set (?e @ ?a # [MaintTick (2 * second)]). restarts 0 ev)"
    unfolding p(4) by (simp add: own_def sample_config_def)
  have a: "acks 0 ?a" by (simp add: frame_fields Header_def)
  let ?m' = "fold (fin_step (\<lambda>_. None)) (?e @ ?a # [MaintTick (2 * second)]) ?m"
  note f = FIN_retransmission_ends [OF m p(2,3,1) _ o refl refl, of "\<lambda>_. None"]
  have "FINs 0 ?m' \<le> FINs 0 ?m + nat (finRetryCount (cfg ?m) - retries \<lparr>pend_next = second, retries = 0\<rparr>)
      \<and> map_of (pending ?m') 0 = None \<and> FINs 0 ?m' = FINs 0 (fold (fin_step (\<lambda>_. None)) ?e ?m)"
    using f a unfolding c by (metis (no_types, lifting) pendingFIN.select_convs(2) zero_le_numeral)
  then show ?thesis unfolding Let_def c p(5) by simp
qed

text \<open>Flows are isolated. Handling a message changes no flow object but the ones of the
  identifier the message names: neither its queue nor its state nor its activity time.\<close>

theorem handle_isolates_flows:
  assumes "mux_inv m" and "b < length (heap m)" and "flow_id (heap m ! b) \<noteq> Uint32 (take 4 msg)"
  shows "heap (mux_handle xmit now msg m) ! b = heap m ! b"
  using assms by (rule handle_other_flow)

theorem handle_isolates_flows_witness:
  "heap (mux_handle (\<lambda>_. None) 9 (data_frame 3 [7]) (snd (mux_OpenStream 0 (mux_New (sample_config True))))) ! 0
   = newFlow 0 0"
proof -
  let ?m = "snd (mux_OpenStream 0 (mux_New (sample_config True)))"
  have "heap ?m = [newFlow 0 0]"
    by (simp add: mux_OpenStream_def mux_New_def alloc_def sample_config_def)
  then show ?thesis
    using handle_isolates_flows [OF mux_OpenStream_inv [OF mux_New_inv], of 0 0 "sample_config True" "data_frame 3 [7]"]
    by (simp add: frame_fields newFlow_def)
qed

text \<open>C21: \<open>Close\<close> ends everything. The first \<open>Close\<close> leaves no flow and no pending FIN, every flow that
  was live is shut, opening is refused with \<^verbatim>\<open>net.ErrClosed\<close>, writes on those flows fail the same
  way, nothing is sent to the peer, and a second \<open>Close\<close> changes nothing.\<close>

theorem Close_ends_every_flow:
  assumes "mux_inv m" and "\<not> closeCalled m"
  shows "flows (mux_Close m) = [] \<and> pending (mux_Close m) = [] \<and> sent (mux_Close m) = sent m
     \<and> fst (mux_OpenStream now (mux_Close m)) = Inl ErrClosed
     \<and> (\<forall>(k, a) \<in> set (flows m). flow_closed (heap (mux_Close m) ! a)
          \<and> fst (flow_send xmit now payload a (mux_Close m)) = Some ErrClosed)
     \<and> mux_Close (mux_Close m) = mux_Close m"
proof -
  let ?c = "clear_tables (stopMaintenance (m\<lparr>closeCalled := True\<rparr>))"
  have c: "mux_Close m = fold (flow_shut ErrClosed) (map snd (flows m)) ?c"
    using assms(2) by (simp add: mux_Close_def shutAll_def stopMaintenance_def)
  note f = fold_shut_frame [of ErrClosed "map snd (flows m)" ?c]
  have closed: "flow_closed (heap (mux_Close m) ! a)" if "(k, a) \<in> set (flows m)" for k a
  proof -
    have "a < length (heap m)" using that assms(1) by (auto simp: mux_inv_defs)
    then show ?thesis unfolding c using that
      by (intro fold_shut_closed) (auto simp: clear_tables_def stopMaintenance_def image_iff intro: bexI [of _ "(k, a)"])
  qed
  have "closeCalled (fold (flow_shut e) as x) = closeCalled x" for e as x
    by (induction as arbitrary: x) (simp_all add: flow_shut_def frame_simps)
  then have "closeCalled (mux_Close m)" by (simp add: c clear_tables_def stopMaintenance_def)
  then have "mux_Close (mux_Close m) = mux_Close m" by (simp add: mux_Close_def)
  moreover have "mux_closed (mux_Close m)" using f by (simp add: c clear_tables_def)
  ultimately show ?thesis
    using f closed by (auto simp: c clear_tables_def stopMaintenance_def mux_OpenStream_def flow_send_def)
qed

theorem Close_ends_every_flow_witness:
  "let m = snd (mux_OpenStream 0 (mux_New (sample_config True))) in
     flows m = [(0, 0)] \<and> flows (mux_Close m) = [] \<and> flow_closed (heap (mux_Close m) ! 0)
     \<and> fst (flow_send (\<lambda>_. None) 5 [1] 0 (mux_Close m)) = Some ErrClosed \<and> fst (mux_OpenStream 4 (mux_Close m)) = Inl ErrClosed"
proof -
  let ?m = "snd (mux_OpenStream 0 (mux_New (sample_config True)))"
  have m: "flows ?m = [(0, 0)]" "\<not> closeCalled ?m" by (simp_all add: mux_OpenStream_def mux_New_def alloc_def sample_config_def)
  show ?thesis unfolding Let_def
    using Close_ends_every_flow [OF mux_OpenStream_inv [OF mux_New_inv] m(2), where now = 4]
      Close_ends_every_flow [OF mux_OpenStream_inv [OF mux_New_inv] m(2), where now = 5 and xmit = "\<lambda>_. None" and payload = "[1]"] m by auto
qed

end
