(* ===== verification/Datagram.thy ===== *)
theory Datagram
  imports Flowmux "HOL-Library.Monad_Syntax"
begin

text \<open>
  Datagrams over streams: \<^verbatim>\<open>internal/transport/datagram.go\<close> (a message channel presented as a byte
  stream), \<^verbatim>\<open>internal/udp/datagram.go\<close> (the two-byte length prefix) and \<^verbatim>\<open>internal/udp/pipe.go\<close> (the
  forwarding loops), with \<^verbatim>\<open>internal/transport/network.go\<close>.

  A reader is a function from the number of bytes asked for and its state to bytes or an error; it is
  \<open>None\<close> when the call blocks forever. The loops are partial functions in the same sense, so that
  every claim that a loop returns is a theorem. Two interfaces are locales: \<open>message_source\<close>, what a
  substrate's \<^verbatim>\<open>recv\<close> promises, and \<open>byte_reader\<close>, what \<^verbatim>\<open>io.ReadFull\<close> needs; the datagram stream
  turns the first into the second.
\<close>

section \<open>Networks\<close>

type_synonym network = string

definition NetworkTCP :: network where "NetworkTCP = ''tcp''"
definition NetworkUDP :: network where "NetworkUDP = ''udp''"

definition ParseNetwork :: "string \<Rightarrow> string + network" where
  "ParseNetwork value =
     (if value = NetworkTCP \<or> value = NetworkUDP then Inr value
      else Inl (''unsupported network type '' @ value))"

definition network_Datagram :: "network \<Rightarrow> bool" where
  "network_Datagram n \<longleftrightarrow> n = NetworkUDP"

section \<open>The datagram stream\<close>

type_synonym 'r receiver = "'r \<Rightarrow> ((io_error + byte list) \<times> 'r) option"
type_synonym 's reader = "nat \<Rightarrow> 's \<Rightarrow> ((io_error + byte list) \<times> 's) option"

record 'r datagramStream =
  ds_sub :: 'r
  ds_pending :: "byte list"
  ds_err :: "io_error option"
  ds_closed :: bool
  ds_closeErr :: "io_error option"

definition NewDatagramStream :: "'r \<Rightarrow> 'r datagramStream" where
  "NewDatagramStream r = \<lparr>ds_sub = r, ds_pending = [], ds_err = None, ds_closed = False, ds_closeErr = None\<rparr>"

partial_function (option) ds_Read :: "'r receiver \<Rightarrow> nat \<Rightarrow> 'r datagramStream
    \<Rightarrow> ((io_error + byte list) \<times> 'r datagramStream) option" where
  "ds_Read recv n d =
     (if n = 0 then Some (Inr [], d)
      else if ds_pending d \<noteq> [] then
        Some (Inr (take n (ds_pending d)), d\<lparr>ds_pending := drop n (ds_pending d)\<rparr>)
      else case ds_err d of
        Some e \<Rightarrow> Some (Inl e, d)
      | None \<Rightarrow>
          Option.bind (recv (ds_sub d)) (\<lambda>(res, r).
            case res of
              Inl e \<Rightarrow> Some (Inl e, d\<lparr>ds_sub := r, ds_err := Some e\<rparr>)
            | Inr msg \<Rightarrow> ds_Read recv n (d\<lparr>ds_sub := r, ds_pending := msg\<rparr>)))"

definition ds_Write :: "(byte list \<Rightarrow> 'r \<Rightarrow> io_error option \<times> 'r) \<Rightarrow> byte list \<Rightarrow> 'r datagramStream
    \<Rightarrow> (io_error + nat) \<times> 'r datagramStream" where
  "ds_Write xmit p d =
     (if p = [] then (Inr 0, d)
      else case xmit p (ds_sub d) of
        (Some e, r) \<Rightarrow> (Inl e, d\<lparr>ds_sub := r\<rparr>)
      | (None, r) \<Rightarrow> (Inr (length p), d\<lparr>ds_sub := r\<rparr>))"

definition ds_Close :: "('r \<Rightarrow> io_error option \<times> 'r) option \<Rightarrow> 'r datagramStream
    \<Rightarrow> io_error option \<times> 'r datagramStream" where
  "ds_Close closeFn d =
     (let d' = (if ds_closed d then d
                else case closeFn of
                  None \<Rightarrow> d\<lparr>ds_closed := True\<rparr>
                | Some f \<Rightarrow> (case f (ds_sub d) of
                    (e, r) \<Rightarrow> d\<lparr>ds_closed := True, ds_sub := r, ds_closeErr := e\<rparr>))
      in (ds_closeErr d', d'))"

definition ds_Reset :: "('r \<Rightarrow> io_error option \<times> 'r) option \<Rightarrow> 'r datagramStream
    \<Rightarrow> io_error option \<times> 'r datagramStream" where
  "ds_Reset closeFn d = ds_Close closeFn d"

section \<open>Length-prefixed datagrams\<close>

text \<open>\<^verbatim>\<open>io.ReadFull\<close>: read until \<open>n\<close> bytes are there; an end of file in the middle is unexpected.\<close>

partial_function (option) readFull_from :: "'s reader \<Rightarrow> nat \<Rightarrow> byte list \<Rightarrow> 's
    \<Rightarrow> ((io_error + byte list) \<times> 's) option" where
  "readFull_from read n got s =
     (if n \<le> length got then Some (Inr got, s)
      else Option.bind (read (n - length got) s) (\<lambda>(res, s').
        case res of
          Inl e \<Rightarrow> Some (Inl (if got \<noteq> [] \<and> e = EOF then ErrUnexpectedEOF else e), s')
        | Inr chunk \<Rightarrow> readFull_from read n (got @ chunk) s'))"

definition readFull :: "'s reader \<Rightarrow> nat \<Rightarrow> 's \<Rightarrow> ((io_error + byte list) \<times> 's) option" where
  "readFull read n s = readFull_from read n [] s"

datatype udp_error = TooLargeToForward nat | ExceedsBuffer nat nat | Stream io_error

definition maxDatagramSize :: nat where "maxDatagramSize = 65535"

definition datagram_frame :: "byte list \<Rightarrow> byte list" where
  "datagram_frame payload = PutUint16 (word_of_nat (length payload)) @ payload"

definition writeDatagram :: "(byte list \<Rightarrow> 's \<Rightarrow> (io_error + nat) \<times> 's) \<Rightarrow> byte list \<Rightarrow> 's
    \<Rightarrow> udp_error option \<times> 's" where
  "writeDatagram write payload s =
     (if length payload > maxDatagramSize then (Some (TooLargeToForward (length payload)), s)
      else case write (datagram_frame payload) s of
             (Inl e, s') \<Rightarrow> (Some (Stream e), s')
           | (Inr _, s') \<Rightarrow> (None, s'))"

definition readDatagram :: "'s reader \<Rightarrow> nat \<Rightarrow> 's \<Rightarrow> ((udp_error + byte list) \<times> 's) option" where
  "readDatagram read buflen s =
     Option.bind (readFull read 2 s) (\<lambda>(hdr, s1).
       case hdr of
         Inl e \<Rightarrow> Some (Inl (Stream e), s1)
       | Inr header \<Rightarrow>
           let n = unat (Uint16 header) in
           if n > buflen then Some (Inl (ExceedsBuffer n buflen), s1)
           else Option.bind (readFull read n s1) (\<lambda>(body, s2).
             case body of
               Inl e \<Rightarrow> Some (Inl (Stream e), s2)
             | Inr payload \<Rightarrow> Some (Inr payload, s2)))"

section \<open>The forwarding loops of the host side\<close>

text \<open>\<^verbatim>\<open>pipeDatagrams\<close> runs two loops. Each ends at the first error and then ends its other endpoint:
  the first closes the UDP connection, the second resets the stream.\<close>

record 'c udp_conn =
  uc_state :: 'c
  uc_closed :: bool

partial_function (option) pipe_stream_to_conn ::
  "'s reader \<Rightarrow> (byte list \<Rightarrow> 'c \<Rightarrow> io_error option \<times> 'c) \<Rightarrow> 's \<Rightarrow> 'c udp_conn \<Rightarrow> ('s \<times> 'c udp_conn) option" where
  "pipe_stream_to_conn read wr s c =
     Option.bind (readDatagram read maxDatagramSize s) (\<lambda>(res, s').
       case res of
         Inl e \<Rightarrow> Some (s', c\<lparr>uc_closed := True\<rparr>)
       | Inr payload \<Rightarrow>
           (case wr payload (uc_state c) of
              (Some e, c') \<Rightarrow> Some (s', c\<lparr>uc_state := c', uc_closed := True\<rparr>)
            | (None, c') \<Rightarrow> pipe_stream_to_conn read wr s' (c\<lparr>uc_state := c'\<rparr>)))"

text \<open>The other direction runs over what the connection's \<^verbatim>\<open>Read\<close> returns before its error.\<close>

fun pipe_conn_to_stream ::
  "(byte list \<Rightarrow> 's \<Rightarrow> (io_error + nat) \<times> 's) \<Rightarrow> ('s \<Rightarrow> 's) \<Rightarrow> byte list list \<Rightarrow> 's \<Rightarrow> 's" where
  "pipe_conn_to_stream write reset [] s = reset s"
| "pipe_conn_to_stream write reset (p # ps) s =
     (case writeDatagram write p s of
        (Some e, s') \<Rightarrow> reset s'
      | (None, s') \<Rightarrow> pipe_conn_to_stream write reset ps s')"

section \<open>Interfaces\<close>

text \<open>A byte reader: while its contents last, a read returns a nonempty prefix of them.\<close>

locale byte_reader =
  fixes read :: "'s reader"
    and content :: "'s \<Rightarrow> byte list"
    and ok :: "'s \<Rightarrow> bool"
  assumes read_some: "ok s \<Longrightarrow> 0 < n \<Longrightarrow> content s \<noteq> [] \<Longrightarrow>
    \<exists>k s'. 0 < k \<and> k \<le> n \<and> read n s = Some (Inr (take k (content s)), s')
      \<and> content s' = drop k (content s) \<and> ok s'"
begin

lemma readFull_from_content:
  "ok s \<Longrightarrow> length got \<le> n \<Longrightarrow> n - length got \<le> length (content s) \<Longrightarrow>
   \<exists>s'. readFull_from read n got s = Some (Inr (got @ take (n - length got) (content s)), s')
     \<and> content s' = drop (n - length got) (content s) \<and> ok s'"
proof (induction "n - length got" arbitrary: got s rule: less_induct)
  case less
  show ?case
  proof (cases "n \<le> length got")
    case True
    then show ?thesis using less.prems by (subst readFull_from.simps) auto
  next
    case False
    let ?w = "n - length got"
    have ne: "content s \<noteq> []" and w: "0 < ?w" using False less.prems(3) by auto
    obtain k s1 where k: "0 < k" "k \<le> ?w" "read ?w s = Some (Inr (take k (content s)), s1)"
        "content s1 = drop k (content s)" "ok s1"
      using read_some [OF less.prems(1) w ne] by blast
    let ?got = "got @ take k (content s)"
    have len: "length ?got = length got + k" using k less.prems(3) by simp
    have "\<exists>s'. readFull_from read n ?got s1
        = Some (Inr (?got @ take (n - length ?got) (content s1)), s')
        \<and> content s' = drop (n - length ?got) (content s1) \<and> ok s'"
      using k less.prems len by (intro less.hyps) auto
    moreover have "readFull_from read n got s = readFull_from read n ?got s1"
      using False k(3) by (subst readFull_from.simps) simp
    moreover have "take k (content s) @ take (n - length ?got) (drop k (content s)) = take ?w (content s)"
      using k len by (simp add: take_add [symmetric])
    moreover have "drop (n - length ?got) (drop k (content s)) = drop ?w (content s)"
      using k len by simp
    ultimately show ?thesis using k by auto
  qed
qed

lemma readFull_content:
  "ok s \<Longrightarrow> n \<le> length (content s) \<Longrightarrow>
   \<exists>s'. readFull read n s = Some (Inr (take n (content s)), s') \<and> content s' = drop n (content s) \<and> ok s'"
  unfolding readFull_def using readFull_from_content [of s "[]" n] by simp

lemma readDatagram_content:
  assumes "ok s" "content s = datagram_frame payload @ rest" "length payload \<le> buflen" "buflen \<le> maxDatagramSize"
  shows "\<exists>s'. readDatagram read buflen s = Some (Inr payload, s') \<and> content s' = rest \<and> ok s'"
proof -
  have l: "length payload < 65536" using assms(3,4) by (simp add: maxDatagramSize_def)
  have hd: "take 2 (content s) = PutUint16 (word_of_nat (length payload))"
    "drop 2 (content s) = payload @ rest" "2 \<le> length (content s)"
    using assms(2) by (simp_all add: datagram_frame_def)
  obtain s1 where s1: "readFull read 2 s = Some (Inr (take 2 (content s)), s1)"
      "content s1 = payload @ rest" "ok s1"
    using readFull_content [OF assms(1) hd(3)] hd(2) by auto
  have u: "unat (Uint16 (take 2 (content s))) = length payload"
    unfolding hd(1) using l by (simp add: unat_of_nat)
  obtain s2 where s2: "readFull read (length payload) s1 = Some (Inr payload, s2)" "content s2 = rest" "ok s2"
    using readFull_content [OF s1(3), of "length payload"] s1(2) by auto
  show ?thesis
    using s1(1) s2 assms(3) by (simp add: readDatagram_def u Let_def)
qed

end

text \<open>A message source: \<^verbatim>\<open>recv\<close> returns the queued messages one by one.\<close>

locale message_source =
  fixes recv :: "'r receiver"
    and msgs :: "'r \<Rightarrow> byte list list"
    and good :: "'r \<Rightarrow> bool"
  assumes recv_next: "good r \<Longrightarrow> msgs r = m # ms \<Longrightarrow> \<exists>r'. recv r = Some (Inr m, r') \<and> msgs r' = ms \<and> good r'"
begin

lemma read_pending:
  "ds_pending d \<noteq> [] \<Longrightarrow> 0 < n \<Longrightarrow>
   ds_Read recv n d = Some (Inr (take n (ds_pending d)), d\<lparr>ds_pending := drop n (ds_pending d)\<rparr>)"
  by (subst ds_Read.simps) simp

lemma read_content:
  "good (ds_sub d) \<Longrightarrow> ds_err d = None \<Longrightarrow> 0 < n \<Longrightarrow> ds_pending d @ concat (msgs (ds_sub d)) \<noteq> [] \<Longrightarrow>
   \<exists>k d'. 0 < k \<and> k \<le> n \<and> ds_Read recv n d = Some (Inr (take k (ds_pending d @ concat (msgs (ds_sub d)))), d')
     \<and> ds_pending d' @ concat (msgs (ds_sub d')) = drop k (ds_pending d @ concat (msgs (ds_sub d)))
     \<and> good (ds_sub d') \<and> ds_err d' = None"
proof (induction "msgs (ds_sub d)" arbitrary: d)
  case Nil
  let ?k = "min n (length (ds_pending d))"
  have "ds_pending d \<noteq> []" using Nil by simp
  then show ?case using Nil read_pending [of d n] by (intro exI [of _ ?k]) (auto simp: min_def)
next
  case (Cons m ms)
  show ?case
  proof (cases "ds_pending d = []")
    case False
    let ?k = "min n (length (ds_pending d))"
    show ?thesis
    proof (intro exI conjI)
      show "ds_Read recv n d = Some (Inr (take ?k (ds_pending d @ concat (msgs (ds_sub d)))),
          d\<lparr>ds_pending := drop n (ds_pending d)\<rparr>)"
        unfolding read_pending [OF False Cons.prems(3)] by (simp add: min_def)
    qed (use False Cons.prems in \<open>auto simp: min_def\<close>)
  next
    case True
    obtain r where r: "recv (ds_sub d) = Some (Inr m, r)" "msgs r = ms" "good r"
      using recv_next [OF Cons.prems(1)] Cons.hyps(2) by metis
    let ?d = "d\<lparr>ds_sub := r, ds_pending := m\<rparr>"
    have step: "ds_Read recv n d = ds_Read recv n ?d"
      using True Cons.prems(2,3) r(1) by (subst ds_Read.simps) simp
    have "ds_pending ?d @ concat (msgs (ds_sub ?d)) = ds_pending d @ concat (msgs (ds_sub d))"
      using True r by (simp flip: Cons.hyps(2))
    moreover from this have "\<exists>k d'. 0 < k \<and> k \<le> n \<and>
        ds_Read recv n ?d = Some (Inr (take k (ds_pending ?d @ concat (msgs (ds_sub ?d)))), d')
        \<and> ds_pending d' @ concat (msgs (ds_sub d')) = drop k (ds_pending ?d @ concat (msgs (ds_sub ?d)))
        \<and> good (ds_sub d') \<and> ds_err d' = None"
      using r Cons.prems by (intro Cons.hyps(1)) auto
    ultimately show ?thesis unfolding step by metis
  qed
qed

end

sublocale message_source \<subseteq> ds: byte_reader "ds_Read recv"
    "\<lambda>d. ds_pending d @ concat (msgs (ds_sub d))" "\<lambda>d. good (ds_sub d) \<and> ds_err d = None"
  by unfold_locales (use read_content in blast)

section \<open>A flow of the multiplexer as message source\<close>

text \<open>\<^verbatim>\<open>flow.stream\<close> hands the flow's \<^verbatim>\<open>recv\<close> to the datagram stream. Whenever both cases of its
  \<^verbatim>\<open>select\<close> are ready they have the same effect, so the receiver is a function.\<close>

definition flow_receiver :: "addr \<Rightarrow> mux receiver" where
  "flow_receiver a m =
     (case flow_recv (if packets (heap m ! a) \<noteq> [] then OnPackets else OnClosed) a m of
        None \<Rightarrow> None
      | Some (Inr p, m') \<Rightarrow> Some (Inr p, m')
      | Some (Inl (Some e), m') \<Rightarrow> Some (Inl e, m')
      | Some (Inl None, m') \<Rightarrow> Some (Inr [], m'))"

definition flow_stream :: "mux \<Rightarrow> mux datagramStream" where
  "flow_stream m = NewDatagramStream m"

lemma flow_recv_select:
  "flow_recv sel a m = Some x \<Longrightarrow>
   flow_recv (if packets (heap m ! a) \<noteq> [] then OnPackets else OnClosed) a m = Some x"
  by (auto simp: flow_recv_def Let_def split: recv_case.splits list.splits if_splits)

interpretation flow_src: message_source "flow_receiver a" "\<lambda>m :: mux. packets (heap m ! a)"
    "\<lambda>m :: mux. a < length (heap m)" for a
proof
  fix r :: mux and p ps
  assume r: "a < length (heap r)" "packets (heap r ! a) = p # ps"
  then obtain r' where "flow_recv OnPackets a r = Some (Inr p, r')" "packets (heap r' ! a) = ps"
    using flow_recv_head [of a r p ps OnPackets] by auto
  moreover from this have "length (heap r') = length (heap r)"
    by (auto simp: flow_recv_def Let_def frame_simps split: list.splits)
  ultimately show "\<exists>r'. flow_receiver a r = Some (Inr p, r') \<and> packets (heap r' ! a) = ps \<and> a < length (heap r')"
    using r by (simp add: flow_receiver_def)
qed

lemma ds_Read_closed:
  assumes "0 < n" "ds_pending d = []" "ds_err d = None" "packets (heap (ds_sub d) ! a) = []"
    "flow_closed (heap (ds_sub d) ! a)" "flow_err (heap (ds_sub d) ! a) = Some e"
  shows "ds_Read (flow_receiver a) n d = Some (Inl e, d\<lparr>ds_err := Some e\<rparr>)"
proof -
  have "flow_receiver a (ds_sub d) = Some (Inl e, ds_sub d)"
    using assms(4-6) by (simp add: flow_receiver_def flow_recv_def Let_def)
  with assms(1-3) show ?thesis by (subst ds_Read.simps) simp
qed

text \<open>Reading changes nothing else of the flow: not that it is closed, nor why.\<close>

lemma flow_recv_keeps_end:
  "flow_recv sel a m = Some (r, m') \<Longrightarrow> a < length (heap m) \<Longrightarrow>
   flow_closed (heap m' ! a) = flow_closed (heap m ! a) \<and> flow_err (heap m' ! a) = flow_err (heap m ! a)
   \<and> length (heap m') = length (heap m)"
  by (auto simp: flow_recv_def Let_def upd_flow_nth frame_simps
      split: recv_case.splits list.splits if_splits)

definition flow_ended :: "addr \<Rightarrow> io_error \<Rightarrow> mux \<Rightarrow> bool" where
  "flow_ended a e m \<longleftrightarrow> a < length (heap m) \<and> flow_closed (heap m ! a) \<and> flow_err (heap m ! a) = Some e
     \<and> [] \<notin> set (packets (heap m ! a))"

text \<open>The same source with its end: a flow that was shut with cause \<open>e\<close> (\<open>handle\<close> queues no empty
  payload).\<close>

interpretation ended_src: message_source "flow_receiver a" "\<lambda>m :: mux. packets (heap m ! a)" "flow_ended a e" for a e
proof
  fix r :: mux and p ps
  assume r: "flow_ended a e r" "packets (heap r ! a) = p # ps"
  then obtain r' where r': "flow_recv OnPackets a r = Some (Inr p, r')" "packets (heap r' ! a) = ps"
    using flow_recv_head [of a r p ps OnPackets] by (auto simp: flow_ended_def)
  then have "flow_ended a e r'"
    using flow_recv_keeps_end [OF r'(1)] r r'(2) by (auto simp: flow_ended_def)
  then show "\<exists>r'. flow_receiver a r = Some (Inr p, r') \<and> packets (heap r' ! a) = ps \<and> flow_ended a e r'"
    using r r' by (simp add: flow_receiver_def)
qed

lemma readDatagram_at_end:
  assumes "flow_ended a e (ds_sub d)" "ds_err d = None" "ds_pending d @ concat (packets (heap (ds_sub d) ! a)) = []"
  shows "readDatagram (ds_Read (flow_receiver a)) n d = Some (Inl (Stream e), d\<lparr>ds_err := Some e\<rparr>)"
proof -
  have "packets (heap (ds_sub d) ! a) = []"
    using assms(1,3) unfolding flow_ended_def by (cases "packets (heap (ds_sub d) ! a)") auto
  then have "ds_Read (flow_receiver a) 2 d = Some (Inl e, d\<lparr>ds_err := Some e\<rparr>)"
    using assms by (intro ds_Read_closed) (auto simp: flow_ended_def)
  then have "readFull (ds_Read (flow_receiver a)) 2 d = Some (Inl e, d\<lparr>ds_err := Some e\<rparr>)"
    unfolding readFull_def by (subst readFull_from.simps) simp
  then show ?thesis by (simp add: readDatagram_def)
qed

lemma pipe_loop:
  assumes "flow_ended a e (ds_sub d)" "ds_err d = None"
    "ds_pending d @ concat (packets (heap (ds_sub d) ! a)) = concat (map datagram_frame ds)"
    "\<forall>p \<in> set ds. length p \<le> maxDatagramSize" "\<And>p x. wr p x = (None, app p x)"
  shows "\<exists>d'. pipe_stream_to_conn (ds_Read (flow_receiver a)) wr d c
     = Some (d', c\<lparr>uc_state := fold app ds (uc_state c), uc_closed := True\<rparr>)"
  using assms(1-4)
proof (induction ds arbitrary: d c)
  case Nil
  then show ?case
    using readDatagram_at_end [of a e d maxDatagramSize] by (subst pipe_stream_to_conn.simps) simp
next
  case (Cons p ds)
  obtain d1 where d1: "readDatagram (ds_Read (flow_receiver a)) maxDatagramSize d = Some (Inr p, d1)"
      "ds_pending d1 @ concat (packets (heap (ds_sub d1) ! a)) = concat (map datagram_frame ds)"
      "flow_ended a e (ds_sub d1)" "ds_err d1 = None"
    using ended_src.ds.readDatagram_content [of a e d p "concat (map datagram_frame ds)" maxDatagramSize]
      Cons.prems by auto
  from Cons.IH [OF d1(3,4,2), of "c\<lparr>uc_state := app p (uc_state c)\<rparr>"] Cons.prems(4) obtain d'
    where d': "pipe_stream_to_conn (ds_Read (flow_receiver a)) wr d1 (c\<lparr>uc_state := app p (uc_state c)\<rparr>)
      = Some (d', c\<lparr>uc_state := fold app ds (app p (uc_state c)), uc_closed := True\<rparr>)" by auto
  have "pipe_stream_to_conn (ds_Read (flow_receiver a)) wr d c
      = pipe_stream_to_conn (ds_Read (flow_receiver a)) wr d1 (c\<lparr>uc_state := app p (uc_state c)\<rparr>)"
    using d1(1) by (subst pipe_stream_to_conn.simps) (simp add: assms(5))
  with d' show ?case by auto
qed

definition read_outcome :: "'r receiver \<Rightarrow> nat \<Rightarrow> 'r datagramStream
    \<Rightarrow> (io_error + byte list) \<times> 'r datagramStream \<Rightarrow> bool" where
  "read_outcome recv n d y \<longleftrightarrow> (0 < n \<longrightarrow> (case fst y of
      Inl e \<Rightarrow> ds_pending (snd y) = [] \<and> ds_err (snd y) = Some e
    | Inr chunk \<Rightarrow> chunk \<noteq> [] \<and> length chunk \<le> n))"

lemma ds_Read_outcome: "ds_Read recv n d = Some y \<Longrightarrow> read_outcome recv n d y"
proof (induction rule: ds_Read.raw_induct [where P = read_outcome, rotated, consumes 1, case_names step])
  case (step f recv n d y)
  show ?case
  proof (cases "n = 0 \<or> ds_pending d \<noteq> [] \<or> ds_err d \<noteq> None")
    case True
    with step(2) show ?thesis by (auto simp: read_outcome_def split: if_splits)
  next
    case False
    with step(2) obtain res r where r: "recv (ds_sub d) = Some (res, r)"
      by (cases "recv (ds_sub d)") auto
    show ?thesis
    proof (cases res)
      case (Inl e)
      with r False step(2) show ?thesis by (auto simp: read_outcome_def)
    next
      case (Inr msg)
      with r False step(2) have "f recv n (d\<lparr>ds_sub := r, ds_pending := msg\<rparr>) = Some y" by simp
      from step(1) [OF this] show ?thesis by (simp add: read_outcome_def)
    qed
  qed
qed

lemma ds_Read_error_sticky:
  assumes "ds_Read recv n d = Some (res, d')" "0 < n"
  shows "case res of Inl e \<Rightarrow> ds_pending d' = [] \<and> ds_err d' = Some e | Inr chunk \<Rightarrow> chunk \<noteq> [] \<and> length chunk \<le> n"
  using ds_Read_outcome [OF assms(1)] assms(2) by (auto simp: read_outcome_def split: sum.splits)

section \<open>Properties\<close>

text \<open>Forwarding preserves datagrams. When the flow behind a stream holds the frames of the
  datagrams \<open>ds\<close>, one per message, and was then shut, the host's \<^verbatim>\<open>pipeDatagrams\<close> loop ends, having
  written exactly \<open>ds\<close> to the local connection, in order, none split, merged or empty-padded, and
  having closed that connection.\<close>

theorem pipe_preserves_datagrams:
  assumes "a < length (heap m)" and "flow_closed (heap m ! a)" and "flow_err (heap m ! a) = Some e"
    and "packets (heap m ! a) = map datagram_frame ds"
    and "\<forall>p \<in> set ds. length p \<le> maxDatagramSize" and "\<And>p x. wr p x = (None, app p x)"
  shows "\<exists>d'. pipe_stream_to_conn (ds_Read (flow_receiver a)) wr (flow_stream m) c
     = Some (d', c\<lparr>uc_state := fold app ds (uc_state c), uc_closed := True\<rparr>)"
proof (rule pipe_loop [OF _ _ _ assms(5,6)])
  show "flow_ended a e (ds_sub (flow_stream m))"
    using assms(1-4) by (auto simp: flow_ended_def flow_stream_def NewDatagramStream_def datagram_frame_def PutUint16_def)
qed (simp_all add: assms(4) flow_stream_def NewDatagramStream_def)

theorem pipe_preserves_datagrams_witness:
  "\<exists>d'. pipe_stream_to_conn (ds_Read (flow_receiver 0)) (\<lambda>p x. (None, x @ [p]))
      (flow_stream ((mux_New (sample_config True))\<lparr>heap := [\<lparr>flow_id = 0, packets = map datagram_frame [[7], [], [8, 9]],
          flow_closed = True, flow_err = Some EOF, lastActivity = 0\<rparr>]\<rparr>)) \<lparr>uc_state = [], uc_closed = False\<rparr>
    = Some (d', \<lparr>uc_state = [[7], [], [8, 9]], uc_closed = True\<rparr>)"
  using pipe_preserves_datagrams [of 0 "(mux_New (sample_config True))\<lparr>heap := [\<lparr>flow_id = 0,
      packets = map datagram_frame [[7], [], [8, 9]], flow_closed = True, flow_err = Some EOF, lastActivity = 0\<rparr>]\<rparr>"
      EOF "[[7], [], [8, 9]]" "\<lambda>p x. (None, x @ [p])" "\<lambda>p x. x @ [p]" "\<lparr>uc_state = [], uc_closed = False\<rparr>"]
  by (simp add: maxDatagramSize_def)

text \<open>The contract of the datagram stream's \<open>Read\<close>. A \<open>Read\<close> for at least one byte that returns
  gives between one and that many bytes, never an empty success; and a failure is sticky: every later
  \<open>Read\<close>, over whatever the substrate does next, reports the same error again.\<close>

theorem ds_Read_contract:
  assumes "ds_Read recv n d = Some (res, d')" and "0 < n"
  shows "(\<forall>chunk. res = Inr chunk \<longrightarrow> chunk \<noteq> [] \<and> length chunk \<le> n)
     \<and> (\<forall>e recv' n'. res = Inl e \<longrightarrow> 0 < n' \<longrightarrow> ds_Read recv' n' d' = Some (Inl e, d'))"
proof (intro conjI allI impI)
  fix chunk assume "res = Inr chunk"
  then show "chunk \<noteq> []" "length chunk \<le> n" using ds_Read_error_sticky [OF assms] by auto
next
  fix e and recv' :: "'a receiver" and n' :: nat assume "res = Inl e" "0 < n'"
  then show "ds_Read recv' n' d' = Some (Inl e, d')"
    using ds_Read_error_sticky [OF assms] by (subst ds_Read.simps) auto
qed

theorem ds_Read_contract_witness:
  "\<exists>d'. ds_Read (\<lambda>r. Some (Inl EOF, r)) 2 (NewDatagramStream ()) = Some (Inl EOF, d')
     \<and> ds_Read (\<lambda>r. Some (Inr [1], r)) 5 d' = Some (Inl EOF, d')"
proof -
  have "ds_Read (\<lambda>r. Some (Inl EOF, r)) 2 (NewDatagramStream ())
      = Some (Inl EOF, (NewDatagramStream ())\<lparr>ds_sub := (), ds_err := Some EOF\<rparr>)"
    by (subst ds_Read.simps) (simp add: NewDatagramStream_def)
  then show ?thesis using ds_Read_contract by (metis zero_less_numeral)
qed

end
