(* ===== verification/Udp_Flow.thy ===== *)
theory Udp_Flow
  imports Datagram
begin

text \<open>
  The client side of UDP forwarding, \<^verbatim>\<open>internal/udp/flow.go\<close>: one tunnel stream per source address,
  kept in a \<^verbatim>\<open>flowTable\<close> until it fails, idles out or the forwarder ends. Flow objects live in a heap,
  because \<^verbatim>\<open>remove\<close> compares pointers. What the opener answers, what writing to a stream or to the
  local socket answers, and the time are arguments; \<open>uf_resets\<close> counts the \<^verbatim>\<open>Reset\<close> calls a flow's
  stream received, \<open>ft_forwarded\<close> and \<open>ft_replied\<close> log the datagrams handed to a stream or back to a
  client. \<^verbatim>\<open>remove\<close> and \<^verbatim>\<open>removeIdle\<close> reset streams just after they release the lock; a reset touches
  only that flow's own stream, so each is one step here.
\<close>

definition flowIdleTimeout :: duration where "flowIdleTimeout = 60 * second"

record udp_flow =
  uf_stream :: nat
  uf_addr :: string
  uf_lastActivity :: gtime
  uf_resets :: nat

record flowTable =
  ft_heap :: "udp_flow list"
  ft_flows :: "(string, nat) gomap"
  ft_closed :: bool
  ft_forwarded :: "(nat \<times> byte list) list"
  ft_replied :: "(string \<times> byte list) list"

definition newFlowTable :: flowTable where
  "newFlowTable = \<lparr>ft_heap = [], ft_flows = [], ft_closed = False, ft_forwarded = [], ft_replied = []\<rparr>"

definition ft_upd :: "nat \<Rightarrow> (udp_flow \<Rightarrow> udp_flow) \<Rightarrow> flowTable \<Rightarrow> flowTable" where
  "ft_upd a g t = t\<lparr>ft_heap := (ft_heap t)[a := g (ft_heap t ! a)]\<rparr>"

definition uf_touch :: "gtime \<Rightarrow> nat \<Rightarrow> flowTable \<Rightarrow> flowTable" where
  "uf_touch now a t = ft_upd a (\<lambda>f. f\<lparr>uf_lastActivity := now\<rparr>) t"

definition uf_Reset :: "nat \<Rightarrow> flowTable \<Rightarrow> flowTable" where
  "uf_Reset a t = ft_upd a (\<lambda>f. f\<lparr>uf_resets := uf_resets f + 1\<rparr>) t"

datatype get_error = ShuttingDown | OpenFailed io_error

definition ft_get :: "(io_error + nat) \<Rightarrow> gtime \<Rightarrow> string \<Rightarrow> flowTable \<Rightarrow> (get_error + nat) \<times> flowTable" where
  "ft_get opened now key t =
     (case map_of (ft_flows t) key of
        Some a \<Rightarrow> (Inr a, uf_touch now a t)
      | None \<Rightarrow>
          if ft_closed t then (Inl ShuttingDown, t)
          else (case opened of
                  Inl e \<Rightarrow> (Inl (OpenFailed e), t)
                | Inr stream \<Rightarrow>
                    let a = length (ft_heap t);
                        f = \<lparr>uf_stream = stream, uf_addr = key, uf_lastActivity = now, uf_resets = 0\<rparr>
                    in (Inr a, t\<lparr>ft_heap := ft_heap t @ [f], ft_flows := AList.update key a (ft_flows t)\<rparr>)))"

definition ft_remove :: "nat \<Rightarrow> flowTable \<Rightarrow> flowTable" where
  "ft_remove a t =
     (let key = uf_addr (ft_heap t ! a) in
      if map_of (ft_flows t) key \<noteq> Some a then t
      else uf_Reset a (t\<lparr>ft_flows := AList.delete key (ft_flows t)\<rparr>))"

definition ft_removeIdle :: "gtime \<Rightarrow> flowTable \<Rightarrow> flowTable" where
  "ft_removeIdle now t =
     (let cutoff = now - flowIdleTimeout;
          idle = filter (\<lambda>(key, a). uf_lastActivity (ft_heap t ! a) < cutoff) (ft_flows t);
          live = filter (\<lambda>(key, a). \<not> uf_lastActivity (ft_heap t ! a) < cutoff) (ft_flows t)
      in fold uf_Reset (map snd idle) (t\<lparr>ft_flows := live\<rparr>))"

definition ft_closeAll :: "flowTable \<Rightarrow> flowTable" where
  "ft_closeAll t =
     (if ft_closed t then t
      else fold uf_Reset (map snd (ft_flows t)) (t\<lparr>ft_closed := True, ft_flows := []\<rparr>))"

text \<open>\<^verbatim>\<open>serveLocal\<close>: what \<^verbatim>\<open>ReadFrom\<close> returned, with the answers of the opener and of the stream.\<close>

datatype local_read =
    ReadClosed
  | ReadFailed
  | ReadFrom string "byte list" "io_error + nat" "udp_error option"

fun serveLocal :: "(local_read \<times> gtime) list \<Rightarrow> flowTable \<Rightarrow> flowTable" where
  "serveLocal [] t = t"
| "serveLocal ((ReadClosed, now) # rs) t = ft_closeAll t"
| "serveLocal ((ReadFailed, now) # rs) t = serveLocal rs t"
| "serveLocal ((ReadFrom addr payload opened werr, now) # rs) t =
     (case ft_get opened now addr t of
        (Inl e, t1) \<Rightarrow> serveLocal rs t1
      | (Inr a, t1) \<Rightarrow>
          let t2 = t1\<lparr>ft_forwarded := ft_forwarded t1 @ [(uf_stream (ft_heap t1 ! a), payload)]\<rparr>
          in serveLocal rs (case werr of None \<Rightarrow> t2 | Some e \<Rightarrow> ft_remove a t2))"

text \<open>\<^verbatim>\<open>pumpStreamToLocal\<close> over the datagrams its stream delivers before it ends, each with the time and
  whether \<^verbatim>\<open>WriteTo\<close> succeeded; the deferred \<^verbatim>\<open>remove\<close> runs on every way out.\<close>

fun pumpStreamToLocal :: "nat \<Rightarrow> (byte list \<times> gtime \<times> bool) list \<Rightarrow> flowTable \<Rightarrow> flowTable" where
  "pumpStreamToLocal a [] t = ft_remove a t"
| "pumpStreamToLocal a ((payload, now, written) # ds) t =
     (let t1 = uf_touch now a t in
      if \<not> written then ft_remove a t1
      else pumpStreamToLocal a ds
             (t1\<lparr>ft_replied := ft_replied t1 @ [(uf_addr (ft_heap t1 ! a), payload)]\<rparr>))"

section \<open>The invariant: every stream is registered, or reset once\<close>

definition ft_inv :: "flowTable \<Rightarrow> bool" where
  "ft_inv t \<longleftrightarrow>
     wf_gomap (ft_flows t)
     \<and> (\<forall>(key, a) \<in> set (ft_flows t). a < length (ft_heap t) \<and> uf_addr (ft_heap t ! a) = key)
     \<and> (\<forall>a < length (ft_heap t).
          uf_resets (ft_heap t ! a) = (if (uf_addr (ft_heap t ! a), a) \<in> set (ft_flows t) then 0 else 1))
     \<and> (ft_closed t \<longrightarrow> ft_flows t = [])"

lemma newFlowTable_inv: "ft_inv newFlowTable"
  by (simp add: ft_inv_def newFlowTable_def)

lemma ft_upd_frame [frame_simps]:
  "ft_flows (ft_upd a g t) = ft_flows t" "ft_closed (ft_upd a g t) = ft_closed t"
  "length (ft_heap (ft_upd a g t)) = length (ft_heap t)"
  by (simp_all add: ft_upd_def)

lemma ft_upd_nth:
  "b < length (ft_heap t) \<Longrightarrow> ft_heap (ft_upd a g t) ! b = (if a = b then g (ft_heap t ! b) else ft_heap t ! b)"
  by (simp add: ft_upd_def nth_list_update)

lemma uf_touch_inv: "ft_inv t \<Longrightarrow> ft_inv (uf_touch now a t)"
  by (auto simp: ft_inv_def uf_touch_def frame_simps ft_upd_nth)

lemma ft_log_inv: "ft_inv t \<Longrightarrow> ft_inv (t\<lparr>ft_forwarded := x\<rparr>)" "ft_inv t \<Longrightarrow> ft_inv (t\<lparr>ft_replied := y\<rparr>)"
  by (simp_all add: ft_inv_def)

text \<open>Resetting a list of flows, each once.\<close>

lemma fold_Reset:
  assumes "distinct as"
  shows "length (ft_heap (fold uf_Reset as t)) = length (ft_heap t)
     \<and> ft_flows (fold uf_Reset as t) = ft_flows t \<and> ft_closed (fold uf_Reset as t) = ft_closed t
     \<and> (\<forall>b < length (ft_heap t).
          uf_addr (ft_heap (fold uf_Reset as t) ! b) = uf_addr (ft_heap t ! b)
          \<and> uf_lastActivity (ft_heap (fold uf_Reset as t) ! b) = uf_lastActivity (ft_heap t ! b)
          \<and> uf_resets (ft_heap (fold uf_Reset as t) ! b)
              = uf_resets (ft_heap t ! b) + (if b \<in> set as then 1 else 0))"
  using assms
proof (induction as arbitrary: t)
  case (Cons a as)
  have l: "length (ft_heap (uf_Reset a t)) = length (ft_heap t)" "ft_flows (uf_Reset a t) = ft_flows t"
    "ft_closed (uf_Reset a t) = ft_closed t"
    by (simp_all add: uf_Reset_def frame_simps)
  have n: "b < length (ft_heap t) \<Longrightarrow> ft_heap (uf_Reset a t) ! b
      = (if a = b then (ft_heap t ! b)\<lparr>uf_resets := uf_resets (ft_heap t ! b) + 1\<rparr> else ft_heap t ! b)" for b
    by (simp add: uf_Reset_def ft_upd_nth)
  from Cons.prems have d: "distinct as" "a \<notin> set as" by simp_all
  note ih = Cons.IH [OF d(1), of "uf_Reset a t", unfolded l]
  show ?case
  proof (intro conjI allI impI)
    fix b assume b: "b < length (ft_heap t)"
    show "uf_addr (ft_heap (fold uf_Reset (a # as) t) ! b) = uf_addr (ft_heap t ! b)"
      "uf_lastActivity (ft_heap (fold uf_Reset (a # as) t) ! b) = uf_lastActivity (ft_heap t ! b)"
      "uf_resets (ft_heap (fold uf_Reset (a # as) t) ! b)
         = uf_resets (ft_heap t ! b) + (if b \<in> set (a # as) then 1 else 0)"
    proof -
      from ih b have e: "uf_addr (ft_heap (fold uf_Reset as (uf_Reset a t)) ! b) = uf_addr (ft_heap (uf_Reset a t) ! b)"
        "uf_lastActivity (ft_heap (fold uf_Reset as (uf_Reset a t)) ! b) = uf_lastActivity (ft_heap (uf_Reset a t) ! b)"
        "uf_resets (ft_heap (fold uf_Reset as (uf_Reset a t)) ! b)
           = uf_resets (ft_heap (uf_Reset a t) ! b) + (if b \<in> set as then 1 else 0)"
        by blast+
      show "uf_addr (ft_heap (fold uf_Reset (a # as) t) ! b) = uf_addr (ft_heap t ! b)"
        "uf_lastActivity (ft_heap (fold uf_Reset (a # as) t) ! b) = uf_lastActivity (ft_heap t ! b)"
        "uf_resets (ft_heap (fold uf_Reset (a # as) t) ! b)
           = uf_resets (ft_heap t ! b) + (if b \<in> set (a # as) then 1 else 0)"
        using d(2) by (auto simp: e n [OF b])
    qed
  qed (use ih in \<open>simp_all\<close>)
qed simp

lemma ft_inv_addr_inj:
  assumes "ft_inv t" "(k, a) \<in> set (ft_flows t)" "(j, a) \<in> set (ft_flows t)"
  shows "k = j"
proof -
  have u: "\<forall>x \<in> set (ft_flows t). uf_addr (ft_heap t ! snd x) = fst x"
    using assms(1) by (simp add: ft_inv_def split_beta)
  show ?thesis using bspec [OF u assms(2)] bspec [OF u assms(3)] by simp
qed

lemma ft_flows_distinct: "ft_inv t \<Longrightarrow> distinct (map snd (filter P (ft_flows t)))"
proof -
  assume t: "ft_inv t"
  then have "distinct (ft_flows t)" using distinct_map [of fst] by (auto simp: ft_inv_def)
  then have "distinct (filter P (ft_flows t))" by simp
  moreover have "inj_on snd (set (filter P (ft_flows t)))"
    using ft_inv_addr_inj [OF t] by (auto intro!: inj_onI)
  ultimately show ?thesis by (simp add: distinct_map)
qed

text \<open>Removing some entries of the table and resetting exactly those keeps the invariant.\<close>

lemma drop_and_reset_inv:
  assumes t: "ft_inv t"
    and keep: "wf_gomap live" "set live = set (ft_flows t) - set (filter P (ft_flows t))"
    and c: "ft_closed t' \<longrightarrow> live = []"
    and t': "ft_heap t' = ft_heap t" "ft_flows t' = live"
  shows "ft_inv (fold uf_Reset (map snd (filter P (ft_flows t))) t')"
proof -
  let ?as = "map snd (filter P (ft_flows t))" and ?t = t'
  note f = fold_Reset [OF ft_flows_distinct [OF t, of P], of ?t]
  have res: "uf_resets (ft_heap (fold uf_Reset ?as ?t) ! b)
      = (if (uf_addr (ft_heap t ! b), b) \<in> set live then 0 else 1)" if b: "b < length (ft_heap t)" for b
  proof -
    have "b \<in> set ?as \<longleftrightarrow> (uf_addr (ft_heap t ! b), b) \<in> set (filter P (ft_flows t))"
      using t by (force simp: ft_inv_def)
    moreover have "uf_resets (ft_heap t ! b) = (if (uf_addr (ft_heap t ! b), b) \<in> set (ft_flows t) then 0 else 1)"
      using t b by (simp add: ft_inv_def)
    ultimately show ?thesis using f b keep(2) t' by auto
  qed
  have "(key, a) \<in> set live \<Longrightarrow> a < length (ft_heap t) \<and> uf_addr (ft_heap t ! a) = key" for key a
    using t keep(2) by (auto simp: ft_inv_def)
  then show ?thesis using f res keep(1) c t' by (auto simp: ft_inv_def)
qed

lemma ft_removeIdle_inv:
  assumes "ft_inv t"
  shows "ft_inv (ft_removeIdle now t)"
  unfolding ft_removeIdle_def Let_def using assms
  by (intro drop_and_reset_inv [OF assms]) (auto simp: ft_inv_def distinct_map_filter)

lemma ft_closeAll_inv:
  assumes "ft_inv t"
  shows "ft_inv (ft_closeAll t)"
  using drop_and_reset_inv [OF assms, of "[]" "\<lambda>_. True" "t\<lparr>ft_closed := True, ft_flows := []\<rparr>"] assms
  by (simp add: ft_closeAll_def)

lemma ft_closed_empty: "ft_inv t \<Longrightarrow> ft_closed t \<Longrightarrow> ft_flows t = []"
  by (simp add: ft_inv_def)

lemma distinct_singleton_list: "distinct xs \<Longrightarrow> set xs = {x} \<Longrightarrow> xs = [x]"
  by (cases xs; cases "tl xs") auto

lemma ft_remove_inv:
  assumes "ft_inv t"
  shows "ft_inv (ft_remove a t)"
proof (cases "map_of (ft_flows t) (uf_addr (ft_heap t ! a)) = Some a")
  case True
  let ?key = "uf_addr (ft_heap t ! a)"
  have mem: "(?key, a) \<in> set (ft_flows t)" using True by (rule map_of_SomeD)
  have wf: "wf_gomap (ft_flows t)" using assms by (simp add: ft_inv_def)
  have "set (filter (\<lambda>x. x = (?key, a)) (ft_flows t)) = {(?key, a)}" using mem by auto
  moreover have "distinct (filter (\<lambda>x. x = (?key, a)) (ft_flows t))"
    using wf by (simp add: distinct_map)
  ultimately have f: "filter (\<lambda>x. x = (?key, a)) (ft_flows t) = [(?key, a)]"
    by (intro distinct_singleton_list)
  have "(j, b) \<in> set (ft_flows t) \<Longrightarrow> j = ?key \<Longrightarrow> b = a" for j b
    using wf True by (simp add: map_of_eq_Some_iff)
  then have "set (AList.delete ?key (ft_flows t)) = set (ft_flows t) - {(?key, a)}"
    by (auto simp: set_AList_delete)
  then show ?thesis
    using drop_and_reset_inv [OF assms, of "AList.delete ?key (ft_flows t)" "\<lambda>x. x = (?key, a)"
        "t\<lparr>ft_flows := AList.delete ?key (ft_flows t)\<rparr>"]
      True f gm.ok_del [OF wf] ft_closed_empty [OF assms] by (simp add: ft_remove_def)
qed (simp add: ft_remove_def assms Let_def)

lemma ft_get_inv:
  assumes "ft_inv t"
  shows "ft_inv (snd (ft_get opened now key t))"
proof (cases "map_of (ft_flows t) key = None \<and> \<not> ft_closed t \<and> (\<exists>s. opened = Inr s)")
  case True
  then obtain stream where o: "opened = Inr stream" by (cases opened) auto
  have nk: "(key, b) \<notin> set (ft_flows t)" for b using True by (auto simp: map_of_eq_None_iff image_iff)
  show ?thesis using True assms nk
    by (auto simp: ft_get_def o Let_def ft_inv_def gm.ok_put set_AList_update nth_append)
next
  case False
  then show ?thesis using assms
    by (auto simp: ft_get_def uf_touch_inv split: option.splits sum.splits)
qed

section \<open>Interleavings\<close>

text \<open>The read loop, one reverse pump per flow and the reaper share the table.\<close>

inductive ft_step :: "flowTable \<Rightarrow> flowTable \<Rightarrow> bool" where
  get: "ft_step t (snd (ft_get opened now key t))"
| touch: "ft_step t (uf_touch now a t)"
| remove: "ft_step t (ft_remove a t)"
| removeIdle: "ft_step t (ft_removeIdle now t)"
| closeAll: "ft_step t (ft_closeAll t)"
| forward: "ft_step t (t\<lparr>ft_forwarded := x\<rparr>)"
| reply: "ft_step t (t\<lparr>ft_replied := y\<rparr>)"

lemma ft_step_inv: "ft_step t t' \<Longrightarrow> ft_inv t \<Longrightarrow> ft_inv t'"
  by (induction rule: ft_step.induct)
     (simp_all add: ft_get_inv uf_touch_inv ft_remove_inv ft_removeIdle_inv ft_closeAll_inv ft_log_inv)

lemma ft_steps_inv: "ft_step\<^sup>*\<^sup>* t t' \<Longrightarrow> ft_inv t \<Longrightarrow> ft_inv t'"
  by (induction rule: rtranclp_induct) (auto intro: ft_step_inv)

lemma ft_more: "ft_step t t1 \<Longrightarrow> ft_step\<^sup>*\<^sup>* t1 t2 \<Longrightarrow> ft_step\<^sup>*\<^sup>* t t2"
  by (rule converse_rtranclp_into_rtranclp)

lemma ft_one: "ft_step t t1 \<Longrightarrow> ft_step\<^sup>*\<^sup>* t t1"
  by (rule r_into_rtranclp)

lemma serveLocal_steps: "ft_step\<^sup>*\<^sup>* t (serveLocal rs t)"
proof (induction rs t rule: serveLocal.induct)
  case (4 addr payload opened werr now rs t)
  obtain r t1 where g: "ft_get opened now addr t = (r, t1)" by (metis prod.exhaust)
  have s1: "ft_step t t1" using ft_step.get [of t opened now addr] by (simp add: g)
  show ?case
  proof (cases r)
    case (Inl e)
    then show ?thesis using "4.IH"(1) [OF g [unfolded Inl, symmetric] refl] s1 by (simp add: g ft_more)
  next
    case (Inr a)
    let ?t2 = "t1\<lparr>ft_forwarded := ft_forwarded t1 @ [(uf_stream (ft_heap t1 ! a), payload)]\<rparr>"
    let ?t3 = "case werr of None \<Rightarrow> ?t2 | Some e \<Rightarrow> ft_remove a ?t2"
    have "ft_step\<^sup>*\<^sup>* ?t2 ?t3" by (cases werr) (simp_all add: ft_one ft_step.remove)
    then have "ft_step\<^sup>*\<^sup>* t1 ?t3" by (rule ft_more [OF ft_step.forward])
    moreover have "ft_step\<^sup>*\<^sup>* ?t3 (serveLocal rs ?t3)"
      using "4.IH"(2) [OF g [unfolded Inr, symmetric] refl refl] .
    ultimately have "ft_step\<^sup>*\<^sup>* t1 (serveLocal rs ?t3)" by (rule rtranclp_trans)
    then show ?thesis using Inr s1 by (simp add: g Let_def ft_more)
  qed
qed (simp_all add: ft_one ft_step.closeAll)

lemma pumpStreamToLocal_steps: "ft_step\<^sup>*\<^sup>* t (pumpStreamToLocal a ds t)"
proof (induction a ds t rule: pumpStreamToLocal.induct)
  case (2 a payload now written ds t)
  let ?t1 = "uf_touch now a t"
  have "ft_step\<^sup>*\<^sup>* ?t1 (if \<not> written then ft_remove a ?t1 else pumpStreamToLocal a ds
      (?t1\<lparr>ft_replied := ft_replied ?t1 @ [(uf_addr (ft_heap ?t1 ! a), payload)]\<rparr>))"
    using ft_more [OF ft_step.reply "2.IH" [OF refl]] by (simp add: ft_one ft_step.remove)
  from ft_more [OF ft_step.touch this] show ?case by (simp add: Let_def)
qed (simp add: ft_one ft_step.remove)

section \<open>Properties\<close>

text \<open>C22: no tunnel stream leaks and none is reset twice. In every interleaving of the read loop, the
  reverse pumps, the reaper and shutdown, a flow object is either registered under its own source
  address with a stream that was never reset, or out of the table with a stream reset exactly once;
  and once \<open>closeAll\<close> ran, every stream ever opened has been reset exactly once and no further one is
  opened.\<close>

theorem udp_streams_reset_once:
  assumes "ft_step\<^sup>*\<^sup>* newFlowTable t" and "a < length (ft_heap t)"
  shows "uf_resets (ft_heap t ! a) = (if map_of (ft_flows t) (uf_addr (ft_heap t ! a)) = Some a then 0 else 1)
     \<and> (ft_closed t \<longrightarrow> uf_resets (ft_heap t ! a) = 1 \<and> fst (ft_get opened now key t) = Inl ShuttingDown)"
proof -
  have inv: "ft_inv t" using assms(1) newFlowTable_inv by (rule ft_steps_inv)
  then have wf: "wf_gomap (ft_flows t)" by (simp add: ft_inv_def)
  have "uf_resets (ft_heap t ! a) = (if (uf_addr (ft_heap t ! a), a) \<in> set (ft_flows t) then 0 else 1)"
    using inv assms(2) by (simp add: ft_inv_def)
  then show ?thesis
    using ft_closed_empty [OF inv] by (simp add: map_of_eq_Some_iff [OF wf] ft_get_def)
qed

theorem udp_streams_reset_once_witness:
  "uf_resets (ft_heap (serveLocal [(ReadFrom ''a'' [7] (Inr 3) None, 1), (ReadClosed, 2)] newFlowTable) ! 0) = 1"
proof -
  let ?t = "serveLocal [(ReadFrom ''a'' [7] (Inr 3) None, 1), (ReadClosed, 2)] newFlowTable"
  have "ft_closed ?t" "0 < length (ft_heap ?t)"
    by (simp_all add: ft_get_def newFlowTable_def ft_closeAll_def uf_Reset_def ft_upd_def)
  then show ?thesis using udp_streams_reset_once [OF serveLocal_steps, of 0] by blast
qed

text \<open>A late pump cannot evict its replacement. Removing a flow object leaves whichever other
  object is registered, under the same source address or any other, registered and not reset.\<close>

theorem stale_remove_harmless:
  assumes "ft_step\<^sup>*\<^sup>* newFlowTable t" and "map_of (ft_flows t) key = Some b" and "a \<noteq> b"
  shows "map_of (ft_flows (ft_remove a t)) key = Some b \<and> ft_heap (ft_remove a t) ! b = ft_heap t ! b
     \<and> uf_resets (ft_heap (ft_remove a t) ! b) = 0"
proof -
  have inv: "ft_inv t" using assms(1) newFlowTable_inv by (rule ft_steps_inv)
  have b: "b < length (ft_heap t)" "uf_addr (ft_heap t ! b) = key"
    using inv map_of_SomeD [OF assms(2)] by (auto simp: ft_inv_def)
  then have "uf_resets (ft_heap t ! b) = 0"
    using inv map_of_SomeD [OF assms(2)] by (simp add: ft_inv_def)
  moreover have "ft_heap (ft_remove a t) ! b = ft_heap t ! b"
    using assms(3) by (simp add: ft_remove_def Let_def uf_Reset_def ft_upd_def)
  moreover have "map_of (ft_flows (ft_remove a t)) key = Some b"
    using assms(2,3) by (auto simp: ft_remove_def Let_def uf_Reset_def frame_simps gm.get_del)
  ultimately show ?thesis by simp
qed

theorem stale_remove_harmless_witness:
  "map_of (ft_flows (ft_remove 1 (snd (ft_get (Inr 3) 1 ''a'' newFlowTable)))) ''a'' = Some 0"
proof -
  have "map_of (ft_flows (snd (ft_get (Inr 3) 1 ''a'' newFlowTable))) ''a'' = Some 0"
    by (simp add: ft_get_def newFlowTable_def)
  from stale_remove_harmless [OF ft_one [OF ft_step.get] this] show ?thesis by simp
qed

end
