(* ===== verification/Tier.thy ===== *)
theory Tier
  imports Negotiate Datagram
begin

text \<open>
  The data-plane tiers of \<^verbatim>\<open>internal/tier\<close>: the contract (\<^verbatim>\<open>tier.go\<close>), the registry (\<^verbatim>\<open>set.go\<close>),
  credentials (\<^verbatim>\<open>identity.go\<close>), teardown composition (\<^verbatim>\<open>close.go\<close>) and the two implementations
  (\<^verbatim>\<open>wireguard.go\<close>, \<^verbatim>\<open>quic.go\<close>). What the WireGuard device and the QUIC connection answer is a record of
  results, one per call the tier makes (\<open>wg_env\<close>, \<open>quic_env\<close>); a build method returns, besides its Go
  results, the resources it released, in order. Errors carry what \<^verbatim>\<open>errors.Is\<close> inspects.
\<close>

section \<open>Errors\<close>

datatype go_error =
    ErrText string
  | WGSubstrateAbandoned
  | QUICSubstrateAbandoned
  | Joined "go_error list"

fun errors_Is :: "go_error \<Rightarrow> go_error \<Rightarrow> bool" where
  "errors_Is (Joined es) target \<longleftrightarrow> Joined es = target \<or> (\<exists>e \<in> set es. errors_Is e target)"
| "errors_Is e target \<longleftrightarrow> e = target"

definition errors_Join :: "go_error option list \<Rightarrow> go_error option" where
  "errors_Join es = (let ps = map the (filter (\<lambda>e. e \<noteq> None) es)
     in if ps = [] then None else Some (Joined ps))"

section \<open>Outcomes\<close>

datatype outcome =
    OutcomeConnected | OutcomeServing | OutcomeSubstrateAbandoned | OutcomeDeviceFailed
  | OutcomeMuxFailed | OutcomeListenFailed | OutcomeUpFailed | OutcomeHandshakeFailed
  | OutcomePunchFailed | OutcomeRequestFailed | OutcomeUnsupported

definition Succeeded :: "outcome \<Rightarrow> bool" where
  "Succeeded o1 \<longleftrightarrow> o1 = OutcomeConnected \<or> o1 = OutcomeServing"

definition DefaultHandshakeTimeout :: duration where "DefaultHandshakeTimeout = 6 * second"

record tier_params =
  HandshakeTimeout :: duration
  Diagnostic :: bool

definition handshakeTimeout :: "tier_params \<Rightarrow> duration" where
  "handshakeTimeout p = (if HandshakeTimeout p \<le> 0 then DefaultHandshakeTimeout else HandshakeTimeout p)"

section \<open>Credentials\<close>

text \<open>A credential is what key or certificate generation (outside this repository) produced.\<close>

datatype identity =
    WireGuardIdentity (wg_private: "byte list") (wg_public: "byte list")
  | QUICIdentity (quic_fingerprint: "byte list")

fun identity_Kind :: "identity \<Rightarrow> tier" where
  "identity_Kind (WireGuardIdentity _ _) = TierWireGuard"
| "identity_Kind (QUICIdentity _) = TierQUIC"

type_synonym identities = "(tier, identity) gomap"

datatype tier_panic = NoIdentity tier | RegisteredTwice tier | AbsentFromCascade | WrongKind tier tier

section \<open>Tiers and rungs\<close>

datatype tier_impl =
    WireGuardTier identity tier_params
  | QUICTier identity tier_params

fun tier_ID :: "tier_impl \<Rightarrow> tier" where
  "tier_ID (WireGuardTier _ _) = TierWireGuard"
| "tier_ID (QUICTier _ _) = TierQUIC"

fun tier_SubstrateAbandoned :: "tier_impl \<Rightarrow> go_error option \<Rightarrow> bool" where
  "tier_SubstrateAbandoned (WireGuardTier _ _) err \<longleftrightarrow> (\<exists>e. err = Some e \<and> errors_Is e WGSubstrateAbandoned)"
| "tier_SubstrateAbandoned (QUICTier _ _) err \<longleftrightarrow> (\<exists>e. err = Some e \<and> errors_Is e QUICSubstrateAbandoned)"

datatype resource = Device | UDPMux | TCPListener | QUICConn

datatype stream_opener = ViaMux | ViaTCPDial | ViaQUIC

record rung =
  Opener :: "stream_opener option"
  Acceptor :: "stream_opener option"
  Close :: "resource list"

definition no_rung :: rung where
  "no_rung = \<lparr>Opener = None, Acceptor = None, Close = []\<rparr>"

record tier_session =
  Network :: network
  PeerWireGuardKey :: "byte list"
  PeerQUICFingerprint :: "byte list"

text \<open>\<^verbatim>\<open>CloseAll\<close> over the resources of a rung: all of them are closed, and the result joins every error.\<close>

definition CloseAll :: "(resource \<Rightarrow> go_error option) \<Rightarrow> resource list \<Rightarrow> go_error option" where
  "CloseAll close rs = errors_Join (map close rs)"

text \<open>A rung with one closer uses that function itself, one with two uses \<^verbatim>\<open>CloseAll\<close>.\<close>

definition rung_close :: "(resource \<Rightarrow> go_error option) \<Rightarrow> resource list \<Rightarrow> go_error option" where
  "rung_close close rs = (case rs of [r] \<Rightarrow> close r | _ \<Rightarrow> CloseAll close rs)"

type_synonym build = "rung \<times> outcome \<times> go_error option \<times> resource list"

definition failed :: "tier_impl \<Rightarrow> (resource \<Rightarrow> go_error option) \<Rightarrow> resource list \<Rightarrow> outcome \<Rightarrow> go_error \<Rightarrow> build" where
  "failed t close release phase cause =
     (let err = rung_close close release in
      if \<not> tier_SubstrateAbandoned t err then (no_rung, phase, Some cause, release)
      else (no_rung, OutcomeSubstrateAbandoned, errors_Join [Some cause, err], release))"

definition phaseFor :: "tier_impl \<Rightarrow> outcome \<Rightarrow> go_error option \<Rightarrow> outcome" where
  "phaseFor t phase err = (if tier_SubstrateAbandoned t err then OutcomeSubstrateAbandoned else phase)"

section \<open>The WireGuard tier\<close>

record wg_env =
  wg_New :: "go_error option"
  wg_NewUDPMux :: "go_error option"
  wg_ListenTCP :: "go_error option"
  wg_Up :: "go_error option"
  wg_WaitHandshake :: "go_error option"
  wg_closing :: "resource \<Rightarrow> go_error option"

definition wg_Dial :: "tier_impl \<Rightarrow> wg_env \<Rightarrow> tier_session \<Rightarrow> build" where
  "wg_Dial t env s =
     (case wg_New env of
        Some err \<Rightarrow> (no_rung, OutcomeDeviceFailed, Some err, [])
      | None \<Rightarrow>
          (case (if network_Datagram (Network s)
                 then (case wg_NewUDPMux env of
                         Some err \<Rightarrow> Inl (failed t (wg_closing env) [Device] OutcomeMuxFailed err)
                       | None \<Rightarrow> Inr \<lparr>Opener = Some ViaMux, Acceptor = None, Close = [UDPMux, Device]\<rparr>)
                 else Inr \<lparr>Opener = Some ViaTCPDial, Acceptor = None, Close = [Device]\<rparr>) of
             Inl failure \<Rightarrow> failure
           | Inr rung1 \<Rightarrow>
               (case wg_Up env of
                  Some err \<Rightarrow> failed t (wg_closing env) (Close rung1) OutcomeUpFailed err
                | None \<Rightarrow>
                    (case wg_WaitHandshake env of
                       Some err \<Rightarrow> failed t (wg_closing env) (Close rung1) OutcomeHandshakeFailed err
                     | None \<Rightarrow> (rung1, OutcomeConnected, None, [])))))"

definition wg_Serve :: "tier_impl \<Rightarrow> wg_env \<Rightarrow> tier_session \<Rightarrow> build" where
  "wg_Serve t env s =
     (case wg_New env of
        Some err \<Rightarrow> (no_rung, OutcomeDeviceFailed, Some err, [])
      | None \<Rightarrow>
          (case (if network_Datagram (Network s)
                 then (case wg_NewUDPMux env of
                         Some err \<Rightarrow> Inl (failed t (wg_closing env) [Device] OutcomeMuxFailed err)
                       | None \<Rightarrow> Inr \<lparr>Opener = None, Acceptor = Some ViaMux, Close = [UDPMux, Device]\<rparr>)
                 else (case wg_ListenTCP env of
                         Some err \<Rightarrow> Inl (failed t (wg_closing env) [Device] OutcomeListenFailed err)
                       | None \<Rightarrow> Inr \<lparr>Opener = None, Acceptor = Some ViaTCPDial, Close = [TCPListener, Device]\<rparr>)) of
             Inl failure \<Rightarrow> failure
           | Inr rung1 \<Rightarrow>
               (case wg_Up env of
                  Some err \<Rightarrow> failed t (wg_closing env) (Close rung1) OutcomeUpFailed err
                | None \<Rightarrow> (rung1, OutcomeServing, None, []))))"

section \<open>The QUIC tier\<close>

record quic_env =
  quic_Dial_result :: "go_error option"
  quic_Accept_result :: "go_error option"

record quictun_config =
  PeerFingerprint :: "byte list"
  Datagrams :: bool
  QHandshakeTimeout :: duration

fun quic_config :: "tier_impl \<Rightarrow> tier_session \<Rightarrow> quictun_config option" where
  "quic_config (QUICTier _ p) s = Some \<lparr>PeerFingerprint = PeerQUICFingerprint s,
      Datagrams = network_Datagram (Network s), QHandshakeTimeout = handshakeTimeout p\<rparr>"
| "quic_config (WireGuardTier _ _) s = None"

definition quic_Dial :: "tier_impl \<Rightarrow> quic_env \<Rightarrow> tier_session \<Rightarrow> build" where
  "quic_Dial t env s =
     (case quic_Dial_result env of
        Some err \<Rightarrow> (no_rung, phaseFor t OutcomeHandshakeFailed (Some err), Some err, [])
      | None \<Rightarrow> (\<lparr>Opener = Some ViaQUIC, Acceptor = None, Close = [QUICConn]\<rparr>, OutcomeConnected, None, []))"

definition quic_Serve :: "tier_impl \<Rightarrow> quic_env \<Rightarrow> tier_session \<Rightarrow> build" where
  "quic_Serve t env s =
     (case quic_Accept_result env of
        Some err \<Rightarrow> (no_rung, phaseFor t OutcomeHandshakeFailed (Some err), Some err, [])
      | None \<Rightarrow> (\<lparr>Opener = None, Acceptor = Some ViaQUIC, Close = [QUICConn]\<rparr>, OutcomeServing, None, []))"

section \<open>The registry\<close>

record tier_Set =
  order :: "tier list"
  byID :: "(tier, tier_impl) gomap"

record implementation =
  kind :: tier
  build :: "identity \<Rightarrow> tier_params \<Rightarrow> tier_impl"

definition implementations :: "implementation list" where
  "implementations =
     [\<lparr>kind = TierWireGuard, build = WireGuardTier\<rparr>, \<lparr>kind = TierQUIC, build = QUICTier\<rparr>]"

text \<open>\<open>gen\<close> is what each implementation's \<^verbatim>\<open>identity\<close> constructor returned.\<close>

fun NewIdentities_loop :: "(tier \<Rightarrow> go_error + identity) \<Rightarrow> implementation list \<Rightarrow> identities
    \<Rightarrow> tier_panic + (go_error + identities)" where
  "NewIdentities_loop gen [] ids = Inr (Inr ids)"
| "NewIdentities_loop gen (impl # is) ids =
     (case gen (kind impl) of
        Inl err \<Rightarrow> Inr (Inl err)
      | Inr i \<Rightarrow> if identity_Kind i \<noteq> kind impl then Inl (WrongKind (kind impl) (identity_Kind i))
                 else NewIdentities_loop gen is (AList.update (kind impl) i ids))"

definition NewIdentities :: "(tier \<Rightarrow> go_error + identity) \<Rightarrow> tier_panic + (go_error + identities)" where
  "NewIdentities gen = NewIdentities_loop gen implementations []"

definition identities_Lookup :: "identities \<Rightarrow> tier \<Rightarrow> identity option" where
  "identities_Lookup ids k = map_of ids k"

definition WireGuardPublicKey :: "identities \<Rightarrow> byte list" where
  "WireGuardPublicKey ids =
     (case map_of ids TierWireGuard of Some (WireGuardIdentity _ pub) \<Rightarrow> pub | _ \<Rightarrow> zero_key)"

definition QUICFingerprint :: "identities \<Rightarrow> byte list" where
  "QUICFingerprint ids =
     (case map_of ids TierQUIC of Some (QUICIdentity fp) \<Rightarrow> fp | _ \<Rightarrow> zero_key)"

fun NewSet_loop :: "identities \<Rightarrow> tier_params \<Rightarrow> implementation list \<Rightarrow> (tier, tier_impl) gomap
    \<Rightarrow> tier_panic + (tier, tier_impl) gomap" where
  "NewSet_loop ids params [] m = Inr m"
| "NewSet_loop ids params (impl # is) m =
     (case identities_Lookup ids (kind impl) of
        None \<Rightarrow> Inl (NoIdentity (kind impl))
      | Some i \<Rightarrow>
          let t = build impl i params in
          if map_of m (tier_ID t) \<noteq> None then Inl (RegisteredTwice (tier_ID t))
          else NewSet_loop ids params is (AList.update (tier_ID t) t m))"

definition NewSet :: "identities \<Rightarrow> tier_params \<Rightarrow> tier_panic + tier_Set" where
  "NewSet ids params =
     rbind (NewSet_loop ids params implementations []) (\<lambda>m.
       let ord = filter (\<lambda>i. map_of m i \<noteq> None) Cascade in
       if length ord \<noteq> length m then Inl AbsentFromCascade
       else Inr \<lparr>order = ord, byID = m\<rparr>)"

definition set_IDs :: "tier_Set \<Rightarrow> tier list" where
  "set_IDs s = order s"

definition set_Lookup :: "tier_Set \<Rightarrow> tier \<Rightarrow> tier_impl option" where
  "set_Lookup s i = map_of (byID s) i"

record data_plane =
  dp_wg :: wg_env
  dp_quic :: quic_env

fun impl_Dial :: "tier_impl \<Rightarrow> data_plane \<Rightarrow> tier_session \<Rightarrow> build" where
  "impl_Dial (WireGuardTier i p) dp s = wg_Dial (WireGuardTier i p) (dp_wg dp) s"
| "impl_Dial (QUICTier i p) dp s = quic_Dial (QUICTier i p) (dp_quic dp) s"

fun impl_Serve :: "tier_impl \<Rightarrow> data_plane \<Rightarrow> tier_session \<Rightarrow> build" where
  "impl_Serve (WireGuardTier i p) dp s = wg_Serve (WireGuardTier i p) (dp_wg dp) s"
| "impl_Serve (QUICTier i p) dp s = quic_Serve (QUICTier i p) (dp_quic dp) s"

definition set_Dial :: "tier_Set \<Rightarrow> data_plane \<Rightarrow> tier \<Rightarrow> tier_session \<Rightarrow> build" where
  "set_Dial s dp i session =
     (case set_Lookup s i of
        None \<Rightarrow> (no_rung, OutcomeUnsupported, Some (ErrText (''no client implementation for tier '' @ i)), [])
      | Some t \<Rightarrow> impl_Dial t dp session)"

definition set_Serve :: "tier_Set \<Rightarrow> data_plane \<Rightarrow> tier \<Rightarrow> tier_session \<Rightarrow> build" where
  "set_Serve s dp i session =
     (case set_Lookup s i of
        None \<Rightarrow> (no_rung, OutcomeUnsupported, Some (ErrText (''no host implementation for tier '' @ i)), [])
      | Some t \<Rightarrow> impl_Serve t dp session)"

definition set_SubstrateAbandoned :: "tier_Set \<Rightarrow> go_error option \<Rightarrow> bool" where
  "set_SubstrateAbandoned s err \<longleftrightarrow>
     err \<noteq> None \<and> (\<exists>(i, t) \<in> set (byID s). tier_SubstrateAbandoned t err)"

section \<open>Teardown errors are not lost\<close>

lemma errors_Join_Is:
  assumes "target \<noteq> Joined (map the (filter (\<lambda>e. e \<noteq> None) es))"
  shows "(\<exists>e. errors_Join es = Some e \<and> errors_Is e target) \<longleftrightarrow> (\<exists>e. Some e \<in> set es \<and> errors_Is e target)"
proof -
  let ?ps = "map the (filter (\<lambda>e. e \<noteq> None) es)"
  have ps: "e \<in> set ?ps \<longleftrightarrow> Some e \<in> set es" for e by (auto simp: image_iff)
  show ?thesis
  proof (cases "?ps = []")
    case True
    then have "errors_Join es = None" "Some e \<notin> set es" for e
      using ps [of e] by (simp_all add: errors_Join_def)
    then show ?thesis by simp
  next
    case False
    then have "errors_Join es = Some (Joined ?ps)" by (simp only: errors_Join_def Let_def if_False)
    then show ?thesis using assms ps by auto
  qed
qed

lemma tier_SubstrateAbandoned_Join:
  "tier_SubstrateAbandoned t (errors_Join es) \<longleftrightarrow> (\<exists>e \<in> set es. tier_SubstrateAbandoned t e)"
  using errors_Join_Is [of WGSubstrateAbandoned es] errors_Join_Is [of QUICSubstrateAbandoned es]
  by (cases t) (auto; metis)+

lemma set_SubstrateAbandoned_CloseAll:
  "set_SubstrateAbandoned s (CloseAll close rs) \<longleftrightarrow> (\<exists>r \<in> set rs. set_SubstrateAbandoned s (close r))"
proof -
  have "tier_SubstrateAbandoned t e \<Longrightarrow> e \<noteq> None" for t e by (cases t) auto
  then have "set_SubstrateAbandoned s e \<longleftrightarrow> (\<exists>(i, t) \<in> set (byID s). tier_SubstrateAbandoned t e)" for e
    unfolding set_SubstrateAbandoned_def by blast
  then show ?thesis by (force simp: CloseAll_def tier_SubstrateAbandoned_Join)
qed

section \<open>The contract of a tier\<close>

text \<open>What the cascade relies on, for a tier's client and host builds: success and failure are
  distinguished by the outcome, a success fills exactly the role's half of the rung and keeps what it
  built, a failure hands back nothing, and only an abandonment is reported as one.\<close>

definition build_ok :: "bool \<Rightarrow> (go_error option \<Rightarrow> bool) \<Rightarrow> build \<Rightarrow> bool" where
  "build_ok client abandoned b \<longleftrightarrow>
     (case b of (r, oc, err, released) \<Rightarrow>
        (err = None \<longleftrightarrow> oc = (if client then OutcomeConnected else OutcomeServing))
        \<and> (Succeeded oc \<longleftrightarrow> err = None)
        \<and> (err = None \<longrightarrow> (Opener r \<noteq> None \<longleftrightarrow> client) \<and> (Acceptor r \<noteq> None \<longleftrightarrow> \<not> client)
             \<and> Close r \<noteq> [] \<and> released = [])
        \<and> (err \<noteq> None \<longrightarrow> r = no_rung)
        \<and> (oc = OutcomeSubstrateAbandoned \<longrightarrow> abandoned err))"

locale data_plane_tier =
  fixes dial serve :: "data_plane \<Rightarrow> tier_session \<Rightarrow> build"
    and abandoned :: "go_error option \<Rightarrow> bool"
  assumes dial_ok: "build_ok True abandoned (dial dp s)"
    and serve_ok: "build_ok False abandoned (serve dp s)"
begin

lemma dial_no_rung_on_error: "dial dp s = (r, oc, Some e, rel) \<Longrightarrow> r = no_rung \<and> \<not> Succeeded oc"
  using dial_ok [of dp s] by (simp add: build_ok_def)

lemma serve_no_rung_on_error: "serve dp s = (r, oc, Some e, rel) \<Longrightarrow> r = no_rung \<and> \<not> Succeeded oc"
  using serve_ok [of dp s] by (simp add: build_ok_def)

lemma stop_only_if_abandoned: "dial dp s = (r, OutcomeSubstrateAbandoned, e, rel) \<Longrightarrow> abandoned e"
  using dial_ok [of dp s] by (simp add: build_ok_def)

end

lemma failed_build_ok:
  assumes "\<not> Succeeded phase" "phase \<noteq> OutcomeSubstrateAbandoned"
  shows "build_ok client (tier_SubstrateAbandoned t) (failed t close rel phase cause)"
proof -
  have "errors_Join [Some cause, err] \<noteq> None" for err by (simp add: errors_Join_def)
  then show ?thesis
    using assms
    by (auto simp: failed_def build_ok_def Let_def Succeeded_def tier_SubstrateAbandoned_Join simp del: not_None_eq)
qed

lemma failed_outcomes:
  "\<not> Succeeded OutcomeDeviceFailed" "\<not> Succeeded OutcomeMuxFailed" "\<not> Succeeded OutcomeListenFailed"
  "\<not> Succeeded OutcomeUpFailed" "\<not> Succeeded OutcomeHandshakeFailed" "\<not> Succeeded OutcomeUnsupported"
  "\<not> Succeeded OutcomeSubstrateAbandoned"
  by (simp_all add: Succeeded_def)

lemma wg_build_ok:
  "build_ok True (tier_SubstrateAbandoned (WireGuardTier i p)) (wg_Dial (WireGuardTier i p) env s)"
  "build_ok False (tier_SubstrateAbandoned (WireGuardTier i p)) (wg_Serve (WireGuardTier i p) env s)"
  using failed_build_ok [where t = "WireGuardTier i p"] failed_outcomes
  by (auto simp: wg_Dial_def wg_Serve_def split: option.splits sum.splits if_splits)
     (simp_all add: build_ok_def Succeeded_def no_rung_def)

lemma quic_build_ok:
  "build_ok True (tier_SubstrateAbandoned (QUICTier i p)) (quic_Dial (QUICTier i p) env s)"
  "build_ok False (tier_SubstrateAbandoned (QUICTier i p)) (quic_Serve (QUICTier i p) env s)"
  by (auto simp: quic_Dial_def quic_Serve_def phaseFor_def build_ok_def Succeeded_def split: option.splits)

interpretation impl_tier: data_plane_tier "impl_Dial t" "impl_Serve t" "tier_SubstrateAbandoned t" for t
proof
  fix dp s
  show "build_ok True (tier_SubstrateAbandoned t) (impl_Dial t dp s)"
    by (cases t) (simp_all only: impl_Dial.simps wg_build_ok quic_build_ok)
  show "build_ok False (tier_SubstrateAbandoned t) (impl_Serve t dp s)"
    by (cases t) (simp_all only: impl_Serve.simps wg_build_ok quic_build_ok)
qed

lemma build_ok_mono: "build_ok c ab b \<Longrightarrow> (\<And>e. ab e \<Longrightarrow> ab' e) \<Longrightarrow> build_ok c ab' b"
  by (auto simp: build_ok_def split: prod.splits)

lemma set_SubstrateAbandonedI:
  assumes "set_Lookup s i = Some t" "tier_SubstrateAbandoned t e"
  shows "set_SubstrateAbandoned s e"
proof -
  have "e \<noteq> None" using assms(2) by (cases t) auto
  moreover have "(i, t) \<in> set (byID s)" using assms(1) by (simp add: set_Lookup_def map_of_SomeD)
  ultimately show ?thesis using assms(2) by (auto simp: set_SubstrateAbandoned_def)
qed

text \<open>The registry keeps the contract, whatever tier the peer names.\<close>

interpretation set_tier: data_plane_tier "\<lambda>dp. set_Dial s dp i" "\<lambda>dp. set_Serve s dp i" "set_SubstrateAbandoned s" for s i
proof
  fix dp session
  show "build_ok True (set_SubstrateAbandoned s) (set_Dial s dp i session)"
  proof (cases "set_Lookup s i")
    case (Some t)
    then show ?thesis
      using build_ok_mono [OF impl_tier.dial_ok] set_SubstrateAbandonedI [OF Some] by (simp add: set_Dial_def)
  qed (simp add: set_Dial_def build_ok_def Succeeded_def)
  show "build_ok False (set_SubstrateAbandoned s) (set_Serve s dp i session)"
  proof (cases "set_Lookup s i")
    case (Some t)
    then show ?thesis
      using build_ok_mono [OF impl_tier.serve_ok] set_SubstrateAbandonedI [OF Some] by (simp add: set_Serve_def)
  qed (simp add: set_Serve_def build_ok_def Succeeded_def)
qed

section \<open>Properties\<close>

lemma NewIdentities_eq:
  assumes "NewIdentities gen = Inr (Inr ids)"
  shows "\<exists>w q. gen TierWireGuard = Inr w \<and> identity_Kind w = TierWireGuard \<and> gen TierQUIC = Inr q
     \<and> identity_Kind q = TierQUIC \<and> ids = [(TierWireGuard, w), (TierQUIC, q)]"
  using assms
  by (auto simp: NewIdentities_def implementations_def TierWireGuard_def TierQUIC_def
      split: sum.splits if_splits)

lemma NewSet_eq:
  "NewSet [(TierWireGuard, w), (TierQUIC, q)] params = Inr \<lparr>order = [TierWireGuard, TierQUIC],
     byID = [(TierWireGuard, WireGuardTier w params), (TierQUIC, QUICTier q params)]\<rparr>"
  by (simp add: NewSet_def implementations_def identities_Lookup_def Let_def Cascade_def cascade_def
      TierWireGuard_def TierQUIC_def TierLibp2p_def)

text \<open>The registry is total and follows the wire contract. Credentials generated by
  \<^verbatim>\<open>NewIdentities\<close> never make \<^verbatim>\<open>NewSet\<close> panic; the set it builds lists exactly the cascade above the
  libp2p floor, in the cascade's order, and has an implementation of a tier exactly when the cascade
  names it above the floor; and the public key and fingerprint it advertises are those of the
  credentials its tiers were built from.\<close>

theorem NewSet_matches_cascade:
  assumes "NewIdentities gen = Inr (Inr ids)"
  shows "\<exists>s w q. NewSet ids params = Inr s \<and> set_IDs s @ [TierLibp2p] = Cascade
     \<and> (\<forall>i. set_Lookup s i \<noteq> None \<longleftrightarrow> knownTier i \<and> i \<noteq> TierLibp2p)
     \<and> set_Lookup s TierWireGuard = Some (WireGuardTier w params) \<and> WireGuardPublicKey ids = wg_public w
     \<and> set_Lookup s TierQUIC = Some (QUICTier q params) \<and> QUICFingerprint ids = quic_fingerprint q"
proof -
  obtain w q where ids: "ids = [(TierWireGuard, w), (TierQUIC, q)]"
    and k: "identity_Kind w = TierWireGuard" "identity_Kind q = TierQUIC"
    using NewIdentities_eq [OF assms] by blast
  have ne: "TierWireGuard \<noteq> TierQUIC" "TierLibp2p \<noteq> TierWireGuard" "TierLibp2p \<noteq> TierQUIC"
    by (simp_all add: TierWireGuard_def TierQUIC_def TierLibp2p_def)
  have "WireGuardPublicKey ids = wg_public w" "QUICFingerprint ids = quic_fingerprint q"
    using k ne by (cases w; cases q; simp add: ids WireGuardPublicKey_def QUICFingerprint_def)+
  then show ?thesis
    using ne unfolding ids NewSet_eq
    by (intro exI [of _ "\<lparr>order = [TierWireGuard, TierQUIC], byID = [(TierWireGuard, WireGuardTier w params),
          (TierQUIC, QUICTier q params)]\<rparr>"] exI [of _ w] exI [of _ q])
       (auto simp: set_IDs_def set_Lookup_def Cascade_def cascade_def knownTier_def)
qed

theorem NewSet_matches_cascade_witness:
  "\<exists>s. NewSet [(TierWireGuard, WireGuardIdentity [1] [2]), (TierQUIC, QUICIdentity [3])]
        \<lparr>HandshakeTimeout = 0, Diagnostic = False\<rparr> = Inr s \<and> set_IDs s @ [TierLibp2p] = Cascade"
proof -
  have "NewIdentities (\<lambda>k. Inr (if k = TierWireGuard then WireGuardIdentity [1] [2] else QUICIdentity [3]))
      = Inr (Inr [(TierWireGuard, WireGuardIdentity [1] [2]), (TierQUIC, QUICIdentity [3])])"
    by (simp add: NewIdentities_def implementations_def TierWireGuard_def TierQUIC_def)
  from NewSet_matches_cascade [OF this] show ?thesis by blast
qed

lemma set_Dial_ok: "build_ok True (set_SubstrateAbandoned s) (set_Dial s dp i session)"
  by (rule set_tier.dial_ok)

lemma set_Serve_ok: "build_ok False (set_SubstrateAbandoned s) (set_Serve s dp i session)"
  by (rule set_tier.serve_ok)

text \<open>The contract of a rung build, for every tier the peer may name and whatever the device or the
  connection answers. A build succeeds exactly when its outcome says so, and then fills only its role's
  half of the rung, with something to close, and has released nothing; a failed build hands back no
  rung; a WireGuard build that fails after its device exists has closed everything it built, the device
  last; and the outcome is substrate-abandoned only if the error says that a teardown closed the
  substrate.\<close>

theorem rung_build_contract:
  "(case set_Dial s dp i session of (r, oc, err, released) \<Rightarrow>
      (err = None \<longleftrightarrow> oc = OutcomeConnected) \<and> (Succeeded oc \<longleftrightarrow> err = None)
      \<and> (if err = None then Opener r \<noteq> None \<and> Acceptor r = None \<and> Close r \<noteq> [] \<and> released = [] else r = no_rung)
      \<and> (if oc = OutcomeSubstrateAbandoned then set_SubstrateAbandoned s err else True))
   \<and> (case set_Serve s dp i session of (r, oc, err, released) \<Rightarrow>
      (err = None \<longleftrightarrow> oc = OutcomeServing) \<and> (Succeeded oc \<longleftrightarrow> err = None)
      \<and> (if err = None then Opener r = None \<and> Acceptor r \<noteq> None \<and> Close r \<noteq> [] \<and> released = [] else r = no_rung)
      \<and> (if oc = OutcomeSubstrateAbandoned then set_SubstrateAbandoned s err else True))
   \<and> (case wg_Dial t env session of (r, oc, err, released) \<Rightarrow>
      if wg_New env = None \<and> err \<noteq> None
      then released = (if network_Datagram (Network session) \<and> wg_NewUDPMux env = None then [UDPMux, Device] else [Device])
      else released = [])
   \<and> (case wg_Serve t env session of (r, oc, err, released) \<Rightarrow>
      if wg_New env = None \<and> err \<noteq> None
      then released = (if network_Datagram (Network session)
                       then (if wg_NewUDPMux env = None then [UDPMux, Device] else [Device])
                       else (if wg_ListenTCP env = None then [TCPListener, Device] else [Device]))
      else released = [])"
proof (intro conjI)
  have f: "failed t c rel ph ca = (r, oc, err, released) \<Longrightarrow> released = rel \<and> err \<noteq> None" for c rel ph ca r oc err released
    by (auto simp: failed_def Let_def errors_Join_def split: if_splits)
  show "case wg_Dial t env session of (r, oc, err, released) \<Rightarrow>
      if wg_New env = None \<and> err \<noteq> None
      then released = (if network_Datagram (Network session) \<and> wg_NewUDPMux env = None then [UDPMux, Device] else [Device])
      else released = []"
    by (auto simp: wg_Dial_def dest!: f split: option.splits sum.splits if_splits)
  show "case wg_Serve t env session of (r, oc, err, released) \<Rightarrow>
      if wg_New env = None \<and> err \<noteq> None
      then released = (if network_Datagram (Network session)
                       then (if wg_NewUDPMux env = None then [UDPMux, Device] else [Device])
                       else (if wg_ListenTCP env = None then [TCPListener, Device] else [Device]))
      else released = []"
    by (auto simp: wg_Serve_def dest!: f split: option.splits sum.splits if_splits)
qed (use set_Dial_ok [of s dp i session] set_Serve_ok [of s dp i session]
      in \<open>auto simp: build_ok_def split: prod.splits if_splits\<close>)

end
