(* ===== verification/Nat_Punch.thy ===== *)
theory Nat_Punch
  imports Prelude
begin

text \<open>
  One side of an ICE punch, \<^verbatim>\<open>internal/nat/nat.go\<close>. The ICE library is the record \<open>ice\<close> of what its
  calls answer; the agent is the state the package keeps around it. \<^verbatim>\<open>gather\<close>'s wait ends with the
  candidates collected by then and whether it was cut short. The log records are in \<open>Report\<close>.
\<close>

definition DefaultTimeout :: duration where "DefaultTimeout = 8 * second"
definition DefaultGatherTimeout :: duration where "DefaultGatherTimeout = 3 * second"
definition DefaultSTUNServers :: "string list" where
  "DefaultSTUNServers = [''stun:stun.l.google.com:19302'', ''stun:stun1.l.google.com:19302'',
     ''stun:stun.cloudflare.com:3478'']"
definition MaxRemoteCandidates :: nat where "MaxRemoteCandidates = 64"

record Credentials =
  Ufrag :: string
  Pwd :: string
  Candidates :: "string list"

definition no_credentials :: Credentials where
  "no_credentials = \<lparr>Ufrag = [], Pwd = [], Candidates = []\<rparr>"

definition Valid :: "Credentials \<Rightarrow> bool" where
  "Valid c \<longleftrightarrow> Ufrag c \<noteq> [] \<and> Pwd c \<noteq> [] \<and> length (Candidates c) > 0"

record nat_config =
  STUNServers :: "string list option"
  Timeout :: duration
  GatherTimeout :: duration

definition withDefaults :: "nat_config \<Rightarrow> nat_config" where
  "withDefaults c =
     (let c = (if STUNServers c = None then c\<lparr>STUNServers := Some DefaultSTUNServers\<rparr> else c);
          c = (if Timeout c \<le> 0 then c\<lparr>Timeout := DefaultTimeout\<rparr> else c);
          c = (if GatherTimeout c \<le> 0 then c\<lparr>GatherTimeout := min (Timeout c) DefaultGatherTimeout\<rparr> else c)
      in c)"

datatype nat_error =
    CreateFailed | HandlerFailed | GatherFailed | GatherTimedOut | NoCandidates | CredentialsFailed
  | ErrNoRemote | ConnectFailed

record ice =
  ice_NewAgent :: "string list \<Rightarrow> duration \<Rightarrow> bool"
  ice_OnCandidate :: bool
  ice_GatherCandidates :: bool
  ice_gathered :: "string list"
  ice_complete :: bool
  ice_credentials :: "(string \<times> string) option"
  ice_parses :: "string \<Rightarrow> bool"
  ice_AddRemoteCandidate :: "string \<Rightarrow> bool"
  ice_connects :: "bool \<Rightarrow> string \<Rightarrow> string \<Rightarrow> bool"
  ice_parsesURI :: "string \<Rightarrow> bool"
  ice_Close :: "nat_error option"

record Agent =
  agent_ice :: ice
  agent_cfg :: nat_config
  agent_local :: Credentials
  agent_remote :: Credentials
  hasRemote :: bool
  agent_conn :: bool
  conn_stopped :: bool
  agent_closed :: bool
  ice_closed :: bool

definition parseSTUNServers :: "ice \<Rightarrow> string list \<Rightarrow> string list" where
  "parseSTUNServers lib servers = filter (ice_parsesURI lib) servers"

definition gather :: "Agent \<Rightarrow> nat_error + Agent" where
  "gather a =
     (let lib = agent_ice a in
      if \<not> ice_OnCandidate lib then Inl HandlerFailed
      else if \<not> ice_GatherCandidates lib then Inl GatherFailed
      else let partial = \<not> ice_complete lib; marshalled = ice_gathered lib in
        if length marshalled = 0 then (if partial then Inl GatherTimedOut else Inl NoCandidates)
        else (case ice_credentials lib of
                None \<Rightarrow> Inl CredentialsFailed
              | Some (ufrag, pwd) \<Rightarrow>
                  Inr (a\<lparr>agent_local := \<lparr>Ufrag = ufrag, Pwd = pwd, Candidates = marshalled\<rparr>\<rparr>)))"

text \<open>\<open>New\<close> returns the agent or the error. An error after the ICE agent was created also shows the
  state it is left in: closed.\<close>

definition nat_New :: "ice \<Rightarrow> nat_config \<Rightarrow> (nat_error \<times> Agent option) + Agent" where
  "nat_New lib cfg0 =
     (let cfg = withDefaults cfg0;
          servers = (case STUNServers cfg of None \<Rightarrow> [] | Some ss \<Rightarrow> ss);
          agent = \<lparr>agent_ice = lib, agent_cfg = cfg, agent_local = no_credentials,
                    agent_remote = no_credentials, hasRemote = False, agent_conn = False,
                    conn_stopped = False, agent_closed = False, ice_closed = False\<rparr>
      in if \<not> ice_NewAgent lib (parseSTUNServers lib servers) (GatherTimeout cfg) then Inl (CreateFailed, None)
         else case gather agent of
             Inl e \<Rightarrow> Inl (e, Some (agent\<lparr>ice_closed := True\<rparr>))
           | Inr a \<Rightarrow> Inr a)"

definition Local :: "Agent \<Rightarrow> Credentials" where
  "Local a = agent_local a"

definition AddRemote :: "Credentials \<Rightarrow> Agent \<Rightarrow> nat_error option \<times> Agent" where
  "AddRemote remote a =
     (if Ufrag remote = [] \<or> Pwd remote = [] then (Some ErrNoRemote, a)
      else let candidates = (if length (Candidates remote) > MaxRemoteCandidates
                             then take MaxRemoteCandidates (Candidates remote) else Candidates remote);
               types = filter (\<lambda>raw. ice_parses (agent_ice a) raw \<and> ice_AddRemoteCandidate (agent_ice a) raw) candidates
           in if length types = 0 then (Some ErrNoRemote, a)
              else (None, a\<lparr>agent_remote := remote, hasRemote := True\<rparr>))"

definition nat_Connect :: "bool \<Rightarrow> Agent \<Rightarrow> nat_error option \<times> Agent" where
  "nat_Connect controlling a =
     (if \<not> hasRemote a then (Some ErrNoRemote, a)
      else if \<not> ice_connects (agent_ice a) controlling (Ufrag (agent_remote a)) (Pwd (agent_remote a))
      then (Some ConnectFailed, a)
      else (None, a\<lparr>agent_conn := True\<rparr>))"

definition nat_Close :: "Agent \<Rightarrow> nat_error option \<times> Agent" where
  "nat_Close a =
     (ice_Close (agent_ice a),
      if agent_closed a then a
      else a\<lparr>conn_stopped := conn_stopped a \<or> agent_conn a, agent_closed := True, ice_closed := True\<rparr>)"

section \<open>Lemmas\<close>

lemma withDefaults_budgets:
  "0 < Timeout (withDefaults c) \<and> 0 < GatherTimeout (withDefaults c) \<and> STUNServers (withDefaults c) \<noteq> None
   \<and> (GatherTimeout c \<le> 0 \<longrightarrow> GatherTimeout (withDefaults c) \<le> Timeout (withDefaults c)
        \<and> GatherTimeout (withDefaults c) \<le> DefaultGatherTimeout)"
  by (auto simp: withDefaults_def Let_def DefaultTimeout_def DefaultGatherTimeout_def second_def)

lemma AddRemote_uses_at_most_64:
  assumes "AddRemote r a = (None, a')"
  shows "\<exists>raw \<in> set (take MaxRemoteCandidates (Candidates r)).
     ice_parses (agent_ice a) raw \<and> ice_AddRemoteCandidate (agent_ice a) raw"
  using assms by (auto simp: AddRemote_def Let_def filter_empty_conv split: if_splits)

lemma Connect_needs_remote: "nat_Connect c a = (None, a') \<Longrightarrow> hasRemote a \<and> agent_conn a'"
  by (auto simp: nat_Connect_def split: if_splits)

lemma nat_New_valid:
  assumes "nat_New lib cfg = Inr a" "ice_credentials lib = Some (u, p)" "u \<noteq> []" "p \<noteq> []"
  shows "Valid (Local a)"
  using assms by (auto simp: nat_New_def gather_def Let_def Local_def Valid_def split: if_splits)

lemma nat_New_error_closed: "nat_New lib cfg = Inl (e, Some a) \<Longrightarrow> ice_closed a"
  by (auto simp: nat_New_def Let_def split: if_splits sum.splits)

lemma nat_Close_once: "snd (nat_Close (snd (nat_Close a))) = snd (nat_Close a) \<and> fst (nat_Close (snd (nat_Close a))) = fst (nat_Close a)"
  by (simp add: nat_Close_def)

end
