(* ===== verification/Ladder.thy ===== *)
theory Ladder
  imports Exchange Tier Nat_Punch
begin

text \<open>
  The fallback ladder of \<^verbatim>\<open>internal/tunnel/tier.go\<close>: Hello, NAT punch, and the rungs, on the client
  and on the host. The negotiate stream is modelled one level above \<open>Exchange\<close>, as the messages still
  to be read and the messages written (frames are exact by \<open>decode_frame\<close>; \<open>x_recv_decode\<close> makes the
  link); a receive with nothing left is the error every timeout, reset or end of stream becomes, and a
  send fails when the stream is broken or the message cannot be encoded. What the punch agents, the
  data planes and the rung teardowns answer is part of a \<open>side\<close>, the two sides being independent: any
  combination of failures is covered. Agents and rungs that are open are kept in the state, so that
  "everything is released" is a theorem. Timeouts are not modelled; the log records are in \<open>Report\<close>.
\<close>

section \<open>Modes and options\<close>

definition TunnelAuto :: string where "TunnelAuto = ''auto''"
definition TunnelWireGuard :: string where "TunnelWireGuard = ''wireguard''"
definition TunnelQUIC :: string where "TunnelQUIC = ''quic''"
definition TunnelLibp2p :: string where "TunnelLibp2p = ''libp2p''"

definition DefaultPunchAttempts :: u8 where "DefaultPunchAttempts = 2"

record options =
  opt_TunnelMode :: string
  opt_Diagnostic :: bool
  opt_PunchAttempts :: u8
  opt_HandshakeTimeout :: duration
  opt_STUNServers :: "string list option"
  opt_PunchTimeout :: duration
  opt_PunchGatherTimeout :: duration

text \<open>\<^verbatim>\<open>newTiers\<close>: credentials, then the registry over them; a registry panic aborts the program.\<close>

definition newTiers :: "(tier \<Rightarrow> go_error + identity) \<Rightarrow> options \<Rightarrow> tier_panic + (go_error + (tier_Set \<times> identities))" where
  "newTiers gen opts =
     rbind (NewIdentities gen) (\<lambda>r.
       case r of
         Inl err \<Rightarrow> Inr (Inl err)
       | Inr ids \<Rightarrow>
           rbind (NewSet ids \<lparr>HandshakeTimeout = opt_HandshakeTimeout opts, Diagnostic = opt_Diagnostic opts\<rparr>)
             (\<lambda>s. Inr (Inr (s, ids))))"

text \<open>The configuration \<^verbatim>\<open>punchOnce\<close> hands to the agent factory.\<close>

definition punch_config :: "options \<Rightarrow> nat_config" where
  "punch_config opts = \<lparr>STUNServers = opt_STUNServers opts, Timeout = opt_PunchTimeout opts,
     GatherTimeout = opt_PunchGatherTimeout opts\<rparr>"

definition forcedTier :: "string \<Rightarrow> tier option" where
  "forcedTier mode = (if mode = TunnelWireGuard then Some TierWireGuard
     else if mode = TunnelQUIC then Some TierQUIC else None)"

definition forcesTier :: "string \<Rightarrow> bool" where
  "forcesTier mode \<longleftrightarrow> forcedTier mode \<noteq> None"

definition forcedTierFor :: "string \<Rightarrow> tier" where
  "forcedTierFor mode = (case forcedTier mode of Some i \<Rightarrow> i | None \<Rightarrow> [])"

definition punchAttemptsFor :: "options \<Rightarrow> u8" where
  "punchAttemptsFor opts = (if opt_PunchAttempts opts = 0 then DefaultPunchAttempts else opt_PunchAttempts opts)"

definition supported :: "tier_Set \<Rightarrow> string \<Rightarrow> tier list" where
  "supported s mode =
     (case forcedTier mode of
        Some forced \<Rightarrow> (case set_Lookup s forced of
                          Some _ \<Rightarrow> [forced, TierLibp2p]
                        | None \<Rightarrow> [TierLibp2p])
      | None \<Rightarrow> if mode = TunnelLibp2p then [TierLibp2p] else set_IDs s @ [TierLibp2p])"

definition hello :: "tier_Set \<Rightarrow> identities \<Rightarrow> options \<Rightarrow> Hello" where
  "hello s ids opts =
     \<lparr>SupportedTiers = supported s (opt_TunnelMode opts), WireGuardPubKey = WireGuardPublicKey ids,
      RequiredTier = forcedTierFor (opt_TunnelMode opts), PunchProbe = opt_Diagnostic opts,
      PunchAttempts = punchAttemptsFor opts\<rparr>"

definition probeAgreed :: "Hello \<Rightarrow> Hello \<Rightarrow> bool" where
  "probeAgreed local peer \<longleftrightarrow> PunchProbe local \<and> PunchProbe peer"

definition toPunchInfo :: "Credentials \<Rightarrow> byte list \<Rightarrow> PunchInfo" where
  "toPunchInfo c fingerprint = \<lparr>ICEUfrag = Ufrag c, ICEPwd = Pwd c, ICECandidates = Candidates c,
     QUICCertFingerprint = fingerprint\<rparr>"

definition fromPunchInfo :: "PunchInfo \<Rightarrow> Credentials" where
  "fromPunchInfo info = \<lparr>Ufrag = ICEUfrag info, Pwd = ICEPwd info, Candidates = ICECandidates info\<rparr>"

definition peerFingerprint :: "PunchInfo \<Rightarrow> byte list" where
  "peerFingerprint info =
     (if length (QUICCertFingerprint info) \<noteq> 32 then zero_key else QUICCertFingerprint info)"

section \<open>The world of one side\<close>

record agent_env =
  ae_err :: bool
  ae_agent :: bool
  ae_Local :: Credentials
  ae_AddRemote :: "Credentials \<Rightarrow> bool"
  ae_Connect :: "bool \<Rightarrow> Credentials \<Rightarrow> bool"

text \<open>The production factory: \<^verbatim>\<open>nat.New\<close> with its methods. An agent is used for one exchange only, so
  its answers to the credentials it is given are functions of them.\<close>

definition newPunchAgent :: "ice \<Rightarrow> nat_config \<Rightarrow> agent_env" where
  "newPunchAgent lib config =
     (case nat_New lib config of
        Inl e \<Rightarrow> \<lparr>ae_err = True, ae_agent = False, ae_Local = no_credentials, ae_AddRemote = (\<lambda>_. False),
                  ae_Connect = (\<lambda>_ _. False)\<rparr>
      | Inr a \<Rightarrow> \<lparr>ae_err = False, ae_agent = True, ae_Local = Local a,
                  ae_AddRemote = (\<lambda>r. fst (AddRemote r a) = None),
                  ae_Connect = (\<lambda>controlling r. fst (nat_Connect controlling (snd (AddRemote r a))) = None)\<rparr>)"

record side =
  sd_set :: tier_Set
  sd_ids :: identities
  sd_opts :: options
  sd_network :: network
  sd_agents :: "nat \<Rightarrow> agent_env"
  sd_plane :: data_plane
  sd_teardown :: "rung \<Rightarrow> go_error option"
  sd_rung_ends :: "tier \<Rightarrow> bool"

record world =
  inb :: "message list"
  outb :: "message list"
  broken :: bool
  next_agent :: nat
  open_agents :: "nat list"
  open_rungs :: "tier list"

definition encodable :: "message \<Rightarrow> bool" where
  "encodable m = (case marshalMessage m of Inl _ \<Rightarrow> False | Inr p \<Rightarrow> length p \<le> MaxMessageSize)"

definition x_send :: "message \<Rightarrow> world \<Rightarrow> bool \<times> world" where
  "x_send m w = (if broken w \<or> \<not> encodable m then (False, w) else (True, w\<lparr>outb := outb w @ [m]\<rparr>))"

definition x_recv :: "kind \<Rightarrow> world \<Rightarrow> message option \<times> world" where
  "x_recv k w = (case inb w of
       [] \<Rightarrow> (None, w)
     | m # ms \<Rightarrow> (if kind_of m = k then Some m else None, w\<lparr>inb := ms\<rparr>))"

definition x_swap :: "message \<Rightarrow> world \<Rightarrow> message option \<times> world" where
  "x_swap m w = (case x_send m w of (False, w1) \<Rightarrow> (None, w1) | (True, w1) \<Rightarrow> x_recv (kind_of m) w1)"

text \<open>The link to the byte level: a receive on a stream that holds the frames of the messages.\<close>

lemma x_recv_decode:
  assumes "marshalMessage m = Inr p" "length p \<le> MaxMessageSize" "wf_message m"
  shows "decode (kind_of m) (frame_of p @ rest) = Inr (m, rest)"
    and "x_recv (kind_of m) (w\<lparr>inb := m # ms\<rparr>) = (Some m, w\<lparr>inb := ms\<rparr>)"
  using assms unmarshal_marshal_message decode_frame by (blast, simp add: x_recv_def)

definition open_agent :: "nat \<Rightarrow> world \<Rightarrow> world" where
  "open_agent i w = w\<lparr>open_agents := i # open_agents w\<rparr>"

definition close_agent :: "nat \<Rightarrow> world \<Rightarrow> world" where
  "close_agent i w = w\<lparr>open_agents := removeAll i (open_agents w)\<rparr>"

text \<open>\<^verbatim>\<open>exchangeHello\<close>: \<^verbatim>\<open>x.Negotiate\<close>, that is the swap and the resolution of the pair.\<close>

definition exchangeHello :: "Hello \<Rightarrow> world \<Rightarrow> (tier \<times> Hello) option \<times> world" where
  "exchangeHello local w =
     (case x_swap (MHello local) w of
        (Some (MHello peer), w1) \<Rightarrow>
          (case RequiredCascade local peer of Inl e \<Rightarrow> (None, w1) | Inr c \<Rightarrow> (Some (c ! 0, peer), w1))
      | (_, w1) \<Rightarrow> (None, w1))"

section \<open>The punch\<close>

datatype punch_error = NegotiateStream | GatherFailure | PeerUnavailable | RemoteRejected | ConnectFailure | PeerDidNotLand

record punchResult =
  pr_agent :: nat
  pr_fingerprint :: "byte list"

definition punchOnce :: "side \<Rightarrow> bool \<Rightarrow> byte list \<Rightarrow> world \<Rightarrow> (punch_error + punchResult) \<times> world" where
  "punchOnce sd controlling fingerprint w =
     (let i = next_agent w; env = sd_agents sd i;
          w1 = w\<lparr>next_agent := i + 1\<rparr>;
          w2 = (if ae_agent env then open_agent i w1 else w1);
          err = ae_err env \<or> \<not> ae_agent env;
          local = (if err then no_credentials else ae_Local env);
          release = (\<lambda>w. if ae_agent env then close_agent i w else w)
      in case x_swap (MPunchInfo (toPunchInfo local fingerprint)) w2 of
           (Some (MPunchInfo info), w3) \<Rightarrow>
             if err then (Inl GatherFailure, release w3)
             else let remote = fromPunchInfo info in
               if \<not> Valid remote then (Inl PeerUnavailable, release w3)
               else if \<not> ae_AddRemote env remote then (Inl RemoteRejected, release w3)
               else if \<not> ae_Connect env controlling remote then (Inl ConnectFailure, release w3)
               else (Inr \<lparr>pr_agent = i, pr_fingerprint = peerFingerprint info\<rparr>, w3)
         | (_, w3) \<Rightarrow> (Inl NegotiateStream, release w3))"

definition releasePunch :: "(punch_error + punchResult) \<Rightarrow> world \<Rightarrow> world" where
  "releasePunch r w = (case r of Inl _ \<Rightarrow> w | Inr p \<Rightarrow> close_agent (pr_agent p) w)"

definition ok :: "'a + 'b \<Rightarrow> bool" where
  "ok r = (case r of Inl _ \<Rightarrow> False | Inr _ \<Rightarrow> True)"

function (sequential) punch_loop :: "side \<Rightarrow> bool \<Rightarrow> byte list \<Rightarrow> u8 \<Rightarrow> u8 \<Rightarrow> world
    \<Rightarrow> (punch_error + punchResult) \<times> world" where
  "punch_loop sd controlling fingerprint attempts attempt w =
     (case punchOnce sd controlling fingerprint w of (result, w1) \<Rightarrow>
        if attempts = 1 then (result, w1)
        else if result = Inl NegotiateStream then (Inl NegotiateStream, w1)
        else case x_swap (MPunchOutcome \<lparr>OK = ok result\<rparr>) w1 of
               (Some (MPunchOutcome peer), w2) \<Rightarrow>
                 if ok result \<and> OK peer then (result, w2)
                 else let w3 = releasePunch result w2;
                          err = (case result of Inl e \<Rightarrow> e | Inr _ \<Rightarrow> PeerDidNotLand)
                      in if attempt \<ge> attempts then (Inl err, w3)
                         else punch_loop sd controlling fingerprint attempts (attempt + 1) w3
             | (_, w2) \<Rightarrow> (Inl NegotiateStream, releasePunch result w2))"
  by pat_completeness auto
termination
proof (relation "measure (\<lambda>(sd, c, fp, attempts, attempt, w). unat attempts - unat attempt)")
  fix attempts attempt :: u8
  assume "\<not> attempts \<le> attempt"
  then have l: "unat attempt < unat attempts" by (simp add: word_le_nat_alt)
  moreover have "unat attempts < 256" using unsigned_less [of attempts, where 'a = nat] by simp
  ultimately have "unat (attempt + 1) = unat attempt + 1" by (simp add: unat_word_ariths)
  then show "((sd, controlling, fingerprint, attempts, attempt + 1, w3), (sd, controlling, fingerprint, attempts, attempt, w))
      \<in> measure (\<lambda>(sd, c, fp, attempts, attempt, w). unat attempts - unat attempt)"
    for sd :: side and controlling :: bool and fingerprint :: "byte list" and w3 w :: world
    using l by simp
qed auto

declare punch_loop.simps [simp del]

definition punch :: "side \<Rightarrow> bool \<Rightarrow> byte list \<Rightarrow> u8 \<Rightarrow> world \<Rightarrow> (punch_error + punchResult) \<times> world" where
  "punch sd controlling fingerprint attempts w =
     punch_loop sd controlling fingerprint (if attempts = 0 then 1 else attempts) 1 w"

definition runPunchProbe :: "side \<Rightarrow> bool \<Rightarrow> world \<Rightarrow> world" where
  "runPunchProbe sd controlling w =
     (case punch sd controlling zero_key 1 w of
        (Inl e, w1) \<Rightarrow> w1
      | (Inr p, w1) \<Rightarrow> close_agent (pr_agent p) w1)"

section \<open>The client's ladder\<close>

definition tierSession :: "network \<Rightarrow> Hello \<Rightarrow> punchResult \<Rightarrow> tier_session" where
  "tierSession nw peerHello punched =
     \<lparr>Network = nw, PeerWireGuardKey = WireGuardPubKey peerHello, PeerQUICFingerprint = pr_fingerprint punched\<rparr>"

text \<open>\<^verbatim>\<open>requestRung\<close> and \<^verbatim>\<open>commitRung\<close>: send, then wait for the matching acknowledgement.\<close>

definition send_and_ack :: "Attempt \<Rightarrow> world \<Rightarrow> bool \<times> world" where
  "send_and_ack a w =
     (case x_send (MAttempt a) w of
        (False, w1) \<Rightarrow> (False, w1)
      | (True, w1) \<Rightarrow>
          (case x_recv KAttempt w1 of
             (Some (MAttempt ack), w2) \<Rightarrow> (ATier ack = ATier a \<and> (Commit ack = Commit a), w2)
           | (_, w2) \<Rightarrow> (False, w2)))"

definition requestRung :: "tier \<Rightarrow> world \<Rightarrow> bool \<times> world" where
  "requestRung i w = send_and_ack \<lparr>ATier = i, Commit = False\<rparr> w"

definition commitRung :: "tier \<Rightarrow> world \<Rightarrow> bool \<times> world" where
  "commitRung i w = send_and_ack \<lparr>ATier = i, Commit = True\<rparr> w"

datatype rungs_result =
    RungUp tier rung
  | RequestFailed
  | RungCommitFailed tier
  | Exhausted "go_error option"

fun climb_rungs :: "side \<Rightarrow> tier_session \<Rightarrow> tier list \<Rightarrow> go_error option \<Rightarrow> world \<Rightarrow> rungs_result \<times> world" where
  "climb_rungs sd session [] lastErr w = (Exhausted lastErr, w)"
| "climb_rungs sd session (i # is) lastErr w =
     (if i = TierLibp2p then (Exhausted lastErr, w)
      else case requestRung i w of
        (False, w1) \<Rightarrow> (RequestFailed, w1)
      | (True, w1) \<Rightarrow>
          (case set_Dial (sd_set sd) (sd_plane sd) i session of
             (rung1, oc, Some err, _) \<Rightarrow>
               if oc = OutcomeSubstrateAbandoned then (Exhausted (Some err), w1)
               else climb_rungs sd session is (Some err) w1
           | (rung1, oc, None, _) \<Rightarrow>
               let w1 = w1\<lparr>open_rungs := i # open_rungs w1\<rparr> in
               (case commitRung i w1 of
                  (False, w2) \<Rightarrow> (RungCommitFailed i, w2\<lparr>open_rungs := removeAll i (open_rungs w2)\<rparr>)
                | (True, w2) \<Rightarrow> (RungUp i rung1, w2))))"

datatype client_error =
    PunchError punch_error
  | RungRequestError
  | RungCommitError tier
  | DialError go_error
  | NoTierAttempted
  | ResolveError negotiate_error
  | HelloError
  | OpenStreamError
  | ForcedUnavailable client_error
  | ForcedUnsupported

definition climbCascade :: "side \<Rightarrow> Hello \<Rightarrow> tier list \<Rightarrow> world
    \<Rightarrow> (client_error + (tier \<times> rung \<times> nat)) \<times> world" where
  "climbCascade sd peerHello cascade1 w =
     (let attempts = EffectivePunchAttempts (punchAttemptsFor (sd_opts sd)) (PunchAttempts peerHello) in
      case punch sd True (QUICFingerprint (sd_ids sd)) attempts w of
        (Inl e, w1) \<Rightarrow> (Inl (PunchError e), w1)
      | (Inr punched, w1) \<Rightarrow>
          (case climb_rungs sd (tierSession (sd_network sd) peerHello punched) cascade1 None w1 of
             (RequestFailed, w2) \<Rightarrow> (Inl RungRequestError, close_agent (pr_agent punched) w2)
           | (RungCommitFailed i, w2) \<Rightarrow> (Inl (RungCommitError i), close_agent (pr_agent punched) w2)
           | (RungUp i rung1, w2) \<Rightarrow> (Inr (i, rung1, pr_agent punched), w2)
           | (Exhausted lastErr, w2) \<Rightarrow>
               let forced_hello = \<lparr>SupportedTiers = [], WireGuardPubKey = zero_key,
                     RequiredTier = forcedTierFor (opt_TunnelMode (sd_opts sd)), PunchProbe = False, PunchAttempts = 0\<rparr>;
                   w3 = (if \<not> TierRequired forced_hello peerHello
                         then snd (x_send (MAttempt \<lparr>ATier = TierLibp2p, Commit = False\<rparr>) w2) else w2)
               in (Inl (case lastErr of None \<Rightarrow> NoTierAttempted | Some e \<Rightarrow> DialError e),
                   close_agent (pr_agent punched) w3)))"

text \<open>The first three fields are the code's. \<open>tr_probe\<close> records the other thing a negotiation may leave with
  the session: a punch probe handed to its wait group (\<^verbatim>\<open>wg.Go\<close>), which runs on after the return.\<close>

record tierResult =
  selected :: tier
  opener :: "stream_opener option"
  tr_agent :: "nat option"
  tr_probe :: bool

definition libp2pFloor :: tierResult where
  "libp2pFloor = \<lparr>selected = TierLibp2p, opener = None, tr_agent = None, tr_probe = False\<rparr>"

text \<open>The stream: \<open>opened\<close> says whether \<^verbatim>\<open>OpenNegotiateStream\<close> succeeded.\<close>

definition negotiateTierClient :: "side \<Rightarrow> bool \<Rightarrow> world \<Rightarrow> (client_error option \<times> tierResult) \<times> world" where
  "negotiateTierClient sd opened w =
     (let forced = forcesTier (opt_TunnelMode (sd_opts sd));
          local = hello (sd_set sd) (sd_ids sd) (sd_opts sd) in
      if \<not> opened then ((Some OpenStreamError, libp2pFloor), w)
      else case exchangeHello local w of
        (Some (sel, peerHello), w1) \<Rightarrow>
          (case RequiredCascade local peerHello of
             Inl e \<Rightarrow> ((Some (ResolveError e), libp2pFloor), w1)
           | Inr cascade1 \<Rightarrow>
               let required = TierRequired local peerHello in
               if cascade1 ! 0 \<noteq> TierLibp2p then
                 (case climbCascade sd peerHello cascade1 w1 of
                    (Inr (i, rung1, a), w2) \<Rightarrow>
                      ((None, \<lparr>selected = i, opener = Opener rung1, tr_agent = Some a, tr_probe = False\<rparr>), w2)
                  | (Inl err, w2) \<Rightarrow>
                      (case err of
                         RungCommitError i \<Rightarrow> ((Some err, libp2pFloor), w2)
                       | _ \<Rightarrow> if forced \<or> required then ((Some (ForcedUnavailable err), libp2pFloor), w2)
                              else ((None, libp2pFloor), w2)))
               else if probeAgreed local peerHello then ((None, libp2pFloor\<lparr>tr_probe := True\<rparr>), w1)
               else if forced \<or> required then ((Some ForcedUnsupported, libp2pFloor), w1)
               else ((None, libp2pFloor), w1))
      | (None, w1) \<Rightarrow> ((Some HelloError, libp2pFloor), w1))"

text \<open>The goroutine that \<^verbatim>\<open>negotiateTierClient\<close> leaves behind, and the client's whole share of the
  conversation: the negotiation and, when one was started, the probe, which alone uses the stream from then on.\<close>

definition await_probe :: "side \<Rightarrow> tierResult \<Rightarrow> world \<Rightarrow> world" where
  "await_probe sd res w = (if tr_probe res then runPunchProbe sd True w else w)"

definition client_negotiation :: "side \<Rightarrow> bool \<Rightarrow> world \<Rightarrow> (client_error option \<times> tierResult) \<times> world" where
  "client_negotiation sd opened w =
     (case negotiateTierClient sd opened w of ((err, res), w1) \<Rightarrow> ((err, res), await_probe sd res w1))"

section \<open>The host's ladder\<close>

datatype host_result =
    HostFloor
  | HostCommitted tier
  | HostStopped

text \<open>\<^verbatim>\<open>serveRung\<close> as the negotiate stream sees it: the next message decides. \<open>sd_rung_ends\<close> is the case
  that the rung ends first (its accept loop dies, an operator disconnects it). The results are those
  of the source: the next attempt with no error, committed, or an error.\<close>

datatype serve_result = Next Attempt | Committed | ServeError

definition serveRung :: "side \<Rightarrow> tier \<Rightarrow> rung \<Rightarrow> world \<Rightarrow> serve_result \<times> world" where
  "serveRung sd i rung1 w =
     (let stop = (\<lambda>w. w\<lparr>open_rungs := removeAll i (open_rungs w)\<rparr>);
          w = w\<lparr>open_rungs := i # open_rungs w\<rparr> in
      if sd_rung_ends sd i then (ServeError, stop w)
      else case x_recv KAttempt w of
        (Some (MAttempt a), w1) \<Rightarrow>
          if \<not> Commit a then
            (if set_SubstrateAbandoned (sd_set sd) (sd_teardown sd rung1) then (ServeError, stop w1)
             else (Next a, stop w1))
          else if ATier a \<noteq> i then (ServeError, stop w1)
          else (case x_send (MAttempt \<lparr>ATier = i, Commit = True\<rparr>) w1 of
                  (False, w2) \<Rightarrow> (ServeError, stop w2)
                | (True, w2) \<Rightarrow> (Committed, w2))
      | (_, w1) \<Rightarrow> (ServeError, stop w1))"

text \<open>The loop of \<^verbatim>\<open>serveUpperTiers\<close>: every round after the first was started by a message.\<close>

lemma x_recv_shorter: "x_recv k w = (Some m, w') \<Longrightarrow> length (inb w') < length (inb w)"
  by (auto simp: x_recv_def split: list.splits)

lemma x_send_inb: "x_send m w = (b, w') \<Longrightarrow> inb w' = inb w"
  by (auto simp: x_send_def split: if_splits)

lemma serveRung_shorter: "serveRung sd i r w = (Next a, w') \<Longrightarrow> length (inb w') < length (inb w)"
  by (auto simp: serveRung_def Let_def dest!: x_recv_shorter
      split: if_splits prod.splits option.splits message.splits bool.splits)

function (sequential) serve_rungs :: "side \<Rightarrow> tier_session \<Rightarrow> Attempt \<Rightarrow> world \<Rightarrow> host_result \<times> world" where
  "serve_rungs sd session pend w =
     (if ATier pend = TierLibp2p then (HostFloor, w)
      else if Commit pend then (HostStopped, w)
      else case x_send (MAttempt \<lparr>ATier = ATier pend, Commit = False\<rparr>) w of
        (False, w1) \<Rightarrow> (HostStopped, w1)
      | (True, w1) \<Rightarrow>
          (case set_Serve (sd_set sd) (sd_plane sd) (ATier pend) session of
             (rung1, oc, Some standErr, _) \<Rightarrow>
               if oc = OutcomeSubstrateAbandoned then (HostStopped, w1)
               else (case x_recv KAttempt w1 of
                       (Some (MAttempt a), w2) \<Rightarrow> serve_rungs sd session a w2
                     | (_, w2) \<Rightarrow> (HostStopped, w2))
           | (rung1, oc, None, _) \<Rightarrow>
               (case serveRung sd (ATier pend) rung1 w1 of
                  (Committed, w2) \<Rightarrow> (HostCommitted (ATier pend), w2)
                | (ServeError, w2) \<Rightarrow> (HostStopped, w2)
                | (Next a, w2) \<Rightarrow> serve_rungs sd session a w2)))"
  by pat_completeness auto
termination
  by (relation "measure (\<lambda>(sd, s, p, w). length (inb w))")
     (auto dest!: x_recv_shorter [OF sym] serveRung_shorter [OF sym] x_send_inb [OF sym])

declare serve_rungs.simps [simp del]

definition receiveRungRequest :: "world \<Rightarrow> Attempt option \<times> world" where
  "receiveRungRequest w =
     (case x_recv KAttempt w of (Some (MAttempt a), w1) \<Rightarrow> (Some a, w1) | (_, w1) \<Rightarrow> (None, w1))"

text \<open>\<^verbatim>\<open>serveUpperTiers\<close> returns when the peer is gone or a committed rung has ended; the deferred
  \<^verbatim>\<open>agent.Close\<close> runs on every way out. For a committed rung the state is the one while it is served.\<close>

definition serveUpperTiers :: "side \<Rightarrow> Hello \<Rightarrow> world \<Rightarrow> host_result \<times> world" where
  "serveUpperTiers sd peerHello w =
     (let attempts = EffectivePunchAttempts (punchAttemptsFor (sd_opts sd)) (PunchAttempts peerHello) in
      case punch sd False (QUICFingerprint (sd_ids sd)) attempts w of
        (Inl e, w1) \<Rightarrow> (HostStopped, w1)
      | (Inr punched, w1) \<Rightarrow>
          (case receiveRungRequest w1 of
             (None, w2) \<Rightarrow> (HostStopped, close_agent (pr_agent punched) w2)
           | (Some a, w2) \<Rightarrow>
               (case serve_rungs sd (tierSession (sd_network sd) peerHello punched) a w2 of
                  (HostCommitted i, w3) \<Rightarrow> (HostCommitted i, w3)
                | (r, w3) \<Rightarrow> (r, close_agent (pr_agent punched) w3))))"

definition negotiateTierHost :: "side \<Rightarrow> world \<Rightarrow> host_result \<times> world" where
  "negotiateTierHost sd w =
     (let local = hello (sd_set sd) (sd_ids sd) (sd_opts sd) in
      case exchangeHello local w of
        (Some (sel, peerHello), w1) \<Rightarrow>
          if sel \<noteq> TierLibp2p then serveUpperTiers sd peerHello w1
          else if probeAgreed local peerHello then (HostFloor, runPunchProbe sd False w1)
          else (HostFloor, w1)
      | (None, w1) \<Rightarrow> (HostStopped, w1))"

end
