(* ===== verification/Ladder_Lockstep.thy ===== *)
theory Ladder_Lockstep
  imports Ladder
begin

text \<open>
  The two sides of the ladder of \<^verbatim>\<open>internal/tunnel/tier.go\<close> against each other. \<open>ends\<close> and \<open>passes\<close>
  say what one side does on a stream that carries given messages; the lemmas build, from the punch up
  to the whole ladder, one conversation in which each side reads what the other wrote, and end in the
  agreement of both sides. The last section tracks the punch agents and rungs that are open.
\<close>

section \<open>Runs over a stream\<close>

lemma x_send_ok: "\<not> broken w \<Longrightarrow> encodable m \<Longrightarrow> x_send m w = (True, w\<lparr>outb := outb w @ [m]\<rparr>)"
  by (simp add: x_send_def)

lemma x_recv_cons: "inb w = m # ms \<Longrightarrow> kind_of m = k \<Longrightarrow> x_recv k w = (Some m, w\<lparr>inb := ms\<rparr>)"
  by (simp add: x_recv_def)

lemma x_recv_nil: "inb w = [] \<Longrightarrow> x_recv k w = (None, w)"
  by (simp add: x_recv_def)

lemma x_swap_ok:
  "\<not> broken w \<Longrightarrow> encodable m \<Longrightarrow> inb w = m' # ms \<Longrightarrow> kind_of m' = kind_of m \<Longrightarrow>
   x_swap m w = (Some m', w\<lparr>outb := outb w @ [m], inb := ms\<rparr>)"
  by (simp add: x_swap_def x_send_ok x_recv_cons)

text \<open>\<open>ends f mi r mo\<close>: on a stream that carries exactly \<open>mi\<close> and then ends, \<open>f\<close> returns \<open>r\<close> having
  written \<open>mo\<close>. \<open>passes\<close>: \<open>f\<close> reads exactly \<open>mi\<close>, whatever follows; the agent counter says which
  agents it used.\<close>

definition ends :: "(world \<Rightarrow> 'a \<times> world) \<Rightarrow> message list \<Rightarrow> 'a \<Rightarrow> message list \<Rightarrow> bool" where
  "ends f mi r mo \<longleftrightarrow> (\<forall>w. \<not> broken w \<longrightarrow> inb w = mi \<longrightarrow> (\<exists>w'. f w = (r, w') \<and> outb w' = outb w @ mo))"

definition passes :: "(world \<Rightarrow> 'a \<times> world) \<Rightarrow> nat \<Rightarrow> nat \<Rightarrow> message list \<Rightarrow> 'a \<Rightarrow> message list \<Rightarrow> bool" where
  "passes f n n' mi r mo \<longleftrightarrow> (\<forall>w rest. \<not> broken w \<longrightarrow> next_agent w = n \<longrightarrow> inb w = mi @ rest \<longrightarrow>
     (\<exists>w'. f w = (r, w') \<and> outb w' = outb w @ mo \<and> inb w' = rest \<and> \<not> broken w' \<and> next_agent w' = n'))"

lemma endsE:
  assumes "ends f mi r mo" "\<not> broken w" "inb w = mi"
  obtains w' where "f w = (r, w')" "outb w' = outb w @ mo"
  using assms by (auto simp: ends_def)

lemma passesE:
  assumes "passes f n n' mi r mo" "\<not> broken w" "next_agent w = n" "inb w = mi @ rest"
  obtains w' where "f w = (r, w')" "outb w' = outb w @ mo" "inb w' = rest" "\<not> broken w'" "next_agent w' = n'"
  using assms by (auto simp: passes_def)

subsection \<open>The punch in lockstep\<close>

definition once_local :: "side \<Rightarrow> nat \<Rightarrow> Credentials" where
  "once_local sd n = (if ae_err (sd_agents sd n) \<or> \<not> ae_agent (sd_agents sd n) then no_credentials
     else ae_Local (sd_agents sd n))"

definition once_result :: "side \<Rightarrow> bool \<Rightarrow> nat \<Rightarrow> PunchInfo \<Rightarrow> punch_error + punchResult" where
  "once_result sd controlling n info =
     (let env = sd_agents sd n in
      if ae_err env \<or> \<not> ae_agent env then Inl GatherFailure
      else if \<not> Valid (fromPunchInfo info) then Inl PeerUnavailable
      else if \<not> ae_AddRemote env (fromPunchInfo info) then Inl RemoteRejected
      else if \<not> ae_Connect env controlling (fromPunchInfo info) then Inl ConnectFailure
      else Inr \<lparr>pr_agent = n, pr_fingerprint = peerFingerprint info\<rparr>)"

text \<open>The credentials of every agent of a side fit the wire.\<close>

definition punch_encodable :: "side \<Rightarrow> byte list \<Rightarrow> bool" where
  "punch_encodable sd fp \<longleftrightarrow> (\<forall>n. encodable (MPunchInfo (toPunchInfo (once_local sd n) fp)))"

lemma punchOnce_passes:
  assumes "punch_encodable sd fp"
  shows "passes (punchOnce sd c fp) n (Suc n) [MPunchInfo info] (once_result sd c n info)
           [MPunchInfo (toPunchInfo (once_local sd n) fp)]"
  unfolding passes_def
proof (intro allI impI)
  fix w :: world and rest
  assume w: "\<not> broken w" "next_agent w = n" "inb w = [MPunchInfo info] @ rest"
  let ?m = "MPunchInfo (toPunchInfo (once_local sd n) fp)"
  let ?w2 = "if ae_agent (sd_agents sd n) then open_agent n (w\<lparr>next_agent := Suc n\<rparr>) else w\<lparr>next_agent := Suc n\<rparr>"
  have w2: "\<not> broken ?w2" "inb ?w2 = MPunchInfo info # rest" "outb ?w2 = outb w" "next_agent ?w2 = Suc n"
    using w by (auto simp: open_agent_def)
  have "encodable ?m" using assms by (simp add: punch_encodable_def)
  then have "x_swap ?m ?w2 = (Some (MPunchInfo info), ?w2\<lparr>outb := outb ?w2 @ [?m], inb := rest\<rparr>)"
    using w2 by (intro x_swap_ok) auto
  then show "\<exists>w'. punchOnce sd c fp w = (once_result sd c n info, w') \<and> outb w' = outb w @ [?m] \<and> inb w' = rest
      \<and> \<not> broken w' \<and> next_agent w' = Suc n"
    using w w2 by (auto simp: punchOnce_def once_result_def once_local_def Let_def close_agent_def)
qed

lemma once_result_not_stream: "once_result sd c n info \<noteq> Inl NegotiateStream"
  by (simp add: once_result_def Let_def)

lemma encodable_outcome: "encodable (MPunchOutcome \<lparr>OK = b\<rparr>)"
  by (simp add: encodable_def lift_codec_def marshalPunchOutcome_def MaxMessageSize_def)

lemma encodable_attempt: "length i \<le> maxTierNameLen \<Longrightarrow> encodable (MAttempt \<lparr>ATier = i, Commit = b\<rparr>)"
  by (simp add: encodable_def lift_codec_def marshalAttempt_def appendString_def MaxMessageSize_def
      maxTierNameLen_def)

lemma u8_less_Suc: "(attempt :: u8) < attempts \<Longrightarrow> unat (attempt + 1) = Suc (unat attempt)"
proof -
  assume "attempt < attempts"
  then have "unat attempt < unat attempts" by (simp add: word_less_nat_alt)
  moreover have "unat attempts < 256" using unsigned_less [of attempts, where 'a = nat] by simp
  ultimately show ?thesis by (simp add: unat_word_ariths)
qed

text \<open>One round of the loop with an outcome swap.\<close>

lemma punch_round:
  assumes enc: "punch_encodable sd fp" and n1: "attempts \<noteq> 1"
    and r: "r = once_result sd c n info"
    and w: "\<not> broken w" "next_agent w = n" "inb w = [MPunchInfo info, MPunchOutcome \<lparr>OK = peer_ok\<rparr>] @ rest"
  shows "\<exists>w'. punch_loop sd c fp attempts attempt w =
      (if ok r \<and> peer_ok then (r, w')
       else if attempt \<ge> attempts then (Inl (case r of Inl e \<Rightarrow> e | Inr _ \<Rightarrow> PeerDidNotLand), w')
       else punch_loop sd c fp attempts (attempt + 1) w')
    \<and> outb w' = outb w @ [MPunchInfo (toPunchInfo (once_local sd n) fp), MPunchOutcome \<lparr>OK = ok r\<rparr>]
    \<and> inb w' = rest \<and> \<not> broken w' \<and> next_agent w' = Suc n"
proof -
  have "inb w = [MPunchInfo info] @ (MPunchOutcome \<lparr>OK = peer_ok\<rparr> # rest)" using w(3) by simp
  from passesE [OF punchOnce_passes [OF enc, of c n info] w(1,2) this] obtain w1 where
    w1: "punchOnce sd c fp w = (r, w1)" "outb w1 = outb w @ [MPunchInfo (toPunchInfo (once_local sd n) fp)]"
      "inb w1 = MPunchOutcome \<lparr>OK = peer_ok\<rparr> # rest" "\<not> broken w1" "next_agent w1 = Suc n"
    unfolding r by blast
  let ?w2 = "w1\<lparr>outb := outb w1 @ [MPunchOutcome \<lparr>OK = ok r\<rparr>], inb := rest\<rparr>"
  have sw: "x_swap (MPunchOutcome \<lparr>OK = ok r\<rparr>) w1 = (Some (MPunchOutcome \<lparr>OK = peer_ok\<rparr>), ?w2)"
    using w1 encodable_outcome by (intro x_swap_ok) auto
  let ?w' = "if ok r \<and> peer_ok then ?w2 else releasePunch r ?w2"
  have "punch_loop sd c fp attempts attempt w =
      (if ok r \<and> peer_ok then (r, ?w')
       else if attempt \<ge> attempts then (Inl (case r of Inl e \<Rightarrow> e | Inr _ \<Rightarrow> PeerDidNotLand), ?w')
       else punch_loop sd c fp attempts (attempt + 1) ?w')"
    using n1 once_result_not_stream [of sd c n info, folded r]
    by (subst punch_loop.simps) (simp add: w1(1) sw Let_def)
  moreover have "outb ?w' = outb w1 @ [MPunchOutcome \<lparr>OK = ok r\<rparr>]" "inb ?w' = rest" "\<not> broken ?w'"
    "next_agent ?w' = Suc n"
    using w1 by (auto simp: releasePunch_def close_agent_def split: sum.splits)
  ultimately show ?thesis using w1(2) by (intro exI [of _ ?w']) simp
qed

definition round_in :: "PunchInfo \<Rightarrow> bool \<Rightarrow> message list" where
  "round_in info b = [MPunchInfo info, MPunchOutcome \<lparr>OK = b\<rparr>]"

definition final_result :: "(punch_error + punchResult) \<Rightarrow> bool \<Rightarrow> punch_error + punchResult" where
  "final_result r peer_ok =
     (if ok r \<and> peer_ok then r else Inl (case r of Inl e \<Rightarrow> e | Inr _ \<Rightarrow> PeerDidNotLand))"

lemma punch_stop:
  assumes "punch_encodable sd fp" "attempts \<noteq> 1" "r = once_result sd c n info"
    "ok r \<and> peer_ok \<or> attempts \<le> attempt"
  shows "passes (punch_loop sd c fp attempts attempt) n (Suc n) (round_in info peer_ok)
     (final_result r peer_ok) (round_in (toPunchInfo (once_local sd n) fp) (ok r))"
  unfolding passes_def
proof (intro allI impI)
  fix w :: world and rest assume "\<not> broken w" "next_agent w = n" "inb w = round_in info peer_ok @ rest"
  from punch_round [OF assms(1-3) this [unfolded round_in_def], of attempt] assms(4)
  show "\<exists>w'. punch_loop sd c fp attempts attempt w = (final_result r peer_ok, w')
      \<and> outb w' = outb w @ round_in (toPunchInfo (once_local sd n) fp) (ok r)
      \<and> inb w' = rest \<and> \<not> broken w' \<and> next_agent w' = Suc n"
    unfolding final_result_def round_in_def by (elim exE) (simp split: if_splits)
qed

lemma punch_more:
  assumes "punch_encodable sd fp" "attempts \<noteq> 1" "r = once_result sd c n info"
    "\<not> (ok r \<and> peer_ok)" "attempt < attempts"
    and next1: "passes (punch_loop sd c fp attempts (attempt + 1)) (Suc n) n' mi r' mo"
  shows "passes (punch_loop sd c fp attempts attempt) n n' (round_in info peer_ok @ mi) r'
     (round_in (toPunchInfo (once_local sd n) fp) (ok r) @ mo)"
  unfolding passes_def
proof (intro allI impI)
  fix w :: world and rest
  assume "\<not> broken w" "next_agent w = n" "inb w = (round_in info peer_ok @ mi) @ rest"
  then have w: "\<not> broken w" "next_agent w = n"
    "inb w = [MPunchInfo info, MPunchOutcome \<lparr>OK = peer_ok\<rparr>] @ (mi @ rest)" by (simp_all add: round_in_def)
  have "\<not> attempts \<le> attempt" using assms(5) by simp
  with punch_round [OF assms(1-3) w, of attempt] assms(4) have
    "\<exists>w1. punch_loop sd c fp attempts attempt w = punch_loop sd c fp attempts (attempt + 1) w1
      \<and> outb w1 = outb w @ round_in (toPunchInfo (once_local sd n) fp) (ok r)
      \<and> inb w1 = mi @ rest \<and> \<not> broken w1 \<and> next_agent w1 = Suc n"
    unfolding round_in_def by (simp only: if_False)
  then obtain w1 where
    w1: "punch_loop sd c fp attempts attempt w = punch_loop sd c fp attempts (attempt + 1) w1"
      "outb w1 = outb w @ round_in (toPunchInfo (once_local sd n) fp) (ok r)"
      "inb w1 = mi @ rest" "\<not> broken w1" "next_agent w1 = Suc n"
    by blast
  obtain w2 where "punch_loop sd c fp attempts (attempt + 1) w1 = (r', w2)" "outb w2 = outb w1 @ mo"
      "inb w2 = rest" "\<not> broken w2" "next_agent w2 = n'"
    by (rule passesE [OF next1 w1(4,5,3)])
  with w1(1,2) show "\<exists>w'. punch_loop sd c fp attempts attempt w = (r', w')
      \<and> outb w' = outb w @ round_in (toPunchInfo (once_local sd n) fp) (ok r) @ mo
      \<and> inb w' = rest \<and> \<not> broken w' \<and> next_agent w' = n'" by (intro exI [of _ w2]) simp
qed

lemma ok_final: "ok (final_result r b) \<longleftrightarrow> ok r \<and> b"
  by (simp add: final_result_def ok_def)

lemma punch_loop_lockstep:
  assumes enc: "punch_encodable cs fpc" "punch_encodable hs fph" and n1: "attempts \<noteq> 1"
    and le: "attempt \<le> attempts"
  shows "\<exists>nc' nh' mc mh rc rh. passes (punch_loop cs True fpc attempts attempt) nc nc' mh rc mc
     \<and> passes (punch_loop hs False fph attempts attempt) nh nh' mc rh mh \<and> ok rc = ok rh"
  using le
proof (induction "unat attempts - unat attempt" arbitrary: attempt nc nh rule: less_induct)
  case (less attempt nc nh)
  let ?ic = "toPunchInfo (once_local cs nc) fpc" and ?ih = "toPunchInfo (once_local hs nh) fph"
  let ?rc = "once_result cs True nc ?ih" and ?rh = "once_result hs False nh ?ic"
  show ?case
  proof (cases "ok ?rc \<and> ok ?rh \<or> attempts \<le> attempt")
    case True
    have "passes (punch_loop cs True fpc attempts attempt) nc (Suc nc) (round_in ?ih (ok ?rh))
        (final_result ?rc (ok ?rh)) (round_in ?ic (ok ?rc))"
      using True by (intro punch_stop enc n1) auto
    moreover have "passes (punch_loop hs False fph attempts attempt) nh (Suc nh) (round_in ?ic (ok ?rc))
        (final_result ?rh (ok ?rc)) (round_in ?ih (ok ?rh))"
      using True by (intro punch_stop enc n1) auto
    moreover have "ok (final_result ?rc (ok ?rh)) = ok (final_result ?rh (ok ?rc))" by (auto simp: ok_final)
    ultimately show ?thesis by blast
  next
    case False
    then have lt: "attempt < attempts" and nok: "\<not> (ok ?rc \<and> ok ?rh)" "\<not> (ok ?rh \<and> ok ?rc)" by auto
    note S = u8_less_Suc [OF lt]
    have m: "unat attempts - unat (attempt + 1) < unat attempts - unat attempt"
      using S lt by (simp add: word_less_nat_alt)
    have "attempt + 1 \<le> attempts" using S lt by (simp add: word_le_nat_alt word_less_nat_alt)
    from less.hyps [OF m this, of "Suc nc" "Suc nh"] obtain nc' nh' mc mh rc rh where
      ih: "passes (punch_loop cs True fpc attempts (attempt + 1)) (Suc nc) nc' mh rc mc"
        "passes (punch_loop hs False fph attempts (attempt + 1)) (Suc nh) nh' mc rh mh" "ok rc = ok rh"
      by blast
    from punch_more [OF enc(1) n1 refl nok(1) lt ih(1)] punch_more [OF enc(2) n1 refl nok(2) lt ih(2)] ih(3)
    show ?thesis by blast
  qed
qed

lemma punch_lockstep:
  assumes enc: "punch_encodable cs fpc" "punch_encodable hs fph" and a: "attempts \<noteq> 0"
  shows "\<exists>nc' nh' mc mh rc rh. passes (punch cs True fpc attempts) nc nc' mh rc mc
     \<and> passes (punch hs False fph attempts) nh nh' mc rh mh \<and> (attempts \<noteq> 1 \<longrightarrow> ok rc = ok rh)"
proof (cases "attempts = 1")
  case True
  let ?ic = "toPunchInfo (once_local cs nc) fpc" and ?ih = "toPunchInfo (once_local hs nh) fph"
  have p: "punch sd c fp 1 w = punchOnce sd c fp w" for sd c fp w
    unfolding punch_def by (subst punch_loop.simps) (simp split: prod.splits)
  have "passes (punch cs True fpc attempts) nc (Suc nc) [MPunchInfo ?ih] (once_result cs True nc ?ih) [MPunchInfo ?ic]"
    "passes (punch hs False fph attempts) nh (Suc nh) [MPunchInfo ?ic] (once_result hs False nh ?ic) [MPunchInfo ?ih]"
    using punchOnce_passes [OF enc(1), of True nc ?ih] punchOnce_passes [OF enc(2), of False nh ?ic]
    by (simp_all add: True passes_def p)
  then show ?thesis using True by blast
next
  case False
  have "1 \<le> attempts" using a by (simp add: word_le_nat_alt unat_gt_0 Suc_le_eq)
  moreover have "punch sd c fp attempts = punch_loop sd c fp attempts 1" for sd c fp
    using a by (simp add: punch_def fun_eq_iff)
  ultimately show ?thesis using punch_loop_lockstep [OF enc False, of 1 nc nh] by metis
qed

subsection \<open>The rungs in lockstep\<close>

abbreviation request_msg :: "tier \<Rightarrow> message" where
  "request_msg i \<equiv> MAttempt \<lparr>ATier = i, Commit = False\<rparr>"

abbreviation commit_msg :: "tier \<Rightarrow> message" where
  "commit_msg i \<equiv> MAttempt \<lparr>ATier = i, Commit = True\<rparr>"

text \<open>The client after its punch, with the message it falls to the floor with.\<close>

definition climb_tail :: "side \<Rightarrow> tier_session \<Rightarrow> bool \<Rightarrow> tier list \<Rightarrow> go_error option \<Rightarrow> world \<Rightarrow> rungs_result \<times> world" where
  "climb_tail sd s required c le w =
     (case climb_rungs sd s c le w of
        (Exhausted e, w1) \<Rightarrow> (Exhausted e, if \<not> required then snd (x_send (request_msg TierLibp2p) w1) else w1)
      | x \<Rightarrow> x)"

definition host_wait :: "side \<Rightarrow> tier_session \<Rightarrow> world \<Rightarrow> host_result \<times> world" where
  "host_wait sd s w =
     (case receiveRungRequest w of (None, w1) \<Rightarrow> (HostStopped, w1) | (Some a, w1) \<Rightarrow> serve_rungs sd s a w1)"

definition client_after :: "side \<Rightarrow> tier_session \<Rightarrow> bool \<Rightarrow> tier \<Rightarrow> tier list \<Rightarrow> world \<Rightarrow> rungs_result \<times> world" where
  "client_after sd s required i is w =
     (case set_Dial (sd_set sd) (sd_plane sd) i s of
        (rung1, oc, Some err, _) \<Rightarrow>
          if oc = OutcomeSubstrateAbandoned then climb_tail sd s required [] (Some err) w
          else climb_tail sd s required is (Some err) w
      | (rung1, oc, None, _) \<Rightarrow>
          (case commitRung i (w\<lparr>open_rungs := i # open_rungs w\<rparr>) of
             (False, w2) \<Rightarrow> (RungCommitFailed i, w2\<lparr>open_rungs := removeAll i (open_rungs w2)\<rparr>)
           | (True, w2) \<Rightarrow> (RungUp i rung1, w2)))"

definition host_after :: "side \<Rightarrow> tier_session \<Rightarrow> tier \<Rightarrow> world \<Rightarrow> host_result \<times> world" where
  "host_after sd s i w =
     (case set_Serve (sd_set sd) (sd_plane sd) i s of
        (rung1, oc, Some err, _) \<Rightarrow>
          if oc = OutcomeSubstrateAbandoned then (HostStopped, w) else host_wait sd s w
      | (rung1, oc, None, _) \<Rightarrow>
          (case serveRung sd i rung1 w of
             (Committed, w2) \<Rightarrow> (HostCommitted i, w2)
           | (ServeError, w2) \<Rightarrow> (HostStopped, w2)
           | (Next a, w2) \<Rightarrow> serve_rungs sd s a w2))"

lemma send_and_ack_ok:
  assumes "\<not> broken w" "encodable (MAttempt a)" "inb w = MAttempt a # ms"
  shows "send_and_ack a w = (True, w\<lparr>outb := outb w @ [MAttempt a], inb := ms\<rparr>)"
  using assms by (simp add: send_and_ack_def x_send_ok x_recv_cons)

lemma send_and_ack_nil:
  assumes "\<not> broken w" "encodable (MAttempt a)" "inb w = []"
  shows "send_and_ack a w = (False, w\<lparr>outb := outb w @ [MAttempt a]\<rparr>)"
  using assms by (simp add: send_and_ack_def x_send_ok x_recv_nil)

lemma client_step:
  assumes i: "i \<noteq> TierLibp2p" "length i \<le> maxTierNameLen"
    and after: "ends (client_after sd s required i is) mh cr mc"
  shows "ends (climb_tail sd s required (i # is) le) (request_msg i # mh) cr (request_msg i # mc)"
  unfolding ends_def
proof (intro allI impI)
  fix w :: world assume w: "\<not> broken w" "inb w = request_msg i # mh"
  let ?w1 = "w\<lparr>outb := outb w @ [request_msg i], inb := mh\<rparr>"
  have rq: "requestRung i w = (True, ?w1)"
    unfolding requestRung_def using w encodable_attempt [OF i(2)] by (intro send_and_ack_ok)
  obtain w' where w': "client_after sd s required i is ?w1 = (cr, w')" "outb w' = outb ?w1 @ mc"
    by (rule endsE [OF after, of ?w1]) (use w in auto)
  have "climb_tail sd s required (i # is) le w = client_after sd s required i is ?w1"
    using i(1) rq by (auto simp: climb_tail_def client_after_def Let_def split: option.splits prod.splits if_splits bool.splits)
  with w' show "\<exists>w'. climb_tail sd s required (i # is) le w = (cr, w') \<and> outb w' = outb w @ request_msg i # mc"
    by simp
qed

lemma host_step:
  assumes i: "i \<noteq> TierLibp2p" "length i \<le> maxTierNameLen"
    and after: "ends (host_after sd s i) mc hr mh"
  shows "ends (host_wait sd s) (request_msg i # mc) hr (request_msg i # mh)"
  unfolding ends_def
proof (intro allI impI)
  fix w :: world assume w: "\<not> broken w" "inb w = request_msg i # mc"
  let ?w0 = "w\<lparr>inb := mc\<rparr>" and ?w1 = "w\<lparr>inb := mc, outb := outb w @ [request_msg i]\<rparr>"
  have rr: "receiveRungRequest w = (Some \<lparr>ATier = i, Commit = False\<rparr>, ?w0)"
    using w by (simp add: receiveRungRequest_def x_recv_cons)
  have sn: "x_send (request_msg i) ?w0 = (True, ?w1)"
    using w encodable_attempt [OF i(2)] by (simp add: x_send_ok)
  obtain w' where w': "host_after sd s i ?w1 = (hr, w')" "outb w' = outb ?w1 @ mh"
    by (rule endsE [OF after, of ?w1]) (use w in auto)
  have "host_wait sd s w = serve_rungs sd s \<lparr>ATier = i, Commit = False\<rparr> ?w0" by (simp add: host_wait_def rr)
  also have "\<dots> = host_after sd s i ?w1"
    using i(1) sn
    by (subst serve_rungs.simps)
       (auto simp: host_after_def host_wait_def receiveRungRequest_def
         split: option.splits prod.splits if_splits message.splits serve_result.splits)
  finally show "\<exists>w'. host_wait sd s w = (hr, w') \<and> outb w' = outb w @ request_msg i # mh"
    using w' by simp
qed

definition starts_asking :: "message list \<Rightarrow> bool" where
  "starts_asking mc \<longleftrightarrow> mc = [] \<or> (\<exists>j ms. mc = request_msg j # ms)"

definition farewell :: "bool \<Rightarrow> message list" where
  "farewell required = (if required then [] else [request_msg TierLibp2p])"

lemma libp2p_short: "length TierLibp2p \<le> maxTierNameLen"
  by (simp add: TierLibp2p_def maxTierNameLen_def)

lemma climb_tail_floor:
  assumes "c = [] \<or> hd c = TierLibp2p"
  shows "ends (climb_tail sd s required c le) mh (Exhausted le) (farewell required)"
proof -
  have "climb_rungs sd s c le w = (Exhausted le, w)" for w using assms by (cases c) auto
  then show ?thesis
    using encodable_attempt [OF libp2p_short, of False]
    by (simp add: ends_def climb_tail_def farewell_def x_send_ok)
qed

lemma client_no_input:
  assumes "\<forall>i \<in> set c. length i \<le> maxTierNameLen"
  shows "\<exists>cr mc. ends (climb_tail sd s required c le) [] cr mc \<and> (\<forall>t r. cr \<noteq> RungUp t r) \<and> starts_asking mc"
proof (cases "c = [] \<or> hd c = TierLibp2p")
  case True
  then show ?thesis using climb_tail_floor [OF True] by (force simp: starts_asking_def farewell_def)
next
  case False
  then obtain i js where c: "c = i # js" "i \<noteq> TierLibp2p" by (cases c) auto
  then have "encodable (request_msg i)" using assms by (simp add: encodable_attempt)
  then have "ends (climb_tail sd s required c le) [] RequestFailed [request_msg i]"
    using c by (simp add: ends_def climb_tail_def requestRung_def send_and_ack_nil)
  then show ?thesis by (force simp: starts_asking_def)
qed

lemma host_wait_nil: "ends (host_wait sd s) [] HostStopped []"
  by (simp add: ends_def host_wait_def receiveRungRequest_def x_recv_nil)

lemma host_wait_floor: "ends (host_wait sd s) [request_msg TierLibp2p] HostFloor []"
  by (simp add: ends_def host_wait_def receiveRungRequest_def x_recv_cons serve_rungs.simps)

lemma host_wait_commit: "i \<noteq> TierLibp2p \<Longrightarrow> ends (host_wait sd s) [commit_msg i] HostStopped []"
  by (simp add: ends_def host_wait_def receiveRungRequest_def x_recv_cons serve_rungs.simps)

lemma host_wait_farewell: "\<exists>hr. ends (host_wait sd s) (farewell required) hr [] \<and> (\<forall>t. hr \<noteq> HostCommitted t)"
proof (cases required)
  case True
  then show ?thesis using host_wait_nil by (intro exI [of _ HostStopped]) (simp add: farewell_def)
next
  case False
  then show ?thesis using host_wait_floor by (intro exI [of _ HostFloor]) (simp add: farewell_def)
qed

text \<open>The host after its acknowledgement either stops without a word whatever comes next, or goes on
  like \<open>host_wait\<close> unless the next message commits the rung.\<close>

definition host_dead :: "side \<Rightarrow> tier_session \<Rightarrow> tier \<Rightarrow> bool" where
  "host_dead sd s i \<longleftrightarrow> (\<forall>mc. starts_asking mc \<longrightarrow> ends (host_after sd s i) mc HostStopped [])"

definition host_waits :: "side \<Rightarrow> tier_session \<Rightarrow> tier \<Rightarrow> bool" where
  "host_waits sd s i \<longleftrightarrow> (\<forall>mc hr mh. starts_asking mc \<longrightarrow> ends (host_wait sd s) mc hr mh \<longrightarrow> ends (host_after sd s i) mc hr mh)"

definition host_on_commit :: "side \<Rightarrow> tier_session \<Rightarrow> tier \<Rightarrow> bool" where
  "host_on_commit sd s i \<longleftrightarrow> ends (host_after sd s i) [commit_msg i] HostStopped []
     \<or> ends (host_after sd s i) [commit_msg i] (HostCommitted i) [commit_msg i]"

lemma world_update_swap: "w\<lparr>inb := a, open_rungs := b\<rparr> = (w :: world)\<lparr>open_rungs := b, inb := a\<rparr>"
  by (cases w) simp

lemma host_after_serving:
  assumes S: "set_Serve (sd_set sd) (sd_plane sd) i s = (rung1, oc, None, rel)" and i: "length i \<le> maxTierNameLen"
  shows "(host_dead sd s i \<or> host_waits sd s i) \<and> host_on_commit sd s i"
proof (cases "sd_rung_ends sd i")
  case True
  then have "host_after sd s i w = (HostStopped, w\<lparr>open_rungs := removeAll i (i # open_rungs w)\<rparr>)" for w
    using S by (simp add: host_after_def serveRung_def)
  then show ?thesis by (simp add: host_dead_def host_on_commit_def ends_def)
next
  case False
  let ?stop = "\<lambda>w :: world. w\<lparr>open_rungs := removeAll i (i # open_rungs w)\<rparr>"
  have nil: "inb w = [] \<Longrightarrow> host_after sd s i w = (HostStopped, ?stop w)" for w
    using S False by (simp add: host_after_def serveRung_def x_recv_nil)
  have req: "inb w = request_msg j # ms \<Longrightarrow> host_after sd s i w =
      (if set_SubstrateAbandoned (sd_set sd) (sd_teardown sd rung1) then (HostStopped, (?stop w)\<lparr>inb := ms\<rparr>)
       else host_wait sd s (?stop w))" for w j ms
    using S False by (simp add: host_after_def serveRung_def x_recv_cons host_wait_def receiveRungRequest_def
        world_update_swap)
  have com: "host_on_commit sd s i"
    using S False encodable_attempt [OF i, of True]
    by (simp add: host_on_commit_def ends_def host_after_def serveRung_def x_recv_cons x_send_ok)
  show ?thesis
  proof (cases "set_SubstrateAbandoned (sd_set sd) (sd_teardown sd rung1)")
    case True
    then have "host_dead sd s i"
      unfolding host_dead_def starts_asking_def using nil req by (auto simp: ends_def)
    with com show ?thesis by simp
  next
    case no: False
    have "host_waits sd s i"
      unfolding host_waits_def
    proof (intro allI impI)
      fix mc hr mh assume mc: "starts_asking mc" "ends (host_wait sd s) mc hr mh"
      show "ends (host_after sd s i) mc hr mh"
        unfolding ends_def
      proof (intro allI impI)
        fix w :: world assume w: "\<not> broken w" "inb w = mc"
        obtain w' where w': "host_wait sd s (?stop w) = (hr, w')" "outb w' = outb (?stop w) @ mh"
          by (rule endsE [OF mc(2), of "?stop w"]) (use w in auto)
        moreover have "host_after sd s i w = host_wait sd s (?stop w)"
          using mc(1) w nil [of w] req [of w] no
          by (auto simp: starts_asking_def host_wait_def receiveRungRequest_def x_recv_nil)
        ultimately show "\<exists>w'. host_after sd s i w = (hr, w') \<and> outb w' = outb w @ mh" by simp
      qed
    qed
    with com show ?thesis by simp
  qed
qed

lemma host_after_cases:
  assumes i: "i \<noteq> TierLibp2p" "length i \<le> maxTierNameLen"
  shows "(host_dead sd s i \<or> host_waits sd s i) \<and> host_on_commit sd s i"
proof -
  obtain rung1 oc err rel where S: "set_Serve (sd_set sd) (sd_plane sd) i s = (rung1, oc, err, rel)"
    by (metis prod.exhaust)
  show ?thesis
  proof (cases err)
    case None
    then show ?thesis using host_after_serving [OF _ i(2)] S by simp
  next
    case (Some e)
    show ?thesis
    proof (cases "oc = OutcomeSubstrateAbandoned")
      case True
      then have "host_after sd s i w = (HostStopped, w)" for w using S Some by (simp add: host_after_def)
      then show ?thesis by (simp add: host_dead_def host_on_commit_def ends_def)
    next
      case False
      then have "host_after sd s i = host_wait sd s" using S Some by (simp add: host_after_def fun_eq_iff)
      then show ?thesis using host_wait_commit [OF i(1)] by (simp add: host_waits_def host_on_commit_def)
    qed
  qed
qed

definition agree :: "rungs_result \<Rightarrow> host_result \<Rightarrow> bool" where
  "agree cr hr \<longleftrightarrow> (\<forall>t. (\<exists>r. cr = RungUp t r) \<longleftrightarrow> hr = HostCommitted t)"

lemma agree_neither: "(\<And>t r. cr \<noteq> RungUp t r) \<Longrightarrow> (\<And>t. hr \<noteq> HostCommitted t) \<Longrightarrow> agree cr hr"
  by (simp add: agree_def)

lemma after_lockstep:
  assumes i: "i \<noteq> TierLibp2p" "length i \<le> maxTierNameLen" "\<forall>i \<in> set js. length i \<le> maxTierNameLen"
    and ih: "\<And>le. \<exists>mc mh cr hr. ends (climb_tail cs ss required js le) mh cr mc \<and> ends (host_wait hs hss) mc hr mh
       \<and> agree cr hr \<and> starts_asking mc"
  shows "\<exists>mc mh cr hr. ends (client_after cs ss required i js) mh cr mc \<and> ends (host_after hs hss i) mc hr mh \<and> agree cr hr"
proof -
  obtain rung1 oc err rel where D: "set_Dial (sd_set cs) (sd_plane cs) i ss = (rung1, oc, err, rel)"
    by (metis prod.exhaust)
  note H = host_after_cases [OF i(1,2), of hs hss]
  show ?thesis
  proof (cases err)
    case None
    have C: "client_after cs ss required i js w = (case commitRung i (w\<lparr>open_rungs := i # open_rungs w\<rparr>) of
             (False, w2) \<Rightarrow> (RungCommitFailed i, w2\<lparr>open_rungs := removeAll i (open_rungs w2)\<rparr>)
           | (True, w2) \<Rightarrow> (RungUp i rung1, w2))" for w
      using D None by (simp add: client_after_def)
    have up: "ends (client_after cs ss required i js) [commit_msg i] (RungUp i rung1) [commit_msg i]"
      and down: "ends (client_after cs ss required i js) [] (RungCommitFailed i) [commit_msg i]"
      using encodable_attempt [OF i(2), of True]
      by (simp_all add: ends_def C commitRung_def send_and_ack_ok send_and_ack_nil)
    have a: "agree (RungCommitFailed i) HostStopped" "agree (RungUp i rung1) (HostCommitted i)"
      by (auto simp: agree_def)
    show ?thesis using H up down a unfolding host_on_commit_def by blast
  next
    case (Some e)
    show ?thesis
    proof (cases "oc = OutcomeSubstrateAbandoned")
      case True
      then have "client_after cs ss required i js = climb_tail cs ss required [] (Some e)"
        using D Some by (simp add: client_after_def fun_eq_iff)
      then have c: "ends (client_after cs ss required i js) mh (Exhausted (Some e)) (farewell required)" for mh
        using climb_tail_floor [of "[]"] by simp
      have st: "starts_asking (farewell required)" by (simp add: starts_asking_def farewell_def)
      obtain hr where "ends (host_wait hs hss) (farewell required) hr []" "\<And>t. hr \<noteq> HostCommitted t"
        using host_wait_farewell by blast
      then have "\<exists>hr. ends (host_after hs hss i) (farewell required) hr [] \<and> (\<forall>t. hr \<noteq> HostCommitted t)"
        using H st unfolding host_dead_def host_waits_def by blast
      then obtain hr where "ends (host_after hs hss i) (farewell required) hr []" "\<And>t. hr \<noteq> HostCommitted t" by blast
      moreover from this have "agree (Exhausted (Some e)) hr" by (intro agree_neither) auto
      ultimately show ?thesis using c [of "[]"] by blast
    next
      case False
      then have c: "client_after cs ss required i js = climb_tail cs ss required js (Some e)"
        using D Some by (simp add: client_after_def fun_eq_iff)
      from H show ?thesis
      proof (elim conjE disjE)
        assume dead: "host_dead hs hss i"
        obtain cr mc where "ends (climb_tail cs ss required js (Some e)) [] cr mc" "\<And>t r. cr \<noteq> RungUp t r" "starts_asking mc"
          using client_no_input [OF i(3)] by blast
        moreover from this have "agree cr HostStopped" by (intro agree_neither) auto
        ultimately show ?thesis using dead unfolding c host_dead_def by blast
      next
        assume "host_waits hs hss i"
        with ih [of "Some e"] show ?thesis unfolding c host_waits_def by blast
      qed
    qed
  qed
qed

lemma rungs_lockstep:
  assumes "\<forall>i \<in> set c. length i \<le> maxTierNameLen"
  shows "\<exists>mc mh cr hr. ends (climb_tail cs ss required c le) mh cr mc \<and> ends (host_wait hs hss) mc hr mh
     \<and> agree cr hr \<and> starts_asking mc"
  using assms
proof (induction c arbitrary: le)
  case Nil
  obtain hr where "ends (host_wait hs hss) (farewell required) hr []" "\<And>t. hr \<noteq> HostCommitted t"
    using host_wait_farewell by blast
  then show ?case
    using climb_tail_floor [of "[]" cs ss required le "[]"]
    by (intro exI [of _ "farewell required"] exI [of _ "[]"] exI [of _ "Exhausted le"] exI [of _ hr])
       (auto simp: agree_def starts_asking_def farewell_def)
next
  case (Cons i js)
  show ?case
  proof (cases "i = TierLibp2p")
    case True
    obtain hr where "ends (host_wait hs hss) (farewell required) hr []" "\<And>t. hr \<noteq> HostCommitted t"
      using host_wait_farewell by blast
    then show ?thesis
      using climb_tail_floor [of "i # js" cs ss required le "[]"] True
      by (intro exI [of _ "farewell required"] exI [of _ "[]"] exI [of _ "Exhausted le"] exI [of _ hr])
         (auto simp: agree_def starts_asking_def farewell_def)
  next
    case False
    have short: "length i \<le> maxTierNameLen" "\<forall>i \<in> set js. length i \<le> maxTierNameLen" using Cons.prems by auto
    have "\<exists>mc mh cr hr. ends (client_after cs ss required i js) mh cr mc \<and> ends (host_after hs hss i) mc hr mh \<and> agree cr hr"
      using after_lockstep [OF False short Cons.IH [OF short(2)]] .
    then obtain mc mh cr hr where "ends (client_after cs ss required i js) mh cr mc"
        "ends (host_after hs hss i) mc hr mh" "agree cr hr" by blast
    then show ?thesis
      using client_step [OF False short(1)] host_step [OF False short(1)] by (fastforce simp: starts_asking_def)
  qed
qed

subsection \<open>The whole ladder in lockstep\<close>

definition ends0 :: "(world \<Rightarrow> 'a \<times> world) \<Rightarrow> message list \<Rightarrow> 'a \<Rightarrow> message list \<Rightarrow> bool" where
  "ends0 f mi r mo \<longleftrightarrow> (\<forall>w. \<not> broken w \<longrightarrow> next_agent w = 0 \<longrightarrow> inb w = mi \<longrightarrow>
     (\<exists>w'. f w = (r, w') \<and> outb w' = outb w @ mo))"

lemma ends0E:
  assumes "ends0 f mi r mo" "\<not> broken w" "next_agent w = 0" "inb w = mi"
  obtains w' where "f w = (r, w')" "outb w' = outb w @ mo"
  using assms by (auto simp: ends0_def)

definition peer_requires :: "side \<Rightarrow> Hello \<Rightarrow> bool" where
  "peer_requires sd peerHello = TierRequired \<lparr>SupportedTiers = [], WireGuardPubKey = zero_key,
     RequiredTier = forcedTierFor (opt_TunnelMode (sd_opts sd)), PunchProbe = False, PunchAttempts = 0\<rparr> peerHello"

definition effective_attempts :: "side \<Rightarrow> Hello \<Rightarrow> u8" where
  "effective_attempts sd peerHello = EffectivePunchAttempts (punchAttemptsFor (sd_opts sd)) (PunchAttempts peerHello)"

fun cascade_result :: "nat \<Rightarrow> rungs_result \<Rightarrow> client_error + (tier \<times> rung \<times> nat)" where
  "cascade_result a (RungUp i r) = Inr (i, r, a)"
| "cascade_result a RequestFailed = Inl RungRequestError"
| "cascade_result a (RungCommitFailed i) = Inl (RungCommitError i)"
| "cascade_result a (Exhausted e) = Inl (case e of None \<Rightarrow> NoTierAttempted | Some e \<Rightarrow> DialError e)"

lemma climbCascade_eq:
  assumes "punch sd True (QUICFingerprint (sd_ids sd)) (effective_attempts sd ph) w = (Inr p, w1)"
    "climb_tail sd (tierSession (sd_network sd) ph p) (peer_requires sd ph) c None w1 = (cr, w2)"
  shows "\<exists>w3. climbCascade sd ph c w = (cascade_result (pr_agent p) cr, w3) \<and> outb w3 = outb w2"
  using assms
  by (auto simp: climbCascade_def climb_tail_def peer_requires_def effective_attempts_def Let_def close_agent_def
      split: prod.splits rungs_result.splits)

lemma climbCascade_punch_failed:
  "punch sd True (QUICFingerprint (sd_ids sd)) (effective_attempts sd ph) w = (Inl e, w1) \<Longrightarrow>
   climbCascade sd ph c w = (Inl (PunchError e), w1)"
  by (simp add: climbCascade_def effective_attempts_def)

lemma serveUpperTiers_eq:
  assumes "punch sd False (QUICFingerprint (sd_ids sd)) (effective_attempts sd ph) w = (Inr p, w1)"
    "host_wait sd (tierSession (sd_network sd) ph p) w1 = (hr, w2)"
  shows "\<exists>w3. serveUpperTiers sd ph w = (hr, w3) \<and> outb w3 = outb w2"
  using assms
  by (auto simp: serveUpperTiers_def host_wait_def effective_attempts_def Let_def close_agent_def
      split: prod.splits option.splits host_result.splits)

lemma serveUpperTiers_punch_failed:
  "punch sd False (QUICFingerprint (sd_ids sd)) (effective_attempts sd ph) w = (Inl e, w1) \<Longrightarrow>
   serveUpperTiers sd ph w = (HostStopped, w1)"
  by (simp add: serveUpperTiers_def effective_attempts_def)

lemma climbCascade_ends:
  assumes p: "passes (punch sd True (QUICFingerprint (sd_ids sd)) (effective_attempts sd ph)) 0 n (mi :: message list) (Inr pr) mo"
    and t: "ends (climb_tail sd (tierSession (sd_network sd) ph pr) (peer_requires sd ph) c None) mi' cr mo'"
  shows "ends0 (climbCascade sd ph c) (mi @ mi') (cascade_result (pr_agent pr) cr) (mo @ mo')"
  unfolding ends0_def
proof (intro allI impI)
  fix w :: world assume "\<not> broken w" "next_agent w = 0" "inb w = mi @ mi'"
  from passesE [OF p this] obtain w1 where
    w1: "punch sd True (QUICFingerprint (sd_ids sd)) (effective_attempts sd ph) w = (Inr pr, w1)"
      "outb w1 = outb w @ mo" "inb w1 = mi'" "\<not> broken w1" by blast
  from endsE [OF t w1(4,3)] obtain w2 where
    w2: "climb_tail sd (tierSession (sd_network sd) ph pr) (peer_requires sd ph) c None w1 = (cr, w2)"
      "outb w2 = outb w1 @ mo'" by blast
  from climbCascade_eq [OF w1(1) w2(1)] w1(2) w2(2)
  show "\<exists>w'. climbCascade sd ph c w = (cascade_result (pr_agent pr) cr, w') \<and> outb w' = outb w @ mo @ mo'" by auto
qed

lemma serveUpperTiers_ends:
  assumes p: "passes (punch sd False (QUICFingerprint (sd_ids sd)) (effective_attempts sd ph)) 0 n (mi :: message list) (Inr pr) mo"
    and t: "ends (host_wait sd (tierSession (sd_network sd) ph pr)) mi' hr mo'"
  shows "ends0 (serveUpperTiers sd ph) (mi @ mi') hr (mo @ mo')"
  unfolding ends0_def
proof (intro allI impI)
  fix w :: world assume "\<not> broken w" "next_agent w = 0" "inb w = mi @ mi'"
  from passesE [OF p this] obtain w1 where
    w1: "punch sd False (QUICFingerprint (sd_ids sd)) (effective_attempts sd ph) w = (Inr pr, w1)"
      "outb w1 = outb w @ mo" "inb w1 = mi'" "\<not> broken w1" by blast
  from endsE [OF t w1(4,3)] obtain w2 where
    w2: "host_wait sd (tierSession (sd_network sd) ph pr) w1 = (hr, w2)" "outb w2 = outb w1 @ mo'" by blast
  from serveUpperTiers_eq [OF w1(1) w2(1)] w1(2) w2(2)
  show "\<exists>w'. serveUpperTiers sd ph w = (hr, w') \<and> outb w' = outb w @ mo @ mo'" by auto
qed

lemma climbCascade_failed_ends:
  assumes p: "passes (punch sd True (QUICFingerprint (sd_ids sd)) (effective_attempts sd ph)) 0 n mi (Inl e) mo"
  shows "ends0 (climbCascade sd ph cs) (mi @ mi') (Inl (PunchError e)) mo"
  unfolding ends0_def
proof (intro allI impI)
  fix w :: world assume "\<not> broken w" "next_agent w = 0" "inb w = mi @ mi'"
  from passesE [OF p this] obtain w1 where
    w1: "punch sd True (QUICFingerprint (sd_ids sd)) (effective_attempts sd ph) w = (Inl e, w1)" "outb w1 = outb w @ mo"
    by blast
  from climbCascade_punch_failed [OF w1(1)] w1(2)
  show "\<exists>w'. climbCascade sd ph cs w = (Inl (PunchError e), w') \<and> outb w' = outb w @ mo" by blast
qed

lemma serveUpperTiers_failed_ends:
  assumes p: "passes (punch sd False (QUICFingerprint (sd_ids sd)) (effective_attempts sd ph)) 0 n mi (Inl e) mo"
  shows "ends0 (serveUpperTiers sd ph) (mi @ mi') HostStopped mo"
  unfolding ends0_def
proof (intro allI impI)
  fix w :: world assume "\<not> broken w" "next_agent w = 0" "inb w = mi @ mi'"
  from passesE [OF p this] obtain w1 where
    w1: "punch sd False (QUICFingerprint (sd_ids sd)) (effective_attempts sd ph) w = (Inl e, w1)" "outb w1 = outb w @ mo"
    by blast
  from serveUpperTiers_punch_failed [OF w1(1)] w1(2)
  show "\<exists>w'. serveUpperTiers sd ph w = (HostStopped, w') \<and> outb w' = outb w @ mo" by blast
qed

definition ladder_agree :: "(client_error + (tier \<times> rung \<times> nat)) \<Rightarrow> host_result \<Rightarrow> bool" where
  "ladder_agree cr hr \<longleftrightarrow> (\<forall>t. (\<exists>r a. cr = Inr (t, r, a)) \<longleftrightarrow> hr = HostCommitted t)"

lemma ladder_agree_result: "agree cr hr \<Longrightarrow> ladder_agree (cascade_result a cr) hr"
  by (cases cr) (auto simp: agree_def ladder_agree_def)

lemma ladder_lockstep:
  assumes enc: "punch_encodable cs (QUICFingerprint (sd_ids cs))" "punch_encodable hs (QUICFingerprint (sd_ids hs))"
    and att: "effective_attempts cs hh = effective_attempts hs hc" "effective_attempts cs hh \<noteq> 0"
    and short: "\<forall>i \<in> set c. length i \<le> maxTierNameLen"
  shows "\<exists>mc mh cr hr. ends0 (climbCascade cs hh c) mh cr mc \<and> ends0 (serveUpperTiers hs hc) mc hr mh \<and> ladder_agree cr hr"
proof -
  from punch_lockstep [OF enc att(2), of 0 0] obtain nc nh mc mh rc rh where
    pc: "passes (punch cs True (QUICFingerprint (sd_ids cs)) (effective_attempts cs hh)) 0 nc mh rc mc" and
    ph: "passes (punch hs False (QUICFingerprint (sd_ids hs)) (effective_attempts hs hc)) 0 nh mc rh mh"
    unfolding att(1) by blast
  show ?thesis
  proof (cases rc)
    case (Inl ec)
    note C = climbCascade_failed_ends [OF pc [unfolded Inl], of c]
    have "\<exists>hr. ends0 (serveUpperTiers hs hc) mc hr mh \<and> (\<forall>t. hr \<noteq> HostCommitted t)"
    proof (cases rh)
      case (Inl eh)
      then show ?thesis using serveUpperTiers_failed_ends [OF ph [unfolded Inl], of "[]"] by auto
    next
      case (Inr p)
      then show ?thesis using serveUpperTiers_ends [OF ph [unfolded Inr] host_wait_nil] by auto
    qed
    then obtain hr where "ends0 (serveUpperTiers hs hc) mc hr mh" "\<And>t. hr \<noteq> HostCommitted t" by blast
    moreover from this have "ladder_agree (Inl (PunchError ec)) hr" by (simp add: ladder_agree_def)
    moreover have "ends0 (climbCascade cs hh c) mh (Inl (PunchError ec)) mc" using C [of "[]"] by simp
    ultimately show ?thesis by blast
  next
    case (Inr p)
    note pc = pc [unfolded Inr]
    show ?thesis
    proof (cases rh)
      case (Inl eh)
      obtain cr mc' where cr: "ends (climb_tail cs (tierSession (sd_network cs) hh p) (peer_requires cs hh) c None) [] cr mc'"
          "\<And>t r. cr \<noteq> RungUp t r"
        using client_no_input [OF short] by blast
      have "ladder_agree (cascade_result (pr_agent p) cr) HostStopped" using cr(2) by (intro ladder_agree_result agree_neither) auto
      moreover note climbCascade_ends [OF pc cr(1)] serveUpperTiers_failed_ends [OF ph [unfolded Inl], of mc']
      ultimately show ?thesis by fastforce
    next
      case (Inr q)
      from rungs_lockstep [OF short] obtain mc' mh' cr hr where
        r: "ends (climb_tail cs (tierSession (sd_network cs) hh p) (peer_requires cs hh) c None) mh' cr mc'"
          "ends (host_wait hs (tierSession (sd_network hs) hc q)) mc' hr mh'" "agree cr hr" by blast
      from climbCascade_ends [OF pc r(1)] serveUpperTiers_ends [OF ph [unfolded Inr] r(2)] ladder_agree_result [OF r(3)]
      show ?thesis by blast
    qed
  qed
qed

abbreviation side_hello :: "side \<Rightarrow> Hello" where
  "side_hello sd \<equiv> hello (sd_set sd) (sd_ids sd) (sd_opts sd)"

lemma effective_attempts_commute: "effective_attempts cs (side_hello hs) = effective_attempts hs (side_hello cs)"
  by (simp add: effective_attempts_def hello_def EffectivePunchAttempts_commute)

lemma effective_attempts_pos: "effective_attempts cs h \<noteq> 0"
  by (simp add: effective_attempts_def EffectivePunchAttempts_def Let_def min_def)

lemma tier_names_short [simp]:
  "length TierWireGuard \<le> maxTierNameLen" "length TierQUIC \<le> maxTierNameLen" "length TierLibp2p \<le> maxTierNameLen"
  by (simp_all add: tier_defs maxTierNameLen_def)

lemma RequiredCascade_short: "RequiredCascade l p = Inr c \<Longrightarrow> \<forall>i \<in> set c. length i \<le> maxTierNameLen"
  by (erule RequiredCascade_Inr_cases) (auto simp: set_SharedCascade)

text \<open>The Hello swap and what either side does with it.\<close>

lemma exchangeHello_swapped:
  assumes "encodable (MHello l)" "\<not> broken w" "inb w = MHello p # ms"
  shows "exchangeHello l w =
    (case RequiredCascade l p of Inl e \<Rightarrow> None | Inr c \<Rightarrow> Some (c ! 0, p), w\<lparr>outb := outb w @ [MHello l], inb := ms\<rparr>)"
  using assms by (simp add: exchangeHello_def x_swap_ok split: sum.splits)

fun client_result :: "bool \<Rightarrow> client_error + (tier \<times> rung \<times> nat) \<Rightarrow> client_error option \<times> tierResult" where
  "client_result must (Inr (i, rung1, a)) = (None, \<lparr>selected = i, opener = Opener rung1, tr_agent = Some a, tr_probe = False\<rparr>)"
| "client_result must (Inl err) = (case err of
       RungCommitError i \<Rightarrow> (Some err, libp2pFloor)
     | _ \<Rightarrow> if must then (Some (ForcedUnavailable err), libp2pFloor) else (None, libp2pFloor))"

lemma client_result_no_probe: "\<not> tr_probe (snd (client_result must cr))"
  by (cases "(must, cr)" rule: client_result.cases) (auto simp: libp2pFloor_def split: client_error.splits)

definition must_rise :: "side \<Rightarrow> Hello \<Rightarrow> bool" where
  "must_rise sd peerHello \<longleftrightarrow> forcesTier (opt_TunnelMode (sd_opts sd)) \<or> TierRequired (side_hello sd) peerHello"

lemma client_upper_ends:
  assumes "encodable (MHello (side_hello cs))" "RequiredCascade (side_hello cs) p = Inr c" "c ! 0 \<noteq> TierLibp2p"
    and c: "ends0 (climbCascade cs p c) mi cr mo"
  shows "ends0 (client_negotiation cs True) (MHello p # mi) (client_result (must_rise cs p) cr) (MHello (side_hello cs) # mo)"
  unfolding ends0_def
proof (intro allI impI)
  fix w :: world assume w: "\<not> broken w" "next_agent w = 0" "inb w = MHello p # mi"
  let ?w1 = "w\<lparr>outb := outb w @ [MHello (side_hello cs)], inb := mi\<rparr>"
  obtain w2 where "climbCascade cs p c ?w1 = (cr, w2)" "outb w2 = outb ?w1 @ mo"
    using ends0E [OF c, of ?w1] w by auto
  then have w2: "climbCascade cs p c ?w1 = (cr, w2)" "outb w2 = outb w @ MHello (side_hello cs) # mo" by auto
  have "negotiateTierClient cs True w = (client_result (must_rise cs p) cr, w2)"
    using assms(1-3) w w2(1)
    by (cases cr) (auto simp: negotiateTierClient_def exchangeHello_swapped must_rise_def Let_def split: client_error.splits)
  then have "client_negotiation cs True w = (client_result (must_rise cs p) cr, w2)"
    using client_result_no_probe [of "must_rise cs p" cr]
    by (cases "client_result (must_rise cs p) cr") (simp add: client_negotiation_def await_probe_def)
  then show "\<exists>w'. client_negotiation cs True w = (client_result (must_rise cs p) cr, w') \<and>
      outb w' = outb w @ MHello (side_hello cs) # mo" using w2(2) by blast
qed

lemma host_upper_ends:
  assumes "encodable (MHello (side_hello hs))" "RequiredCascade (side_hello hs) p = Inr c" "c ! 0 \<noteq> TierLibp2p"
    and c: "ends0 (serveUpperTiers hs p) mi hr mo"
  shows "ends0 (negotiateTierHost hs) (MHello p # mi) hr (MHello (side_hello hs) # mo)"
  unfolding ends0_def
proof (intro allI impI)
  fix w :: world assume w: "\<not> broken w" "next_agent w = 0" "inb w = MHello p # mi"
  let ?w1 = "w\<lparr>outb := outb w @ [MHello (side_hello hs)], inb := mi\<rparr>"
  obtain w2 where w2: "serveUpperTiers hs p ?w1 = (hr, w2)" "outb w2 = outb ?w1 @ mo"
    using ends0E [OF c, of ?w1] w by auto
  have "negotiateTierHost hs w = (hr, w2)"
    using assms(1-3) w w2(1) by (simp add: negotiateTierHost_def exchangeHello_swapped Let_def)
  then show "\<exists>w'. negotiateTierHost hs w = (hr, w') \<and> outb w' = outb w @ MHello (side_hello hs) # mo"
    using w2(2) by auto
qed


text \<open>Below the ladder: the probe, which swaps one punch, and the plain floor.\<close>

definition floor_result :: "side \<Rightarrow> Hello \<Rightarrow> client_error option \<times> tierResult" where
  "floor_result sd p =
     (if probeAgreed (side_hello sd) p then (None, libp2pFloor\<lparr>tr_probe := True\<rparr>)
      else (if must_rise sd p then Some ForcedUnsupported else None, libp2pFloor))"

lemma probe_passes:
  assumes "passes (punch sd c zero_key 1) n n' mi r mo"
  shows "passes (\<lambda>w. ((), runPunchProbe sd c w)) n n' mi () mo"
  unfolding passes_def
proof (intro allI impI)
  fix w :: world and rest assume "\<not> broken w" "next_agent w = n" "inb w = mi @ rest"
  from passesE [OF assms this] obtain w' where
    "punch sd c zero_key 1 w = (r, w')" "outb w' = outb w @ mo" "inb w' = rest" "\<not> broken w'" "next_agent w' = n'" by blast
  then show "\<exists>w'. ((), runPunchProbe sd c w) = ((), w') \<and> outb w' = outb w @ mo \<and> inb w' = rest
      \<and> \<not> broken w' \<and> next_agent w' = n'"
    by (cases r) (auto simp: runPunchProbe_def close_agent_def)
qed

lemmas client_simps = client_negotiation_def negotiateTierClient_def await_probe_def libp2pFloor_def

lemma client_floor_ends:
  assumes enc: "encodable (MHello (side_hello cs))" and c: "RequiredCascade (side_hello cs) p = Inr c" "c ! 0 = TierLibp2p"
    and pr: "if probeAgreed (side_hello cs) p then passes (\<lambda>w. ((), runPunchProbe cs True w)) 0 n mi () mo else mi = [] \<and> mo = []"
  shows "ends0 (client_negotiation cs True) (MHello p # mi) (floor_result cs p) (MHello (side_hello cs) # mo)"
  unfolding ends0_def
proof (intro allI impI)
  fix w :: world assume w: "\<not> broken w" "next_agent w = 0" "inb w = MHello p # mi"
  let ?w1 = "w\<lparr>outb := outb w @ [MHello (side_hello cs)], inb := mi\<rparr>"
  have x: "exchangeHello (side_hello cs) w = (Some (TierLibp2p, p), ?w1)" using enc c w by (simp add: exchangeHello_swapped)
  show "\<exists>w'. client_negotiation cs True w = (floor_result cs p, w') \<and> outb w' = outb w @ MHello (side_hello cs) # mo"
  proof (cases "probeAgreed (side_hello cs) p")
    case True
    then obtain w2 where "runPunchProbe cs True ?w1 = w2" "outb w2 = outb ?w1 @ mo"
      using passesE [of "\<lambda>w. ((), runPunchProbe cs True w)" 0 n mi "()" mo ?w1 "[]"] pr w by auto
    then show ?thesis using True x c by (simp add: client_simps floor_result_def Let_def)
  qed (use pr x c in \<open>auto simp: client_simps floor_result_def must_rise_def Let_def\<close>)
qed

lemma host_floor_ends:
  assumes enc: "encodable (MHello (side_hello hs))" and c: "RequiredCascade (side_hello hs) p = Inr c" "c ! 0 = TierLibp2p"
    and pr: "if probeAgreed (side_hello hs) p then passes (\<lambda>w. ((), runPunchProbe hs False w)) 0 n mi () mo else mi = [] \<and> mo = []"
  shows "ends0 (negotiateTierHost hs) (MHello p # mi) HostFloor (MHello (side_hello hs) # mo)"
  unfolding ends0_def
proof (intro allI impI)
  fix w :: world assume w: "\<not> broken w" "next_agent w = 0" "inb w = MHello p # mi"
  let ?w1 = "w\<lparr>outb := outb w @ [MHello (side_hello hs)], inb := mi\<rparr>"
  have x: "exchangeHello (side_hello hs) w = (Some (TierLibp2p, p), ?w1)" using enc c w by (simp add: exchangeHello_swapped)
  show "\<exists>w'. negotiateTierHost hs w = (HostFloor, w') \<and> outb w' = outb w @ MHello (side_hello hs) # mo"
  proof (cases "probeAgreed (side_hello hs) p")
    case True
    then obtain w2 where "runPunchProbe hs False ?w1 = w2" "outb w2 = outb ?w1 @ mo"
      using passesE [of "\<lambda>w. ((), runPunchProbe hs False w)" 0 n mi "()" mo ?w1 "[]"] pr w by auto
    then show ?thesis using True x c by (simp add: negotiateTierHost_def Let_def)
  qed (use pr x c in \<open>auto simp: negotiateTierHost_def Let_def\<close>)
qed

text \<open>A pair that cannot be resolved: both sides stop after the swap.\<close>

lemma unresolved_ends:
  assumes "encodable (MHello (side_hello sd))" "RequiredCascade (side_hello sd) p = Inl e"
  shows "ends0 (client_negotiation sd True) [MHello p] (Some HelloError, libp2pFloor) [MHello (side_hello sd)]"
    and "ends0 (negotiateTierHost sd) [MHello p] HostStopped [MHello (side_hello sd)]"
  using assms by (simp_all add: ends0_def client_simps negotiateTierHost_def exchangeHello_swapped Let_def)

lemma forced_not_floor:
  assumes "RequiredCascade l p = Inr c" "TierRequired l p" shows "c ! 0 \<noteq> TierLibp2p"
  using assms(1)
proof (cases rule: RequiredCascade_Inr_cases)
  case shared
  then show ?thesis using assms(2) by (simp add: TierRequired_def)
next
  case (forced t)
  then show ?thesis by auto
qed

lemma TierRequired_flip: "TierRequired l p = TierRequired p l"
  by (auto simp: TierRequired_def)

lemma RequiredCascade_error_flip: "RequiredCascade l p = Inl e \<Longrightarrow> \<exists>e'. RequiredCascade p l = Inl e'"
  by (cases "RequiredCascade p l") (auto dest: RequiredCascade_flip_Inr)

lemma RequiredTier_hello: "RequiredTier (side_hello sd) = forcedTierFor (opt_TunnelMode (sd_opts sd))"
  by (simp add: hello_def)

lemma forced_iff: "forcedTierFor m \<noteq> [] \<longleftrightarrow> forcesTier m"
  by (auto simp: forcedTierFor_def forcesTier_def forcedTier_def split: option.splits)

lemma TierRequired_sides:
  "TierRequired (side_hello cs) (side_hello hs) \<longleftrightarrow>
   forcesTier (opt_TunnelMode (sd_opts cs)) \<or> forcesTier (opt_TunnelMode (sd_opts hs))"
  by (simp add: TierRequired_def RequiredTier_hello forced_iff)

definition sides_agree :: "client_error option \<times> tierResult \<Rightarrow> host_result \<Rightarrow> bool" where
  "sides_agree r hr \<longleftrightarrow> (\<forall>t. (fst r = None \<and> selected (snd r) = t \<and> tr_agent (snd r) \<noteq> None) \<longleftrightarrow> hr = HostCommitted t)"

lemma floor_agrees: "tr_agent (snd r) = None \<Longrightarrow> (\<And>t. hr \<noteq> HostCommitted t) \<Longrightarrow> sides_agree r hr"
  by (simp add: sides_agree_def)

lemma client_result_agrees: "ladder_agree cr hr \<Longrightarrow> sides_agree (client_result must cr) hr"
  by (cases cr) (auto simp: ladder_agree_def sides_agree_def libp2pFloor_def split: client_error.splits)

lemma client_result_forced: "client_result True cr = (None, res) \<Longrightarrow> tr_agent res \<noteq> None"
  by (cases cr) (auto split: client_error.splits)

text \<open>The conversation, in terms of the results the two sides return.\<close>

lemma ladder_conversation:
  assumes "encodable (MHello (side_hello cs))" "encodable (MHello (side_hello hs))"
    and "punch_encodable cs (QUICFingerprint (sd_ids cs))" "punch_encodable hs (QUICFingerprint (sd_ids hs))"
    and "punch_encodable cs zero_key" "punch_encodable hs zero_key"
  shows "\<exists>mc mh r hr. ends0 (client_negotiation cs True) mh r mc \<and> ends0 (negotiateTierHost hs) mc hr mh
      \<and> sides_agree r hr \<and> (forcesTier (opt_TunnelMode (sd_opts cs)) \<or> forcesTier (opt_TunnelMode (sd_opts hs)) \<longrightarrow>
           fst r = None \<longrightarrow> tr_agent (snd r) \<noteq> None)"
proof -
  let ?hc = "side_hello cs" and ?hh = "side_hello hs"
  let ?forced = "forcesTier (opt_TunnelMode (sd_opts cs)) \<or> forcesTier (opt_TunnelMode (sd_opts hs))"
  show ?thesis
  proof (cases "RequiredCascade ?hc ?hh")
    case (Inl e)
    then obtain e' where e': "RequiredCascade ?hh ?hc = Inl e'" using RequiredCascade_error_flip by blast
    note E = unresolved_ends(1) [OF assms(1) Inl] unresolved_ends(2) [OF assms(2) e']
    have "sides_agree (Some HelloError, libp2pFloor) HostStopped" by (simp add: sides_agree_def)
    then show ?thesis using E by fastforce
  next
    case (Inr c)
    note c' = RequiredCascade_flip_Inr [OF Inr]
    show ?thesis
    proof (cases "c ! 0 = TierLibp2p")
      case False
      from ladder_lockstep [OF assms(3,4) effective_attempts_commute effective_attempts_pos RequiredCascade_short [OF Inr]]
      obtain mc mh cr hr where l: "ends0 (climbCascade cs ?hh c) mh cr mc" "ends0 (serveUpperTiers hs ?hc) mc hr mh"
        "ladder_agree cr hr" by blast
      have "?forced \<Longrightarrow> must_rise cs ?hh" by (simp add: must_rise_def TierRequired_sides)
      then have "?forced \<longrightarrow> fst (client_result (must_rise cs ?hh) cr) = None \<longrightarrow> tr_agent (snd (client_result (must_rise cs ?hh) cr)) \<noteq> None"
        using client_result_forced [of cr] by (cases "client_result True cr") auto
      then show ?thesis
        using client_upper_ends [OF assms(1) Inr False l(1)] host_upper_ends [OF assms(2) c' False l(2)]
          client_result_agrees [OF l(3), of "must_rise cs ?hh"]
        by (intro exI [of _ "MHello ?hc # mc"] exI [of _ "MHello ?hh # mh"]
            exI [of _ "client_result (must_rise cs ?hh) cr"] exI [of _ hr]) simp
    next
      case True
      have nf: "\<not> ?forced" using forced_not_floor [OF Inr] True TierRequired_sides by blast
      have pa: "probeAgreed ?hh ?hc = probeAgreed ?hc ?hh" by (auto simp: probeAgreed_def)
      from punch_lockstep [OF assms(5,6), of 1 0 0] obtain nc nh mc mh rc rh where
        "passes (punch cs True zero_key 1) 0 nc mh rc mc" "passes (punch hs False zero_key 1) 0 nh mc rh mh" by auto
      note P = this [THEN probe_passes]
      let ?b = "probeAgreed ?hc ?hh"
      have "ends0 (client_negotiation cs True) (MHello ?hh # (if ?b then mh else [])) (floor_result cs ?hh)
          (MHello ?hc # (if ?b then mc else []))"
        using P(1) by (intro client_floor_ends [OF assms(1) Inr True]) auto
      moreover have "ends0 (negotiateTierHost hs) (MHello ?hc # (if ?b then mc else [])) HostFloor
          (MHello ?hh # (if ?b then mh else []))"
        using P(2) pa by (intro host_floor_ends [OF assms(2) c' True]) auto
      moreover have "sides_agree (floor_result cs ?hh) HostFloor"
        by (intro floor_agrees) (auto simp: floor_result_def libp2pFloor_def)
      ultimately show ?thesis using nf by blast
    qed
  qed
qed

text \<open>C2: the two halves of the ladder never disagree. Whatever tiers, modes, budgets and diagnostics
  the two sides run with, whatever their agents gather and connect and whatever their data planes
  answer, there is one conversation (the client's background probe included) in which each side reads exactly what the other wrote, both return,
  and the client ends on tier \<open>t\<close> above the floor exactly when the host has committed to serving that
  very tier; and if either side forces a tier, the client does not report success on the libp2p floor.\<close>

theorem ladder_agreement:
  assumes "encodable (MHello (side_hello cs))" "encodable (MHello (side_hello hs))"
    and "punch_encodable cs (QUICFingerprint (sd_ids cs))" "punch_encodable hs (QUICFingerprint (sd_ids hs))"
    and "punch_encodable cs zero_key" "punch_encodable hs zero_key"
  shows "\<exists>mc mh err res hr. ends0 (client_negotiation cs True) mh (err, res) mc \<and> ends0 (negotiateTierHost hs) mc hr mh
     \<and> (\<forall>t. (err = None \<and> selected res = t \<and> tr_agent res \<noteq> None) \<longleftrightarrow> hr = HostCommitted t)
     \<and> (forcesTier (opt_TunnelMode (sd_opts cs)) \<or> forcesTier (opt_TunnelMode (sd_opts hs)) \<longrightarrow>
          err = None \<longrightarrow> tr_agent res \<noteq> None)"
proof -
  let ?forced = "forcesTier (opt_TunnelMode (sd_opts cs)) \<or> forcesTier (opt_TunnelMode (sd_opts hs))"
  from ladder_conversation [OF assms] obtain mc mh r hr where r: "ends0 (client_negotiation cs True) mh r mc" "ends0 (negotiateTierHost hs) mc hr mh"
    "sides_agree r hr" "?forced \<longrightarrow> fst r = None \<longrightarrow> tr_agent (snd r) \<noteq> None"
    by (elim exE conjE)
  obtain err res where e: "r = (err, res)" by (cases r)
  show ?thesis
    using r unfolding e sides_agree_def fst_conv snd_conv
    by (intro exI [of _ mc] exI [of _ mh] exI [of _ err] exI [of _ res] exI [of _ hr] conjI)
qed

definition sample_agent :: agent_env where
  "sample_agent = \<lparr>ae_err = False, ae_agent = True, ae_Local = \<lparr>Ufrag = ''u'', Pwd = ''p'', Candidates = [''c'']\<rparr>,
     ae_AddRemote = (\<lambda>_. True), ae_Connect = (\<lambda>_ _. True)\<rparr>"

definition sample_ids :: identities where
  "sample_ids = [(TierWireGuard, WireGuardIdentity [1] (replicate 32 2)), (TierQUIC, QUICIdentity (replicate 32 3))]"

definition sample_set :: tier_Set where
  "sample_set = \<lparr>order = [TierWireGuard, TierQUIC],
     byID = [(TierWireGuard, WireGuardTier (WireGuardIdentity [1] (replicate 32 2)) \<lparr>HandshakeTimeout = 0, Diagnostic = False\<rparr>),
             (TierQUIC, QUICTier (QUICIdentity (replicate 32 3)) \<lparr>HandshakeTimeout = 0, Diagnostic = False\<rparr>)]\<rparr>"

definition sample_side :: "string \<Rightarrow> side" where
  "sample_side mode = \<lparr>sd_set = sample_set, sd_ids = sample_ids,
     sd_opts = \<lparr>opt_TunnelMode = mode, opt_Diagnostic = False, opt_PunchAttempts = 0,
       opt_HandshakeTimeout = 0, opt_STUNServers = None, opt_PunchTimeout = 0, opt_PunchGatherTimeout = 0\<rparr>, sd_network = NetworkTCP,
     sd_agents = (\<lambda>_. sample_agent),
     sd_plane = \<lparr>dp_wg = \<lparr>wg_New = None, wg_NewUDPMux = None, wg_ListenTCP = None, wg_Up = None,
                           wg_WaitHandshake = Some (ErrText ''no handshake''), wg_closing = (\<lambda>_. None)\<rparr>,
                 dp_quic = \<lparr>quic_Dial_result = None, quic_Accept_result = None\<rparr>\<rparr>,
     sd_teardown = (\<lambda>_. None), sd_rung_ends = (\<lambda>_. False)\<rparr>"

text \<open>The Hello of a registry that lists the cascade above the floor always fits the wire.\<close>

lemma hello_encodable:
  assumes "set_IDs s = [TierWireGuard, TierQUIC]" "length (WireGuardPublicKey ids) = 32"
  shows "encodable (MHello (hello s ids opts))"
proof -
  let ?h = "hello s ids opts"
  have "length (SupportedTiers ?h) \<le> length cascade" "\<forall>t \<in> set (SupportedTiers ?h). length t \<le> maxTierNameLen"
    using assms(1) by (auto simp: hello_def supported_def forcedTier_def cascade_def split: option.splits if_splits)
  moreover have "length (RequiredTier ?h) \<le> maxTierNameLen"
    by (auto simp: hello_def forcedTierFor_def forcedTier_def split: option.splits if_splits)
  ultimately have "\<exists>p. marshalHello ?h = Inr p"
    by (simp add: marshalHello_layout hello_layout_def)
  moreover have "wf_hello ?h" using assms(2) by (simp add: wf_hello_def hello_def)
  ultimately show ?thesis using marshal_hello_fits by (auto simp: encodable_def lift_codec_def)
qed

lemma sample_encodable: "encodable (MHello (side_hello (sample_side m)))"
  by (intro hello_encodable) (simp_all add: sample_side_def sample_set_def sample_ids_def set_IDs_def WireGuardPublicKey_def)

lemma sample_punch_encodable:
  "punch_encodable (sample_side m) (QUICFingerprint (sd_ids (sample_side m)))" "punch_encodable (sample_side m) zero_key"
proof -
  have "encodable (MPunchInfo (toPunchInfo (ae_Local sample_agent) (QUICFingerprint sample_ids)))"
    "encodable (MPunchInfo (toPunchInfo (ae_Local sample_agent) zero_key))"
    by (simp_all add: encodable_def lift_codec_def marshalPunchInfo_def toPunchInfo_def sample_agent_def sample_ids_def
        QUICFingerprint_def appendString_def zero_key_def maxCandidates_def maxICEFieldLen_def maxCandidateLen_def
        MaxMessageSize_def)
  moreover have "once_local (sample_side m) n = ae_Local sample_agent" "sd_ids (sample_side m) = sample_ids" for n
    by (simp_all add: once_local_def sample_side_def sample_agent_def)
  ultimately show "punch_encodable (sample_side m) (QUICFingerprint (sd_ids (sample_side m)))"
    "punch_encodable (sample_side m) zero_key"
    by (simp_all add: punch_encodable_def)
qed

theorem ladder_agreement_witness:
  "\<exists>mc mh err res hr. ends0 (client_negotiation (sample_side TunnelQUIC) True) mh (err, res) mc
     \<and> ends0 (negotiateTierHost (sample_side TunnelAuto)) mc hr mh
     \<and> (\<forall>t. (err = None \<and> selected res = t \<and> tr_agent res \<noteq> None) \<longleftrightarrow> hr = HostCommitted t)
     \<and> (err = None \<longrightarrow> tr_agent res \<noteq> None)"
proof -
  have forced: "forcesTier (opt_TunnelMode (sd_opts (sample_side TunnelQUIC)))"
    by (simp add: sample_side_def forcesTier_def forcedTier_def)
  show ?thesis
    using ladder_agreement [where cs = "sample_side TunnelQUIC" and hs = "sample_side TunnelAuto",
        OF sample_encodable sample_encodable sample_punch_encodable(1) sample_punch_encodable(1)
        sample_punch_encodable(2) sample_punch_encodable(2)]
    by (simp only: simp_thms forced)
qed

section \<open>Nothing is left open\<close>

lemma x_send_open [simp]: "open_agents (snd (x_send m w)) = open_agents w" "open_rungs (snd (x_send m w)) = open_rungs w"
  by (simp_all add: x_send_def)

lemma x_recv_open [simp]: "open_agents (snd (x_recv k w)) = open_agents w" "open_rungs (snd (x_recv k w)) = open_rungs w"
  by (simp_all add: x_recv_def split: list.splits)

lemma x_swap_open [simp]: "open_agents (snd (x_swap m w)) = open_agents w" "open_rungs (snd (x_swap m w)) = open_rungs w"
proof -
  obtain b w1 where s: "x_send m w = (b, w1)" by fastforce
  then have "open_agents w1 = open_agents w" "open_rungs w1 = open_rungs w"
    using x_send_open [of m w] by simp_all
  then show "open_agents (snd (x_swap m w)) = open_agents w" "open_rungs (snd (x_swap m w)) = open_rungs w"
    by (cases b; simp add: x_swap_def s)+
qed

lemmas open_of = x_send_open x_recv_open x_swap_open

text \<open>\<open>holds ags rgs\<close>: the agents and the rungs that are open.\<close>

definition holds :: "nat list \<Rightarrow> tier list \<Rightarrow> world \<Rightarrow> bool" where
  "holds ags rgs w \<longleftrightarrow> open_agents w = ags \<and> open_rungs w = rgs"

lemma holds_x:
  "x_send m w = (b, w') \<Longrightarrow> holds ags rgs w' = holds ags rgs w"
  "x_recv k w = (r, w') \<Longrightarrow> holds ags rgs w' = holds ags rgs w"
  "x_swap m w = (r, w') \<Longrightarrow> holds ags rgs w' = holds ags rgs w"
  using x_send_open [of m w] x_recv_open [of k w] x_swap_open [of m w] by (auto simp: holds_def)

definition punched_agents :: "(punch_error + punchResult) \<Rightarrow> nat list" where
  "punched_agents r = (case r of Inl _ \<Rightarrow> [] | Inr p \<Rightarrow> [pr_agent p])"

lemma punchOnce_holds:
  assumes w: "holds [] rgs w" and e: "punchOnce sd c fp w = (r, w')"
  shows "holds (punched_agents r) rgs w'"
proof -
  let ?n = "next_agent w"
  let ?env = "sd_agents sd ?n"
  let ?w2 = "if ae_agent ?env then open_agent ?n (w\<lparr>next_agent := ?n + 1\<rparr>) else w\<lparr>next_agent := ?n + 1\<rparr>"
  let ?local = "if ae_err ?env \<or> \<not> ae_agent ?env then no_credentials else ae_Local ?env"
  obtain m w3 where s: "x_swap (MPunchInfo (toPunchInfo ?local fp)) ?w2 = (m, w3)" by fastforce
  have "holds (if ae_agent ?env then [?n] else []) rgs ?w2" using w by (simp add: holds_def open_agent_def)
  then have "holds (if ae_agent ?env then [?n] else []) rgs w3" using holds_x(3) [OF s] by blast
  then have o: "open_agents w3 = (if ae_agent ?env then [?n] else [])" "open_rungs w3 = rgs" by (simp_all add: holds_def)
  show ?thesis
    using e o unfolding punchOnce_def Let_def s holds_def
    by (auto simp: punched_agents_def close_agent_def split: option.splits message.splits if_splits)
qed

lemma releasePunch_holds: "holds (punched_agents r) rgs w \<Longrightarrow> holds [] rgs (releasePunch r w)"
  by (auto simp: holds_def releasePunch_def punched_agents_def close_agent_def split: sum.splits)

lemma punch_loop_holds:
  "holds [] rgs w \<Longrightarrow> punch_loop sd c fp attempts attempt w = (r, w') \<Longrightarrow> holds (punched_agents r) rgs w'"
proof (induction sd c fp attempts attempt w arbitrary: r w' rule: punch_loop.induct)
  case (1 sd c fp attempts attempt w)
  obtain r1 w1 where p: "punchOnce sd c fp w = (r1, w1)" by fastforce
  note h1 = punchOnce_holds [OF 1(2) p]
  obtain m w2 where s: "x_swap (MPunchOutcome \<lparr>OK = ok r1\<rparr>) w1 = (m, w2)" by fastforce
  have h2: "holds (punched_agents r1) rgs w2" using h1 holds_x(3) [OF s] by simp
  note h3 = releasePunch_holds [OF h2]
  have stop: "holds (punched_agents (Inl e)) rgs (releasePunch r1 w2)" for e using h3 by (simp add: punched_agents_def)
  note E = 1(3) [unfolded punch_loop.simps [of sd c fp attempts attempt w] p prod.case s]
  show ?case
  proof (cases "attempts = 1 \<or> r1 = Inl NegotiateStream")
    case True
    then show ?thesis using E h1 by (auto split: if_splits)
  next
    case False
    show ?thesis
    proof (cases "\<exists>peer. m = Some (MPunchOutcome peer)")
      case True
      then obtain peer where m: "m = Some (MPunchOutcome peer)" by blast
      show ?thesis
      proof (cases "ok r1 \<and> OK peer")
        case True
        then show ?thesis using E False h2 by (simp add: m)
      next
        case nok: False
        then show ?thesis
          using E False stop 1(1) [OF p [symmetric] _ _ s [symmetric] m refl _ refl refl _ h3] by (auto simp: m Let_def split: if_splits)
      qed
    next
      case no: False
      have "(Inl NegotiateStream, releasePunch r1 w2) = (r, w')"
        using E False no by (auto split: option.splits message.splits)
      then show ?thesis using stop by auto
    qed
  qed
qed

lemma punch_holds: "holds [] rgs w \<Longrightarrow> punch sd c fp attempts w = (r, w') \<Longrightarrow> holds (punched_agents r) rgs w'"
  unfolding punch_def by (rule punch_loop_holds)

lemma send_and_ack_holds: "send_and_ack a w = (b, w') \<Longrightarrow> holds ags rgs w' = holds ags rgs w"
  by (auto simp: send_and_ack_def holds_x split: prod.splits bool.splits option.splits message.splits)

definition rung_open :: "rungs_result \<Rightarrow> tier list" where
  "rung_open r = (case r of RungUp i _ \<Rightarrow> [i] | _ \<Rightarrow> [])"

lemma holds_open_rung:
  "holds ags [] w \<Longrightarrow> holds ags [i] (w\<lparr>open_rungs := i # open_rungs w\<rparr>)"
  "holds ags [i] w \<Longrightarrow> holds ags [] (w\<lparr>open_rungs := removeAll i (open_rungs w)\<rparr>)"
  by (simp_all add: holds_def)

lemma climb_rungs_holds:
  "holds ags [] w \<Longrightarrow> climb_rungs sd s c le w = (r, w') \<Longrightarrow>
   holds ags (rung_open r) w' \<and> (\<forall>i x. r = RungUp i x \<longrightarrow> i \<noteq> TierLibp2p \<and> Opener x \<noteq> None)"
proof (induction c arbitrary: le w)
  case Nil
  then show ?case by (auto simp: rung_open_def)
next
  case (Cons i c)
  show ?case
  proof (cases "i = TierLibp2p")
    case True
    with Cons.prems show ?thesis by (auto simp: rung_open_def)
  next
    case False
    obtain b w1 where q: "requestRung i w = (b, w1)" by fastforce
    then have h1: "holds ags [] w1" using Cons.prems(1) send_and_ack_holds by (simp add: requestRung_def)
    obtain x oc err rel where D: "set_Dial (sd_set sd) (sd_plane sd) i s = (x, oc, err, rel)" by (metis prod.exhaust)
    have ok: "err = None \<Longrightarrow> Opener x \<noteq> None"
      using set_Dial_ok [of "sd_set sd" "sd_plane sd" i s] D by (simp add: build_ok_def)
    obtain b2 w2 where k: "commitRung i (w1\<lparr>open_rungs := i # open_rungs w1\<rparr>) = (b2, w2)" by fastforce
    then have h2: "holds ags [i] w2"
      using send_and_ack_holds [OF k [unfolded commitRung_def]] holds_open_rung(1) [OF h1] by blast
    show ?thesis
    proof (cases "b \<and> err \<noteq> None \<and> oc \<noteq> OutcomeSubstrateAbandoned")
      case True
      then obtain e where "err = Some e" by auto
      then have "climb_rungs sd s c (Some e) w1 = (r, w')" using Cons.prems(2) False q D True by simp
      then show ?thesis using Cons.IH h1 by blast
    next
      case f: False
      then show ?thesis
        using Cons.prems(2) False q D k h1 h2 ok holds_open_rung(2) [OF h2]
        by (cases b; cases err; cases b2) (auto simp: rung_open_def)
    qed
  qed
qed

lemma holds_close: "holds [a] rgs w \<Longrightarrow> holds [] rgs (close_agent a w)"
  by (simp add: holds_def close_agent_def)

lemma climbCascade_holds:
  assumes w: "holds [] [] w" and e: "climbCascade sd ph c w = (r, w')"
  shows "case r of Inl _ \<Rightarrow> holds [] [] w'
     | Inr (i, x, a) \<Rightarrow> holds [a] [i] w' \<and> i \<noteq> TierLibp2p \<and> Opener x \<noteq> None"
proof -
  obtain p w1 where p: "punch sd True (QUICFingerprint (sd_ids sd))
      (EffectivePunchAttempts (punchAttemptsFor (sd_opts sd)) (PunchAttempts ph)) w = (p, w1)" by fastforce
  note h1 = punch_holds [OF w p]
  show ?thesis
  proof (cases p)
    case (Inl err)
    then show ?thesis using e p h1 by (auto simp: climbCascade_def punched_agents_def)
  next
    case (Inr pr)
    obtain cr w2 where c: "climb_rungs sd (tierSession (sd_network sd) ph pr) c None w1 = (cr, w2)" by fastforce
    have "holds [pr_agent pr] [] w1" using h1 Inr by (simp add: punched_agents_def)
    note h2 = climb_rungs_holds [OF this c]
    have "holds [pr_agent pr] [] w2 \<Longrightarrow> holds [pr_agent pr] [] (snd (x_send m w2))" for m
      using holds_x(1) [of m w2] by (metis prod.collapse)
    then show ?thesis
      using e p Inr c h2
      by (cases cr) (auto simp: climbCascade_def Let_def rung_open_def holds_close split: if_splits)
  qed
qed

lemma exchangeHello_holds: "exchangeHello l w = (r, w') \<Longrightarrow> holds ags rgs w' = holds ags rgs w"
  by (auto simp: exchangeHello_def holds_x split: prod.splits option.splits message.splits sum.splits)

lemma runPunchProbe_holds:
  assumes "holds [] rgs w" shows "holds [] rgs (runPunchProbe sd c w)"
proof -
  obtain p w1 where p: "punch sd c zero_key 1 w = (p, w1)" by fastforce
  then show ?thesis using punch_holds [OF assms p]
    by (cases p) (auto simp: runPunchProbe_def punched_agents_def holds_close)
qed

text \<open>C19: what a negotiation leaves behind on the client. Started with nothing open, whatever arrives on
  the stream: if the client returns above the floor it holds exactly one punch agent and one rung, those its
  result owns, with an opener, no error and no probe in the background; in every other case, the floor and
  every error, it holds neither an agent nor a rung when it returns. Only a return on the floor without an
  error may leave a probe behind; that probe then holds at most one agent when its punch is over, and when
  it ends nothing is open.\<close>

theorem negotiateTierClient_owns:
  assumes "open_agents w = []" "open_rungs w = []" "negotiateTierClient sd opened w = ((err, res), w')"
  shows "case tr_agent res of
       Some a \<Rightarrow> err = None \<and> selected res \<noteq> TierLibp2p \<and> opener res \<noteq> None \<and> \<not> tr_probe res
         \<and> open_agents w' = [a] \<and> open_rungs w' = [selected res]
     | None \<Rightarrow> selected res = TierLibp2p \<and> opener res = None \<and> open_agents w' = [] \<and> open_rungs w' = []
         \<and> (tr_probe res \<longrightarrow> err = None
              \<and> (\<exists>p w2. punch sd True zero_key 1 w' = (p, w2) \<and> open_agents w2 = punched_agents p \<and> open_rungs w2 = []))
         \<and> open_agents (await_probe sd res w') = [] \<and> open_rungs (await_probe sd res w') = []"
proof (cases opened)
  case False
  then show ?thesis using assms by (auto simp: client_simps)
next
  case True
  have w: "holds [] [] w" using assms(1,2) by (simp add: holds_def)
  let ?l = "hello (sd_set sd) (sd_ids sd) (sd_opts sd)"
  obtain xr w1 where x: "exchangeHello ?l w = (xr, w1)" by fastforce
  then have h1: "holds [] [] w1" using exchangeHello_holds w by blast
  have "\<exists>p w2. punch sd True zero_key 1 w1 = (p, w2) \<and> open_agents w2 = punched_agents p \<and> open_rungs w2 = []"
    using punch_holds [OF h1] by (metis holds_def surj_pair)
  note floor = h1 [unfolded holds_def] runPunchProbe_holds [OF h1, of sd True, unfolded holds_def] this
  show ?thesis
  proof (cases xr)
    case None
    then show ?thesis using assms(3) True x floor by (auto simp: client_simps)
  next
    case (Some sp)
    obtain sel p where sp: "sp = (sel, p)" by (cases sp)
    show ?thesis
    proof (cases "\<exists>c. RequiredCascade ?l p = Inr c \<and> c ! 0 \<noteq> TierLibp2p")
      case False
      then show ?thesis
        using assms(3) True x Some sp floor
        by (auto simp: client_simps Let_def split: sum.splits if_splits)
    next
      case t: True
      then obtain c where c: "RequiredCascade ?l p = Inr c" "c ! 0 \<noteq> TierLibp2p" by blast
      obtain cr w2 where cc: "climbCascade sd p c w1 = (cr, w2)" by fastforce
      show ?thesis
        using climbCascade_holds [OF h1 cc] assms(3) True x Some sp c cc
        by (cases cr)
           (auto simp: client_simps Let_def holds_def split: client_error.splits if_splits)
    qed
  qed
qed

definition sample_world :: world where
  "sample_world = \<lparr>inb =
      [MHello (side_hello (sample_side TunnelAuto)), MPunchInfo (toPunchInfo (ae_Local sample_agent) (replicate 32 3)),
       MPunchOutcome \<lparr>OK = True\<rparr>, request_msg TierWireGuard, request_msg TierQUIC, commit_msg TierQUIC],
     outb = [], broken = False, next_agent = 0, open_agents = [], open_rungs = []\<rparr>"

lemma sample_RequiredCascade:
  "RequiredCascade (side_hello (sample_side TunnelAuto)) (side_hello (sample_side TunnelAuto)) = Inr cascade"
  by (simp add: RequiredCascade_def SharedCascade_def hello_def sample_side_def sample_set_def supported_def forcedTier_def
      forcedTierFor_def TunnelAuto_def TunnelWireGuard_def TunnelQUIC_def TunnelLibp2p_def set_IDs_def cascade_def toSet_def)

lemma sample_attempts:
  "EffectivePunchAttempts (punchAttemptsFor (sd_opts (sample_side m))) (PunchAttempts (side_hello (sample_side m))) = 2"
  by (simp add: EffectivePunchAttempts_def punchAttemptsFor_def sample_side_def hello_def DefaultPunchAttempts_def)

lemma sample_Dial:
  "set_Dial (sd_set (sample_side m)) (sd_plane (sample_side m)) TierWireGuard (tierSession (sd_network (sample_side m)) h p) =
     (no_rung, OutcomeHandshakeFailed, Some (ErrText ''no handshake''), [Device])"
  "set_Dial (sd_set (sample_side m)) (sd_plane (sample_side m)) TierQUIC (tierSession (sd_network (sample_side m)) h p) =
     (\<lparr>Opener = Some ViaQUIC, Acceptor = None, Close = [QUICConn]\<rparr>, OutcomeConnected, None, [])"
  by (simp_all add: sample_side_def sample_set_def set_Dial_def set_Lookup_def wg_Dial_def quic_Dial_def failed_def Let_def
      tierSession_def network_Datagram_def NetworkTCP_def NetworkUDP_def rung_close_def CloseAll_def errors_Join_def)

text \<open>On this stream WireGuard does not come up and QUIC does.\<close>

lemma sample_run:
  "\<exists>w'. negotiateTierClient (sample_side TunnelAuto) True sample_world =
     ((None, \<lparr>selected = TierQUIC, opener = Some ViaQUIC, tr_agent = Some 0, tr_probe = False\<rparr>), w')"
proof -
  let ?sd = "sample_side TunnelAuto"
  let ?info = "toPunchInfo (ae_Local sample_agent) (replicate 32 3)"
  let ?w1 = "sample_world\<lparr>outb := [MHello (side_hello ?sd)], inb := tl (inb sample_world)\<rparr>"
  have x: "exchangeHello (side_hello ?sd) sample_world = (Some (TierWireGuard, side_hello ?sd), ?w1)"
    using exchangeHello_swapped [OF sample_encodable, of sample_world "side_hello ?sd" "tl (inb sample_world)"]
    by (simp add: sample_world_def sample_RequiredCascade cascade_def)
  have "ok (once_result ?sd True 0 ?info)" "once_result ?sd True 0 ?info = Inr \<lparr>pr_agent = 0, pr_fingerprint = replicate 32 3\<rparr>"
    by (simp_all add: once_result_def ok_def sample_side_def sample_agent_def fromPunchInfo_def toPunchInfo_def Valid_def
        peerFingerprint_def)
  then obtain w2 where p: "punch ?sd True (QUICFingerprint (sd_ids ?sd)) 2 ?w1 = (Inr \<lparr>pr_agent = 0, pr_fingerprint = replicate 32 3\<rparr>, w2)"
      "inb w2 = [request_msg TierWireGuard, request_msg TierQUIC, commit_msg TierQUIC]" "\<not> broken w2"
    using punch_round [OF sample_punch_encodable(1) _ refl, of 2 ?w1 0 ?info True _ TunnelAuto True 1]
    by (auto simp: punch_def sample_world_def)
  let ?s = "tierSession (sd_network ?sd) (side_hello ?sd) \<lparr>pr_agent = 0, pr_fingerprint = replicate 32 3\<rparr>"
  have "\<exists>w3. climb_rungs ?sd ?s cascade None w2 = (RungUp TierQUIC \<lparr>Opener = Some ViaQUIC, Acceptor = None, Close = [QUICConn]\<rparr>, w3)"
    using p(2,3) sample_Dial
    by (simp add: cascade_def requestRung_def commitRung_def send_and_ack_ok encodable_attempt)
  then obtain w3 where "climb_rungs ?sd (tierSession (sd_network ?sd) (side_hello ?sd) \<lparr>pr_agent = 0, pr_fingerprint = replicate 32 3\<rparr>)
      cascade None w2 = (RungUp TierQUIC \<lparr>Opener = Some ViaQUIC, Acceptor = None, Close = [QUICConn]\<rparr>, w3)" by blast
  then have "climbCascade ?sd (side_hello ?sd) cascade ?w1 =
      (Inr (TierQUIC, \<lparr>Opener = Some ViaQUIC, Acceptor = None, Close = [QUICConn]\<rparr>, 0), w3)"
    using p(1) by (simp add: climbCascade_def sample_attempts Let_def)
  then show ?thesis
    using x by (simp add: negotiateTierClient_def sample_RequiredCascade Let_def cascade_def)
qed

theorem negotiateTierClient_owns_witness:
  "\<exists>res w'. negotiateTierClient (sample_side TunnelAuto) True sample_world = ((None, res), w')
     \<and> open_agents w' = [0] \<and> open_rungs w' = [TierQUIC]"
proof -
  from sample_run obtain w' where
    r: "negotiateTierClient (sample_side TunnelAuto) True sample_world =
     ((None, \<lparr>selected = TierQUIC, opener = Some ViaQUIC, tr_agent = Some 0, tr_probe = False\<rparr>), w')" by blast
  have "open_agents sample_world = []" "open_rungs sample_world = []" by (simp_all add: sample_world_def)
  from negotiateTierClient_owns [OF this r] r show ?thesis by simp
qed

lemma serveRung_holds:
  assumes "holds ags [] w" "serveRung sd i x w = (r, w')"
  shows "holds ags (if r = Committed then [i] else []) w'"
proof -
  let ?w = "w\<lparr>open_rungs := i # open_rungs w\<rparr>"
  note h = holds_open_rung(1) [OF assms(1), of i]
  obtain m w1 where rc: "x_recv KAttempt ?w = (m, w1)" by fastforce
  have h1: "holds ags [i] w1" using h holds_x(2) [OF rc] by blast
  obtain b w2 where sn: "x_send (commit_msg i) w1 = (b, w2)" by fastforce
  have h2: "holds ags [i] w2" using h1 holds_x(1) [OF sn] by blast
  note hs = holds_open_rung(2) [OF h] holds_open_rung(2) [OF h1] holds_open_rung(2) [OF h2]
  show ?thesis
    using assms(2) hs h2 sn rc unfolding serveRung_def Let_def
    by (auto split: if_splits option.splits message.splits bool.splits)
qed

lemma serve_rungs_holds:
  "holds ags [] w \<Longrightarrow> serve_rungs sd s pend w = (r, w') \<Longrightarrow>
   holds ags (case r of HostCommitted i \<Rightarrow> [i] | _ \<Rightarrow> []) w'"
proof (induction sd s pend w rule: serve_rungs.induct)
  case (1 sd s pend w)
  note E = 1(4) [unfolded serve_rungs.simps [of sd s pend w]]
  show ?case
  proof (cases "ATier pend = TierLibp2p \<or> Commit pend")
    case True
    then show ?thesis using E 1(3) by (auto split: if_splits)
  next
    case False
    then have F: "ATier pend \<noteq> TierLibp2p" "\<not> Commit pend" by auto
    obtain b w1 where a: "x_send (request_msg (ATier pend)) w = (b, w1)" by fastforce
    have h1: "holds ags [] w1" using 1(3) holds_x(1) [OF a] by blast
    obtain x oc err rel where S: "set_Serve (sd_set sd) (sd_plane sd) (ATier pend) s = (x, oc, err, rel)"
      by (metis prod.exhaust)
    obtain m w2 where rc: "x_recv KAttempt w1 = (m, w2)" by fastforce
    have h2: "holds ags [] w2" using h1 holds_x(2) [OF rc] by blast
    obtain v w3 where sr: "serveRung sd (ATier pend) x w1 = (v, w3)" by fastforce
    note h3 = serveRung_holds [OF h1 sr]
    show ?thesis
    proof (cases b)
      case False
      then show ?thesis using E F a h1 by auto
    next
      case b: True
      show ?thesis
      proof (cases err)
        case None
        show ?thesis
        proof (cases v)
          case (Next at)
          then show ?thesis using E F a b S None sr h3 1(1) [OF F a [symmetric] _ S [symmetric] refl refl None sr [symmetric] Next] by auto
        qed (use E F a b S None sr h3 in auto)
      next
        case (Some e)
        show ?thesis
        proof (cases "\<exists>at. m = Some (MAttempt at) \<and> oc \<noteq> OutcomeSubstrateAbandoned")
          case True
          then obtain at where at: "m = Some (MAttempt at)" "oc \<noteq> OutcomeSubstrateAbandoned" by blast
          then show ?thesis
            using E F a b S Some rc 1(2) [OF F a [symmetric] _ S [symmetric] refl refl Some at(2) rc [symmetric] at(1) refl] h2 by auto
        next
          case f: False
          have "(HostStopped, if oc = OutcomeSubstrateAbandoned then w1 else w2) = (r, w')"
            using E F a b S Some rc f by (auto split: if_splits option.splits message.splits)
          then show ?thesis using h1 h2 by auto
        qed
      qed
    qed
  qed
qed

lemma serveUpperTiers_holds:
  assumes w: "holds [] [] w" and e: "serveUpperTiers sd ph w = (r, w')"
  shows "case r of HostCommitted i \<Rightarrow> \<exists>a. holds [a] [i] w' | _ \<Rightarrow> holds [] [] w'"
proof -
  obtain p w1 where p: "punch sd False (QUICFingerprint (sd_ids sd))
      (EffectivePunchAttempts (punchAttemptsFor (sd_opts sd)) (PunchAttempts ph)) w = (p, w1)" by fastforce
  note h1 = punch_holds [OF w p]
  show ?thesis
  proof (cases p)
    case (Inl err)
    then show ?thesis using e p h1 by (auto simp: serveUpperTiers_def punched_agents_def)
  next
    case (Inr pr)
    obtain m w2 where q: "receiveRungRequest w1 = (m, w2)" by fastforce
    have "holds [pr_agent pr] [] w1" using h1 Inr by (simp add: punched_agents_def)
    then have h2: "holds [pr_agent pr] [] w2"
      using q by (auto simp: receiveRungRequest_def holds_x split: prod.splits option.splits message.splits)
    show ?thesis
    proof (cases m)
      case None
      then show ?thesis using e p Inr q holds_close [OF h2] by (auto simp: serveUpperTiers_def)
    next
      case (Some a)
      obtain hr w3 where s: "serve_rungs sd (tierSession (sd_network sd) ph pr) a w2 = (hr, w3)" by fastforce
      show ?thesis
        using e p Inr q Some s serve_rungs_holds [OF h2 s]
        by (cases hr) (auto simp: serveUpperTiers_def holds_close)
    qed
  qed
qed

text \<open>What a negotiation leaves behind on the host. Started with nothing open, whatever the peer
  sends: while a committed rung is served the host holds exactly that rung and the punch agent under it;
  on every other way out it holds neither an agent nor a rung.\<close>

theorem negotiateTierHost_owns:
  assumes "open_agents w = []" "open_rungs w = []" "negotiateTierHost sd w = (r, w')"
  shows "(\<exists>i a. r = HostCommitted i \<and> open_agents w' = [a] \<and> open_rungs w' = [i])
     \<or> open_agents w' = [] \<and> open_rungs w' = []"
proof -
  have w: "holds [] [] w" using assms(1,2) by (simp add: holds_def)
  obtain xr w1 where x: "exchangeHello (side_hello sd) w = (xr, w1)" by fastforce
  then have h1: "holds [] [] w1" using exchangeHello_holds w by blast
  note floor = h1 [unfolded holds_def] runPunchProbe_holds [OF h1, of sd False, unfolded holds_def]
  show ?thesis
  proof (cases "\<exists>sel p. xr = Some (sel, p) \<and> sel \<noteq> TierLibp2p")
    case False
    then show ?thesis
      using assms(3) x floor by (auto simp: negotiateTierHost_def Let_def split: option.splits if_splits)
  next
    case True
    then obtain sel p where "xr = Some (sel, p)" "sel \<noteq> TierLibp2p" by blast
    then have "serveUpperTiers sd p w1 = (r, w')" using assms(3) x by (simp add: negotiateTierHost_def Let_def)
    from serveUpperTiers_holds [OF h1 this] show ?thesis by (cases r) (auto simp: holds_def)
  qed
qed

theorem negotiateTierHost_owns_witness:
  "\<exists>r w'. negotiateTierHost (sample_side TunnelAuto) sample_world = (r, w')
     \<and> ((\<exists>i a. r = HostCommitted i \<and> open_agents w' = [a] \<and> open_rungs w' = [i])
        \<or> open_agents w' = [] \<and> open_rungs w' = [])"
proof -
  obtain r w' where r: "negotiateTierHost (sample_side TunnelAuto) sample_world = (r, w')" by fastforce
  have "open_agents sample_world = []" "open_rungs sample_world = []" by (simp_all add: sample_world_def)
  from negotiateTierHost_owns [OF this r] r show ?thesis by blast
qed

text \<open>Retries keep the two sides in step. With an agreed budget of more than one punch attempt and
  credentials that fit the wire, the two halves of the punch, whatever their agents do in each attempt,
  exchange one sequence of messages, of which neither leaves anything unread, and both succeed or both
  fail.\<close>

theorem punch_agreement:
  assumes "punch_encodable cs fpc" "punch_encodable hs fph" "1 < attempts"
  shows "\<exists>nc' nh' mc mh rc rh. passes (punch cs True fpc attempts) nc nc' mh rc mc
     \<and> passes (punch hs False fph attempts) nh nh' mc rh mh \<and> (ok rc \<longleftrightarrow> ok rh)"
proof -
  have "attempts \<noteq> 0" "attempts \<noteq> 1" using assms(3) by auto
  then show ?thesis using punch_lockstep [OF assms(1,2), of attempts nc nh] by blast
qed

theorem punch_agreement_witness:
  "\<exists>nc' nh' mc mh rc rh. passes (punch (sample_side TunnelAuto) True zero_key 3) 0 nc' mh rc mc
     \<and> passes (punch (sample_side TunnelQUIC) False zero_key 3) 0 nh' mc rh mh \<and> (ok rc \<longleftrightarrow> ok rh)"
  by (rule punch_agreement [OF sample_punch_encodable(2) sample_punch_encodable(2)]) simp

end
