(* ===== verification/Control.thy ===== *)
theory Control
  imports Negotiate
begin

text \<open>
  The control channel of \<^verbatim>\<open>internal/control/control.go\<close>: the events the program writes and the loop
  that serves LIST, DISCONNECT and SHUTDOWN requests. The loop's \<^verbatim>\<open>select\<close> takes one ready event at a
  time, so a run is the list of the events it took; the goroutine that reads them is in \<open>Control_Io\<close>; log lines are not modelled. The
  \<^verbatim>\<open>Sessions\<close> interface the loop drives is the locale \<open>sessions_api\<close>.
\<close>

type_synonym peer_id = string
type_synonym action = string

definition TOKEN :: action where "TOKEN = ''TOKEN''"
definition DISCONNECT :: action where "DISCONNECT = ''DISCONNECT''"
definition CONNECTED :: action where "CONNECTED = ''CONNECTED''"
definition LIST :: action where "LIST = ''LIST''"
definition ERROR :: action where "ERROR = ''ERROR''"
definition SHUTDOWN :: action where "SHUTDOWN = ''SHUTDOWN''"

lemmas action_defs = TOKEN_def DISCONNECT_def CONNECTED_def LIST_def ERROR_def SHUTDOWN_def

record control_input =
  in_Action :: action
  in_SessionId :: peer_id

record control_output =
  out_Action :: action
  out_SessionId :: peer_id
  out_Sessions :: "peer_id list"
  out_Token :: string
  out_Addr :: string
  out_Port :: int
  out_Error :: string
  out_Tier :: tier

definition event :: "action \<Rightarrow> peer_id \<Rightarrow> control_output" where
  "event a i = \<lparr>out_Action = a, out_SessionId = i, out_Sessions = [], out_Token = [], out_Addr = [],
     out_Port = 0, out_Error = [], out_Tier = []\<rparr>"

text \<open>What the loop's \<^verbatim>\<open>select\<close> can take. A decode error is the end of the input or a malformed value.\<close>

datatype control_event = CtxDone | DecodeError bool | Got control_input

datatype control_exit = Waiting | ExitCtx | ExitInput | ExitShutdown

text \<open>\<open>sessions\<close> is None in client mode. \<open>emit\<close> is \<^verbatim>\<open>Emitter.Emit\<close> on the program state, \<open>requestShutdown\<close>
  the callback; both act on the state \<open>'s\<close> the sessions live in.\<close>

record 's sessions_ops =
  List :: "'s \<Rightarrow> peer_id list"
  Remove :: "peer_id \<Rightarrow> 's \<Rightarrow> 's"

fun control_Handle :: "(control_output \<Rightarrow> 's \<Rightarrow> 's) \<Rightarrow> 's sessions_ops option \<Rightarrow> ('s \<Rightarrow> 's)
    \<Rightarrow> control_event list \<Rightarrow> 's \<Rightarrow> control_exit \<times> 's" where
  "control_Handle emit sessions requestShutdown [] s = (Waiting, s)"
| "control_Handle emit sessions requestShutdown (CtxDone # es) s = (ExitCtx, s)"
| "control_Handle emit sessions requestShutdown (DecodeError eof # es) s = (ExitInput, s)"
| "control_Handle emit sessions requestShutdown (Got input # es) s =
     (if in_Action input = LIST then
        (case sessions of
           None \<Rightarrow> control_Handle emit sessions requestShutdown es s
         | Some ops \<Rightarrow> control_Handle emit sessions requestShutdown es
                         (emit ((event LIST [])\<lparr>out_Sessions := List ops s\<rparr>) s))
      else if in_Action input = DISCONNECT then
        (case sessions of
           None \<Rightarrow> control_Handle emit sessions requestShutdown es s
         | Some ops \<Rightarrow> control_Handle emit sessions requestShutdown es (Remove ops (in_SessionId input) s))
      else if in_Action input = SHUTDOWN then (ExitShutdown, requestShutdown s)
      else control_Handle emit sessions requestShutdown es s)"

section \<open>The interface the loop drives\<close>

locale sessions_api =
  fixes emit :: "control_output \<Rightarrow> 's \<Rightarrow> 's"
    and ops :: "'s sessions_ops"
    and requestShutdown :: "'s \<Rightarrow> 's"
    and written :: "'s \<Rightarrow> control_output list"
    and inv :: "'s \<Rightarrow> bool"
    and stopped :: "'s \<Rightarrow> nat"
  assumes emit_written: "written (emit out s) = written s @ [out]"
    and emit_keeps: "List ops (emit out s) = List ops s" "inv s \<Longrightarrow> inv (emit out s)" "stopped (emit out s) = stopped s"
    and Remove_List: "inv s \<Longrightarrow> set (List ops (Remove ops i s)) = set (List ops s) - {i}"
    and Remove_written: "inv s \<Longrightarrow> written (Remove ops i s) =
      (if i \<in> set (List ops s) then written s @ [event DISCONNECT i] else written s)"
    and Remove_keeps: "inv s \<Longrightarrow> inv (Remove ops i s)" "stopped (Remove ops i s) = stopped s"
    and shutdown_once: "stopped (requestShutdown s) = Suc (stopped s)"
begin

abbreviation Handle :: "control_event list \<Rightarrow> 's \<Rightarrow> control_exit \<times> 's" where
  "Handle \<equiv> control_Handle emit (Some ops) requestShutdown"

text \<open>A LIST right after a DISCONNECT does not report the peer, and the DISCONNECT event is written once.\<close>

lemma disconnect_then_list:
  assumes "inv s"
  shows "\<exists>ids. Handle [Got \<lparr>in_Action = DISCONNECT, in_SessionId = i\<rparr>, Got \<lparr>in_Action = LIST, in_SessionId = j\<rparr>] s =
      (Waiting, emit ((event LIST [])\<lparr>out_Sessions := ids\<rparr>) (Remove ops i s))
    \<and> set ids = set (List ops s) - {i}"
  using Remove_List [OF assms, of i]
  by (intro exI [of _ "List ops (Remove ops i s)"]) (simp add: action_defs)

text \<open>Repeating a DISCONNECT changes nothing more on the wire.\<close>

lemma disconnect_twice:
  assumes "inv s"
  shows "written (snd (Handle [Got \<lparr>in_Action = DISCONNECT, in_SessionId = i\<rparr>, Got \<lparr>in_Action = DISCONNECT, in_SessionId = i\<rparr>] s))
    = written (snd (Handle [Got \<lparr>in_Action = DISCONNECT, in_SessionId = i\<rparr>] s))"
proof -
  note r = Remove_keeps(1) [OF assms, of i]
  have "i \<notin> set (List ops (Remove ops i s))" using Remove_List [OF assms, of i] by simp
  then show ?thesis using Remove_written [OF r, of i] by (simp add: action_defs)
qed

text \<open>A shutdown request is honoured at most once, and exactly when the loop leaves with it.\<close>

lemma shutdown_count:
  "stopped (snd (Handle es s)) = stopped s + (if fst (Handle es s) = ExitShutdown then 1 else 0)"
proof (induction es arbitrary: s)
  case Nil
  then show ?case by simp
next
  case (Cons e es)
  then show ?case by (cases e) (auto simp: emit_keeps Remove_keeps shutdown_once)
qed

text \<open>The loop leaves for a reason, and no event after it is taken.\<close>

lemma leaves_at_first_stop:
  assumes "fst (Handle es s) \<noteq> Waiting"
  shows "Handle (es @ later) s = Handle es s"
  using assms
proof (induction es arbitrary: s)
  case (Cons e es)
  then show ?case by (cases e) (auto split: if_splits)
qed simp

end

end
