(* ===== verification/Session.thy ===== *)
theory Session
  imports Control Gomap "HOL-Library.Multiset" "HOL-Library.List_Lexorder" "HOL-Library.Char_ord"
begin

text \<open>
  The host's session bookkeeping, \<^verbatim>\<open>internal/tunnel/session.go\<close>, and the handler group of
  \<^verbatim>\<open>internal/tunnel/handlers.go\<close>. Every method is one locked section; the tier \<^verbatim>\<open>stop\<close> functions it calls
  after releasing the lock cancel a context, which \<open>pt_stops\<close> counts, and touch nothing of the manager,
  so a method is one step. Registered tiers are objects (\<^verbatim>\<open>UnregisterTier\<close> compares pointers), kept in
  a heap. \<open>sm_events\<close> is what the emitter wrote, \<open>sm_severed\<close> the peers whose libp2p streams were reset
  and connections closed. The WaitGroup is its counter, which must never go below zero.
\<close>

record peerTier =
  pt_tier :: tier
  pt_stops :: nat

record Session =
  ss_addr :: string
  ss_CreatedAt :: gtime
  ss_Tier :: tier
  ss_streams :: int

record SessionManager =
  sm_sessions :: "(peer_id, Session) gomap"
  sm_tiers :: "(peer_id, nat) gomap"
  sm_entries :: "peerTier list"
  sm_handlers :: int
  sm_closing :: bool
  sm_events :: "control_output list"
  sm_severed :: "peer_id list"

definition NewSessionManager :: SessionManager where
  "NewSessionManager = \<lparr>sm_sessions = [], sm_tiers = [], sm_entries = [], sm_handlers = 0, sm_closing = False,
     sm_events = [], sm_severed = []\<rparr>"

definition session_Age :: "gtime \<Rightarrow> Session \<Rightarrow> duration" where
  "session_Age now s = now - ss_CreatedAt s"

definition stop_tier :: "nat \<Rightarrow> SessionManager \<Rightarrow> SessionManager" where
  "stop_tier a sm = sm\<lparr>sm_entries := (sm_entries sm)[a := (sm_entries sm ! a)\<lparr>pt_stops := pt_stops (sm_entries sm ! a) + 1\<rparr>]\<rparr>"

definition Emit :: "control_output \<Rightarrow> SessionManager \<Rightarrow> SessionManager" where
  "Emit out sm = sm\<lparr>sm_events := sm_events sm @ [out]\<rparr>"

definition RegisterTier :: "peer_id \<Rightarrow> tier \<Rightarrow> SessionManager \<Rightarrow> nat option \<times> SessionManager" where
  "RegisterTier i t sm =
     (let a = length (sm_entries sm);
          sm1 = sm\<lparr>sm_entries := sm_entries sm @ [\<lparr>pt_tier = t, pt_stops = 0\<rparr>]\<rparr>
      in if sm_closing sm then (None, stop_tier a sm1)
         else let displaced = map_of (sm_tiers sm) i;
                  sm2 = sm1\<lparr>sm_tiers := AList.update i a (sm_tiers sm1)\<rparr>
              in (Some a, case displaced of None \<Rightarrow> sm2 | Some d \<Rightarrow> stop_tier d sm2))"

definition UnregisterTier :: "peer_id \<Rightarrow> nat option \<Rightarrow> SessionManager \<Rightarrow> SessionManager" where
  "UnregisterTier i entry sm =
     (case entry of
        None \<Rightarrow> sm
      | Some a \<Rightarrow> if map_of (sm_tiers sm) i = Some a then sm\<lparr>sm_tiers := AList.delete i (sm_tiers sm)\<rparr> else sm)"

definition BeginStream :: "gtime \<Rightarrow> peer_id \<Rightarrow> string \<Rightarrow> SessionManager \<Rightarrow> bool \<times> SessionManager" where
  "BeginStream now i addr sm =
     (if sm_closing sm then (False, sm)
      else let sm1 = sm\<lparr>sm_handlers := sm_handlers sm + 1\<rparr> in
        case map_of (sm_sessions sm1) i of
          Some s \<Rightarrow> (True, sm1\<lparr>sm_sessions := AList.update i (s\<lparr>ss_streams := ss_streams s + 1\<rparr>) (sm_sessions sm1)\<rparr>)
        | None \<Rightarrow>
            let t = (case map_of (sm_tiers sm1) i of Some a \<Rightarrow> pt_tier (sm_entries sm1 ! a) | None \<Rightarrow> TierLibp2p);
                s = \<lparr>ss_addr = addr, ss_CreatedAt = now, ss_Tier = t, ss_streams = 1\<rparr>
            in (True, Emit ((event CONNECTED i)\<lparr>out_Addr := addr, out_Tier := t\<rparr>)
                        (sm1\<lparr>sm_sessions := AList.update i s (sm_sessions sm1)\<rparr>)))"

definition EndStream :: "peer_id \<Rightarrow> SessionManager \<Rightarrow> SessionManager" where
  "EndStream i sm =
     (let sm1 = (case map_of (sm_sessions sm) i of
                   None \<Rightarrow> sm
                 | Some s \<Rightarrow>
                     let s' = s\<lparr>ss_streams := ss_streams s - 1\<rparr> in
                     if ss_streams s' \<le> 0
                     then Emit (event DISCONNECT i) (sm\<lparr>sm_sessions := AList.delete i (sm_sessions sm)\<rparr>)
                     else sm\<lparr>sm_sessions := AList.update i s' (sm_sessions sm)\<rparr>)
      in sm1\<lparr>sm_handlers := sm_handlers sm1 - 1\<rparr>)"

definition sm_Remove :: "peer_id \<Rightarrow> SessionManager \<Rightarrow> SessionManager" where
  "sm_Remove i sm =
     (case map_of (sm_sessions sm) i of
        None \<Rightarrow> sm
      | Some _ \<Rightarrow>
          let entry = map_of (sm_tiers sm) i;
              sm1 = sm\<lparr>sm_tiers := AList.delete i (sm_tiers sm)\<rparr>;
              sm2 = sm1\<lparr>sm_severed := sm_severed sm1 @ [i]\<rparr>;
              sm3 = Emit (event DISCONNECT i) (sm2\<lparr>sm_sessions := AList.delete i (sm_sessions sm2)\<rparr>)
          in (case entry of None \<Rightarrow> sm3 | Some a \<Rightarrow> stop_tier a sm3))"

definition sm_List :: "SessionManager \<Rightarrow> peer_id list" where
  "sm_List sm = map fst (sm_sessions sm)"

fun join :: "string \<Rightarrow> string list \<Rightarrow> string" where
  "join sep [] = []"
| "join sep [x] = x"
| "join sep (x # y # ys) = x @ sep @ join sep (y # ys)"

definition ActiveTier :: "SessionManager \<Rightarrow> string" where
  "ActiveTier sm = join '','' (sort (remdups (map (\<lambda>(i, s). ss_Tier s) (sm_sessions sm))))"

text \<open>The locked part of \<^verbatim>\<open>Shutdown\<close> and its stops; the method then returns as soon as \<open>Shutdown_waits\<close> is over.\<close>

definition sm_Shutdown :: "SessionManager \<Rightarrow> SessionManager" where
  "sm_Shutdown sm =
     (let stops = map snd (sm_tiers sm);
          sm1 = sm\<lparr>sm_closing := True, sm_tiers := [], sm_severed := sm_severed sm @ map fst (sm_sessions sm),
                     sm_sessions := []\<rparr>
      in fold stop_tier stops sm1)"

definition Shutdown_waits :: "SessionManager \<Rightarrow> bool" where
  "Shutdown_waits sm \<longleftrightarrow> sm_handlers sm \<noteq> 0"

section \<open>The handler group\<close>

record handlerGroup =
  hg_closing :: bool
  hg_wg :: int

definition hg_begin :: "handlerGroup \<Rightarrow> bool \<times> handlerGroup" where
  "hg_begin g = (if hg_closing g then (False, g) else (True, g\<lparr>hg_wg := hg_wg g + 1\<rparr>))"

definition hg_done :: "handlerGroup \<Rightarrow> handlerGroup" where
  "hg_done g = g\<lparr>hg_wg := hg_wg g - 1\<rparr>"

definition hg_shutdown :: "handlerGroup \<Rightarrow> handlerGroup" where
  "hg_shutdown g = g\<lparr>hg_closing := True\<rparr>"

section \<open>Runs\<close>

text \<open>The manager with the streams being served (each \<^verbatim>\<open>BeginStream\<close> that returned true is followed by
  one \<^verbatim>\<open>EndStream\<close>), the peers that were ever removed by an operator, and the tiers whose owner
  unregistered them itself.\<close>

record sm_run =
  mgr :: SessionManager
  live :: "peer_id multiset"
  removed :: "peer_id set"
  retired :: "nat set"

inductive sm_step :: "sm_run \<Rightarrow> sm_run \<Rightarrow> bool" where
  Register: "RegisterTier i t (mgr r) = (e, m) \<Longrightarrow> sm_step r (r\<lparr>mgr := m\<rparr>)"
| Unregister: "sm_step r (r\<lparr>mgr := UnregisterTier i e (mgr r), retired := retired r \<union> set_option e\<rparr>)"
| Begin: "BeginStream now i addr (mgr r) = (True, m) \<Longrightarrow> sm_step r (r\<lparr>mgr := m, live := add_mset i (live r)\<rparr>)"
| Refused: "BeginStream now i addr (mgr r) = (False, m) \<Longrightarrow> sm_step r (r\<lparr>mgr := m\<rparr>)"
| End: "i \<in># live r \<Longrightarrow> sm_step r (r\<lparr>mgr := EndStream i (mgr r), live := live r - {#i#}\<rparr>)"
| Remove: "sm_step r (r\<lparr>mgr := sm_Remove i (mgr r), removed := insert i (removed r)\<rparr>)"
| Shutdown: "sm_step r (r\<lparr>mgr := sm_Shutdown (mgr r)\<rparr>)"

definition sm_init :: sm_run where
  "sm_init = \<lparr>mgr = NewSessionManager, live = {#}, removed = {}, retired = {}\<rparr>"

definition sm_reachable :: "sm_run \<Rightarrow> bool" where
  "sm_reachable r \<longleftrightarrow> sm_step\<^sup>*\<^sup>* sm_init r"

section \<open>What the operations leave alone\<close>

lemma stop_tier_keeps [simp]:
  "sm_sessions (stop_tier a sm) = sm_sessions sm" "sm_tiers (stop_tier a sm) = sm_tiers sm"
  "sm_handlers (stop_tier a sm) = sm_handlers sm" "sm_closing (stop_tier a sm) = sm_closing sm"
  "sm_events (stop_tier a sm) = sm_events sm" "sm_severed (stop_tier a sm) = sm_severed sm"
  "length (sm_entries (stop_tier a sm)) = length (sm_entries sm)"
  by (simp_all add: stop_tier_def)

lemma fold_stop_tier_keeps [simp]:
  "sm_sessions (fold stop_tier as sm) = sm_sessions sm" "sm_tiers (fold stop_tier as sm) = sm_tiers sm"
  "sm_handlers (fold stop_tier as sm) = sm_handlers sm" "sm_closing (fold stop_tier as sm) = sm_closing sm"
  "sm_events (fold stop_tier as sm) = sm_events sm" "length (sm_entries (fold stop_tier as sm)) = length (sm_entries sm)"
  by (induction as arbitrary: sm) simp_all

lemma Emit_keeps [simp]:
  "sm_sessions (Emit out sm) = sm_sessions sm" "sm_tiers (Emit out sm) = sm_tiers sm"
  "sm_handlers (Emit out sm) = sm_handlers sm" "sm_closing (Emit out sm) = sm_closing sm"
  "sm_entries (Emit out sm) = sm_entries sm" "sm_events (Emit out sm) = sm_events sm @ [out]"
  by (simp_all add: Emit_def)

lemma RegisterTier_keeps:
  assumes "RegisterTier i t sm = (e, m)"
  shows "sm_sessions m = sm_sessions sm" "sm_handlers m = sm_handlers sm" "sm_closing m = sm_closing sm"
    "sm_events m = sm_events sm"
  using assms by (auto simp: RegisterTier_def Let_def split: if_splits option.splits)

lemma UnregisterTier_keeps [simp]:
  "sm_sessions (UnregisterTier i e sm) = sm_sessions sm" "sm_handlers (UnregisterTier i e sm) = sm_handlers sm"
  "sm_closing (UnregisterTier i e sm) = sm_closing sm" "sm_events (UnregisterTier i e sm) = sm_events sm"
  "sm_entries (UnregisterTier i e sm) = sm_entries sm"
  by (simp_all add: UnregisterTier_def split: option.splits)

lemma BeginStream_keeps:
  assumes "BeginStream now i addr sm = (b, m)"
  shows "sm_tiers m = sm_tiers sm" "sm_entries m = sm_entries sm" "sm_closing m = sm_closing sm" "b \<longleftrightarrow> \<not> sm_closing sm"
  using assms by (auto simp: BeginStream_def Let_def split: if_splits option.splits)

lemma EndStream_keeps [simp]:
  "sm_tiers (EndStream i sm) = sm_tiers sm" "sm_entries (EndStream i sm) = sm_entries sm"
  "sm_closing (EndStream i sm) = sm_closing sm" "sm_handlers (EndStream i sm) = sm_handlers sm - 1"
  by (simp_all add: EndStream_def Let_def split: option.splits)

lemma sm_Remove_keeps [simp]:
  "sm_handlers (sm_Remove i sm) = sm_handlers sm" "sm_closing (sm_Remove i sm) = sm_closing sm"
  by (simp_all add: sm_Remove_def Let_def split: option.splits)

lemma sm_Shutdown_keeps [simp]:
  "sm_handlers (sm_Shutdown sm) = sm_handlers sm" "sm_events (sm_Shutdown sm) = sm_events sm"
  "sm_closing (sm_Shutdown sm)" "sm_sessions (sm_Shutdown sm) = []" "sm_tiers (sm_Shutdown sm) = []"
  by (simp_all add: sm_Shutdown_def Let_def)

text \<open>The sessions and the events after an operation, as a function of the peer.\<close>

lemma BeginStream_sessions:
  "BeginStream now i addr sm = (True, m) \<Longrightarrow>
   \<exists>s. map_of (sm_sessions m) = (map_of (sm_sessions sm))(i \<mapsto> s)
     \<and> ss_streams s = (case map_of (sm_sessions sm) i of None \<Rightarrow> 1 | Some s0 \<Rightarrow> ss_streams s0 + 1)
     \<and> sm_handlers m = sm_handlers sm + 1 \<and> \<not> sm_closing sm
     \<and> sm_events m = sm_events sm @ (case map_of (sm_sessions sm) i of
         None \<Rightarrow> [(event CONNECTED i)\<lparr>out_Addr := addr, out_Tier := ss_Tier s\<rparr>] | Some _ \<Rightarrow> [])"
  by (auto simp: BeginStream_def Let_def update_conv' split: if_splits option.splits)

lemma EndStream_sessions:
  "map_of (sm_sessions (EndStream i sm)) = (case map_of (sm_sessions sm) i of
     None \<Rightarrow> map_of (sm_sessions sm)
   | Some s \<Rightarrow> (map_of (sm_sessions sm))(i := if ss_streams s \<le> 1 then None else Some (s\<lparr>ss_streams := ss_streams s - 1\<rparr>)))"
  "sm_events (EndStream i sm) = sm_events sm @ (case map_of (sm_sessions sm) i of
     None \<Rightarrow> [] | Some s \<Rightarrow> if ss_streams s \<le> 1 then [event DISCONNECT i] else [])"
  by (auto simp: EndStream_def Let_def update_conv' delete_conv' split: option.splits)

lemma sm_Remove_sessions:
  "map_of (sm_sessions (sm_Remove i sm)) = (map_of (sm_sessions sm))(i := None)"
  "sm_events (sm_Remove i sm) = sm_events sm @ (if map_of (sm_sessions sm) i = None then [] else [event DISCONNECT i])"
  by (auto simp: sm_Remove_def Let_def delete_conv' fun_upd_idem split: option.splits)

section \<open>Invariants\<close>

text \<open>The wait group counts the streams being served; a session counts at most those of its peer, and
  exactly those unless an operator removed the peer; nothing is left once the manager is closing.\<close>

definition counts_inv :: "sm_run \<Rightarrow> bool" where
  "counts_inv r \<longleftrightarrow>
     sm_handlers (mgr r) = int (size (live r))
     \<and> (\<forall>i s. map_of (sm_sessions (mgr r)) i = Some s \<longrightarrow> 1 \<le> ss_streams s \<and> ss_streams s \<le> int (count (live r) i))
     \<and> (\<forall>i. \<not> sm_closing (mgr r) \<longrightarrow> i \<notin> removed r \<longrightarrow>
          int (count (live r) i) = (case map_of (sm_sessions (mgr r)) i of None \<Rightarrow> 0 | Some s \<Rightarrow> ss_streams s))
     \<and> (sm_closing (mgr r) \<longrightarrow> sm_sessions (mgr r) = [])"

lemma counts_init: "counts_inv sm_init"
  by (simp add: counts_inv_def sm_init_def NewSessionManager_def)

lemma counts_step: "sm_step r r' \<Longrightarrow> counts_inv r \<Longrightarrow> counts_inv r'"
proof (induction rule: sm_step.induct)
  case (Register i t r e m)
  then show ?case by (simp add: counts_inv_def RegisterTier_keeps [OF Register.hyps])
next
  case (Begin now i addr r m)
  from BeginStream_sessions [OF Begin.hyps] obtain s where
    s: "map_of (sm_sessions m) = (map_of (sm_sessions (mgr r)))(i \<mapsto> s)"
      "ss_streams s = (case map_of (sm_sessions (mgr r)) i of None \<Rightarrow> 1 | Some s0 \<Rightarrow> ss_streams s0 + 1)"
      "sm_handlers m = sm_handlers (mgr r) + 1" "\<not> sm_closing (mgr r)" by blast
  have "\<not> sm_closing m" using BeginStream_keeps [OF Begin.hyps] s(4) by simp
  then show ?case using Begin.prems s by (force simp: counts_inv_def split: option.splits)
next
  case (Refused now i addr r m)
  then have "m = mgr r" by (auto simp: BeginStream_def Let_def split: if_splits option.splits)
  then show ?case using Refused.prems by simp
next
  case (End i r)
  obtain L where L: "live r = add_mset i L" using End.hyps by (meson multi_member_split)
  have cl: "sm_closing (mgr r) \<Longrightarrow> sm_sessions (EndStream i (mgr r)) = []"
    using End.prems by (simp add: counts_inv_def EndStream_def)
  have b: "map_of (sm_sessions (mgr r)) j = Some s \<Longrightarrow> 1 \<le> ss_streams s \<and> ss_streams s \<le> int (count (add_mset i L) j)" for j s
    using End.prems L by (simp add: counts_inv_def)
  have e: "int (count (add_mset i L) j) = (case map_of (sm_sessions (mgr r)) j of None \<Rightarrow> 0 | Some s \<Rightarrow> ss_streams s)"
    if "\<not> sm_closing (mgr r)" "j \<notin> removed r" for j
    using End.prems L that by (simp add: counts_inv_def)
  have "1 \<le> ss_streams s \<and> ss_streams s \<le> int (count L j)" if "map_of (sm_sessions (EndStream i (mgr r))) j = Some s" for j s
    using b [of j] that by (auto simp: EndStream_sessions split: option.splits if_splits)
  moreover have "int (count L j) = (case map_of (sm_sessions (EndStream i (mgr r))) j of None \<Rightarrow> 0 | Some s \<Rightarrow> ss_streams s)"
    if "\<not> sm_closing (mgr r)" "j \<notin> removed r" for j
    using e [OF that] b [of j] by (auto simp: EndStream_sessions split: option.splits if_splits)
  ultimately show ?case using End.prems L cl by (simp add: counts_inv_def)
next
  case (Remove r i)
  have "sm_closing (mgr r) \<Longrightarrow> sm_sessions (sm_Remove i (mgr r)) = []"
    using Remove.prems by (simp add: counts_inv_def sm_Remove_def)
  then show ?case using Remove.prems by (auto simp: counts_inv_def sm_Remove_sessions)
qed (auto simp: counts_inv_def)

text \<open>The events about one peer, and the automaton that accepts alternations which begin with CONNECTED.\<close>

definition peer_trace :: "peer_id \<Rightarrow> control_output list \<Rightarrow> action list" where
  "peer_trace i evs = map out_Action (filter (\<lambda>e. out_SessionId e = i \<and> out_Action e \<in> {CONNECTED, DISCONNECT}) evs)"

fun alternate :: "bool \<Rightarrow> action list \<Rightarrow> bool option" where
  "alternate b [] = Some b"
| "alternate b (a # as) = (if a = CONNECTED \<and> \<not> b then alternate True as
     else if a = DISCONNECT \<and> b then alternate False as else None)"

lemma alternate_append: "alternate b (xs @ ys) = Option.bind (alternate b xs) (\<lambda>b'. alternate b' ys)"
  by (induction xs arbitrary: b) auto

lemma peer_trace_append [simp]: "peer_trace i (xs @ ys) = peer_trace i xs @ peer_trace i ys"
  by (simp add: peer_trace_def)

lemma peer_trace_event [simp]:
  "peer_trace j [] = []"
  "peer_trace j [event DISCONNECT i] = (if i = j then [DISCONNECT] else [])"
  "peer_trace j [(event CONNECTED i)\<lparr>out_Addr := a, out_Tier := t\<rparr>] = (if i = j then [CONNECTED] else [])"
  by (simp_all add: peer_trace_def event_def)

lemma actions_distinct [simp]: "CONNECTED \<noteq> DISCONNECT" "DISCONNECT \<noteq> CONNECTED"
  by (simp_all add: action_defs)

definition events_inv :: "SessionManager \<Rightarrow> bool" where
  "events_inv m \<longleftrightarrow> (\<forall>i. \<exists>b. alternate False (peer_trace i (sm_events m)) = Some b
     \<and> (\<not> sm_closing m \<longrightarrow> (b \<longleftrightarrow> map_of (sm_sessions m) i \<noteq> None)))"

lemma events_invD:
  "events_inv m \<Longrightarrow> \<not> sm_closing m \<Longrightarrow> alternate False (peer_trace i (sm_events m)) = Some (map_of (sm_sessions m) i \<noteq> None)"
  by (force simp: events_inv_def)

lemma events_step:
  assumes "sm_step r r'" "counts_inv r" "events_inv (mgr r)"
  shows "events_inv (mgr r')"
  using assms
proof (induction rule: sm_step.induct)
  case (Register i t r e m)
  then show ?case by (simp add: events_inv_def RegisterTier_keeps [OF Register.hyps])
next
  case (Begin now i addr r m)
  from BeginStream_sessions [OF Begin.hyps] obtain s where
    s: "map_of (sm_sessions m) = (map_of (sm_sessions (mgr r)))(i \<mapsto> s)" "\<not> sm_closing (mgr r)"
       "sm_events m = sm_events (mgr r) @ (case map_of (sm_sessions (mgr r)) i of
         None \<Rightarrow> [(event CONNECTED i)\<lparr>out_Addr := addr, out_Tier := ss_Tier s\<rparr>] | Some _ \<Rightarrow> [])" by blast
  then show ?case
    using events_invD [OF Begin.prems(2) s(2)] by (auto simp: events_inv_def alternate_append split: option.splits)
next
  case (Refused now i addr r m)
  then have "m = mgr r" by (auto simp: BeginStream_def Let_def split: if_splits option.splits)
  then show ?case using Refused.prems by simp
next
  case (End i r)
  show ?case
  proof (cases "sm_closing (mgr r)")
    case True
    then show ?thesis using End.prems by (auto simp: events_inv_def counts_inv_def EndStream_sessions)
  next
    case False
    then show ?thesis
      using events_invD [OF End.prems(2) False]
      by (auto simp: events_inv_def alternate_append EndStream_sessions split: option.splits)
  qed
next
  case (Remove r i)
  show ?case
  proof (cases "sm_closing (mgr r)")
    case True
    then show ?thesis using Remove.prems by (auto simp: events_inv_def counts_inv_def sm_Remove_sessions)
  next
    case False
    then show ?thesis
      using events_invD [OF Remove.prems(2) False] by (auto simp: events_inv_def alternate_append sm_Remove_sessions)
  qed
qed (auto simp: events_inv_def)

text \<open>Tier objects: a registered one is running and registered once; every other one was stopped, exactly
  once, or unregistered by its owner.\<close>

definition registered :: "SessionManager \<Rightarrow> nat set" where
  "registered m = set (map snd (sm_tiers m))"

definition tiers_inv :: "sm_run \<Rightarrow> bool" where
  "tiers_inv r \<longleftrightarrow>
     (let m = mgr r; st = (\<lambda>a. pt_stops (sm_entries m ! a)) in
      distinct (map fst (sm_tiers m)) \<and> distinct (map snd (sm_tiers m))
      \<and> (\<forall>a \<in> registered m. a < length (sm_entries m) \<and> st a = 0)
      \<and> (\<forall>a < length (sm_entries m). st a \<le> 1 \<and> (st a = 1 \<or> a \<in> retired r \<or> a \<in> registered m))
      \<and> (sm_closing m \<longrightarrow> sm_tiers m = []))"

lemma tiers_init: "tiers_inv sm_init"
  by (simp add: tiers_inv_def sm_init_def NewSessionManager_def registered_def)

lemma snd_delete:
  assumes "wf_gomap m" "distinct (map snd m)" "map_of m i = Some a"
  shows "set (map snd (AList.delete i m)) = set (map snd m) - {a}"
  using assms
proof (induction m)
  case (Cons x m)
  show ?case
  proof (cases "fst x = i")
    case True
    then have "AList.delete i m = m" using Cons.prems(1) by (intro delete_id) auto
    then show ?thesis using True Cons.prems by (auto simp: prod_eq_iff)
  next
    case False
    moreover from this have "map_of m i = Some a" using Cons.prems(3) by (cases x) auto
    moreover from this have "a \<in> snd ` set m" by (force dest: map_of_SomeD)
    ultimately show ?thesis using Cons by (cases x) auto
  qed
qed simp

lemma delete_none: "map_of m i = None \<Longrightarrow> AList.delete i m = m"
  by (intro delete_id) (simp add: map_of_eq_None_iff)

lemma snd_delete_subset: "set (map snd (AList.delete i m)) \<subseteq> set (map snd m)"
  by (auto simp: set_AList_delete)

lemma distinct_snd_delete: "distinct (map snd m) \<Longrightarrow> distinct (map snd (AList.delete i m))"
  by (simp add: AList.delete_eq distinct_map_filter)

lemma snd_update:
  "wf_gomap m \<Longrightarrow> set (map snd (AList.update i a m)) = insert a (set (map snd (AList.delete i m)))"
  by (simp add: set_AList_update set_AList_delete)

lemma distinct_snd_update:
  "wf_gomap m \<Longrightarrow> distinct (map snd m) \<Longrightarrow> a \<notin> set (map snd m) \<Longrightarrow> distinct (map snd (AList.update i a m))"
proof (induction m)
  case (Cons x m)
  show ?case
  proof (cases "fst x = i")
    case True
    then show ?thesis using Cons.prems by (cases x) auto
  next
    case False
    have "snd x \<notin> snd ` set (AList.update i a m)"
      using Cons.prems by (auto simp: set_AList_update)
    then show ?thesis using False Cons by (cases x) auto
  qed
qed simp

lemma st_stop_tier:
  "a < length (sm_entries sm) \<Longrightarrow> pt_stops (sm_entries (stop_tier d sm) ! a) = pt_stops (sm_entries sm ! a) + (if a = d then 1 else 0)"
  by (simp add: stop_tier_def nth_list_update)

lemma st_fold_stop_tier:
  "distinct ds \<Longrightarrow> a < length (sm_entries sm) \<Longrightarrow>
   pt_stops (sm_entries (fold stop_tier ds sm) ! a) = pt_stops (sm_entries sm ! a) + (if a \<in> set ds then 1 else 0)"
  by (induction ds arbitrary: sm) (auto simp: st_stop_tier)

lemma tiers_invE:
  assumes "tiers_inv r"
  shows "wf_gomap (sm_tiers (mgr r))" "distinct (map snd (sm_tiers (mgr r)))"
    "\<And>a. a \<in> registered (mgr r) \<Longrightarrow> a < length (sm_entries (mgr r)) \<and> pt_stops (sm_entries (mgr r) ! a) = 0"
    "\<And>a. a < length (sm_entries (mgr r)) \<Longrightarrow> pt_stops (sm_entries (mgr r) ! a) \<le> 1"
    "\<And>a. a < length (sm_entries (mgr r)) \<Longrightarrow> pt_stops (sm_entries (mgr r) ! a) = 1 \<or> a \<in> retired r \<or> a \<in> registered (mgr r)"
    "sm_closing (mgr r) \<Longrightarrow> sm_tiers (mgr r) = []"
  using assms by (simp_all add: tiers_inv_def Let_def)

text \<open>Taking the tiers in \<open>D\<close> out of the table and stopping them keeps the invariant.\<close>

lemma tiers_inv_drop:
  assumes inv: "tiers_inv r" and wf: "wf_gomap (sm_tiers m)" "distinct (map snd (sm_tiers m))"
    and t: "registered m = registered (mgr r) - D"
    and len: "length (sm_entries m) = length (sm_entries (mgr r))"
    and st: "\<And>a. a < length (sm_entries (mgr r)) \<Longrightarrow> pt_stops (sm_entries m ! a) = pt_stops (sm_entries (mgr r) ! a) + (if a \<in> S then 1 else 0)"
    and m: "sm_closing m \<Longrightarrow> sm_tiers m = []"
    and r': "mgr r' = m" "retired r \<subseteq> retired r'"
    and S: "S \<subseteq> D" "D \<inter> registered (mgr r) \<subseteq> S \<union> retired r'" "S \<subseteq> registered (mgr r)"
  shows "tiers_inv r'"
  unfolding tiers_inv_def Let_def r'
proof (intro conjI ballI allI impI)
  note I = tiers_invE [OF inv]
  fix a
  show "a < length (sm_entries m)" if "a \<in> registered m" using that t len I(3) by auto
  show "pt_stops (sm_entries m ! a) = 0" if a: "a \<in> registered m"
  proof -
    have "a \<notin> S" using a t S(1) by auto
    then show ?thesis using a t I(3) [of a] st [of a] by auto
  qed
  assume a: "a < length (sm_entries m)"
  then have a': "a < length (sm_entries (mgr r))" by (simp add: len)
  show "pt_stops (sm_entries m ! a) \<le> 1" using st [OF a'] I(3) [of a] I(4) [OF a'] S(3) by auto
  show "pt_stops (sm_entries m ! a) = 1 \<or> a \<in> retired r' \<or> a \<in> registered m"
    using I(5) [OF a'] st [OF a'] I(4) [OF a'] I(3) [of a] S r'(2) t by (cases "a \<in> S") auto
qed (use wf m in auto)

lemma registered_delete:
  assumes "tiers_inv r" "sm_tiers m = AList.delete i (sm_tiers (mgr r))"
  shows "registered m = registered (mgr r) - set_option (map_of (sm_tiers (mgr r)) i)"
    "wf_gomap (sm_tiers m)" "distinct (map snd (sm_tiers m))"
proof -
  note w = tiers_invE(1,2) [OF assms(1)]
  show "registered m = registered (mgr r) - set_option (map_of (sm_tiers (mgr r)) i)"
    using snd_delete [OF w, of i] unfolding registered_def assms(2)
    by (cases "map_of (sm_tiers (mgr r)) i") (simp_all add: delete_none del: set_map)
  show "wf_gomap (sm_tiers m)" "distinct (map snd (sm_tiers m))"
    using w unfolding assms(2) by (simp_all add: distinct_snd_delete distinct_delete)
qed

lemma registeredI: "map_of (sm_tiers m) i = Some a \<Longrightarrow> a \<in> registered m"
  by (force simp: registered_def dest: map_of_SomeD)

lemma tiers_step: "sm_step r r' \<Longrightarrow> tiers_inv r \<Longrightarrow> tiers_inv r'"
proof (induction rule: sm_step.induct)
  case (Unregister r e i)
  show ?case
  proof (cases "\<exists>a. e = Some a \<and> map_of (sm_tiers (mgr r)) i = Some a")
    case True
    then obtain a where a: "e = Some a" "map_of (sm_tiers (mgr r)) i = Some a" by blast
    let ?m = "UnregisterTier i e (mgr r)"
    have t: "sm_tiers ?m = AList.delete i (sm_tiers (mgr r))" using a by (simp add: UnregisterTier_def)
    show ?thesis
      using registered_delete [OF Unregister t] a tiers_invE(6) [OF Unregister]
      by (intro tiers_inv_drop [OF Unregister, where m = ?m and D = "{a}" and S = "{}"]) (auto simp: t)
  next
    case False
    then have "UnregisterTier i e (mgr r) = mgr r" by (auto simp: UnregisterTier_def split: option.splits)
    then show ?thesis using Unregister by (auto simp: tiers_inv_def Let_def)
  qed
next
  case (Begin now i addr r m)
  then show ?case using BeginStream_keeps [OF Begin.hyps] by (simp add: tiers_inv_def registered_def Let_def)
next
  case (Refused now i addr r m)
  then have "m = mgr r" by (auto simp: BeginStream_def Let_def split: if_splits option.splits)
  then show ?case using Refused.prems by simp
next
  case (Remove r i)
  show ?case
  proof (cases "map_of (sm_sessions (mgr r)) i")
    case None
    then have "sm_Remove i (mgr r) = mgr r" by (simp add: sm_Remove_def)
    then show ?thesis using Remove by (simp add: tiers_inv_def)
  next
    case (Some s)
    let ?m = "sm_Remove i (mgr r)" and ?D = "set_option (map_of (sm_tiers (mgr r)) i)"
    have t: "sm_tiers ?m = AList.delete i (sm_tiers (mgr r))" "length (sm_entries ?m) = length (sm_entries (mgr r))"
      using Some by (simp_all add: sm_Remove_def Let_def split: option.splits)
    have "pt_stops (sm_entries ?m ! a) = pt_stops (sm_entries (mgr r) ! a) + (if a \<in> ?D then 1 else 0)"
      if "a < length (sm_entries (mgr r))" for a
      using Some that by (auto simp: sm_Remove_def Let_def st_stop_tier split: option.splits)
    then show ?thesis
      using registered_delete [OF Remove t(1)] t tiers_invE(6) [OF Remove] registeredI
      by (intro tiers_inv_drop [OF Remove, where m = ?m and D = ?D and S = ?D]) auto
  qed
next
  case (Shutdown r)
  let ?m = "sm_Shutdown (mgr r)"
  have "pt_stops (sm_entries ?m ! a) = pt_stops (sm_entries (mgr r) ! a) + (if a \<in> registered (mgr r) then 1 else 0)"
    if "a < length (sm_entries (mgr r))" for a
    using that tiers_invE(2) [OF Shutdown] by (simp add: sm_Shutdown_def Let_def st_fold_stop_tier registered_def)
  then show ?case
    by (intro tiers_inv_drop [OF Shutdown, where m = ?m and D = "registered (mgr r)" and S = "registered (mgr r)"])
       (auto simp: registered_def sm_Shutdown_def Let_def)
next
  case (Register i t r e m)
  let ?n = "length (sm_entries (mgr r))"
  note I = tiers_invE [OF Register.prems]
  show ?case
  proof (cases "sm_closing (mgr r)")
    case True
    then have m: "m = stop_tier ?n ((mgr r)\<lparr>sm_entries := sm_entries (mgr r) @ [\<lparr>pt_tier = t, pt_stops = 0\<rparr>]\<rparr>)"
      using Register.hyps by (simp add: RegisterTier_def)
    have "sm_tiers m = []" using I(6) [OF True] by (simp add: m)
    moreover have "pt_stops (sm_entries m ! a) = (if a = ?n then 1 else pt_stops (sm_entries (mgr r) ! a))" if "a < Suc ?n" for a
      using that by (auto simp: m st_stop_tier nth_append less_Suc_eq)
    moreover have "length (sm_entries m) = Suc ?n" by (simp add: m)
    moreover have "registered (mgr r) = {}" using I(6) [OF True] by (simp add: registered_def)
    ultimately show ?thesis
      using I(4,5) by (auto simp: tiers_inv_def Let_def registered_def less_Suc_eq)
  next
    case False
    let ?d = "map_of (sm_tiers (mgr r)) i"
    have m: "sm_tiers m = AList.update i ?n (sm_tiers (mgr r))" "length (sm_entries m) = Suc ?n" "\<not> sm_closing m"
      using False Register.hyps by (auto simp: RegisterTier_def Let_def split: option.splits)
    have st: "pt_stops (sm_entries m ! a) = (if a = ?n then 0 else pt_stops (sm_entries (mgr r) ! a) + (if ?d = Some a then 1 else 0))"
      if "a < Suc ?n" for a
    proof -
      have "?d \<noteq> Some ?n" using I(3) registeredI by blast
      then show ?thesis
        using that False Register.hyps
        by (auto simp: RegisterTier_def Let_def st_stop_tier nth_append less_Suc_eq split: option.splits)
    qed
    have fresh: "?n \<notin> registered (mgr r)" using I(3) by blast
    have wf: "wf_gomap (sm_tiers m)" "distinct (map snd (sm_tiers m))"
      using I(1,2) fresh unfolding m(1) registered_def by (simp_all add: distinct_update distinct_snd_update del: set_map)
    have reg: "registered m = insert ?n (registered (mgr r) - set_option ?d)"
      using registered_delete(1) [OF Register.prems, of "m\<lparr>sm_tiers := AList.delete i (sm_tiers (mgr r))\<rparr>" i] snd_update [OF I(1), of i ?n]
      unfolding registered_def m(1) by simp
    have "a < Suc ?n \<and> pt_stops (sm_entries m ! a) = 0" if "a \<in> registered m" for a
    proof (cases "a = ?n")
      case False
      then show ?thesis using that reg I(3) [of a] st [of a] by auto
    qed (simp add: st)
    moreover have "pt_stops (sm_entries m ! a) \<le> 1 \<and> (pt_stops (sm_entries m ! a) = 1 \<or> a \<in> retired r \<or> a \<in> registered m)"
      if a: "a < Suc ?n" for a
      using st [OF a] a reg I(3) [of a] I(4,5) [of a] registeredI [of "mgr r" i a] by (auto simp: less_Suc_eq)
    ultimately show ?thesis using wf m by (simp add: tiers_inv_def Let_def)
  qed
qed (simp add: tiers_inv_def registered_def Let_def)

lemma reachable_inv:
  assumes "sm_reachable r"
  shows "counts_inv r \<and> events_inv (mgr r) \<and> tiers_inv r"
  using assms unfolding sm_reachable_def
proof (induction rule: rtranclp_induct)
  case base
  have "events_inv (mgr sm_init)"
    by (auto simp: events_inv_def sm_init_def NewSessionManager_def peer_trace_def)
  then show ?case using counts_init tiers_init by blast
next
  case (step r r')
  then show ?case using counts_step events_step tiers_step by blast
qed

section \<open>The manager behind the control channel\<close>

definition sm_ops :: "SessionManager sessions_ops" where
  "sm_ops = \<lparr>List = sm_List, Remove = sm_Remove\<rparr>"

text \<open>The program as the control loop sees it: the manager and the shutdown requests so far.\<close>

definition host_ops :: "(SessionManager \<times> nat) sessions_ops" where
  "host_ops = \<lparr>List = sm_List \<circ> fst, Remove = (\<lambda>i (m, n). (sm_Remove i m, n))\<rparr>"

lemma set_sm_List: "set (sm_List m) = dom (map_of (sm_sessions m))"
  by (simp add: sm_List_def dom_map_of_conv_image_fst)

interpretation host_control: sessions_api "\<lambda>out (m, n). (Emit out m, n)" host_ops "\<lambda>(m, n). (m, Suc n)"
  "sm_events \<circ> fst" "\<lambda>_. True" snd
proof
  fix out s and i :: peer_id
  show "set (List host_ops (Remove host_ops i s)) = set (List host_ops s) - {i}"
    by (cases s) (auto simp: host_ops_def set_sm_List sm_Remove_sessions)
  show "(sm_events \<circ> fst) (Remove host_ops i s) =
      (if i \<in> set (List host_ops s) then (sm_events \<circ> fst) s @ [event DISCONNECT i] else (sm_events \<circ> fst) s)"
    by (cases s) (auto simp: host_ops_def set_sm_List sm_Remove_sessions domIff)
  show "List host_ops ((\<lambda>(m, n). (Emit out m, n)) s) = List host_ops s"
    by (cases s) (simp add: host_ops_def sm_List_def)
qed (auto simp: host_ops_def split: prod.splits)

lemma closing_step:
  assumes "sm_step r r'" "sm_closing (mgr r)" "sm_sessions (mgr r) = []"
  shows "sm_events (mgr r') = sm_events (mgr r) \<and> sm_closing (mgr r')"
  using assms
proof (induction rule: sm_step.induct)
  case (Register i t r e m)
  then show ?case using RegisterTier_keeps [OF Register.hyps] by simp
next
  case (Begin now i addr r m)
  then show ?case using BeginStream_keeps(4) [OF Begin.hyps] by simp
next
  case (Refused now i addr r m)
  then show ?case by (auto simp: BeginStream_def)
qed (simp_all add: EndStream_sessions sm_Remove_sessions)

section \<open>Properties\<close>

text \<open>C4: what a supervisor reads is consistent. In every interleaving of stream starts and ends, tier
  registrations, operator disconnects and shutdown, the events about each peer strictly alternate,
  beginning with CONNECTED; until shutdown the last of them is CONNECTED exactly when the peer has a
  session, which is when LIST reports it; and no event follows the start of the shutdown.\<close>

theorem session_events_alternate:
  assumes "sm_reachable r" "sm_step r r'"
  shows "(\<exists>b. alternate False (peer_trace i (sm_events (mgr r))) = Some b
      \<and> (\<not> sm_closing (mgr r) \<longrightarrow> (b \<longleftrightarrow> i \<in> set (sm_List (mgr r)))))
    \<and> (sm_closing (mgr r) \<longrightarrow> sm_events (mgr r') = sm_events (mgr r) \<and> sm_closing (mgr r'))"
proof (intro conjI impI)
  note inv = reachable_inv [OF assms(1)]
  show "\<exists>b. alternate False (peer_trace i (sm_events (mgr r))) = Some b
      \<and> (\<not> sm_closing (mgr r) \<longrightarrow> (b \<longleftrightarrow> i \<in> set (sm_List (mgr r))))"
    using inv by (auto simp: events_inv_def set_sm_List domIff)
  assume c: "sm_closing (mgr r)"
  then have "sm_sessions (mgr r) = []" using inv by (simp add: counts_inv_def)
  from closing_step [OF assms(2) c this]
  show "sm_events (mgr r') = sm_events (mgr r)" "sm_closing (mgr r')" by auto
qed

lemma sm_reachable_step: "sm_reachable r \<Longrightarrow> sm_step r r' \<Longrightarrow> sm_reachable r'"
  by (simp add: sm_reachable_def)

lemma sm_reachable_init: "sm_reachable sm_init"
  by (simp add: sm_reachable_def)

definition sample_run :: sm_run where
  "sample_run = sm_init\<lparr>mgr := snd (BeginStream 0 ''p'' ''/ip4'' NewSessionManager), live := {#''p''#}\<rparr>"

lemma sample_begin: "sm_step sm_init sample_run"
proof -
  have "BeginStream 0 ''p'' ''/ip4'' (mgr sm_init) = (True, snd (BeginStream 0 ''p'' ''/ip4'' NewSessionManager))"
    by (simp add: sm_init_def BeginStream_def NewSessionManager_def Let_def)
  from sm_step.Begin [OF this] show ?thesis by (simp add: sample_run_def sm_init_def)
qed

theorem session_events_alternate_witness:
  "\<exists>b. alternate False (peer_trace ''p'' (sm_events (mgr sample_run))) = Some b \<and> (b \<longleftrightarrow> ''p'' \<in> set (sm_List (mgr sample_run)))"
proof -
  have "\<not> sm_closing (mgr sample_run)"
    by (simp add: sample_run_def sm_init_def NewSessionManager_def BeginStream_def Let_def)
  then show ?thesis
    using session_events_alternate [OF sm_reachable_step [OF sm_reachable_init sample_begin] sm_step.Shutdown, of "''p''"] by blast
qed

text \<open>Stream accounting. In every interleaving the wait group counts exactly the streams being served,
  so it never goes below zero and Shutdown returns exactly when the last of them has ended, after which
  none is ever admitted again; and a peer no operator removed has a session exactly while it has streams,
  which the session counts.\<close>

theorem session_counts_streams:
  assumes "sm_reachable r"
  shows "sm_handlers (mgr r) = int (size (live r)) \<and> (Shutdown_waits (mgr r) \<longleftrightarrow> live r \<noteq> {#})
     \<and> (sm_closing (mgr r) \<longrightarrow> (\<forall>now i addr. BeginStream now i addr (mgr r) = (False, mgr r)))
     \<and> (\<not> sm_closing (mgr r) \<and> i \<notin> removed r \<longrightarrow>
         (case map_of (sm_sessions (mgr r)) i of
            None \<Rightarrow> i \<notin># live r
          | Some s \<Rightarrow> i \<in># live r \<and> ss_streams s = int (count (live r) i)))"
proof -
  have inv: "counts_inv r" using reachable_inv [OF assms] by blast
  have n: "sm_handlers (mgr r) = int (size (live r))" using inv by (simp add: counts_inv_def)
  moreover have "Shutdown_waits (mgr r) \<longleftrightarrow> live r \<noteq> {#}" by (simp add: Shutdown_waits_def n)
  moreover have "sm_closing (mgr r) \<longrightarrow> (\<forall>now i addr. BeginStream now i addr (mgr r) = (False, mgr r))"
    by (simp add: BeginStream_def)
  moreover have "case map_of (sm_sessions (mgr r)) i of None \<Rightarrow> i \<notin># live r
      | Some s \<Rightarrow> i \<in># live r \<and> ss_streams s = int (count (live r) i)"
    if "\<not> sm_closing (mgr r) \<and> i \<notin> removed r"
  proof -
    have c: "int (count (live r) i) = (case map_of (sm_sessions (mgr r)) i of None \<Rightarrow> 0 | Some s \<Rightarrow> ss_streams s)"
      and b: "\<And>s. map_of (sm_sessions (mgr r)) i = Some s \<Longrightarrow> 1 \<le> ss_streams s"
      using inv that by (simp_all add: counts_inv_def)
    show ?thesis
    proof (cases "map_of (sm_sessions (mgr r)) i")
      case None
      then show ?thesis using c by (simp add: count_eq_zero_iff)
    next
      case (Some s)
      have "0 < count (live r) i" using c b [OF Some] unfolding Some option.case by linarith
      then show ?thesis using c Some by simp
    qed
  qed
  ultimately show ?thesis by blast
qed

theorem session_counts_streams_witness: "sm_handlers (mgr sample_run) = 1"
  using session_counts_streams [OF sm_reachable_step [OF sm_reachable_init sample_begin], of "''p''"]
  by (simp add: sample_run_def)

text \<open>C18: no tier outlives its registration unstopped. In every interleaving each tier ever registered,
  also the one refused during shutdown, is stopped at most once, and is stopped unless its owner
  unregistered it or it is the one registered for its peer; after a shutdown every tier was stopped or
  unregistered by its owner.\<close>

theorem tiers_stopped_once:
  assumes "sm_reachable r" "a < length (sm_entries (mgr r))"
  shows "pt_stops (sm_entries (mgr r) ! a) \<le> 1
     \<and> (pt_stops (sm_entries (mgr r) ! a) = 1 \<or> a \<in> retired r \<or> (\<exists>i. map_of (sm_tiers (mgr r)) i = Some a))
     \<and> (sm_closing (mgr r) \<longrightarrow> pt_stops (sm_entries (mgr r) ! a) = 1 \<or> a \<in> retired r)
     \<and> (\<forall>i. map_of (sm_tiers (mgr r)) i = Some a \<longrightarrow> pt_stops (sm_entries (mgr r) ! a) = 0)"
proof -
  have inv: "tiers_inv r" using reachable_inv [OF assms(1)] by blast
  note I = tiers_invE [OF inv]
  have "a \<in> registered (mgr r) \<Longrightarrow> \<exists>i. map_of (sm_tiers (mgr r)) i = Some a"
    using I(1) by (auto simp: registered_def)
  moreover have "sm_closing (mgr r) \<Longrightarrow> a \<notin> registered (mgr r)" using I(6) by (simp add: registered_def)
  ultimately show ?thesis using I(3) [OF registeredI] I(4,5) [OF assms(2)] by blast
qed

theorem tiers_stopped_once_witness:
  "\<exists>r. sm_reachable r \<and> length (sm_entries (mgr r)) = 1 \<and> pt_stops (sm_entries (mgr r) ! 0) = 1"
proof -
  let ?m = "snd (RegisterTier ''p'' TierQUIC NewSessionManager)"
  let ?r = "sm_init\<lparr>mgr := ?m\<rparr>" and ?r' = "sm_init\<lparr>mgr := sm_Shutdown ?m\<rparr>"
  have "sm_step sm_init ?r"
    by (intro sm_step.Register [where i = "''p''" and t = TierQUIC and e = "Some 0"])
       (simp add: RegisterTier_def sm_init_def NewSessionManager_def Let_def)
  moreover have "sm_step ?r ?r'" using sm_step.Shutdown [of ?r] by simp
  ultimately have r: "sm_reachable ?r'" using sm_reachable_step sm_reachable_init by blast
  have l: "length (sm_entries (mgr ?r')) = 1" "sm_closing (mgr ?r')"
    by (simp_all add: RegisterTier_def NewSessionManager_def Let_def sm_Shutdown_def)
  have "retired ?r' = {}" by (simp add: sm_init_def)
  moreover have "0 < length (sm_entries (mgr ?r'))" using l(1) by linarith
  ultimately have "pt_stops (sm_entries (mgr ?r') ! 0) = 1" using tiers_stopped_once [OF r, of 0] l(2) by blast
  with r l show ?thesis by blast
qed

text \<open>A stream that outlives an operator's disconnect ends the wrong session. A peer's stream is being
  served when the operator disconnects the peer; the peer reconnects and opens a new stream before the
  old one's handler returns; when it does, its EndStream counts against the new session: the supervisor
  reads DISCONNECT and the peer disappears from LIST although its new stream is still being served.\<close>

theorem stale_EndStream_ends_new_session:
  "let m1 = snd (BeginStream t1 p addr1 NewSessionManager);
       m2 = sm_Remove p m1;
       m3 = snd (BeginStream t2 p addr2 m2);
       m4 = EndStream p m3
   in map out_Action (sm_events m4) = [CONNECTED, DISCONNECT, CONNECTED, DISCONNECT]
      \<and> sm_List m3 = [p] \<and> sm_List m4 = [] \<and> sm_handlers m4 = 1 \<and> \<not> sm_closing m4"
  by (simp add: BeginStream_def NewSessionManager_def sm_Remove_def EndStream_def Emit_def sm_List_def event_def Let_def)

text \<open>The operator's commands act on the sessions. On any state of the manager, a DISCONNECT of a peer
  followed by a LIST writes the peer's DISCONNECT event if and only if it had a session, and the list
  that follows is that of the sessions before without that peer; repeating the DISCONNECT writes nothing
  more.\<close>

theorem control_disconnect_then_list:
  "let dis = Got \<lparr>in_Action = DISCONNECT, in_SessionId = i\<rparr>;
       lst = Got \<lparr>in_Action = LIST, in_SessionId = j\<rparr>;
       run = control_Handle (\<lambda>out (m, n). (Emit out m, n)) (Some host_ops) (\<lambda>(m, n). (m, Suc n))
   in (\<exists>ids. sm_events (fst (snd (run [dis, lst] (m, n)))) =
          sm_events m @ (if i \<in> set (sm_List m) then [event DISCONNECT i] else []) @ [(event LIST [])\<lparr>out_Sessions := ids\<rparr>]
        \<and> set ids = set (sm_List m) - {i})
      \<and> sm_events (fst (snd (run [dis, dis] (m, n)))) = sm_events (fst (snd (run [dis] (m, n))))"
proof -
  let ?w = "sm_events \<circ> fst"
  obtain ids where ids: "control_Handle (\<lambda>out (m, n). (Emit out m, n)) (Some host_ops) (\<lambda>(m, n). (m, Suc n))
      [Got \<lparr>in_Action = DISCONNECT, in_SessionId = i\<rparr>, Got \<lparr>in_Action = LIST, in_SessionId = j\<rparr>] (m, n) =
      (Waiting, (\<lambda>(m, n). (Emit ((event LIST [])\<lparr>out_Sessions := ids\<rparr>) m, n)) (Remove host_ops i (m, n)))"
    "set ids = set (List host_ops (m, n)) - {i}"
    using host_control.disconnect_then_list [where s = "(m, n)" and i = i and j = j] by blast
  have "?w (Remove host_ops i (m, n)) = sm_events m @ (if i \<in> set (sm_List m) then [event DISCONNECT i] else [])"
    using host_control.Remove_written [where s = "(m, n)" and i = i] by (simp add: host_ops_def)
  then have "sm_events (fst ((\<lambda>(m, n). (Emit ((event LIST [])\<lparr>out_Sessions := ids\<rparr>) m, n)) (Remove host_ops i (m, n)))) =
      sm_events m @ (if i \<in> set (sm_List m) then [event DISCONNECT i] else []) @ [(event LIST [])\<lparr>out_Sessions := ids\<rparr>]"
    by (cases "Remove host_ops i (m, n)") simp
  with ids host_control.disconnect_twice [where s = "(m, n)" and i = i] show ?thesis
    by (auto simp: host_ops_def Let_def)
qed

end
