(* ===== verification/Deadline.thy ===== *)
theory Deadline
  imports Gomap
begin

text \<open>
  The deadline wrapper around the punched connection, \<^verbatim>\<open>internal/nat/deadline.go\<close>: a pump goroutine
  moves datagrams off the substrate into a bounded queue, any number of \<^verbatim>\<open>Read\<close> calls take them, and
  deadlines, timers and \<^verbatim>\<open>stop\<close> act concurrently. Every locked section and every channel operation is
  one step: \<open>pump_step\<close> and \<open>read_step\<close> are the goroutines, an event naming the case their \<^verbatim>\<open>select\<close>
  took; \<open>dc_step\<close> interleaves everything. Channels that are only ever closed are numbers, \<open>dc_closed\<close> the
  closed ones. A timer that has fired runs its callback later, at any time (\<open>dc_callbacks\<close>), so a
  callback may outlive the \<^verbatim>\<open>Stop\<close> that came too late for it.

  Ghost fields record the history: what the substrate delivered, what readers took, what a stopped pump
  dropped, which deadline is the current one of a direction and how often it was set.
\<close>

definition substrateMTU :: nat where "substrateMTU = 8192"
definition substrateQueue :: nat where "substrateQueue = 8"

type_synonym u64 = "64 word"

datatype dir = DRead | DWrite

record deadline =
  dl_expired :: nat
  dl_timer :: "(u64 \<times> gtime) option"
  dl_fired :: bool
  dl_gen :: u64
  dl_current :: "gtime option"
  dl_sets :: nat

datatype read_error = ErrDeadlineExceeded | ReaderErr io_error

datatype pump_state = PWantBuf | PReading | PHanding "byte list" | PExited

datatype read_state =
    RCheck nat nat
  | RWait nat nat
  | RDrain nat
  | RConsume nat "byte list"
  | RDone "read_error + byte list"

record deadlineConn =
  dc_packets :: "byte list list"
  dc_free :: nat
  dc_stopped :: bool
  dc_readErr :: "io_error option"
  dc_done :: bool
  dc_read :: deadline
  dc_write :: deadline
  dc_next :: nat
  dc_closed :: "nat set"
  dc_callbacks :: "(dir \<times> u64) list"
  dc_now :: gtime
  dc_pump :: pump_state
  dc_readers :: "(nat, read_state) gomap"
  dc_arrived :: "byte list list"
  dc_taken :: "byte list list"
  dc_dropped :: "byte list list"
  dc_lost :: nat

definition new_deadline :: "nat \<Rightarrow> deadline" where
  "new_deadline ch = \<lparr>dl_expired = ch, dl_timer = None, dl_fired = False, dl_gen = 0, dl_current = None, dl_sets = 0\<rparr>"

definition withDeadlines :: "gtime \<Rightarrow> deadlineConn" where
  "withDeadlines now = \<lparr>dc_packets = [], dc_free = substrateQueue, dc_stopped = False, dc_readErr = None,
     dc_done = False, dc_read = new_deadline 0, dc_write = new_deadline 1, dc_next = 2, dc_closed = {},
     dc_callbacks = [], dc_now = now, dc_pump = PWantBuf, dc_readers = [], dc_arrived = [], dc_taken = [],
     dc_dropped = [], dc_lost = 0\<rparr>"

section \<open>The pump\<close>

datatype pump_event = GotBuffer | SawDone | ReadOK "byte list" | ReadFailed io_error | Handed

definition pump_exit :: "io_error \<Rightarrow> deadlineConn \<Rightarrow> deadlineConn" where
  "pump_exit e c = c\<lparr>dc_readErr := Some e, dc_stopped := True, dc_pump := PExited\<rparr>"

fun pump_step :: "pump_event \<Rightarrow> deadlineConn \<Rightarrow> deadlineConn option" where
  "pump_step GotBuffer c =
     (if dc_pump c = PWantBuf \<and> dc_free c > 0 then Some (c\<lparr>dc_free := dc_free c - 1, dc_pump := PReading\<rparr>) else None)"
| "pump_step SawDone c =
     (if \<not> dc_done c then None
      else case dc_pump c of
        PWantBuf \<Rightarrow> Some (pump_exit ErrClosed c)
      | PHanding p \<Rightarrow> Some (pump_exit ErrClosed (c\<lparr>dc_dropped := [p], dc_lost := dc_lost c + 1\<rparr>))
      | _ \<Rightarrow> None)"
| "pump_step (ReadOK p) c =
     (if dc_pump c = PReading \<and> length p \<le> substrateMTU
      then Some (c\<lparr>dc_pump := PHanding p, dc_arrived := dc_arrived c @ [p]\<rparr>) else None)"
| "pump_step (ReadFailed e) c =
     (if dc_pump c = PReading then Some (pump_exit e (c\<lparr>dc_lost := dc_lost c + 1\<rparr>)) else None)"
| "pump_step Handed c =
     (case dc_pump c of
        PHanding p \<Rightarrow> if length (dc_packets c) < substrateQueue
                      then Some (c\<lparr>dc_packets := dc_packets c @ [p], dc_pump := PWantBuf\<rparr>) else None
      | _ \<Rightarrow> None)"

definition dc_stop :: "deadlineConn \<Rightarrow> deadlineConn" where
  "dc_stop c = c\<lparr>dc_done := True\<rparr>"

section \<open>Read and Write\<close>

text \<open>\<^verbatim>\<open>Read\<close> with a buffer of length \<open>n\<close>: it captures the expiry channel, checks it, waits, and may drain.\<close>

datatype read_event = Check | TakePacket | SeeExpired | SeeStopped | DrainEmpty | Consume

definition put_reader :: "nat \<Rightarrow> read_state \<Rightarrow> deadlineConn \<Rightarrow> deadlineConn" where
  "put_reader r s c = c\<lparr>dc_readers := AList.update r s (dc_readers c)\<rparr>"

definition read_begin :: "nat \<Rightarrow> nat \<Rightarrow> deadlineConn \<Rightarrow> deadlineConn option" where
  "read_begin r n c =
     (if map_of (dc_readers c) r = None then Some (put_reader r (RCheck n (dl_expired (dc_read c))) c) else None)"

definition take_packet :: "nat \<Rightarrow> nat \<Rightarrow> deadlineConn \<Rightarrow> deadlineConn option" where
  "take_packet r n c =
     (case dc_packets c of
        [] \<Rightarrow> None
      | p # ps \<Rightarrow> Some (put_reader r (RConsume n p) (c\<lparr>dc_packets := ps, dc_taken := dc_taken c @ [p]\<rparr>)))"

fun read_step :: "nat \<Rightarrow> read_event \<Rightarrow> deadlineConn \<Rightarrow> deadlineConn option" where
  "read_step r Check c =
     (case map_of (dc_readers c) r of
        Some (RCheck n ch) \<Rightarrow>
          Some (if ch \<in> dc_closed c then put_reader r (RDone (Inl ErrDeadlineExceeded)) c else put_reader r (RWait n ch) c)
      | _ \<Rightarrow> None)"
| "read_step r TakePacket c =
     (case map_of (dc_readers c) r of
        Some (RWait n ch) \<Rightarrow> take_packet r n c
      | Some (RDrain n) \<Rightarrow> take_packet r n c
      | _ \<Rightarrow> None)"
| "read_step r SeeExpired c =
     (case map_of (dc_readers c) r of
        Some (RWait n ch) \<Rightarrow> if ch \<in> dc_closed c then Some (put_reader r (RDone (Inl ErrDeadlineExceeded)) c) else None
      | _ \<Rightarrow> None)"
| "read_step r SeeStopped c =
     (case map_of (dc_readers c) r of
        Some (RWait n ch) \<Rightarrow> if dc_stopped c then Some (put_reader r (RDrain n) c) else None
      | _ \<Rightarrow> None)"
| "read_step r DrainEmpty c =
     (case map_of (dc_readers c) r of
        Some (RDrain n) \<Rightarrow>
          if dc_packets c = [] then
            (case dc_readErr c of None \<Rightarrow> None | Some e \<Rightarrow> Some (put_reader r (RDone (Inl (ReaderErr e))) c))
          else None
      | _ \<Rightarrow> None)"
| "read_step r Consume c =
     (case map_of (dc_readers c) r of
        Some (RConsume n p) \<Rightarrow>
          if dc_free c < substrateQueue
          then Some (put_reader r (RDone (Inr (take n p))) (c\<lparr>dc_free := dc_free c + 1\<rparr>)) else None
      | _ \<Rightarrow> None)"

definition read_return :: "nat \<Rightarrow> deadlineConn \<Rightarrow> ((read_error + byte list) \<times> deadlineConn) option" where
  "read_return r c =
     (case map_of (dc_readers c) r of
        Some (RDone v) \<Rightarrow> Some (v, c\<lparr>dc_readers := AList.delete r (dc_readers c)\<rparr>)
      | _ \<Rightarrow> None)"

definition dc_Write :: "(byte list \<Rightarrow> io_error + nat) \<Rightarrow> byte list \<Rightarrow> deadlineConn \<Rightarrow> read_error + nat" where
  "dc_Write substrate p c =
     (if dl_expired (dc_write c) \<in> dc_closed c then Inl ErrDeadlineExceeded
      else case substrate p of Inl e \<Rightarrow> Inl (ReaderErr e) | Inr n \<Rightarrow> Inr n)"

section \<open>Deadlines\<close>

definition get_dl :: "dir \<Rightarrow> deadlineConn \<Rightarrow> deadline" where
  "get_dl d c = (case d of DRead \<Rightarrow> dc_read c | DWrite \<Rightarrow> dc_write c)"

definition put_dl :: "dir \<Rightarrow> deadline \<Rightarrow> deadlineConn \<Rightarrow> deadlineConn" where
  "put_dl d x c = (case d of DRead \<Rightarrow> c\<lparr>dc_read := x\<rparr> | DWrite \<Rightarrow> c\<lparr>dc_write := x\<rparr>)"

text \<open>\<^verbatim>\<open>set\<close>; \<open>None\<close> is the zero time.\<close>

definition dc_set :: "dir \<Rightarrow> gtime option \<Rightarrow> deadlineConn \<Rightarrow> deadlineConn" where
  "dc_set d t c =
     (let x = (get_dl d c)\<lparr>dl_timer := None, dl_gen := dl_gen (get_dl d c) + 1,
                 dl_current := t, dl_sets := dl_sets (get_dl d c) + 1\<rparr>;
          fresh = dl_fired x;
          x = (if fresh then x\<lparr>dl_expired := dc_next c, dl_fired := False\<rparr> else x);
          c = (if fresh then c\<lparr>dc_next := dc_next c + 1\<rparr> else c)
      in case t of
           None \<Rightarrow> put_dl d x c
         | Some when \<Rightarrow>
             if when > dc_now c then put_dl d (x\<lparr>dl_timer := Some (dl_gen x, when)\<rparr>) c
             else put_dl d (x\<lparr>dl_fired := True\<rparr>) (c\<lparr>dc_closed := insert (dl_expired x) (dc_closed c)\<rparr>))"

definition dc_expire :: "dir \<Rightarrow> u64 \<Rightarrow> deadlineConn \<Rightarrow> deadlineConn" where
  "dc_expire d g c =
     (let x = get_dl d c in
      if dl_gen x \<noteq> g \<or> dl_fired x then c
      else put_dl d (x\<lparr>dl_fired := True\<rparr>) (c\<lparr>dc_closed := insert (dl_expired x) (dc_closed c)\<rparr>))"

definition SetReadDeadline :: "gtime option \<Rightarrow> deadlineConn \<Rightarrow> deadlineConn" where
  "SetReadDeadline t c = dc_set DRead t c"

definition SetWriteDeadline :: "gtime option \<Rightarrow> deadlineConn \<Rightarrow> deadlineConn" where
  "SetWriteDeadline t c = dc_set DWrite t c"

definition SetDeadline :: "gtime option \<Rightarrow> deadlineConn \<Rightarrow> deadlineConn" where
  "SetDeadline t c = dc_set DWrite t (dc_set DRead t c)"

text \<open>The runtime's timer: once its time has come it starts the callback.\<close>

definition timer_fires :: "dir \<Rightarrow> deadlineConn \<Rightarrow> deadlineConn option" where
  "timer_fires d c =
     (case dl_timer (get_dl d c) of
        Some (g, when) \<Rightarrow>
          if when \<le> dc_now c then Some (put_dl d ((get_dl d c)\<lparr>dl_timer := None\<rparr>) (c\<lparr>dc_callbacks := dc_callbacks c @ [(d, g)]\<rparr>))
          else None
      | None \<Rightarrow> None)"

section \<open>Runs\<close>

inductive dc_step :: "deadlineConn \<Rightarrow> deadlineConn \<Rightarrow> bool" where
  Pump: "pump_step e c = Some c' \<Longrightarrow> dc_step c c'"
| Stop: "dc_step c (dc_stop c)"
| Begin: "read_begin r n c = Some c' \<Longrightarrow> dc_step c c'"
| Read: "read_step r e c = Some c' \<Longrightarrow> dc_step c c'"
| Return: "read_return r c = Some (v, c') \<Longrightarrow> dc_step c c'"
| SetDl: "dc_step c (dc_set d t c)"
| Fires: "timer_fires d c = Some c' \<Longrightarrow> dc_step c c'"
| Callback: "dc_callbacks c = cs @ (d, g) # cs' \<Longrightarrow> dc_step c (dc_expire d g (c\<lparr>dc_callbacks := cs @ cs'\<rparr>))"
| Tick: "dc_now c \<le> t \<Longrightarrow> dc_step c (c\<lparr>dc_now := t\<rparr>)"

definition dc_reachable :: "deadlineConn \<Rightarrow> bool" where
  "dc_reachable c \<longleftrightarrow> (\<exists>now. dc_step\<^sup>*\<^sup>* (withDeadlines now) c)"

text \<open>\<^verbatim>\<open>SetDeadline\<close> holds the lock over both directions; no section sees the state in between.\<close>

lemma SetDeadline_steps: "dc_step\<^sup>*\<^sup>* c (SetDeadline t c)"
  unfolding SetDeadline_def using dc_step.SetDl by (meson converse_rtranclp_into_rtranclp rtranclp.rtrancl_refl)

text \<open>What a step of \<^verbatim>\<open>Read\<close> can be.\<close>

lemma read_stepE:
  assumes "read_step r e c = Some c'"
  obtains (expired) n ch s where "map_of (dc_readers c) r = Some s" "s = RCheck n ch \<or> s = RWait n ch" "ch \<in> dc_closed c"
      "c' = put_reader r (RDone (Inl ErrDeadlineExceeded)) c"
  | (wait) n ch where "map_of (dc_readers c) r = Some (RCheck n ch)" "ch \<notin> dc_closed c" "c' = put_reader r (RWait n ch) c"
  | (take) n p ps s where "map_of (dc_readers c) r = Some s" "(\<exists>ch. s = RWait n ch) \<or> s = RDrain n" "dc_packets c = p # ps"
      "c' = put_reader r (RConsume n p) (c\<lparr>dc_packets := ps, dc_taken := dc_taken c @ [p]\<rparr>)"
  | (drain) n ch where "map_of (dc_readers c) r = Some (RWait n ch)" "dc_stopped c" "c' = put_reader r (RDrain n) c"
  | (fail) n err where "map_of (dc_readers c) r = Some (RDrain n)" "dc_packets c = []" "dc_readErr c = Some err"
      "c' = put_reader r (RDone (Inl (ReaderErr err))) c"
  | (copy) n p where "map_of (dc_readers c) r = Some (RConsume n p)" "dc_free c < substrateQueue"
      "c' = put_reader r (RDone (Inr (take n p))) (c\<lparr>dc_free := dc_free c + 1\<rparr>)"
proof (cases e)
  case Check
  with assms show ?thesis using expired wait by (auto split: option.splits read_state.splits if_splits)
next
  case TakePacket
  with assms show ?thesis using take by (auto simp: take_packet_def split: option.splits read_state.splits list.splits)
next
  case SeeExpired
  with assms show ?thesis using expired by (auto split: option.splits read_state.splits if_splits)
next
  case SeeStopped
  with assms show ?thesis using drain by (auto split: option.splits read_state.splits if_splits)
next
  case DrainEmpty
  with assms show ?thesis using fail by (auto split: option.splits read_state.splits if_splits)
next
  case Consume
  with assms show ?thesis using copy by (auto split: option.splits read_state.splits if_splits)
qed

section \<open>What the operations leave alone\<close>

lemma put_dl_keeps [simp]:
  "dc_packets (put_dl d x c) = dc_packets c" "dc_free (put_dl d x c) = dc_free c" "dc_stopped (put_dl d x c) = dc_stopped c"
  "dc_readErr (put_dl d x c) = dc_readErr c" "dc_done (put_dl d x c) = dc_done c" "dc_next (put_dl d x c) = dc_next c"
  "dc_closed (put_dl d x c) = dc_closed c" "dc_callbacks (put_dl d x c) = dc_callbacks c" "dc_now (put_dl d x c) = dc_now c"
  "dc_pump (put_dl d x c) = dc_pump c" "dc_readers (put_dl d x c) = dc_readers c" "dc_arrived (put_dl d x c) = dc_arrived c"
  "dc_taken (put_dl d x c) = dc_taken c" "dc_dropped (put_dl d x c) = dc_dropped c" "dc_lost (put_dl d x c) = dc_lost c"
  by (simp_all add: put_dl_def split: dir.splits)

text \<open>The data path: everything but deadlines, timers and the clock.\<close>

definition same_data :: "deadlineConn \<Rightarrow> deadlineConn \<Rightarrow> bool" where
  "same_data c c' \<longleftrightarrow> dc_packets c' = dc_packets c \<and> dc_free c' = dc_free c \<and> dc_stopped c' = dc_stopped c
     \<and> dc_readErr c' = dc_readErr c \<and> dc_done c' = dc_done c \<and> dc_pump c' = dc_pump c \<and> dc_readers c' = dc_readers c
     \<and> dc_arrived c' = dc_arrived c \<and> dc_taken c' = dc_taken c \<and> dc_dropped c' = dc_dropped c \<and> dc_lost c' = dc_lost c"

lemma dl_ops_keep_data:
  "same_data c (dc_set d t c)" "same_data c (dc_expire d g c)" "timer_fires d c = Some c' \<Longrightarrow> same_data c c'"
  by (auto simp: same_data_def dc_set_def dc_expire_def timer_fires_def Let_def split: option.splits if_splits)

lemma callback_keeps_data: "same_data c (dc_expire d g (c\<lparr>dc_callbacks := cs\<rparr>))"
  using dl_ops_keep_data(2) [of "c\<lparr>dc_callbacks := cs\<rparr>"] by (simp add: same_data_def)

text \<open>The deadlines: everything the data path leaves alone.\<close>

definition same_deadlines :: "deadlineConn \<Rightarrow> deadlineConn \<Rightarrow> bool" where
  "same_deadlines c c' \<longleftrightarrow> dc_read c' = dc_read c \<and> dc_write c' = dc_write c \<and> dc_next c' = dc_next c
     \<and> dc_closed c' = dc_closed c \<and> dc_callbacks c' = dc_callbacks c \<and> dc_now c' = dc_now c"

lemma data_ops_keep_deadlines:
  "pump_step e c = Some c' \<Longrightarrow> same_deadlines c c'"
  "read_begin r n c = Some c' \<Longrightarrow> same_deadlines c c'"
  "read_step r re c = Some c' \<Longrightarrow> same_deadlines c c'"
  "read_return r c = Some (v, c') \<Longrightarrow> same_deadlines c c'"
  "same_deadlines c (dc_stop c)"
proof -
  show "pump_step e c = Some c' \<Longrightarrow> same_deadlines c c'"
    by (cases e) (auto simp: same_deadlines_def pump_exit_def split: if_splits pump_state.splits)
  show "read_step r re c = Some c' \<Longrightarrow> same_deadlines c c'"
    by (erule read_stepE) (simp_all add: same_deadlines_def put_reader_def)
qed (auto simp: same_deadlines_def read_begin_def put_reader_def read_return_def dc_stop_def
      split: if_splits option.splits read_state.splits)

section \<open>The data path\<close>

definition in_hand :: "deadlineConn \<Rightarrow> byte list list" where
  "in_hand c = (case dc_pump c of PHanding p \<Rightarrow> [p] | _ \<Rightarrow> [])"

definition queue_inv :: "deadlineConn \<Rightarrow> bool" where
  "queue_inv c \<longleftrightarrow>
     dc_arrived c = dc_taken c @ dc_packets c @ in_hand c @ dc_dropped c
     \<and> length (dc_packets c) \<le> substrateQueue
     \<and> (dc_pump c \<noteq> PExited \<longrightarrow> dc_dropped c = [] \<and> \<not> dc_stopped c)
     \<and> (dc_stopped c \<longrightarrow> dc_readErr c \<noteq> None)
     \<and> (dc_dropped c \<noteq> [] \<longrightarrow> dc_done c \<and> dc_readErr c = Some ErrClosed \<and> length (dc_dropped c) = 1)"

lemma queue_pump: "pump_step e c = Some c' \<Longrightarrow> queue_inv c \<Longrightarrow> queue_inv c'"
  by (cases e) (auto simp: queue_inv_def in_hand_def pump_exit_def split: if_splits pump_state.splits)

lemma queue_read: "read_step r e c = Some c' \<Longrightarrow> queue_inv c \<Longrightarrow> queue_inv c'"
  by (erule read_stepE) (auto simp: queue_inv_def in_hand_def put_reader_def)

lemma queue_same: "same_data c c' \<Longrightarrow> queue_inv c \<Longrightarrow> queue_inv c'"
  by (simp add: same_data_def queue_inv_def in_hand_def)

lemma queue_step: "dc_step c c' \<Longrightarrow> queue_inv c \<Longrightarrow> queue_inv c'"
proof (induction rule: dc_step.induct)
  case (Callback c cs d g cs')
  then show ?case using queue_same [OF callback_keeps_data] by blast
next
  case (Begin r n c c')
  then show ?case by (auto simp: read_begin_def put_reader_def queue_inv_def in_hand_def split: if_splits)
next
  case (Return r c v c')
  then show ?case by (auto simp: read_return_def queue_inv_def in_hand_def split: option.splits read_state.splits)
next
  case (Pump e c c')
  then show ?case by (rule queue_pump)
next
  case (Read r e c c')
  then show ?case by (rule queue_read)
next
  case (SetDl c d t)
  show ?case by (rule queue_same [OF dl_ops_keep_data(1) SetDl])
next
  case (Fires d c c')
  show ?case by (rule queue_same [OF dl_ops_keep_data(3) [OF Fires.hyps] Fires.prems])
qed (simp_all add: dc_stop_def queue_inv_def in_hand_def)

text \<open>Buffers: the free ones, those queued, the pump's, those being copied out, and those a finished pump kept.\<close>

definition holding :: "read_state \<Rightarrow> int" where
  "holding s = (case s of RConsume _ _ \<Rightarrow> 1 | _ \<Rightarrow> 0)"

definition pump_holds :: "deadlineConn \<Rightarrow> int" where
  "pump_holds c = (case dc_pump c of PReading \<Rightarrow> 1 | PHanding _ \<Rightarrow> 1 | _ \<Rightarrow> 0)"

definition buffers_inv :: "deadlineConn \<Rightarrow> bool" where
  "buffers_inv c \<longleftrightarrow> wf_gomap (dc_readers c)
     \<and> int (dc_free c) + int (length (dc_packets c)) + pump_holds c + table_sum holding (dc_readers c) + int (dc_lost c)
         = int substrateQueue"

lemma holding_nonneg: "0 \<le> holding s"
  by (simp add: holding_def split: read_state.splits)

lemma buffers_pump: "pump_step e c = Some c' \<Longrightarrow> buffers_inv c \<Longrightarrow> buffers_inv c'"
  by (cases e) (auto simp: buffers_inv_def pump_holds_def pump_exit_def split: if_splits pump_state.splits)

lemma buffers_put:
  assumes "wf_gomap (dc_readers c)"
  shows "wf_gomap (dc_readers (put_reader r s c))"
    "table_sum holding (dc_readers (put_reader r s c)) =
      table_sum holding (dc_readers c) + holding s - (case map_of (dc_readers c) r of None \<Rightarrow> 0 | Some u \<Rightarrow> holding u)"
  using assms by (simp_all add: put_reader_def distinct_update table_sum_update)

lemma put_reader_keeps [simp]:
  "dc_packets (put_reader r s c) = dc_packets c" "dc_free (put_reader r s c) = dc_free c" "dc_lost (put_reader r s c) = dc_lost c"
  "dc_pump (put_reader r s c) = dc_pump c"
  by (simp_all add: put_reader_def)

lemma buffers_read: "read_step r e c = Some c' \<Longrightarrow> buffers_inv c \<Longrightarrow> buffers_inv c'"
  by (erule read_stepE) (auto simp: buffers_inv_def pump_holds_def buffers_put holding_def)

lemma buffers_step: "dc_step c c' \<Longrightarrow> buffers_inv c \<Longrightarrow> buffers_inv c'"
proof (induction rule: dc_step.induct)
  case (Callback c cs d g cs')
  then show ?case using callback_keeps_data [of c d g "cs @ cs'"] by (simp add: same_data_def buffers_inv_def pump_holds_def)
next
  case (Begin r n c c')
  then show ?case by (auto simp: read_begin_def buffers_inv_def pump_holds_def buffers_put holding_def split: if_splits)
next
  case (Return r c v c')
  then show ?case
    by (auto simp: read_return_def buffers_inv_def pump_holds_def table_sum_delete distinct_delete holding_def
        split: option.splits read_state.splits)
next
  case (SetDl c d t)
  then show ?case using dl_ops_keep_data(1) [of c d t] by (simp add: same_data_def buffers_inv_def pump_holds_def)
next
  case (Fires d c c')
  then show ?case using dl_ops_keep_data(3) [OF Fires.hyps] by (simp add: same_data_def buffers_inv_def pump_holds_def)
next
  case (Pump e c c')
  then show ?case by (rule buffers_pump)
next
  case (Read r e c c')
  then show ?case by (rule buffers_read)
qed (simp_all add: dc_stop_def buffers_inv_def pump_holds_def)

section \<open>Deadlines and the reads that wait for them\<close>

lemma get_put_dl [simp]: "get_dl d' (put_dl d x c) = (if d' = d then x else get_dl d' c)"
  by (cases d; cases d') (simp_all add: get_dl_def put_dl_def)

lemma get_dl_upd [simp]:
  "get_dl d (c\<lparr>dc_next := n\<rparr>) = get_dl d c" "get_dl d (c\<lparr>dc_closed := s\<rparr>) = get_dl d c"
  "get_dl d (c\<lparr>dc_callbacks := cs\<rparr>) = get_dl d c" "get_dl d (c\<lparr>dc_now := t\<rparr>) = get_dl d c"
  by (cases d; simp add: get_dl_def)+

lemma get_dl_same: "same_deadlines c c' \<Longrightarrow> get_dl d c' = get_dl d c"
  by (cases d) (simp_all add: get_dl_def same_deadlines_def)

definition waits_on :: "deadlineConn \<Rightarrow> nat \<Rightarrow> bool" where
  "waits_on c ch \<longleftrightarrow> (\<exists>r n. map_of (dc_readers c) r = Some (RCheck n ch) \<or> map_of (dc_readers c) r = Some (RWait n ch))"

definition chan_inv :: "deadlineConn \<Rightarrow> bool" where
  "chan_inv c \<longleftrightarrow>
     dl_expired (get_dl DRead c) \<noteq> dl_expired (get_dl DWrite c)
     \<and> (\<forall>d. dl_expired (get_dl d c) < dc_next c \<and> (dl_expired (get_dl d c) \<in> dc_closed c \<longleftrightarrow> dl_fired (get_dl d c)))
     \<and> (\<forall>ch \<in> dc_closed c. ch < dc_next c)
     \<and> (\<forall>ch. waits_on c ch \<longrightarrow> ch = dl_expired (get_dl DRead c) \<or> ch \<in> dc_closed c)"

lemma waits_on_put:
  "waits_on (put_reader r s c) ch \<Longrightarrow> waits_on c ch \<or> (\<exists>n. s = RCheck n ch \<or> s = RWait n ch)"
  by (auto simp: waits_on_def put_reader_def update_conv' split: if_splits)

lemma waits_on_read:
  assumes "read_step r e c = Some c'" "waits_on c' ch" shows "waits_on c ch"
  using assms(1)
proof (cases rule: read_stepE)
  case (wait n k)
  then show ?thesis using assms(2) waits_on_put [of r "RWait n k" c ch] by (auto simp: waits_on_def)
next
  case (take n p ps s)
  then show ?thesis using assms(2) waits_on_put by (fastforce simp: waits_on_def)
next
  case (copy n p)
  then show ?thesis using assms(2) waits_on_put by (fastforce simp: waits_on_def)
qed (use assms(2) waits_on_put in fastforce)+

lemma chan_same:
  assumes "same_deadlines c c'" "\<And>ch. waits_on c' ch \<Longrightarrow> waits_on c ch \<or> ch = dl_expired (get_dl DRead c)" "chan_inv c"
  shows "chan_inv c'"
  using assms unfolding chan_inv_def get_dl_same [OF assms(1)] by (auto simp: same_deadlines_def)

lemma waits_on_same: "same_data c c' \<Longrightarrow> waits_on c' = waits_on c"
  by (simp add: same_data_def waits_on_def fun_eq_iff)

definition past :: "gtime option \<Rightarrow> deadlineConn \<Rightarrow> bool" where
  "past t c \<longleftrightarrow> (\<exists>w. t = Some w \<and> w \<le> dc_now c)"

lemma dc_set_spec:
  "get_dl d (dc_set d t c) = (get_dl d c)\<lparr>
     dl_expired := if dl_fired (get_dl d c) then dc_next c else dl_expired (get_dl d c),
     dl_timer := (case t of None \<Rightarrow> None | Some w \<Rightarrow> if w \<le> dc_now c then None else Some (dl_gen (get_dl d c) + 1, w)),
     dl_fired := past t c, dl_gen := dl_gen (get_dl d c) + 1, dl_current := t, dl_sets := dl_sets (get_dl d c) + 1\<rparr>"
  "d' \<noteq> d \<Longrightarrow> get_dl d' (dc_set d t c) = get_dl d' c"
  "dc_next (dc_set d t c) = (if dl_fired (get_dl d c) then Suc (dc_next c) else dc_next c)"
  "dc_closed (dc_set d t c) = (if past t c
     then insert (if dl_fired (get_dl d c) then dc_next c else dl_expired (get_dl d c)) (dc_closed c) else dc_closed c)"
  "dc_callbacks (dc_set d t c) = dc_callbacks c" "dc_now (dc_set d t c) = dc_now c"
  by (cases t; simp add: dc_set_def Let_def past_def)+

lemma dc_expire_spec:
  "get_dl d' (dc_expire d g c) = (if d' = d \<and> dl_gen (get_dl d c) = g then (get_dl d c)\<lparr>dl_fired := True\<rparr> else get_dl d' c)"
  "dc_next (dc_expire d g c) = dc_next c"
  "dc_closed (dc_expire d g c) = (if dl_gen (get_dl d c) = g \<and> \<not> dl_fired (get_dl d c)
     then insert (dl_expired (get_dl d c)) (dc_closed c) else dc_closed c)"
  "dc_callbacks (dc_expire d g c) = dc_callbacks c" "dc_now (dc_expire d g c) = dc_now c"
  by (auto simp: dc_expire_def Let_def)

lemma timer_fires_spec:
  assumes "timer_fires d c = Some c'"
  obtains g w where "dl_timer (get_dl d c) = Some (g, w)" "w \<le> dc_now c"
    "\<And>d'. get_dl d' c' = (if d' = d then (get_dl d c)\<lparr>dl_timer := None\<rparr> else get_dl d' c)"
    "dc_next c' = dc_next c" "dc_closed c' = dc_closed c" "dc_callbacks c' = dc_callbacks c @ [(d, g)]" "dc_now c' = dc_now c"
  using assms by (auto simp: timer_fires_def split: option.splits if_splits)

lemma chan_set:
  assumes "chan_inv c" shows "chan_inv (dc_set d t c)"
proof -
  note w = waits_on_same [OF dl_ops_keep_data(1) [of c d t]]
  obtain d' where d': "d' \<noteq> d" "\<And>x. x = d \<or> x = d'" by (cases d) (metis dir.exhaust dir.distinct(1))+
  note s = dc_set_spec(1,3,4) [of d t c] dc_set_spec(2) [OF d'(1), of t c]
  have other: "dl_expired (get_dl d' c) \<noteq> dl_expired (get_dl d c)" "dl_expired (get_dl d' c) < dc_next c"
    "dl_expired (get_dl d' c) \<in> dc_closed c \<longleftrightarrow> dl_fired (get_dl d' c)"
    using assms d' by (cases d; cases d'; auto simp: chan_inv_def)+
  have this_dl: "dl_expired (get_dl d c) < dc_next c" "dl_expired (get_dl d c) \<in> dc_closed c \<longleftrightarrow> dl_fired (get_dl d c)"
    "\<forall>ch \<in> dc_closed c. ch < dc_next c" "dc_next c \<notin> dc_closed c"
    using assms by (auto simp: chan_inv_def)
  have "dl_expired (get_dl d (dc_set d t c)) \<noteq> dl_expired (get_dl d' (dc_set d t c))" using s other by auto
  then have "dl_expired (get_dl DRead (dc_set d t c)) \<noteq> dl_expired (get_dl DWrite (dc_set d t c))"
    using d'(1) by (cases d; cases d') auto
  moreover have "dl_expired (get_dl x (dc_set d t c)) < dc_next (dc_set d t c)
      \<and> (dl_expired (get_dl x (dc_set d t c)) \<in> dc_closed (dc_set d t c) \<longleftrightarrow> dl_fired (get_dl x (dc_set d t c)))" for x
    using d'(2) [of x] s other this_dl by auto
  moreover have "ch = dl_expired (get_dl DRead (dc_set d t c)) \<or> ch \<in> dc_closed (dc_set d t c)" if "waits_on c ch" for ch
  proof -
    have "ch = dl_expired (get_dl DRead c) \<or> ch \<in> dc_closed c" using assms that by (simp add: chan_inv_def)
    then show ?thesis using s this_dl d' by (cases d; cases d') auto
  qed
  moreover have "\<forall>ch \<in> dc_closed (dc_set d t c). ch < dc_next (dc_set d t c)" using s this_dl by auto
  ultimately show ?thesis unfolding chan_inv_def w by blast
qed

lemma chan_expire:
  assumes "chan_inv c" shows "chan_inv (dc_expire d g c)"
proof -
  note w = waits_on_same [OF dl_ops_keep_data(2) [of c d g]]
  have "dl_expired (get_dl x (dc_expire d g c)) = dl_expired (get_dl x c)" for x by (auto simp: dc_expire_spec)
  moreover have "dl_expired (get_dl x c) \<in> dc_closed (dc_expire d g c) \<longleftrightarrow> dl_fired (get_dl x (dc_expire d g c))" for x
    using assms by (cases x; cases d) (auto simp: chan_inv_def dc_expire_spec)
  ultimately show ?thesis
    using assms unfolding chan_inv_def w by (auto simp: dc_expire_spec(2,3))
qed

lemma chan_step: "dc_step c c' \<Longrightarrow> chan_inv c \<Longrightarrow> chan_inv c'"
proof (induction rule: dc_step.induct)
  case (Pump e c c')
  have "dc_readers c' = dc_readers c"
    using Pump.hyps by (cases e) (auto simp: pump_exit_def split: if_splits pump_state.splits)
  then have "waits_on c' = waits_on c" by (simp add: waits_on_def fun_eq_iff)
  then show ?case using chan_same [OF data_ops_keep_deadlines(1) [OF Pump.hyps]] Pump.prems by simp
next
  case (Begin r n c c')
  have "waits_on c' ch \<Longrightarrow> waits_on c ch \<or> ch = dl_expired (get_dl DRead c)" for ch
    using Begin.hyps waits_on_put [of r "RCheck n (dl_expired (dc_read c))" c ch]
    by (auto simp: read_begin_def get_dl_def split: if_splits)
  then show ?case using chan_same [OF data_ops_keep_deadlines(2) [OF Begin.hyps]] Begin.prems by blast
next
  case (Read r e c c')
  then show ?case using chan_same [OF data_ops_keep_deadlines(3) [OF Read.hyps]] waits_on_read [OF Read.hyps] by blast
next
  case (Return r c v c')
  have "waits_on c' ch \<Longrightarrow> waits_on c ch" for ch
    using Return.hyps unfolding read_return_def waits_on_def
    by (fastforce simp: delete_conv' split: option.splits read_state.splits if_splits)
  then show ?case using chan_same [OF data_ops_keep_deadlines(4) [OF Return.hyps]] Return.prems by blast
next
  case (Fires d c c')
  note w = waits_on_same [OF dl_ops_keep_data(3) [OF Fires.hyps]]
  from Fires.hyps show ?case
    by (rule timer_fires_spec) (use Fires.prems in \<open>simp add: chan_inv_def w\<close>)
next
  case (Callback c cs d g cs')
  have "chan_inv (c\<lparr>dc_callbacks := cs @ cs'\<rparr>)" using Callback.prems by (simp add: chan_inv_def waits_on_def)
  then show ?case by (rule chan_expire)
next
  case (SetDl c d t)
  then show ?case by (rule chan_set)
qed (simp_all add: chan_inv_def waits_on_def dc_stop_def get_dl_def split: dir.splits)

text \<open>Time. A direction's generation counts its settings, below \<open>2^64\<close> without a wrap, so a callback that
  still runs belongs to the current deadline only if its generation says so.\<close>

definition dl_time_inv :: "dir \<Rightarrow> deadlineConn \<Rightarrow> bool" where
  "dl_time_inv d c \<longleftrightarrow>
     (let x = get_dl d c in
      dl_gen x = of_nat (dl_sets x)
      \<and> (dl_fired x \<longrightarrow> past (dl_current x) c)
      \<and> (\<forall>g w. dl_timer x = Some (g, w) \<longrightarrow> g = dl_gen x \<and> dl_current x = Some w)
      \<and> (\<forall>g. (d, g) \<in> set (dc_callbacks c) \<longrightarrow>
           (\<exists>k \<le> dl_sets x. g = of_nat k \<and> (k = dl_sets x \<longrightarrow> past (dl_current x) c)))
      \<and> (\<forall>w. dl_current x = Some w \<longrightarrow> dl_fired x \<or> dl_timer x = Some (dl_gen x, w) \<or> (d, dl_gen x) \<in> set (dc_callbacks c)))"

lemma of_nat_u64_inj: "k \<le> n \<Longrightarrow> n < 2 ^ 64 \<Longrightarrow> (of_nat k :: u64) = of_nat n \<Longrightarrow> k = n"
proof -
  assume a: "k \<le> n" "n < 2 ^ 64" "(of_nat k :: u64) = of_nat n"
  have "unat (of_nat k :: u64) = k" "unat (of_nat n :: u64) = n" using a(1,2) by (simp_all add: unat_of_nat take_bit_nat_def)
  then show "k = n" using a(3) by metis
qed

lemma dl_time_invD:
  assumes "dl_time_inv d c"
  shows "dl_gen (get_dl d c) = of_nat (dl_sets (get_dl d c))"
    "dl_fired (get_dl d c) \<Longrightarrow> past (dl_current (get_dl d c)) c"
    "dl_timer (get_dl d c) = Some (g, w) \<Longrightarrow> g = dl_gen (get_dl d c) \<and> dl_current (get_dl d c) = Some w"
    "(d, g) \<in> set (dc_callbacks c) \<Longrightarrow>
       \<exists>k \<le> dl_sets (get_dl d c). g = of_nat k \<and> (k = dl_sets (get_dl d c) \<longrightarrow> past (dl_current (get_dl d c)) c)"
    "dl_current (get_dl d c) = Some w \<Longrightarrow> dl_fired (get_dl d c) \<or> dl_timer (get_dl d c) = Some (dl_gen (get_dl d c), w)
       \<or> (d, dl_gen (get_dl d c)) \<in> set (dc_callbacks c)"
  using assms unfolding dl_time_inv_def Let_def by blast+

lemma dl_time_invI:
  assumes "dl_gen (get_dl d c) = of_nat (dl_sets (get_dl d c))"
    "dl_fired (get_dl d c) \<Longrightarrow> past (dl_current (get_dl d c)) c"
    "\<And>g w. dl_timer (get_dl d c) = Some (g, w) \<Longrightarrow> g = dl_gen (get_dl d c) \<and> dl_current (get_dl d c) = Some w"
    "\<And>g. (d, g) \<in> set (dc_callbacks c) \<Longrightarrow>
       \<exists>k \<le> dl_sets (get_dl d c). g = of_nat k \<and> (k = dl_sets (get_dl d c) \<longrightarrow> past (dl_current (get_dl d c)) c)"
    "\<And>w. dl_current (get_dl d c) = Some w \<Longrightarrow> dl_fired (get_dl d c) \<or> dl_timer (get_dl d c) = Some (dl_gen (get_dl d c), w)
       \<or> (d, dl_gen (get_dl d c)) \<in> set (dc_callbacks c)"
  shows "dl_time_inv d c"
  using assms unfolding dl_time_inv_def Let_def by blast

definition few_sets :: "deadlineConn \<Rightarrow> bool" where
  "few_sets c \<longleftrightarrow> (\<forall>d. dl_sets (get_dl d c) < 2 ^ 64)"

text \<open>Nothing changes for a direction that keeps its deadline object and its callbacks while time goes on.\<close>

lemma time_mono:
  assumes i: "dl_time_inv x c" and g: "get_dl x c' = get_dl x c" and n: "dc_now c \<le> dc_now c'"
    and cb: "\<And>g. (x, g) \<in> set (dc_callbacks c') \<longleftrightarrow> (x, g) \<in> set (dc_callbacks c)"
  shows "dl_time_inv x c'"
proof -
  have p: "past u c \<Longrightarrow> past u c'" for u using n by (auto simp: past_def)
  show ?thesis
    by (rule dl_time_invI; unfold g cb) (use dl_time_invD [OF i] p in blast)+
qed

lemma time_set:
  assumes i: "dl_time_inv x c" shows "dl_time_inv x (dc_set d t c)"
proof (cases "x = d")
  case True
  have p: "past u (dc_set d t c) = past u c" for u by (simp add: past_def dc_set_spec)
  show ?thesis unfolding True
  proof (rule dl_time_invI, unfold p dc_set_spec(5))
    show "dl_gen (get_dl d (dc_set d t c)) = of_nat (dl_sets (get_dl d (dc_set d t c)))"
      using dl_time_invD(1) [OF i] True by (simp add: dc_set_spec)
    show "\<exists>k \<le> dl_sets (get_dl d (dc_set d t c)). g = of_nat k
        \<and> (k = dl_sets (get_dl d (dc_set d t c)) \<longrightarrow> past (dl_current (get_dl d (dc_set d t c))) c)"
      if m: "(d, g) \<in> set (dc_callbacks c)" for g
    proof -
      obtain k where "k \<le> dl_sets (get_dl d c)" "g = of_nat k" using dl_time_invD(4) [OF i [unfolded True] m] by blast
      then show ?thesis by (intro exI [of _ k]) (simp add: dc_set_spec(1))
    qed
  qed (auto simp: dc_set_spec past_def split: option.splits if_splits)
next
  case False
  then show ?thesis using i by (intro time_mono [OF i]) (simp_all add: dc_set_spec)
qed

lemma time_callback:
  assumes i: "dl_time_inv x c" and few: "few_sets c" and cb: "dc_callbacks c = cs @ (d, g) # cs'"
  shows "dl_time_inv x (dc_expire d g (c\<lparr>dc_callbacks := cs @ cs'\<rparr>))"
proof -
  let ?c = "dc_expire d g (c\<lparr>dc_callbacks := cs @ cs'\<rparr>)"
  have p: "past u ?c = past u c" for u by (simp add: past_def dc_expire_spec)
  note D = dl_time_invD [OF i]
  have cb': "(x, g') \<in> set (dc_callbacks ?c) \<Longrightarrow> (x, g') \<in> set (dc_callbacks c)" for g'
    using cb by (auto simp: dc_expire_spec)
  have keeps: "dl_gen (get_dl x ?c) = dl_gen (get_dl x c)" "dl_sets (get_dl x ?c) = dl_sets (get_dl x c)"
    "dl_timer (get_dl x ?c) = dl_timer (get_dl x c)" "dl_current (get_dl x ?c) = dl_current (get_dl x c)"
    by (simp_all add: dc_expire_spec)
  have hit: "past (dl_current (get_dl x c)) c" if "x = d" "dl_gen (get_dl d c) = g"
  proof -
    have "(x, g) \<in> set (dc_callbacks c)" using cb that by simp
    from D(4) [OF this] obtain k where k: "k \<le> dl_sets (get_dl x c)" "g = of_nat k"
        "k = dl_sets (get_dl x c) \<longrightarrow> past (dl_current (get_dl x c)) c" by blast
    have "of_nat k = (of_nat (dl_sets (get_dl x c)) :: u64)" using k(2) D(1) that by simp
    then have "k = dl_sets (get_dl x c)"
      using of_nat_u64_inj [OF k(1)] few unfolding few_sets_def by blast
    then show ?thesis using k(3) by blast
  qed
  show ?thesis
  proof (rule dl_time_invI; unfold p keeps)
    show "past (dl_current (get_dl x c)) c" if "dl_fired (get_dl x ?c)"
      using that hit D(2) by (auto simp: dc_expire_spec split: if_splits)
    show "dl_fired (get_dl x ?c) \<or> dl_timer (get_dl x c) = Some (dl_gen (get_dl x c), w)
        \<or> (x, dl_gen (get_dl x c)) \<in> set (dc_callbacks ?c)" if "dl_current (get_dl x c) = Some w" for w
      using D(5) [OF that] cb by (auto simp: dc_expire_spec)
  qed (use D cb' in blast)+
qed

lemma time_fires:
  assumes i: "dl_time_inv x c" and f: "timer_fires d c = Some c'"
  shows "dl_time_inv x c'"
  using f
proof (cases rule: timer_fires_spec)
  case (1 g w)
  show ?thesis
  proof (cases "x = d")
    case False
    then show ?thesis by (intro time_mono [OF i]) (simp_all add: 1)
  next
    case True
    note D = dl_time_invD [OF i]
    have gw: "g = dl_gen (get_dl d c)" "dl_current (get_dl d c) = Some w" using D(3) 1(1) True by auto
    then have now: "past (dl_current (get_dl d c)) c" using 1(2) by (simp add: past_def)
    have p: "past u c' = past u c" for u by (simp add: past_def 1)
    have x: "get_dl d c' = (get_dl d c)\<lparr>dl_timer := None\<rparr>" by (simp add: 1)
    have *: "\<exists>k \<le> dl_sets (get_dl d c). dl_gen (get_dl d c) = of_nat k \<and> (k = dl_sets (get_dl d c) \<longrightarrow> past (dl_current (get_dl d c)) c)"
      using D(1) now True by auto
    show ?thesis unfolding True
    proof (rule dl_time_invI; unfold p x 1(6))
      show "\<exists>k \<le> dl_sets ((get_dl d c)\<lparr>dl_timer := None\<rparr>). g' = of_nat k
          \<and> (k = dl_sets ((get_dl d c)\<lparr>dl_timer := None\<rparr>) \<longrightarrow> past (dl_current ((get_dl d c)\<lparr>dl_timer := None\<rparr>)) c)"
        if "(d, g') \<in> set (dc_callbacks c @ [(d, g)])" for g'
        using that * gw(1) D(4) [of g'] True by auto
    qed (use D(1,2) True now gw in auto)
  qed
qed

lemma time_same: "same_deadlines c c' \<Longrightarrow> dl_time_inv x c \<Longrightarrow> dl_time_inv x c'"
proof -
  assume s: "same_deadlines c c'" and i: "dl_time_inv x c"
  show ?thesis
    by (rule time_mono [OF i get_dl_same [OF s]]) (use s in \<open>simp_all add: same_deadlines_def\<close>)
qed

lemma step_same_or:
  assumes "dc_step c c'"
  obtains (same) "same_deadlines c c'" | (set) d t where "c' = dc_set d t c" | (fires) d where "timer_fires d c = Some c'"
  | (callback) cs d g cs' where "dc_callbacks c = cs @ (d, g) # cs'" "c' = dc_expire d g (c\<lparr>dc_callbacks := cs @ cs'\<rparr>)"
  | (tick) t where "dc_now c \<le> t" "c' = c\<lparr>dc_now := t\<rparr>"
  using assms
proof (cases rule: dc_step.cases)
  case (Pump e)
  then show ?thesis using data_ops_keep_deadlines(1) same by blast
next
  case Stop
  then show ?thesis using data_ops_keep_deadlines(5) same by blast
next
  case (Begin r n)
  then show ?thesis using data_ops_keep_deadlines(2) same by blast
next
  case (Read r e)
  then show ?thesis using data_ops_keep_deadlines(3) same by blast
next
  case (Return r v)
  then show ?thesis using data_ops_keep_deadlines(4) same by blast
next
  case (SetDl d t)
  then show ?thesis using set by blast
next
  case (Fires d)
  then show ?thesis using fires by blast
next
  case (Callback cs d g cs')
  then show ?thesis using callback by blast
next
  case (Tick t)
  then show ?thesis using tick by blast
qed

lemma sets_mono:
  assumes "dc_step c c'" shows "dl_sets (get_dl d c) \<le> dl_sets (get_dl d c')"
  using assms
proof (cases rule: step_same_or)
  case same
  then show ?thesis by (simp add: get_dl_same)
next
  case (set x t)
  then show ?thesis by (cases "d = x") (simp_all add: dc_set_spec)
next
  case (fires x)
  then show ?thesis by (rule timer_fires_spec) simp
qed (simp_all add: dc_expire_spec)

lemma time_step:
  assumes "dc_step c c'" "few_sets c" "dl_time_inv x c" shows "dl_time_inv x c'"
  using assms(1)
proof (cases rule: step_same_or)
  case same
  then show ?thesis using assms(3) by (rule time_same)
next
  case (set d t)
  then show ?thesis using time_set [OF assms(3)] by simp
next
  case (fires d)
  then show ?thesis by (rule time_fires [OF assms(3)])
next
  case (callback cs d g cs')
  then show ?thesis using time_callback [OF assms(3,2)] by simp
next
  case (tick t)
  then show ?thesis by (intro time_mono [OF assms(3)]) simp_all
qed

lemma dc_init:
  "queue_inv (withDeadlines now)" "buffers_inv (withDeadlines now)" "chan_inv (withDeadlines now)" "dl_time_inv d (withDeadlines now)"
  by (cases d; simp add: withDeadlines_def new_deadline_def queue_inv_def in_hand_def buffers_inv_def pump_holds_def chan_inv_def
      waits_on_def dl_time_inv_def Let_def get_dl_def split: dir.splits)+

lemma dc_reachable_inv:
  assumes "dc_reachable c"
  shows "queue_inv c \<and> buffers_inv c \<and> chan_inv c \<and> (few_sets c \<longrightarrow> (\<forall>d. dl_time_inv d c))"
proof -
  obtain now where "dc_step\<^sup>*\<^sup>* (withDeadlines now) c" using assms by (auto simp: dc_reachable_def)
  then show ?thesis
  proof (induction rule: rtranclp_induct)
    case base
    then show ?case using dc_init by blast
  next
    case (step c c')
    have "few_sets c' \<Longrightarrow> few_sets c"
      using sets_mono [OF step.hyps(2)] unfolding few_sets_def by (meson le_less_trans)
    then show ?case
      using step queue_step buffers_step chan_step time_step by blast
  qed
qed

lemma buffers_free:
  assumes "buffers_inv c" "map_of (dc_readers c) r = Some (RConsume n p)"
  shows "dc_free c < substrateQueue"
proof -
  have "(r, RConsume n p) \<in> set (dc_readers c)" using assms(2) by (rule map_of_SomeD)
  moreover have "\<forall>x \<in> set (AList.delete r (dc_readers c)). 0 \<le> holding (snd x)" by (simp add: holding_nonneg)
  then have "0 \<le> table_sum holding (AList.delete r (dc_readers c))" by (rule table_sum_nonneg)
  then have "1 \<le> table_sum holding (dc_readers c)"
    using assms table_sum_delete [of "dc_readers c" r "RConsume n p" holding] by (simp add: buffers_inv_def holding_def)
  moreover have "0 \<le> pump_holds c" by (simp add: pump_holds_def split: pump_state.splits)
  ultimately show ?thesis using assms(1) by (auto simp: buffers_inv_def)
qed

lemma chan_read:
  assumes "chan_inv c"
  shows "dl_expired (dc_read c) \<in> dc_closed c \<longleftrightarrow> dl_fired (get_dl DRead c)"
    "waits_on c ch \<Longrightarrow> ch = dl_expired (dc_read c) \<or> ch \<in> dc_closed c"
proof -
  have "dl_expired (get_dl DRead c) \<in> dc_closed c \<longleftrightarrow> dl_fired (get_dl DRead c)"
    and "waits_on c ch \<Longrightarrow> ch = dl_expired (get_dl DRead c) \<or> ch \<in> dc_closed c"
    using assms unfolding chan_inv_def by blast+
  then show "dl_expired (dc_read c) \<in> dc_closed c \<longleftrightarrow> dl_fired (get_dl DRead c)"
    "waits_on c ch \<Longrightarrow> ch = dl_expired (dc_read c) \<or> ch \<in> dc_closed c" by (simp_all add: get_dl_def)
qed

section \<open>Properties\<close>

text \<open>C14: the punched connection behind the wrapper is still a datagram connection. In every interleaving of
  the pump, any number of reads, deadlines, timers and \<^verbatim>\<open>stop\<close>: what readers have taken, then what is
  queued, is what the substrate delivered, in order, short of at most the one datagram in the pump's
  hands; the queue is bounded; returning a buffer never blocks a reader; and a read reports the end of
  the substrate only after every datagram it had delivered was taken, unless the connection was stopped.\<close>

theorem deadlineConn_delivers_in_order:
  assumes "dc_reachable c"
  shows "(\<exists>rest. dc_arrived c = dc_taken c @ dc_packets c @ rest \<and> length rest \<le> 1)
     \<and> length (dc_packets c) \<le> substrateQueue
     \<and> (\<forall>r n p. map_of (dc_readers c) r = Some (RConsume n p) \<longrightarrow>
          (\<exists>c'. read_step r Consume c = Some c' \<and> map_of (dc_readers c') r = Some (RDone (Inr (take n p)))))
     \<and> (\<forall>r c'. read_step r DrainEmpty c = Some c' \<longrightarrow> dc_stopped c \<longrightarrow> dc_done c \<or> dc_taken c = dc_arrived c)"
proof (intro conjI allI impI)
  have q: "queue_inv c" and b: "buffers_inv c" using dc_reachable_inv [OF assms] by blast+
  show "\<exists>rest. dc_arrived c = dc_taken c @ dc_packets c @ rest \<and> length rest \<le> 1"
  proof (intro exI [of _ "in_hand c @ dc_dropped c"] conjI)
    show "dc_arrived c = dc_taken c @ dc_packets c @ in_hand c @ dc_dropped c" using q by (simp add: queue_inv_def)
    show "length (in_hand c @ dc_dropped c) \<le> 1"
      using q by (cases "dc_dropped c = []") (auto simp: queue_inv_def in_hand_def split: pump_state.splits)
  qed
  show "length (dc_packets c) \<le> substrateQueue" using q by (simp add: queue_inv_def)
  show "\<exists>c'. read_step r Consume c = Some c' \<and> map_of (dc_readers c') r = Some (RDone (Inr (take n p)))"
    if "map_of (dc_readers c) r = Some (RConsume n p)" for r n p
    using that buffers_free [OF b that] by (simp add: put_reader_def update_conv')
  show "dc_done c \<or> dc_taken c = dc_arrived c" if "read_step r DrainEmpty c = Some c'" "dc_stopped c" for r c'
  proof -
    have "dc_packets c = []" using that(1) by (auto split: option.splits read_state.splits if_splits)
    moreover have "in_hand c = []" using q that(2) by (auto simp: queue_inv_def in_hand_def split: pump_state.splits)
    ultimately show ?thesis using q by (auto simp: queue_inv_def)
  qed
qed

text \<open>Deadlines do what a socket's do. In every reachable state a read deadline in the past releases every
  read: one already waiting can return at once, one that is about to check or that starts later fails
  without taking a datagram, however many are queued; clearing the deadline ends that; and a deadline
  never expires early: while a direction was set fewer than \<open>2^64\<close> times its channel is closed only if
  the deadline it now has lies in the past, whatever callbacks of earlier timers are still running.\<close>

theorem past_deadline_releases_reads:
  assumes "dc_reachable c" "t \<le> dc_now c"
  shows "(\<forall>r n ch. map_of (dc_readers (SetReadDeadline (Some t) c)) r = Some (RWait n ch) \<longrightarrow>
        read_step r SeeExpired (SetReadDeadline (Some t) c)
          = Some (put_reader r (RDone (Inl ErrDeadlineExceeded)) (SetReadDeadline (Some t) c)))
     \<and> (\<forall>r n ch. map_of (dc_readers (SetReadDeadline (Some t) c)) r = Some (RCheck n ch) \<longrightarrow>
        read_step r Check (SetReadDeadline (Some t) c)
          = Some (put_reader r (RDone (Inl ErrDeadlineExceeded)) (SetReadDeadline (Some t) c)))
     \<and> (\<forall>r n c'. read_begin r n (SetReadDeadline (Some t) c) = Some c' \<longrightarrow>
        read_step r Check c' = Some (put_reader r (RDone (Inl ErrDeadlineExceeded)) c'))
     \<and> (\<forall>r n c'. read_begin r n (SetReadDeadline None c) = Some c' \<longrightarrow>
        read_step r Check c' = Some (put_reader r (RWait n (dl_expired (dc_read c'))) c'))
     \<and> (few_sets c \<longrightarrow> (\<forall>d. dl_expired (get_dl d c) \<in> dc_closed c \<longrightarrow> past (dl_current (get_dl d c)) c))"
proof -
  have i: "chan_inv c" using dc_reachable_inv [OF assms(1)] by blast
  let ?p = "SetReadDeadline (Some t) c" and ?n = "SetReadDeadline None c"
  have ip: "chan_inv ?p" "chan_inv ?n" using chan_set [OF i] by (simp_all add: SetReadDeadline_def)
  have fired: "dl_expired (dc_read ?p) \<in> dc_closed ?p" "dl_expired (dc_read ?n) \<notin> dc_closed ?n"
  proof -
    have "dl_fired (get_dl DRead ?p)" "\<not> dl_fired (get_dl DRead ?n)"
      using assms(2) by (simp_all add: SetReadDeadline_def dc_set_spec(1) past_def)
    then show "dl_expired (dc_read ?p) \<in> dc_closed ?p" "dl_expired (dc_read ?n) \<notin> dc_closed ?n"
      using chan_read(1) [OF ip(1)] chan_read(1) [OF ip(2)] by blast+
  qed
  have waits: "ch \<in> dc_closed ?p" if "waits_on ?p ch" for ch using chan_read(2) [OF ip(1) that] fired(1) by blast
  have started: "map_of (dc_readers c') r = Some (RCheck n (dl_expired (dc_read c0)))" "dc_closed c' = dc_closed c0" "dc_read c' = dc_read c0"
    if "read_begin r n c0 = Some c'" for r n c0 c'
    using that by (auto simp: read_begin_def put_reader_def update_conv' split: if_splits)
  have "past (dl_current (get_dl d c)) c" if "few_sets c" "dl_expired (get_dl d c) \<in> dc_closed c" for d
    using dc_reachable_inv [OF assms(1)] that dl_time_invD(2) i unfolding chan_inv_def by blast
  moreover have "ch \<in> dc_closed ?p" if "map_of (dc_readers ?p) r = Some (RWait n ch) \<or> map_of (dc_readers ?p) r = Some (RCheck n ch)" for r n ch
    using waits [of ch] that unfolding waits_on_def by blast
  ultimately show ?thesis using fired started by auto
qed

text \<open>A connection on which a datagram arrived and a read waits.\<close>

definition sample_conn :: deadlineConn where
  "sample_conn = the (read_step 7 Check (the (read_begin 7 100
     (the (pump_step (ReadOK [1, 2]) (the (pump_step GotBuffer (withDeadlines 5))))))))"

lemma sample_conn_reachable: "dc_reachable sample_conn"
proof -
  let ?c0 = "withDeadlines 5"
  let ?c1 = "the (pump_step GotBuffer ?c0)"
  let ?c2 = "the (pump_step (ReadOK [1, 2]) ?c1)"
  let ?c3 = "the (read_begin 7 100 ?c2)"
  note d = withDeadlines_def new_deadline_def substrateQueue_def substrateMTU_def read_begin_def put_reader_def
  have "dc_step ?c0 ?c1" by (rule dc_step.Pump [of GotBuffer]) (simp add: d)
  moreover have "dc_step ?c1 ?c2" by (rule dc_step.Pump [of "ReadOK [1, 2]"]) (simp add: d)
  moreover have "dc_step ?c2 ?c3" by (rule dc_step.Begin [of 7 100]) (simp add: d)
  moreover have "dc_step ?c3 sample_conn" unfolding sample_conn_def by (rule dc_step.Read [of 7 Check]) (simp add: d)
  ultimately have "dc_step\<^sup>*\<^sup>* ?c0 sample_conn" by (meson converse_rtranclp_into_rtranclp rtranclp.rtrancl_refl)
  then show ?thesis unfolding dc_reachable_def by blast
qed

theorem deadlineConn_delivers_in_order_witness:
  "\<exists>rest. [[1, 2]] = dc_taken sample_conn @ dc_packets sample_conn @ rest \<and> length rest \<le> 1"
proof -
  have "dc_arrived sample_conn = [[1, 2]]"
    by (simp add: sample_conn_def withDeadlines_def new_deadline_def substrateQueue_def substrateMTU_def read_begin_def put_reader_def)
  then show ?thesis using deadlineConn_delivers_in_order [OF sample_conn_reachable] by simp
qed

theorem past_deadline_releases_reads_witness:
  "read_step 7 SeeExpired (SetReadDeadline (Some 5) sample_conn)
     = Some (put_reader 7 (RDone (Inl ErrDeadlineExceeded)) (SetReadDeadline (Some 5) sample_conn))"
proof -
  have "map_of (dc_readers (SetReadDeadline (Some 5) sample_conn)) 7 = Some (RWait 100 0)" "dc_now sample_conn = 5"
    by (simp_all add: sample_conn_def withDeadlines_def new_deadline_def substrateQueue_def substrateMTU_def read_begin_def
        put_reader_def SetReadDeadline_def dc_set_def get_dl_def put_dl_def Let_def)
  then show ?thesis using past_deadline_releases_reads [OF sample_conn_reachable, of 5] by simp
qed

end
