(* ===== verification/Gostrings.thy ===== *)
theory Gostrings
  imports Prelude
begin

text \<open>
  What the components use of Go's \<^verbatim>\<open>strings\<close>, \<^verbatim>\<open>encoding/hex\<close> and decimal formatting, on ASCII text:
  \<^verbatim>\<open>Split\<close> and \<^verbatim>\<open>SplitSeq\<close> on a one-character separator, \<^verbatim>\<open>Cut\<close>, \<^verbatim>\<open>TrimSpace\<close>, \<^verbatim>\<open>hex.EncodeToString\<close> and
  \<^verbatim>\<open>%d\<close>, with the facts that undo them.
\<close>

section \<open>Splitting and cutting\<close>

fun Split :: "char \<Rightarrow> string \<Rightarrow> string list" where
  "Split c [] = [[]]"
| "Split c (x # xs) =
     (if x = c then [] # Split c xs else case Split c xs of [] \<Rightarrow> [[x]] | w # ws \<Rightarrow> (x # w) # ws)"

definition Cut :: "char \<Rightarrow> string \<Rightarrow> string \<times> string \<times> bool" where
  "Cut c s = (if c \<in> set s then (takeWhile (\<lambda>x. x \<noteq> c) s, tl (dropWhile (\<lambda>x. x \<noteq> c) s), True) else (s, [], False))"

definition isSpace :: "char \<Rightarrow> bool" where
  "isSpace c = (c \<in> {CHR 0x09, CHR 0x0A, CHR 0x0B, CHR 0x0C, CHR 0x0D, CHR '' ''})"

definition TrimSpace :: "string \<Rightarrow> string" where
  "TrimSpace s = rev (dropWhile isSpace (rev (dropWhile isSpace s)))"

lemma Split_not_Nil [simp]: "Split c s \<noteq> []"
  by (induction s) (auto split: list.splits)

lemma Split_single: "c \<notin> set w \<Longrightarrow> Split c w = [w]"
  by (induction w) auto

lemma Split_append: "c \<notin> set w \<Longrightarrow> Split c (w @ c # s) = w # Split c s"
  by (induction w) auto

lemma Split_concat:
  "(\<And>w. w \<in> set ws \<Longrightarrow> c \<notin> set w) \<Longrightarrow> Split c (concat (map (\<lambda>w. w @ [c]) ws)) = ws @ [[]]"
  by (induction ws) (auto simp: Split_append)

lemma takeWhile_neq: "c \<notin> set k \<Longrightarrow> takeWhile (\<lambda>x. x \<noteq> c) (k @ c # v) = k"
  by (induction k) auto

lemma dropWhile_neq: "c \<notin> set k \<Longrightarrow> dropWhile (\<lambda>x. x \<noteq> c) (k @ c # v) = c # v"
  by (induction k) auto

lemma Cut_append: "c \<notin> set k \<Longrightarrow> Cut c (k @ c # v) = (k, v, True)"
  by (simp add: Cut_def takeWhile_neq dropWhile_neq)

text \<open>Text without white space.\<close>

definition no_space :: "string \<Rightarrow> bool" where
  "no_space s = list_all (\<lambda>c. \<not> isSpace c) s"

lemma no_space_append [simp]: "no_space (s @ t) = (no_space s \<and> no_space t)"
  by (simp add: no_space_def)

lemma no_space_Cons [simp]: "no_space (c # s) = (\<not> isSpace c \<and> no_space s)"
  by (simp add: no_space_def)

lemma no_space_Nil [simp]: "no_space []"
  by (simp add: no_space_def)

lemma dropWhile_no_space: "no_space s \<Longrightarrow> dropWhile isSpace s = s"
  by (cases s) auto

lemma no_space_rev [simp]: "no_space (rev s) = no_space s"
  by (simp add: no_space_def list_all_iff)

lemma TrimSpace_no_space: "no_space s \<Longrightarrow> TrimSpace s = s"
  by (simp add: TrimSpace_def dropWhile_no_space)

lemma no_space_newline: "no_space s \<Longrightarrow> CHR 0x0A \<notin> set s"
  by (auto simp: no_space_def list_all_iff isSpace_def)

lemma set_TrimSpace: "set (TrimSpace s) \<subseteq> set s"
  unfolding TrimSpace_def by (metis set_dropWhileD set_rev subsetI)

lemma rev_dropWhile_rev: "\<exists>t'. t = rev (dropWhile P (rev t)) @ t' \<and> list_all P t'"
proof -
  have "rev t = takeWhile P (rev t) @ dropWhile P (rev t)" by simp
  then have "t = rev (dropWhile P (rev t)) @ rev (takeWhile P (rev t))" by (metis rev_append rev_rev_ident)
  then show ?thesis by (intro exI [of _ "rev (takeWhile P (rev t))"]) (auto simp: list_all_iff dest: set_takeWhileD)
qed

lemma TrimSpace_idem: "TrimSpace (TrimSpace s) = TrimSpace s"
proof -
  let ?d = "dropWhile isSpace s"
  obtain t' where t': "?d = TrimSpace s @ t'" "list_all isSpace t'"
    using rev_dropWhile_rev [of ?d isSpace] unfolding TrimSpace_def by blast
  have "dropWhile isSpace (TrimSpace s) = TrimSpace s"
  proof (cases "TrimSpace s")
    case (Cons c cs)
    then have "hd ?d = c" "?d \<noteq> []" using t' by auto
    then have "\<not> isSpace c" using hd_dropWhile [of isSpace s] by auto
    then show ?thesis using Cons by simp
  qed simp
  moreover have "dropWhile isSpace (rev (TrimSpace s)) = rev (TrimSpace s)"
    unfolding TrimSpace_def rev_rev_ident by simp
  ultimately show ?thesis by (simp add: TrimSpace_def [of "TrimSpace s"])
qed

lemma Split_no_sep: "w \<in> set (Split c s) \<Longrightarrow> c \<notin> set w"
proof (induction s arbitrary: w)
  case (Cons x xs)
  then show ?case by (auto split: if_splits list.splits)
qed simp

section \<open>Hexadecimal and decimal\<close>

definition hextable :: string where "hextable = ''0123456789abcdef''"

fun hexEncode :: "byte list \<Rightarrow> string" where
  "hexEncode [] = []"
| "hexEncode (b # bs) = hextable ! (unat b div 16) # hextable ! (unat b mod 16) # hexEncode bs"

text \<open>The reader of the text, to state that nothing is lost.\<close>

definition hexValue :: "char \<Rightarrow> nat option" where
  "hexValue c = (case filter (\<lambda>i. hextable ! i = c) [0..<16] of [] \<Rightarrow> None | i # _ \<Rightarrow> Some i)"

fun hexDecode :: "string \<Rightarrow> byte list option" where
  "hexDecode [] = Some []"
| "hexDecode [c] = None"
| "hexDecode (c # d # s) =
     (case (hexValue c, hexValue d, hexDecode s) of
        (Some x, Some y, Some bs) \<Rightarrow> Some (of_nat (16 * x + y) # bs) | _ \<Rightarrow> None)"

lemma nat_16_cases: "(i :: nat) < 16 \<Longrightarrow> i \<in> set [0..<16]"
  by simp

lemma hexValue_hextable: "i < 16 \<Longrightarrow> hexValue (hextable ! i) = Some i"
proof -
  have "\<forall>i \<in> set [0..<16]. hexValue (hextable ! i) = Some i"
    by (simp add: hexValue_def hextable_def upt_rec)
  then show "i < 16 \<Longrightarrow> hexValue (hextable ! i) = Some i" by simp
qed

lemma hextable_no_space: "i < 16 \<Longrightarrow> \<not> isSpace (hextable ! i) \<and> hextable ! i \<noteq> CHR ''=''"
proof -
  have "\<forall>i \<in> set [0..<16]. \<not> isSpace (hextable ! i) \<and> hextable ! i \<noteq> CHR ''=''"
    by (simp add: isSpace_def hextable_def upt_rec)
  then show "i < 16 \<Longrightarrow> \<not> isSpace (hextable ! i) \<and> hextable ! i \<noteq> CHR ''=''" by simp
qed

lemma byte_div_16: "unat (b :: byte) div 16 < 16"
  using unsigned_less [of b, where 'a = nat] by (simp add: less_mult_imp_div_less)

lemma hexDecode_Encode [simp]: "hexDecode (hexEncode bs) = Some bs"
proof (induction bs)
  case (Cons b bs)
  have "of_nat (16 * (unat b div 16) + unat b mod 16) = b" by (simp add: mult.commute)
  then show ?case using Cons by (simp add: hexValue_hextable byte_div_16)
qed simp

lemma length_hexEncode [simp]: "length (hexEncode bs) = 2 * length bs"
  by (induction bs) auto

lemma no_space_hexEncode [simp]: "no_space (hexEncode bs)"
  by (induction bs) (auto simp: hextable_no_space byte_div_16)

definition digit :: "nat \<Rightarrow> char" where "digit i = char_of (48 + i)"

fun decimal :: "nat \<Rightarrow> string" where
  "decimal n = (if n < 10 then [digit n] else decimal (n div 10) @ [digit (n mod 10)])"

declare decimal.simps [simp del]

lemma digit_no_space: "i < 10 \<Longrightarrow> \<not> isSpace (digit i)"
proof -
  have "\<forall>i \<in> set [0..<10]. \<not> isSpace (digit i)"
    by (simp add: isSpace_def digit_def upt_rec char_of_def)
  then show "i < 10 \<Longrightarrow> \<not> isSpace (digit i)" by simp
qed

lemma no_space_decimal [simp]: "no_space (decimal n)"
  by (induction n rule: decimal.induct) (subst decimal.simps, auto simp: digit_no_space)

section \<open>Lower case\<close>

definition ToLower :: "string \<Rightarrow> string" where
  "ToLower s = map (\<lambda>c. if 65 \<le> (of_char c :: nat) \<and> (of_char c :: nat) \<le> 90 then char_of ((of_char c :: nat) + 32) else c) s"

lemma ToLower_idem: "ToLower (ToLower s) = ToLower s"
  by (auto simp: ToLower_def)

section \<open>Base64\<close>

text \<open>\<^verbatim>\<open>base64.StdEncoding\<close>: three bytes in four characters, padded with \<open>=\<close>. The decoder skips line breaks and,
  not being strict, ignores the unused bits of the last character.\<close>

definition b64table :: string where
  "b64table = ''ABCDEFGHIJKLMNOPQRSTUVWXYZabcdefghijklmnopqrstuvwxyz0123456789+/''"

definition b64 :: "nat \<Rightarrow> char" where "b64 i = b64table ! i"

definition b64val :: "char \<Rightarrow> nat option" where
  "b64val c = (case filter (\<lambda>i. b64 i = c) [0..<64] of [] \<Rightarrow> None | i # _ \<Rightarrow> Some i)"

fun base64Encode :: "byte list \<Rightarrow> string" where
  "base64Encode [] = []"
| "base64Encode [a] = [b64 (unat a div 4), b64 (unat a mod 4 * 16), CHR ''='', CHR ''='']"
| "base64Encode [a, b] =
     [b64 (unat a div 4), b64 (unat a mod 4 * 16 + unat b div 16), b64 (unat b mod 16 * 4), CHR ''='']"
| "base64Encode (a # b # c # bs) =
     b64 (unat a div 4) # b64 (unat a mod 4 * 16 + unat b div 16) # b64 (unat b mod 16 * 4 + unat c div 64)
     # b64 (unat c mod 64) # base64Encode bs"

fun decode_quads :: "string \<Rightarrow> byte list option" where
  "decode_quads [] = Some []"
| "decode_quads (p # q # r # s # rest) =
     (case (b64val p, b64val q) of
        (Some x, Some y) \<Rightarrow>
          if r = CHR ''='' \<and> s = CHR ''='' \<and> rest = [] then Some [of_nat (x * 4 + y div 16)]
          else (case b64val r of
                  None \<Rightarrow> None
                | Some z \<Rightarrow>
                    if s = CHR ''='' \<and> rest = [] then Some [of_nat (x * 4 + y div 16), of_nat (y mod 16 * 16 + z div 4)]
                    else (case (b64val s, decode_quads rest) of
                            (Some w, Some bs) \<Rightarrow> Some (of_nat (x * 4 + y div 16) # of_nat (y mod 16 * 16 + z div 4)
                               # of_nat (z mod 4 * 64 + w) # bs)
                          | _ \<Rightarrow> None))
      | _ \<Rightarrow> None)"
| "decode_quads _ = None"

definition base64Decode :: "string \<Rightarrow> byte list option" where
  "base64Decode s = decode_quads (filter (\<lambda>c. c \<noteq> CHR 0x0A \<and> c \<noteq> CHR 0x0D) s)"

lemma b64_all: "list_all (\<lambda>i. b64val (b64 i) = Some i \<and> b64 i \<noteq> CHR ''='' \<and> b64 i \<noteq> CHR 0x0A \<and> b64 i \<noteq> CHR 0x0D) [0..<64]"
  by code_simp

lemma b64_ok: "i < 64 \<Longrightarrow> b64val (b64 i) = Some i \<and> b64 i \<noteq> CHR ''='' \<and> b64 i \<noteq> CHR 0x0A \<and> b64 i \<noteq> CHR 0x0D"
  using b64_all by (simp add: list_all_iff)

lemma byte_digits:
  fixes a b c :: byte
  shows "unat a div 4 < 64" "unat a mod 4 * 16 + unat b div 16 < 64" "unat b mod 16 * 4 + unat c div 64 < 64"
    "unat a mod 4 * 16 < 64" "unat b mod 16 * 4 < 64"
  using unsigned_less [of a, where 'a = nat] unsigned_less [of b, where 'a = nat] unsigned_less [of c, where 'a = nat]
  by simp_all

lemma byte_rejoin:
  fixes a b c :: byte
  shows "(of_nat (unat a div 4 * 4 + (unat a mod 4 * 16 + unat b div 16) div 16) :: byte) = a"
    "(of_nat ((unat a mod 4 * 16 + unat b div 16) mod 16 * 16 + (unat b mod 16 * 4 + unat c div 64) div 4) :: byte) = b"
    "(of_nat ((unat b mod 16 * 4 + unat c div 64) mod 4 * 64 + unat c mod 64) :: byte) = c"
proof -
  have lt: "unat b div 16 < 16" "unat c div 64 < 4"
    using unsigned_less [of b, where 'a = nat] unsigned_less [of c, where 'a = nat] by simp_all
  have "unat a div 4 * 4 + (unat a mod 4 * 16 + unat b div 16) div 16 = unat a" using lt by simp
  then show "(of_nat (unat a div 4 * 4 + (unat a mod 4 * 16 + unat b div 16) div 16) :: byte) = a" by (simp only:) simp
  have "(unat a mod 4 * 16 + unat b div 16) mod 16 * 16 + (unat b mod 16 * 4 + unat c div 64) div 4 = unat b"
    using lt by simp
  then show "(of_nat ((unat a mod 4 * 16 + unat b div 16) mod 16 * 16 + (unat b mod 16 * 4 + unat c div 64) div 4) :: byte) = b"
    by (simp only:) simp
  have "(unat b mod 16 * 4 + unat c div 64) mod 4 * 64 + unat c mod 64 = unat c" using lt by simp
  then show "(of_nat ((unat b mod 16 * 4 + unat c div 64) mod 4 * 64 + unat c mod 64) :: byte) = c" by (simp only:) simp
qed

lemma decode_quads_Encode: "decode_quads (base64Encode bs) = Some bs"
proof (induction bs rule: base64Encode.induct)
  case (2 a)
  then show ?case using b64_ok byte_digits(1,4) byte_rejoin(1) [of a 0] by simp
next
  case (3 a b)
  then show ?case using b64_ok byte_digits byte_rejoin(1) [of a b] byte_rejoin(2) [of a b 0] by simp
next
  case (4 a b c bs)
  have "unat c mod 64 < 64" by simp
  then show ?case using 4 b64_ok byte_digits byte_rejoin(1) [of a b] byte_rejoin(2) [of a b c] byte_rejoin(3) [of b c] by simp
qed simp

lemma base64Encode_no_breaks: "filter (\<lambda>c. c \<noteq> CHR 0x0A \<and> c \<noteq> CHR 0x0D) (base64Encode bs) = base64Encode bs"
proof (induction bs rule: base64Encode.induct)
  case (4 a b c bs)
  have "unat c mod 64 < 64" by simp
  then show ?case using 4 b64_ok byte_digits by simp
qed (use b64_ok byte_digits in simp_all)

lemma base64_roundtrip [simp]: "base64Decode (base64Encode bs) = Some bs"
  by (simp add: base64Decode_def base64Encode_no_breaks decode_quads_Encode)

end
