(* ===== verification/Handover.thy ===== *)
theory Handover
  imports Gomap
begin

text \<open>
  How a rung gives the punched connection back. Both data planes read one shared substrate they do not
  own, and both must stop reading before the next rung starts: WireGuard's \<^verbatim>\<open>Bind\<close>
  (\<^verbatim>\<open>internal/wireguard/bind.go\<close>) and QUIC's \<^verbatim>\<open>packetConn\<close> (\<^verbatim>\<open>internal/quictun/packetconn.go\<close>). Each
  sets a read deadline in the past, waits for its reader to report back, and closes the substrate only
  when the reader did not within a grace period. The substrate is what a rung can tell of it: whether its
  read deadline lies in the past and whether it was closed. Every locked section, channel operation and
  substrate call is one step; the grace timer may run out at any time.

  The contract both promise is the locale \<open>substrate_user\<close>.
\<close>

record substrate =
  su_past :: bool
  su_closed :: bool

definition fresh_substrate :: substrate where
  "fresh_substrate = \<lparr>su_past = False, su_closed = False\<rparr>"

section \<open>The contract\<close>

text \<open>\<open>returned s\<close>: the close has returned without error. From then on no reader of this user is inside the
  substrate's \<^verbatim>\<open>Read\<close>, whatever happens next.\<close>

locale substrate_user =
  fixes step :: "'s \<Rightarrow> 's \<Rightarrow> bool"
    and start :: "'s \<Rightarrow> bool"
    and returned :: "'s \<Rightarrow> bool"
    and reading :: "'s \<Rightarrow> bool"
    and ok :: "'s \<Rightarrow> bool"
  assumes ok_start: "start s \<Longrightarrow> ok s"
    and ok_step: "ok s \<Longrightarrow> step s s' \<Longrightarrow> ok s'"
    and returned_stable: "returned s \<Longrightarrow> step s s' \<Longrightarrow> returned s'"
    and returned_not_reading: "ok s \<Longrightarrow> returned s \<Longrightarrow> \<not> reading s"
begin

lemma ok_steps: "step\<^sup>*\<^sup>* s s' \<Longrightarrow> ok s \<Longrightarrow> ok s'"
  by (induction rule: rtranclp_induct) (auto intro: ok_step)

lemma returned_steps: "step\<^sup>*\<^sup>* s s' \<Longrightarrow> returned s \<Longrightarrow> returned s'"
  by (induction rule: rtranclp_induct) (auto intro: returned_stable)

lemma handed_back:
  assumes "start s0" "step\<^sup>*\<^sup>* s0 s" "returned s" "step\<^sup>*\<^sup>* s s'"
  shows "\<not> reading s'"
  using assms ok_start ok_steps returned_steps returned_not_reading by metis

end

section \<open>WireGuard's Bind\<close>

text \<open>One opening of the bind: its two channels and where the device's receive goroutine is.
  \<open>RvErr timeout closed\<close> is a failed \<^verbatim>\<open>Read\<close>: whether the error is a timeout, and whether it wraps
  \<^verbatim>\<open>net.ErrClosed\<close> because the substrate's owner closed it.\<close>

datatype recv_state = RvIdle | RvTop | RvRead | RvErr bool bool | RvGone

record bind_opening =
  op_closed :: bool
  op_exited :: bool
  op_recv :: recv_state

text \<open>Where a caller of \<^verbatim>\<open>Close\<close> is that found the bind open.\<close>

datatype close_state = CSet nat | CWait nat | CClear nat | CReturned nat | CAbandon nat | CAbandoned nat

record Bind =
  b_openings :: "bind_opening list"
  b_open :: "nat option"
  b_abandoned :: bool
  b_sub :: substrate
  b_closing :: "nat \<rightharpoonup> close_state"

definition NewBind :: "substrate \<Rightarrow> Bind" where
  "NewBind sub = \<lparr>b_openings = [], b_open = None, b_abandoned = False, b_sub = sub, b_closing = Map.empty\<rparr>"

datatype bind_error = ErrBindAlreadyOpen

definition bind_Open :: "u16 \<Rightarrow> Bind \<Rightarrow> (bind_error + u16) \<times> Bind" where
  "bind_Open port b =
     (case b_open b of
        Some _ \<Rightarrow> (Inl ErrBindAlreadyOpen, b)
      | None \<Rightarrow> (Inr port, b\<lparr>b_openings := b_openings b @ [\<lparr>op_closed = False, op_exited = False, op_recv = RvIdle\<rparr>],
                            b_open := Some (length (b_openings b))\<rparr>))"

definition upd_opening :: "nat \<Rightarrow> (bind_opening \<Rightarrow> bind_opening) \<Rightarrow> Bind \<Rightarrow> Bind" where
  "upd_opening e f b = b\<lparr>b_openings := (b_openings b)[e := f (b_openings b ! e)]\<rparr>"

text \<open>The receive function of opening \<open>e\<close> and the device goroutine that calls it. The goroutine leaves when
  it is told \<^verbatim>\<open>net.ErrClosed\<close>; after a close it may call in again and is told again. \<open>RCall False\<close> is a call without
  buffers, which fails before the loop.\<close>

datatype recv_event = RCall bool | RCheckTop | RData | RFail bool bool | RCheckErr

definition told_closed :: "bind_opening \<Rightarrow> bind_opening" where
  "told_closed x = x\<lparr>op_exited := True, op_recv := RvGone\<rparr>"

fun bind_receive :: "recv_event \<Rightarrow> bind_opening \<Rightarrow> bind_opening option" where
  "bind_receive (RCall bufs) x =
     (if op_recv x = RvIdle \<or> op_recv x = RvGone \<and> op_closed x
      then Some (if bufs then x\<lparr>op_recv := RvTop\<rparr> else x) else None)"
| "bind_receive RCheckTop x =
     (if op_recv x \<noteq> RvTop then None else if op_closed x then Some (told_closed x) else Some (x\<lparr>op_recv := RvRead\<rparr>))"
| "bind_receive RData x = (if op_recv x = RvRead then Some (x\<lparr>op_recv := RvIdle\<rparr>) else None)"
| "bind_receive (RFail timeout closed) x = (if op_recv x = RvRead then Some (x\<lparr>op_recv := RvErr timeout closed\<rparr>) else None)"
| "bind_receive RCheckErr x =
     (case op_recv x of
        RvErr timeout closed \<Rightarrow>
          if op_closed x then Some (told_closed x)
          else if timeout then Some (x\<lparr>op_recv := RvTop\<rparr>)
          else if closed then Some (told_closed x)
          else Some (x\<lparr>op_recv := RvIdle\<rparr>)
      | _ \<Rightarrow> None)"

text \<open>\<^verbatim>\<open>Close\<close>, by the caller \<open>k\<close>: the locked part; the deadline in the past, which a substrate may refuse; the
  wait, which ends with the reader's report or the grace timer; clearing the deadline. \<^verbatim>\<open>abandon\<close> is two
  steps: the flag under the lock, then the substrate's \<^verbatim>\<open>Close\<close>. \<^verbatim>\<open>Close\<close> on a bind that is not open does nothing.\<close>

datatype close_event = CBegin | CDeadline bool | CSawExited | CCleared | CGrace | CSubClose

definition bind_abandon :: "nat \<Rightarrow> nat \<Rightarrow> Bind \<Rightarrow> Bind" where
  "bind_abandon k e b = b\<lparr>b_abandoned := True, b_closing := (b_closing b)(k \<mapsto> CAbandon e)\<rparr>"

definition Abandoned :: "Bind \<Rightarrow> bool" where
  "Abandoned b = b_abandoned b"

fun bind_Close :: "nat \<Rightarrow> close_event \<Rightarrow> Bind \<Rightarrow> Bind option" where
  "bind_Close k CBegin b =
     (if b_closing b k \<noteq> None then None
      else case b_open b of
        None \<Rightarrow> Some b
      | Some e \<Rightarrow> Some ((upd_opening e (\<lambda>x. x\<lparr>op_closed := True\<rparr>) b)\<lparr>b_open := None,
                     b_closing := (b_closing b)(k \<mapsto> CSet e)\<rparr>))"
| "bind_Close k (CDeadline refused) b =
     (case b_closing b k of
        Some (CSet e) \<Rightarrow>
          if refused then Some (bind_abandon k e b)
          else Some (b\<lparr>b_sub := (b_sub b)\<lparr>su_past := True\<rparr>, b_closing := (b_closing b)(k \<mapsto> CWait e)\<rparr>)
      | _ \<Rightarrow> None)"
| "bind_Close k CSawExited b =
     (case b_closing b k of
        Some (CWait e) \<Rightarrow>
          if op_exited (b_openings b ! e) then Some (b\<lparr>b_closing := (b_closing b)(k \<mapsto> CClear e)\<rparr>) else None
      | _ \<Rightarrow> None)"
| "bind_Close k CCleared b =
     (case b_closing b k of
        Some (CClear e) \<Rightarrow>
          Some (b\<lparr>b_sub := (b_sub b)\<lparr>su_past := False\<rparr>, b_closing := (b_closing b)(k \<mapsto> CReturned e)\<rparr>)
      | _ \<Rightarrow> None)"
| "bind_Close k CGrace b = (case b_closing b k of Some (CWait e) \<Rightarrow> Some (bind_abandon k e b) | _ \<Rightarrow> None)"
| "bind_Close k CSubClose b =
     (case b_closing b k of
        Some (CAbandon e) \<Rightarrow>
          Some (b\<lparr>b_sub := (b_sub b)\<lparr>su_closed := True\<rparr>, b_closing := (b_closing b)(k \<mapsto> CAbandoned e)\<rparr>)
      | _ \<Rightarrow> None)"

fun bind_Send :: "(byte list \<Rightarrow> io_error option) \<Rightarrow> byte list list \<Rightarrow> io_error option" where
  "bind_Send w [] = None"
| "bind_Send w (buf # bufs) = (case w buf of Some e \<Rightarrow> Some e | None \<Rightarrow> bind_Send w bufs)"

definition BatchSize :: int where "BatchSize = 1"

inductive bind_step :: "Bind \<Rightarrow> Bind \<Rightarrow> bool" where
  Open: "bind_step b (snd (bind_Open port b))"
| Receive: "e < length (b_openings b) \<Longrightarrow> bind_receive ev (b_openings b ! e) = Some x \<Longrightarrow>
    bind_step b (upd_opening e (\<lambda>_. x) b)"
| Close: "bind_Close k ev b = Some b' \<Longrightarrow> bind_step b b'"

section \<open>QUIC's packetConn\<close>

datatype from_state = FWant | FTop | FRead | FErr | FDone bool

datatype detach_state = DNone | DSet | DWaiting | DHolding | DCleared | DDetached | DAbandoned

record packetConn =
  pc_token :: bool
  pc_closed :: bool
  pc_sub :: substrate
  pc_reads :: "nat \<rightharpoonup> from_state"
  pc_detach :: detach_state

definition newPacketConn :: "substrate \<Rightarrow> packetConn" where
  "newPacketConn sub = \<lparr>pc_token = True, pc_closed = False, pc_sub = sub, pc_reads = Map.empty, pc_detach = DNone\<rparr>"

text \<open>\<^verbatim>\<open>pinAddr\<close>: a UDP address is kept, anything else is replaced by a fixed loopback one. An address is its four
  bytes and its port; \<open>None\<close> stands for an address that is not a UDP one.\<close>

definition pinAddr :: "(byte list \<times> int) option \<Rightarrow> byte \<Rightarrow> byte list \<times> int" where
  "pinAddr addr seq = (case addr of Some a \<Rightarrow> a | None \<Rightarrow> ([127, 0, 0, seq], 1))"

text \<open>\<^verbatim>\<open>ReadFrom\<close> by the caller \<open>r\<close>. \<open>FDone closed\<close> is its return, with \<^verbatim>\<open>net.ErrClosed\<close> or not, the token given back.\<close>

datatype from_event = FCall | FToken | FCheck | FData | FFail | FCheckErr

fun ReadFrom :: "nat \<Rightarrow> from_event \<Rightarrow> packetConn \<Rightarrow> packetConn option" where
  "ReadFrom r FCall p =
     (if pc_reads p r \<in> {None, Some (FDone True), Some (FDone False)}
      then Some (p\<lparr>pc_reads := (pc_reads p)(r \<mapsto> FWant)\<rparr>) else None)"
| "ReadFrom r FToken p =
     (if pc_reads p r = Some FWant \<and> pc_token p
      then Some (p\<lparr>pc_token := False, pc_reads := (pc_reads p)(r \<mapsto> FTop)\<rparr>) else None)"
| "ReadFrom r FCheck p =
     (if pc_reads p r \<noteq> Some FTop then None
      else if pc_closed p then Some (p\<lparr>pc_token := True, pc_reads := (pc_reads p)(r \<mapsto> FDone True)\<rparr>)
      else Some (p\<lparr>pc_reads := (pc_reads p)(r \<mapsto> FRead)\<rparr>))"
| "ReadFrom r FData p =
     (if pc_reads p r = Some FRead
      then Some (p\<lparr>pc_token := True, pc_reads := (pc_reads p)(r \<mapsto> FDone False)\<rparr>) else None)"
| "ReadFrom r FFail p =
     (if pc_reads p r = Some FRead then Some (p\<lparr>pc_reads := (pc_reads p)(r \<mapsto> FErr)\<rparr>) else None)"
| "ReadFrom r FCheckErr p =
     (if pc_reads p r = Some FErr
      then Some (p\<lparr>pc_token := True, pc_reads := (pc_reads p)(r \<mapsto> FDone (pc_closed p))\<rparr>) else None)"

definition WriteTo :: "(byte list \<Rightarrow> io_error + nat) \<Rightarrow> byte list \<Rightarrow> packetConn \<Rightarrow> io_error + nat" where
  "WriteTo w b p = (if pc_closed p then Inl ErrClosed else w b)"

text \<open>\<^verbatim>\<open>SetReadDeadline\<close> only passes the deadline on. quic-go sets one in \<^verbatim>\<open>Transport.Close\<close>, which \<^verbatim>\<open>release\<close> calls
  before \<^verbatim>\<open>packetConn.Close\<close>, so the step relation has such calls only before the detach.\<close>

definition pc_SetReadDeadline :: "bool \<Rightarrow> packetConn \<Rightarrow> packetConn" where
  "pc_SetReadDeadline past p = p\<lparr>pc_sub := (pc_sub p)\<lparr>su_past := past\<rparr>\<rparr>"

text \<open>\<^verbatim>\<open>Close\<close> runs \<^verbatim>\<open>detach\<close> once; a later call returns the first one's result.\<close>

datatype detach_event = DClose | DDeadline | DToken | DClear | DBack | DGrace

fun detach :: "detach_event \<Rightarrow> packetConn \<Rightarrow> packetConn option" where
  "detach DClose p =
     (if pc_detach p = DNone then Some (p\<lparr>pc_closed := True, pc_detach := DSet\<rparr>) else None)"
| "detach DDeadline p =
     (if pc_detach p = DSet
      then Some (p\<lparr>pc_sub := (pc_sub p)\<lparr>su_past := True\<rparr>, pc_detach := DWaiting\<rparr>) else None)"
| "detach DToken p =
     (if pc_detach p = DWaiting \<and> pc_token p then Some (p\<lparr>pc_token := False, pc_detach := DHolding\<rparr>) else None)"
| "detach DClear p =
     (if pc_detach p = DHolding
      then Some (p\<lparr>pc_sub := (pc_sub p)\<lparr>su_past := False\<rparr>, pc_detach := DCleared\<rparr>) else None)"
| "detach DBack p = (if pc_detach p = DCleared then Some (p\<lparr>pc_token := True, pc_detach := DDetached\<rparr>) else None)"
| "detach DGrace p =
     (if pc_detach p = DWaiting
      then Some (p\<lparr>pc_sub := (pc_sub p)\<lparr>su_closed := True\<rparr>, pc_detach := DAbandoned\<rparr>) else None)"

text \<open>What a later \<^verbatim>\<open>Close\<close> returns, once the first has: \<open>Some True\<close> is \<^verbatim>\<open>ErrSubstrateAbandoned\<close>.\<close>

definition pc_closeErr :: "packetConn \<Rightarrow> bool option" where
  "pc_closeErr p = (case pc_detach p of DDetached \<Rightarrow> Some False | DAbandoned \<Rightarrow> Some True | _ \<Rightarrow> None)"

inductive pc_step :: "packetConn \<Rightarrow> packetConn \<Rightarrow> bool" where
  From: "ReadFrom r ev p = Some p' \<Longrightarrow> pc_step p p'"
| Deadline: "pc_detach p = DNone \<Longrightarrow> pc_step p (pc_SetReadDeadline past p)"
| Detach: "detach ev p = Some p' \<Longrightarrow> pc_step p p'"

section \<open>The bind keeps the contract\<close>

text \<open>A reader that reported the close is out of the substrate and stays out.\<close>

definition recv_inv :: "bind_opening \<Rightarrow> bool" where
  "recv_inv x \<longleftrightarrow> (op_exited x \<longrightarrow> op_recv x \<noteq> RvRead \<and> (op_recv x = RvGone \<or> op_closed x))
     \<and> (op_recv x = RvGone \<longrightarrow> op_exited x)"

lemma bind_receive_inv:
  assumes "bind_receive ev x = Some y" "recv_inv x"
  shows "recv_inv y \<and> op_closed y = op_closed x \<and> (op_exited x \<longrightarrow> op_exited y)
    \<and> (op_recv y = RvRead \<longrightarrow> op_recv x = RvRead \<or> \<not> op_closed x)"
  using assms by (cases ev) (auto simp: recv_inv_def told_closed_def split: if_splits recv_state.splits)

fun closing_of :: "close_state \<Rightarrow> nat" where
  "closing_of (CSet e) = e"
| "closing_of (CWait e) = e"
| "closing_of (CClear e) = e"
| "closing_of (CReturned e) = e"
| "closing_of (CAbandon e) = e"
| "closing_of (CAbandoned e) = e"

fun saw_exit :: "close_state \<Rightarrow> bool" where
  "saw_exit (CClear e) = True"
| "saw_exit (CReturned e) = True"
| "saw_exit _ = False"

fun gave_up :: "close_state \<Rightarrow> bool" where
  "gave_up (CAbandon e) = True"
| "gave_up (CAbandoned e) = True"
| "gave_up _ = False"

fun holds_deadline :: "close_state \<Rightarrow> bool" where
  "holds_deadline (CSet e) = False"
| "holds_deadline (CReturned e) = False"
| "holds_deadline _ = True"

definition bind_inv :: "Bind \<Rightarrow> bool" where
  "bind_inv b \<longleftrightarrow>
     (\<forall>e < length (b_openings b). recv_inv (b_openings b ! e))
   \<and> (\<forall>e. b_open b = Some e \<longrightarrow> e < length (b_openings b) \<and> \<not> op_closed (b_openings b ! e))
   \<and> (\<forall>k c. b_closing b k = Some c \<longrightarrow> closing_of c < length (b_openings b)
        \<and> op_closed (b_openings b ! closing_of c) \<and> (saw_exit c \<longrightarrow> op_exited (b_openings b ! closing_of c)))
   \<and> (\<forall>k k' c c'. b_closing b k = Some c \<longrightarrow> b_closing b k' = Some c' \<longrightarrow> closing_of c = closing_of c' \<longrightarrow> k = k')
   \<and> b_abandoned b = (\<exists>k c. b_closing b k = Some c \<and> gave_up c)
   \<and> su_closed (b_sub b) = (\<exists>k e. b_closing b k = Some (CAbandoned e))
   \<and> (su_past (b_sub b) \<longrightarrow> (\<exists>k c. b_closing b k = Some c \<and> holds_deadline c))"

lemma bind_invD:
  assumes "bind_inv b"
  shows "e < length (b_openings b) \<Longrightarrow> recv_inv (b_openings b ! e)"
    and "b_open b = Some e \<Longrightarrow> e < length (b_openings b) \<and> \<not> op_closed (b_openings b ! e)"
    and "b_closing b k = Some c \<Longrightarrow> closing_of c < length (b_openings b) \<and> op_closed (b_openings b ! closing_of c)
      \<and> (saw_exit c \<longrightarrow> op_exited (b_openings b ! closing_of c))"
    and "b_closing b k = Some c \<Longrightarrow> b_closing b k' = Some c' \<Longrightarrow> closing_of c = closing_of c' \<Longrightarrow> k = k'"
    and "b_abandoned b = (\<exists>k c. b_closing b k = Some c \<and> gave_up c)"
    and "su_closed (b_sub b) = (\<exists>k e. b_closing b k = Some (CAbandoned e))"
    and "su_past (b_sub b) \<Longrightarrow> \<exists>k c. b_closing b k = Some c \<and> holds_deadline c"
  using assms by (auto simp: bind_inv_def)

lemma closer_moves:
  assumes inv: "bind_inv b" and c: "b_closing b k = Some c" and e: "closing_of c' = closing_of c"
    and exit: "saw_exit c' \<Longrightarrow> op_exited (b_openings b ! closing_of c)"
    and up: "gave_up c \<Longrightarrow> gave_up c'" and ab: "\<And>e. c \<noteq> CAbandoned e"
    and A: "A = (b_abandoned b \<or> gave_up c')"
    and S: "su_closed S = (su_closed (b_sub b) \<or> (\<exists>e. c' = CAbandoned e))"
    and P: "su_past S \<Longrightarrow> holds_deadline c' \<or> su_past (b_sub b) \<and> \<not> holds_deadline c"
  shows "bind_inv (b\<lparr>b_abandoned := A, b_sub := S, b_closing := (b_closing b)(k \<mapsto> c')\<rparr>)"
proof -
  note d = bind_invD [OF inv]
  show ?thesis unfolding bind_inv_def
  proof (intro conjI)
    show "\<forall>ka k' ca c'a. b_closing (b\<lparr>b_abandoned := A, b_sub := S, b_closing := (b_closing b)(k \<mapsto> c')\<rparr>) ka = Some ca \<longrightarrow>
        b_closing (b\<lparr>b_abandoned := A, b_sub := S, b_closing := (b_closing b)(k \<mapsto> c')\<rparr>) k' = Some c'a \<longrightarrow>
        closing_of ca = closing_of c'a \<longrightarrow> ka = k'"
      using d(4) c e by (auto split: if_splits)
    show "b_abandoned (b\<lparr>b_abandoned := A, b_sub := S, b_closing := (b_closing b)(k \<mapsto> c')\<rparr>) =
        (\<exists>ka ca. b_closing (b\<lparr>b_abandoned := A, b_sub := S, b_closing := (b_closing b)(k \<mapsto> c')\<rparr>) ka = Some ca \<and> gave_up ca)"
      using c up by (auto simp: A d(5)) (metis option.inject)+
    show "su_closed (b_sub (b\<lparr>b_abandoned := A, b_sub := S, b_closing := (b_closing b)(k \<mapsto> c')\<rparr>)) =
        (\<exists>ka e. b_closing (b\<lparr>b_abandoned := A, b_sub := S, b_closing := (b_closing b)(k \<mapsto> c')\<rparr>) ka = Some (CAbandoned e))"
      using c ab by (auto simp: S d(6)) (metis option.inject)+
    show "su_past (b_sub (b\<lparr>b_abandoned := A, b_sub := S, b_closing := (b_closing b)(k \<mapsto> c')\<rparr>)) \<longrightarrow>
        (\<exists>ka ca. b_closing (b\<lparr>b_abandoned := A, b_sub := S, b_closing := (b_closing b)(k \<mapsto> c')\<rparr>) ka = Some ca \<and> holds_deadline ca)"
      using c P d(7) by auto (metis option.inject)+
  qed (use d c e exit in auto)
qed

lemma bind_Close_inv:
  assumes inv: "bind_inv b" and s: "bind_Close k ev b = Some b'"
  shows "bind_inv b'"
proof (cases ev)
  case CBegin
  show ?thesis
  proof (cases "b_open b")
    case (Some e)
    note d = bind_invD [OF inv]
    have k: "b_closing b k = None" and b': "b' = (upd_opening e (\<lambda>x. x\<lparr>op_closed := True\<rparr>) b)\<lparr>b_open := None, b_closing := (b_closing b)(k \<mapsto> CSet e)\<rparr>"
      using s CBegin Some by (auto split: if_splits)
    have new: "closing_of c \<noteq> e" if "b_closing b k' = Some c" for k' c
      using d(2) [OF Some] d(3) [OF that] by auto
    show ?thesis
      using d(2) [OF Some] d(1) new k d(3-7) unfolding bind_inv_def b' upd_opening_def
      by (auto simp: nth_list_update recv_inv_def split: if_splits) (metis option.distinct(1))+
  qed (use s inv CBegin in \<open>auto split: if_splits\<close>)
next
  case (CDeadline refused)
  then obtain e where c: "b_closing b k = Some (CSet e)"
    using s by (auto split: option.splits close_state.splits)
  show ?thesis
    using closer_moves [OF inv c, of "CAbandon e" True "b_sub b"]
      closer_moves [OF inv c, of "CWait e" "b_abandoned b" "(b_sub b)\<lparr>su_past := True\<rparr>"] s c CDeadline
    by (auto simp: bind_abandon_def split: if_splits)
next
  case CSawExited
  then obtain e where c: "b_closing b k = Some (CWait e)" "op_exited (b_openings b ! e)"
    using s by (auto split: option.splits close_state.splits if_splits)
  show ?thesis
    using closer_moves [OF inv c(1), of "CClear e" "b_abandoned b" "b_sub b"] s c CSawExited by auto
next
  case CCleared
  then obtain e where c: "b_closing b k = Some (CClear e)"
    using s by (auto split: option.splits close_state.splits)
  have "op_exited (b_openings b ! e)" using bind_invD(3) [OF inv c] by simp
  then show ?thesis
    using closer_moves [OF inv c, of "CReturned e" "b_abandoned b" "(b_sub b)\<lparr>su_past := False\<rparr>"] s c CCleared by auto
next
  case CGrace
  then obtain e where c: "b_closing b k = Some (CWait e)"
    using s by (auto split: option.splits close_state.splits)
  show ?thesis
    using closer_moves [OF inv c, of "CAbandon e" True "b_sub b"] s c CGrace by (auto simp: bind_abandon_def)
next
  case CSubClose
  then obtain e where c: "b_closing b k = Some (CAbandon e)"
    using s by (auto split: option.splits close_state.splits)
  have b': "b' = b\<lparr>b_abandoned := b_abandoned b, b_sub := (b_sub b)\<lparr>su_closed := True\<rparr>,
      b_closing := (b_closing b)(k \<mapsto> CAbandoned e)\<rparr>"
    using s c CSubClose by simp
  have ab: "b_abandoned b" using bind_invD(5) [OF inv] c gave_up.simps(1) by blast
  show ?thesis unfolding b' by (rule closer_moves [OF inv c]) (use ab in auto)
qed

lemma bind_inv_start: "sub = fresh_substrate \<Longrightarrow> bind_inv (NewBind sub)"
  by (simp add: bind_inv_def NewBind_def fresh_substrate_def)

lemma bind_inv_step: "bind_step b b' \<Longrightarrow> bind_inv b \<Longrightarrow> bind_inv b'"
proof (induction rule: bind_step.induct)
  case (Open b port)
  then show ?case
    by (auto simp: bind_inv_def bind_Open_def nth_append recv_inv_def intro!: less_SucI split: option.splits)
next
  case (Receive e b ev x)
  then show ?case
    using bind_receive_inv [OF Receive(2)] unfolding bind_inv_def upd_opening_def
    by (simp add: nth_list_update)
next
  case (Close k ev b b')
  then show ?case by (blast intro: bind_Close_inv)
qed

text \<open>What the bind promises of opening \<open>e\<close> and the \<^verbatim>\<open>Close\<close> of caller \<open>k\<close>.\<close>

definition bind_returned :: "nat \<Rightarrow> nat \<Rightarrow> Bind \<Rightarrow> bool" where
  "bind_returned k e b = (b_closing b k = Some (CReturned e))"

definition bind_reading :: "nat \<Rightarrow> Bind \<Rightarrow> bool" where
  "bind_reading e b = (op_recv (b_openings b ! e) = RvRead)"

lemma bind_returned_stable:
  "bind_step b b' \<Longrightarrow> bind_returned k e b \<Longrightarrow> bind_returned k e b'"
proof (induction rule: bind_step.induct)
  case (Close k' ev b b')
  then show ?case
    by (cases ev) (auto simp: bind_returned_def bind_abandon_def upd_opening_def split: option.splits close_state.splits if_splits)
qed (auto simp: bind_returned_def bind_Open_def upd_opening_def split: option.splits)

interpretation bind_user: substrate_user bind_step "\<lambda>b. b = NewBind fresh_substrate"
    "bind_returned k e" "bind_reading e" bind_inv for k e
proof
  show "\<not> bind_reading e s" if "bind_inv s" "bind_returned k e s" for s
    using bind_invD(1,3) [OF that(1)] that(2) by (fastforce simp: bind_returned_def bind_reading_def recv_inv_def)
qed (auto intro: bind_inv_start bind_inv_step bind_returned_stable)

text \<open>A bind that was opened once and whose \<^verbatim>\<open>Close\<close> returned without error left the substrate as it was.\<close>

lemma single_opening_returned:
  assumes inv: "bind_inv b" and k: "b_closing b k = Some (CReturned e)" and one: "length (b_openings b) = 1"
  shows "b_sub b = fresh_substrate \<and> \<not> Abandoned b"
proof -
  note d = bind_invD [OF inv]
  have only: "c = CReturned e" if "b_closing b k' = Some c" for k' c
  proof -
    have "closing_of c = 0" "e = 0" using d(3) [OF that] d(3) [OF k] one by auto
    then show ?thesis using d(4) [OF that k] k that by simp
  qed
  show ?thesis
    using d(5-7) by (auto simp: fresh_substrate_def Abandoned_def intro!: substrate.equality dest!: only)
qed

text \<open>Every opening is the open one or has a \<^verbatim>\<open>Close\<close>.\<close>

definition closers_inv :: "Bind \<Rightarrow> bool" where
  "closers_inv b \<longleftrightarrow> (\<forall>e < length (b_openings b). b_open b = Some e \<or> (\<exists>k c. b_closing b k = Some c \<and> closing_of c = e))"

lemma bind_Close_closing:
  assumes "bind_Close k ev b = Some b'"
  shows "length (b_openings b') = length (b_openings b) \<and>
    (b' = b \<or> (\<exists>c. b_closing b' = (b_closing b)(k \<mapsto> c)
      \<and> (b_open b = Some (closing_of c) \<and> b_closing b k = None \<and> b_open b' = None
         \<or> b_open b' = b_open b \<and> map_option closing_of (b_closing b k) = Some (closing_of c))))"
  using assms
  by (cases ev) (auto simp: bind_abandon_def upd_opening_def split: if_splits option.splits close_state.splits)

lemma closers_inv_step: "bind_step b b' \<Longrightarrow> closers_inv b \<Longrightarrow> closers_inv b'"
proof (induction rule: bind_step.induct)
  case (Open b port)
  then show ?case by (auto simp: closers_inv_def bind_Open_def less_Suc_eq split: option.splits)
next
  case (Receive e b ev x)
  then show ?case by (simp add: closers_inv_def upd_opening_def)
next
  case (Close k ev b b')
  consider "b' = b" | c where "b_closing b' = (b_closing b)(k \<mapsto> c)" "b_open b = Some (closing_of c)" "b_closing b k = None"
    | c where "b_closing b' = (b_closing b)(k \<mapsto> c)" "b_open b' = b_open b" "map_option closing_of (b_closing b k) = Some (closing_of c)"
    using bind_Close_closing [OF Close(1)] by blast
  then show ?case
  proof cases
    case 2
    then show ?thesis using Close.prems bind_Close_closing [OF Close(1)] unfolding closers_inv_def
      by (metis fun_upd_apply option.distinct(1) option.inject)
  next
    case 3
    then show ?thesis using Close.prems bind_Close_closing [OF Close(1)] unfolding closers_inv_def
      by (metis fun_upd_apply option.inject option.map_disc_iff option.map_sel option.sel option.distinct(1) map_option_eq_Some)
  qed (use Close.prems in simp)
qed

lemma closers_inv_steps: "bind_step\<^sup>*\<^sup>* b b' \<Longrightarrow> closers_inv b \<Longrightarrow> closers_inv b'"
  by (induction rule: rtranclp_induct) (auto intro: closers_inv_step)

lemma closers_inv_start [simp]: "closers_inv (NewBind sub)"
  by (simp add: closers_inv_def NewBind_def)

section \<open>The packet connection keeps the contract\<close>

text \<open>The token: whoever holds it is alone with the substrate.\<close>

definition from_holds :: "from_state option \<Rightarrow> bool" where
  "from_holds x = (x \<in> {Some FTop, Some FRead, Some FErr})"

lemma from_holds_simps [simp]:
  "from_holds (Some FTop)" "from_holds (Some FRead)" "from_holds (Some FErr)"
  "\<not> from_holds None" "\<not> from_holds (Some FWant)" "\<not> from_holds (Some (FDone c))"
  by (auto simp: from_holds_def)

definition detach_holds :: "packetConn \<Rightarrow> bool" where
  "detach_holds p = (pc_detach p \<in> {DHolding, DCleared})"

definition token_inv :: "packetConn \<Rightarrow> bool" where
  "token_inv p \<longleftrightarrow>
     (\<forall>r. from_holds (pc_reads p r) \<longrightarrow> \<not> pc_token p \<and> \<not> detach_holds p
        \<and> (\<forall>r'. from_holds (pc_reads p r') \<longrightarrow> r = r'))
   \<and> (detach_holds p \<longrightarrow> \<not> pc_token p)
   \<and> (pc_token p \<or> detach_holds p \<or> (\<exists>r. from_holds (pc_reads p r)))"

definition pc_inv :: "packetConn \<Rightarrow> bool" where
  "pc_inv p \<longleftrightarrow> token_inv p
   \<and> pc_closed p = (pc_detach p \<noteq> DNone)
   \<and> su_closed (pc_sub p) = (pc_detach p = DAbandoned)
   \<and> (pc_detach p \<in> {DCleared, DDetached} \<longrightarrow> \<not> su_past (pc_sub p))
   \<and> (pc_detach p \<in> {DHolding, DCleared, DDetached} \<longrightarrow> (\<forall>r. pc_reads p r \<notin> {Some FRead, Some FErr}))"

lemma pc_inv_start: "pc_inv (newPacketConn fresh_substrate)"
  by (simp add: pc_inv_def token_inv_def newPacketConn_def fresh_substrate_def detach_holds_def)

lemma token_taken:
  assumes "token_inv p" "pc_token p" "from_holds (Some s')"
  shows "token_inv (p\<lparr>pc_token := False, pc_reads := (pc_reads p)(r \<mapsto> s')\<rparr>)"
  using assms by (auto simp: token_inv_def detach_holds_def)

lemma token_kept:
  assumes "token_inv p" "from_holds (pc_reads p r)" "from_holds (Some s')"
  shows "token_inv (p\<lparr>pc_reads := (pc_reads p)(r \<mapsto> s')\<rparr>)"
  using assms by (auto simp: token_inv_def detach_holds_def)

lemma token_given_back:
  assumes "token_inv p" "from_holds (pc_reads p r)" "\<not> from_holds (Some s')"
  shows "token_inv (p\<lparr>pc_token := True, pc_reads := (pc_reads p)(r \<mapsto> s')\<rparr>)"
  using assms by (auto simp: token_inv_def detach_holds_def)

lemma token_untouched:
  assumes "token_inv p" "\<not> from_holds (pc_reads p r)" "\<not> from_holds (Some s')"
  shows "token_inv (p\<lparr>pc_reads := (pc_reads p)(r \<mapsto> s')\<rparr>)"
  using assms by (auto simp: token_inv_def detach_holds_def)

lemma ReadFrom_token: "ReadFrom r ev p = Some p' \<Longrightarrow> token_inv p \<Longrightarrow> token_inv p'"
  by (cases ev) (auto simp: token_taken token_kept token_given_back token_untouched split: if_splits)

lemma ReadFrom_keeps: "ReadFrom r ev p = Some p' \<Longrightarrow> pc_detach p' = pc_detach p \<and> pc_closed p' = pc_closed p \<and> pc_sub p' = pc_sub p"
  by (cases ev) (auto split: if_splits)

text \<open>Once the connection is closed no read of the substrate starts.\<close>

lemma ReadFrom_starts_none:
  "ReadFrom r ev p = Some p' \<Longrightarrow> pc_closed p \<Longrightarrow> pc_reads p' r' = Some FRead \<Longrightarrow> pc_reads p r' = Some FRead"
  by (cases ev) (auto split: if_splits)

lemma ReadFrom_no_err:
  "ReadFrom r ev p = Some p' \<Longrightarrow> pc_reads p' r' = Some FErr \<Longrightarrow> pc_reads p r' \<in> {Some FRead, Some FErr}"
  by (cases ev) (auto split: if_splits)

lemma ReadFrom_inv: "ReadFrom r ev p = Some p' \<Longrightarrow> pc_inv p \<Longrightarrow> pc_inv p'"
  using ReadFrom_token [of r ev p p'] ReadFrom_keeps [of r ev p p'] ReadFrom_starts_none [of r ev p p']
    ReadFrom_no_err [of r ev p p']
  by (auto simp: pc_inv_def)

lemma token_free: "token_inv p \<Longrightarrow> pc_token p \<Longrightarrow> pc_reads p r \<noteq> Some FRead \<and> pc_reads p r \<noteq> Some FErr"
  using from_holds_simps(2,3) unfolding token_inv_def by metis

lemma detach_token: "detach ev p = Some p' \<Longrightarrow> token_inv p \<Longrightarrow> token_inv p'"
  by (cases ev) (auto simp: token_inv_def detach_holds_def split: if_splits)

lemma detach_inv: "detach ev p = Some p' \<Longrightarrow> pc_inv p \<Longrightarrow> pc_inv p'"
  using detach_token [of ev p p'] token_free [of p]
  by (cases ev) (auto simp: pc_inv_def split: if_splits)

lemma pc_inv_step: "pc_step p p' \<Longrightarrow> pc_inv p \<Longrightarrow> pc_inv p'"
proof (induction rule: pc_step.induct)
  case (Deadline p past)
  then show ?case by (simp add: pc_inv_def token_inv_def pc_SetReadDeadline_def detach_holds_def)
qed (auto intro: ReadFrom_inv detach_inv)

definition pc_returned :: "packetConn \<Rightarrow> bool" where
  "pc_returned p = (pc_closeErr p = Some False)"

definition pc_reading :: "packetConn \<Rightarrow> bool" where
  "pc_reading p = (\<exists>r. pc_reads p r = Some FRead)"

lemma pc_closeErr_stable: "pc_step p p' \<Longrightarrow> pc_closeErr p = Some x \<Longrightarrow> pc_closeErr p' = Some x"
proof (induction rule: pc_step.induct)
  case (From r ev p p')
  then show ?case using ReadFrom_keeps by (simp add: pc_closeErr_def)
next
  case (Detach ev p p')
  then show ?case by (cases ev) (auto simp: pc_closeErr_def split: if_splits detach_state.splits)
qed (simp add: pc_closeErr_def)

interpretation pc_user: substrate_user pc_step "\<lambda>p. p = newPacketConn fresh_substrate" pc_returned pc_reading pc_inv
proof
  show "\<not> pc_reading p" if "pc_inv p" "pc_returned p" for p
    using that by (auto simp: pc_inv_def pc_returned_def pc_reading_def pc_closeErr_def split: detach_state.splits)
qed (auto simp: pc_inv_start pc_returned_def intro: pc_inv_step pc_closeErr_stable)

section \<open>Properties\<close>

text \<open>C7: the WireGuard bind hands the substrate back. In every interleaving of opens, receives and closes, once
  a \<^verbatim>\<open>Close\<close> that ended opening \<open>e\<close> has returned without error the receive goroutine of that opening is never
  again inside the substrate's \<^verbatim>\<open>Read\<close>. On a bind that was opened once, the way \<^verbatim>\<open>Tunnel.Up\<close> uses it, the
  substrate is then left without a deadline, not closed, and not reported as abandoned.\<close>

theorem bind_hands_back:
  assumes "bind_step\<^sup>*\<^sup>* (NewBind fresh_substrate) b" "b_closing b k = Some (CReturned e)" "bind_step\<^sup>*\<^sup>* b b'"
  shows "op_recv (b_openings b' ! e) \<noteq> RvRead
    \<and> (length (b_openings b') = 1 \<longrightarrow> b_sub b' = fresh_substrate \<and> \<not> Abandoned b')"
proof (intro conjI impI)
  show "op_recv (b_openings b' ! e) \<noteq> RvRead"
    using bind_user.handed_back [of "NewBind fresh_substrate" b k e b'] assms
    by (simp add: bind_returned_def bind_reading_def)
  have inv: "bind_inv b'" using bind_user.ok_steps [of "NewBind fresh_substrate" b'] assms
    by (simp add: bind_inv_start rtranclp_trans)
  have k: "b_closing b' k = Some (CReturned e)"
    using bind_user.returned_steps [of b b' k e] assms by (simp add: bind_returned_def)
  assume one: "length (b_openings b') = 1"
  show "b_sub b' = fresh_substrate" "\<not> Abandoned b'" using single_opening_returned [OF inv k one] by auto
qed

text \<open>Concrete runs of the bind and of the packet connection, for the witnesses.\<close>

datatype bind_action = AOpen u16 | ARecv nat recv_event | AClose nat close_event

fun bind_act :: "bind_action \<Rightarrow> Bind \<Rightarrow> Bind option" where
  "bind_act (AOpen port) b = Some (snd (bind_Open port b))"
| "bind_act (ARecv e ev) b =
     (if e < length (b_openings b)
      then map_option (\<lambda>x. upd_opening e (\<lambda>_. x) b) (bind_receive ev (b_openings b ! e)) else None)"
| "bind_act (AClose k ev) b = bind_Close k ev b"

lemma bind_act_step: "bind_act a b = Some b' \<Longrightarrow> bind_step b b'"
  by (cases a) (auto intro: bind_step.intros split: if_splits)

lemma bind_run: "run_acts bind_act as b = Some b' \<Longrightarrow> bind_step\<^sup>*\<^sup>* b b'"
  by (rule run_acts_steps [where f = bind_act, OF bind_act_step])

datatype pc_action = AFrom nat from_event | ADetach detach_event

fun pc_act :: "pc_action \<Rightarrow> packetConn \<Rightarrow> packetConn option" where
  "pc_act (AFrom r ev) p = ReadFrom r ev p"
| "pc_act (ADetach ev) p = detach ev p"

lemma pc_act_step: "pc_act a p = Some p' \<Longrightarrow> pc_step p p'"
  by (cases a) (auto intro: pc_step.intros)

lemma pc_run: "run_acts pc_act as b = Some b' \<Longrightarrow> pc_step\<^sup>*\<^sup>* b b'"
  by (rule run_acts_steps [where f = pc_act, OF pc_act_step])

text \<open>A receive blocked in the substrate when the close begins.\<close>

definition closing_bind :: Bind where
  "closing_bind = the (run_acts bind_act
     [AOpen 7, ARecv 0 (RCall True), ARecv 0 RCheckTop, AClose 3 CBegin, AClose 3 (CDeadline False)]
     (NewBind fresh_substrate))"

definition closed_bind :: Bind where
  "closed_bind = the (run_acts bind_act
     [ARecv 0 (RFail True False), ARecv 0 RCheckErr, AClose 3 CSawExited, AClose 3 CCleared] closing_bind)"

lemmas bind_eval = closing_bind_def closed_bind_def NewBind_def bind_Open_def upd_opening_def told_closed_def
  fresh_substrate_def

lemma closing_bind_reached: "bind_step\<^sup>*\<^sup>* (NewBind fresh_substrate) closing_bind"
  by (rule bind_run [of "[AOpen 7, ARecv 0 (RCall True), ARecv 0 RCheckTop, AClose 3 CBegin, AClose 3 (CDeadline False)]"])
    (simp add: bind_eval)

lemma closed_bind_reached: "bind_step\<^sup>*\<^sup>* closing_bind closed_bind"
  by (rule bind_run [of "[ARecv 0 (RFail True False), ARecv 0 RCheckErr, AClose 3 CSawExited, AClose 3 CCleared]"])
    (simp add: bind_eval)

theorem bind_hands_back_witness:
  "bind_step\<^sup>*\<^sup>* (NewBind fresh_substrate) closed_bind \<and> b_closing closed_bind 3 = Some (CReturned 0)
   \<and> op_recv (b_openings closing_bind ! 0) = RvRead
   \<and> op_recv (b_openings closed_bind ! 0) \<noteq> RvRead \<and> b_sub closed_bind = fresh_substrate \<and> \<not> Abandoned closed_bind"
proof -
  have r: "bind_step\<^sup>*\<^sup>* (NewBind fresh_substrate) closed_bind"
    using closing_bind_reached closed_bind_reached by (rule rtranclp_trans)
  have c: "b_closing closed_bind 3 = Some (CReturned 0)" and l: "length (b_openings closed_bind) = 1"
    and o: "op_recv (b_openings closing_bind ! 0) = RvRead"
    by (simp_all add: bind_eval)
  show ?thesis using bind_hands_back [OF r c, of closed_bind] r c l o by simp
qed

text \<open>C15: QUIC's packet connection hands the substrate back. In every interleaving of any number of
  \<^verbatim>\<open>ReadFrom\<close> calls with quic-go's own deadlines and the detach, once \<^verbatim>\<open>Close\<close> has returned nil no call is
  inside the substrate's \<^verbatim>\<open>Read\<close> or ever will be, the substrate is left open and without a deadline, writes
  fail, and no later \<^verbatim>\<open>ReadFrom\<close> can hang: the token is free or its holder returns \<^verbatim>\<open>net.ErrClosed\<close> with its
  next step and frees it.\<close>

theorem packetConn_hands_back:
  assumes "pc_step\<^sup>*\<^sup>* (newPacketConn fresh_substrate) p" "pc_closeErr p = Some False" "pc_step\<^sup>*\<^sup>* p p'"
  shows "(\<forall>r. pc_reads p' r \<noteq> Some FRead) \<and> pc_sub p' = fresh_substrate \<and> WriteTo w d p' = Inl ErrClosed
    \<and> (pc_token p' \<or> (\<exists>r p''. ReadFrom r FCheck p' = Some p'' \<and> pc_reads p'' r = Some (FDone True) \<and> pc_token p''))"
proof -
  have inv: "pc_inv p'" using pc_user.ok_steps [of "newPacketConn fresh_substrate" p'] assms
    by (simp add: pc_inv_start rtranclp_trans)
  have "pc_returned p'" using pc_user.returned_steps [of p p'] assms by (simp add: pc_returned_def)
  then have d: "pc_detach p' = DDetached"
    by (auto simp: pc_returned_def pc_closeErr_def split: detach_state.splits)
  have "\<forall>r. pc_reads p' r \<noteq> Some FRead"
    using pc_user.handed_back [of "newPacketConn fresh_substrate" p p'] assms
    by (simp add: pc_returned_def pc_reading_def)
  moreover have "pc_sub p' = fresh_substrate" "pc_closed p'"
    using inv d by (auto simp: pc_inv_def fresh_substrate_def intro!: substrate.equality)
  moreover have "\<exists>r. pc_reads p' r = Some FTop" if "\<not> pc_token p'"
    using inv d that by (auto simp: pc_inv_def token_inv_def detach_holds_def from_holds_def)
  ultimately show ?thesis using inv by (auto simp: WriteTo_def)
qed

definition closing_pc :: packetConn where
  "closing_pc = the (run_acts pc_act
     [AFrom 5 FCall, AFrom 5 FToken, AFrom 5 FCheck, AFrom 6 FCall, ADetach DClose, ADetach DDeadline]
     (newPacketConn fresh_substrate))"

definition closed_pc :: packetConn where
  "closed_pc = the (run_acts pc_act
     [AFrom 5 FFail, AFrom 5 FCheckErr, ADetach DToken, ADetach DClear, ADetach DBack, AFrom 6 FToken] closing_pc)"

lemmas pc_eval = closing_pc_def closed_pc_def newPacketConn_def fresh_substrate_def

lemma closing_pc_reached: "pc_step\<^sup>*\<^sup>* (newPacketConn fresh_substrate) closing_pc"
  by (rule pc_run [of "[AFrom 5 FCall, AFrom 5 FToken, AFrom 5 FCheck, AFrom 6 FCall, ADetach DClose, ADetach DDeadline]"])
    (simp add: pc_eval)

lemma closed_pc_reached: "pc_step\<^sup>*\<^sup>* closing_pc closed_pc"
  by (rule pc_run [of "[AFrom 5 FFail, AFrom 5 FCheckErr, ADetach DToken, ADetach DClear, ADetach DBack, AFrom 6 FToken]"])
    (simp add: pc_eval)

theorem packetConn_hands_back_witness:
  "pc_step\<^sup>*\<^sup>* (newPacketConn fresh_substrate) closed_pc \<and> pc_closeErr closed_pc = Some False
   \<and> \<not> pc_token closed_pc \<and> (\<exists>r p''. ReadFrom r FCheck closed_pc = Some p'' \<and> pc_reads p'' r = Some (FDone True) \<and> pc_token p'')
   \<and> pc_reads closing_pc 5 = Some FRead \<and> pc_reads closed_pc 5 \<noteq> Some FRead \<and> pc_sub closed_pc = fresh_substrate"
proof -
  have r: "pc_step\<^sup>*\<^sup>* (newPacketConn fresh_substrate) closed_pc"
    using closing_pc_reached closed_pc_reached by (rule rtranclp_trans)
  have c: "pc_closeErr closed_pc = Some False" by (simp add: pc_eval pc_closeErr_def)
  have e: "\<not> pc_token closed_pc" "pc_reads closing_pc 5 = Some FRead" by (simp_all add: pc_eval)
  show ?thesis using packetConn_hands_back [OF r c, of closed_pc] r c e by blast
qed

text \<open>C16: a teardown closes the substrate exactly when it says so. In every reachable state of the bind the
  substrate was closed exactly if some \<^verbatim>\<open>Close\<close> returned \<^verbatim>\<open>ErrSubstrateAbandoned\<close>, and \<^verbatim>\<open>Abandoned\<close>, which is all
  \<^verbatim>\<open>Tunnel.Close\<close> can ask, then reports it; in every reachable state of the packet connection it was closed
  exactly if \<^verbatim>\<open>Close\<close> returned \<^verbatim>\<open>ErrSubstrateAbandoned\<close>, and the verdict never changes.\<close>

theorem abandonment_is_reported:
  assumes "bind_step\<^sup>*\<^sup>* (NewBind fresh_substrate) b" "pc_step\<^sup>*\<^sup>* (newPacketConn fresh_substrate) p" "pc_step\<^sup>*\<^sup>* p p'"
  shows "su_closed (b_sub b) = (\<exists>k e. b_closing b k = Some (CAbandoned e))
    \<and> (su_closed (b_sub b) \<longrightarrow> Abandoned b)
    \<and> (Abandoned b \<longrightarrow> (\<exists>k e. b_closing b k \<in> {Some (CAbandon e), Some (CAbandoned e)}))
    \<and> su_closed (pc_sub p) = (pc_closeErr p = Some True)
    \<and> (\<forall>v. pc_closeErr p = Some v \<longrightarrow> pc_closeErr p' = Some v)"
proof (intro conjI allI impI)
  have inv: "bind_inv b" using bind_user.ok_steps assms(1) bind_inv_start by blast
  note d = bind_invD [OF inv]
  show "su_closed (b_sub b) = (\<exists>k e. b_closing b k = Some (CAbandoned e))" by (rule d(6))
  show "Abandoned b" if "su_closed (b_sub b)"
    unfolding Abandoned_def using that d(5,6) gave_up.simps(2) by blast
  show "\<exists>k e. b_closing b k \<in> {Some (CAbandon e), Some (CAbandoned e)}" if ab: "Abandoned b"
  proof -
    obtain k c where "b_closing b k = Some c" "gave_up c" using ab d(5) by (auto simp: Abandoned_def)
    then show ?thesis by (cases c) auto
  qed
  have "pc_inv p" using pc_user.ok_steps assms(2) pc_inv_start by blast
  then show "su_closed (pc_sub p) = (pc_closeErr p = Some True)"
    by (auto simp: pc_inv_def pc_closeErr_def split: detach_state.splits)
  show "pc_closeErr p' = Some v" if "pc_closeErr p = Some v" for v
    using assms(3) that by (induction rule: rtranclp_induct) (auto intro: pc_closeErr_stable)
qed

theorem abandonment_is_reported_witness:
  "\<exists>b p. bind_step\<^sup>*\<^sup>* (NewBind fresh_substrate) b \<and> pc_step\<^sup>*\<^sup>* (newPacketConn fresh_substrate) p
    \<and> su_closed (b_sub b) \<and> Abandoned b \<and> su_closed (pc_sub p) \<and> pc_closeErr p = Some True"
proof -
  let ?b = "the (run_acts bind_act [AClose 3 CGrace, AClose 3 CSubClose] closing_bind)"
  let ?p = "the (run_acts pc_act [ADetach DGrace] closing_pc)"
  have "bind_step\<^sup>*\<^sup>* closing_bind ?b"
    by (rule bind_run [of "[AClose 3 CGrace, AClose 3 CSubClose]"]) (simp add: bind_eval bind_abandon_def)
  then have b: "bind_step\<^sup>*\<^sup>* (NewBind fresh_substrate) ?b" using closing_bind_reached by (rule rtranclp_trans [rotated])
  have "pc_step\<^sup>*\<^sup>* closing_pc ?p" by (rule pc_run [of "[ADetach DGrace]"]) (simp add: pc_eval)
  then have p: "pc_step\<^sup>*\<^sup>* (newPacketConn fresh_substrate) ?p" using closing_pc_reached by (rule rtranclp_trans [rotated])
  have "su_closed (b_sub ?b)" "su_closed (pc_sub ?p)" by (simp_all add: bind_eval bind_abandon_def pc_eval)
  then show ?thesis using abandonment_is_reported [OF b p rtranclp.rtrancl_refl] b p by blast
qed

section \<open>A waiting close can complete\<close>

text \<open>A closed opening's goroutine reports within two of its own steps, wherever it is.\<close>

lemma closed_reports:
  assumes "op_closed x"
  shows "op_recv x = RvGone
    \<or> (\<exists>a y. bind_receive a x = Some y \<and> op_exited y \<and> op_closed y)
    \<or> (\<exists>a a' y z. bind_receive a x = Some y \<and> bind_receive a' y = Some z \<and> op_exited z \<and> op_closed z)"
proof (cases "op_recv x")
  case RvIdle
  then have "bind_receive (RCall True) x = Some (x\<lparr>op_recv := RvTop\<rparr>)"
    "bind_receive RCheckTop (x\<lparr>op_recv := RvTop\<rparr>) = Some (told_closed (x\<lparr>op_recv := RvTop\<rparr>))" using assms by auto
  then show ?thesis using assms by (fastforce simp: told_closed_def)
next
  case RvTop
  then have "bind_receive RCheckTop x = Some (told_closed x)" using assms by auto
  then show ?thesis using assms by (fastforce simp: told_closed_def)
next
  case RvRead
  then have "bind_receive (RFail True False) x = Some (x\<lparr>op_recv := RvErr True False\<rparr>)"
    "bind_receive RCheckErr (x\<lparr>op_recv := RvErr True False\<rparr>) = Some (told_closed (x\<lparr>op_recv := RvErr True False\<rparr>))"
    using assms by auto
  then show ?thesis using assms by (fastforce simp: told_closed_def)
next
  case (RvErr t c)
  then have "bind_receive RCheckErr x = Some (told_closed x)" using assms by auto
  then show ?thesis using assms by (fastforce simp: told_closed_def)
qed simp

lemma closed_opening_reports:
  assumes inv: "bind_inv b" and e: "e < length (b_openings b)" "op_closed (b_openings b ! e)"
  shows "\<exists>b'. bind_step\<^sup>*\<^sup>* b b' \<and> b_closing b' = b_closing b \<and> op_exited (b_openings b' ! e)"
proof -
  let ?x = "b_openings b ! e"
  consider "op_exited ?x" | a y where "bind_receive a ?x = Some y" "op_exited y"
    | a a' y z where "bind_receive a ?x = Some y" "bind_receive a' y = Some z" "op_exited z"
    using closed_reports [OF e(2)] bind_invD(1) [OF inv e(1)] unfolding recv_inv_def by blast
  then show ?thesis
  proof cases
    case 2
    then show ?thesis using bind_run [of "[ARecv e a]" b "upd_opening e (\<lambda>_. y) b"] e
      by (auto simp: upd_opening_def)
  next
    case 3
    then show ?thesis using bind_run [of "[ARecv e a, ARecv e a']" b "upd_opening e (\<lambda>_. z) (upd_opening e (\<lambda>_. y) b)"] e
      by (auto simp: upd_opening_def)
  qed auto
qed

lemma bind_close_completes:
  assumes "bind_inv b" "b_closing b k = Some (CWait e)"
  shows "\<exists>b'. bind_step\<^sup>*\<^sup>* b b' \<and> b_closing b' k = Some (CReturned e)"
proof -
  obtain b1 where b1: "bind_step\<^sup>*\<^sup>* b b1" "b_closing b1 = b_closing b" "op_exited (b_openings b1 ! e)"
    using closed_opening_reports [OF assms(1), of e] bind_invD(3) [OF assms] by auto
  let ?b2 = "b1\<lparr>b_closing := (b_closing b1)(k \<mapsto> CClear e)\<rparr>"
  let ?b3 = "?b2\<lparr>b_sub := (b_sub b1)\<lparr>su_past := False\<rparr>, b_closing := (b_closing ?b2)(k \<mapsto> CReturned e)\<rparr>"
  have "bind_step\<^sup>*\<^sup>* b1 ?b3"
    by (rule bind_run [of "[AClose k CSawExited, AClose k CCleared]"]) (use b1 assms in simp)
  then show ?thesis using rtranclp_trans [OF b1(1)] by fastforce
qed

lemma token_comes_back:
  assumes "pc_inv p" "pc_detach p = DWaiting"
  shows "\<exists>p'. pc_step\<^sup>*\<^sup>* p p' \<and> pc_detach p' = DWaiting \<and> pc_token p'"
proof -
  have c: "pc_closed p" using assms by (simp add: pc_inv_def)
  consider "pc_token p" | r where "pc_reads p r = Some FTop" | r where "pc_reads p r = Some FRead"
    | r where "pc_reads p r = Some FErr"
    using assms by (auto simp: pc_inv_def token_inv_def detach_holds_def from_holds_def)
  then show ?thesis
  proof cases
    case (2 r)
    show ?thesis using pc_run [of "[AFrom r FCheck]" p] 2 c assms(2) by fastforce
  next
    case (3 r)
    show ?thesis using pc_run [of "[AFrom r FData]" p] 3 c assms(2) by fastforce
  next
    case (4 r)
    show ?thesis using pc_run [of "[AFrom r FCheckErr]" p] 4 c assms(2) by fastforce
  qed (use assms in blast)
qed

lemma pc_close_completes:
  assumes "pc_inv p" "pc_detach p = DWaiting"
  shows "\<exists>p'. pc_step\<^sup>*\<^sup>* p p' \<and> pc_closeErr p' = Some False"
proof -
  obtain q where q: "pc_step\<^sup>*\<^sup>* p q" "pc_detach q = DWaiting" "pc_token q"
    using token_comes_back [OF assms] by blast
  then have "\<exists>p'. run_acts pc_act [ADetach DToken, ADetach DClear, ADetach DBack] q = Some p' \<and> pc_closeErr p' = Some False"
    by (simp add: pc_closeErr_def)
  then show ?thesis using pc_run rtranclp_trans [OF q(1)] by blast
qed

text \<open>A teardown that waits is never stuck. From every reachable state in which a \<^verbatim>\<open>Close\<close> of the bind or
  the detach of the packet connection waits for its reader, the reader can report and the teardown return
  nil, the substrate intact: the fallback is only ever a matter of the grace period.\<close>

theorem waiting_close_can_complete:
  assumes "bind_step\<^sup>*\<^sup>* (NewBind fresh_substrate) b" "b_closing b k = Some (CWait e)"
    and "pc_step\<^sup>*\<^sup>* (newPacketConn fresh_substrate) p" "pc_detach p = DWaiting"
  shows "(\<exists>b'. bind_step\<^sup>*\<^sup>* b b' \<and> b_closing b' k = Some (CReturned e))
    \<and> (\<exists>p'. pc_step\<^sup>*\<^sup>* p p' \<and> pc_closeErr p' = Some False)"
  using bind_user.ok_steps [OF assms(1) bind_inv_start [OF refl]] bind_close_completes [OF _ assms(2)]
    pc_user.ok_steps [OF assms(3) pc_inv_start] pc_close_completes [OF _ assms(4)] by blast

theorem waiting_close_can_complete_witness:
  "b_closing closing_bind 3 = Some (CWait 0) \<and> pc_detach closing_pc = DWaiting
   \<and> (\<exists>b'. bind_step\<^sup>*\<^sup>* closing_bind b' \<and> b_closing b' 3 = Some (CReturned 0))
   \<and> (\<exists>p'. pc_step\<^sup>*\<^sup>* closing_pc p' \<and> pc_closeErr p' = Some False)"
proof -
  have b: "b_closing closing_bind 3 = Some (CWait 0)" by (simp add: bind_eval)
  have p: "pc_detach closing_pc = DWaiting" by (simp add: pc_eval)
  show ?thesis using waiting_close_can_complete [OF closing_bind_reached b closing_pc_reached p] b p by blast
qed

end
