(* ===== verification/Wireguard.thy ===== *)
theory Wireguard
  imports Gostrings Handover Tier
begin

text \<open>
  The WireGuard data plane, \<^verbatim>\<open>internal/wireguard/wireguard.go\<close>: the text configuration handed to the device,
  the reading of its state dump, the wait for the handshake, the construction and the teardown of a tunnel,
  and the flow multiplexer over the one virtual UDP connection. wireguard-go and its netstack are
  parameters: what they answer, and for the teardown, what the device does with the bind.
\<close>

section \<open>Constants and configuration\<close>

definition MTU :: int where "MTU = 1420"
definition VirtualPort :: u16 where "VirtualPort = 51820"
definition keepaliveSeconds :: nat where "keepaliveSeconds = 25"
definition handshakePollInterval :: duration where "handshakePollInterval = 25 * 1000000"
definition maxVirtualDatagram :: nat where "maxVirtualDatagram = 65535"

text \<open>The virtual addresses are IPv4, written \<^verbatim>\<open>a.b.c.d\<close>.\<close>

datatype Addr = IPv4 byte byte byte byte

fun Addr_String :: "Addr \<Rightarrow> string" where
  "Addr_String (IPv4 a b c d) = decimal (unat a) @ ''.'' @ decimal (unat b) @ ''.'' @ decimal (unat c) @ ''.'' @ decimal (unat d)"

definition BitLen :: "Addr \<Rightarrow> nat" where "BitLen a = 32"

definition HostAddr :: Addr where "HostAddr = IPv4 10 64 0 1"
definition ClientAddr :: Addr where "ClientAddr = IPv4 10 64 0 2"

record wg_config =
  PrivateKey :: "byte list"
  PeerPublicKey :: "byte list"
  Local :: Addr
  Peer :: Addr
  Initiate :: bool

text \<open>\<^verbatim>\<open>ipcConfig\<close>; \<open>ep\<close> is the text of the bind's endpoint.\<close>

definition ipc_line :: "string \<Rightarrow> string \<Rightarrow> string" where
  "ipc_line key value = key @ ''='' @ value @ [CHR 0x0A]"

definition ipcConfig :: "wg_config \<Rightarrow> string \<Rightarrow> string" where
  "ipcConfig c ep =
     ipc_line ''private_key'' (hexEncode (PrivateKey c))
   @ ipc_line ''public_key'' (hexEncode (PeerPublicKey c))
   @ ipc_line ''allowed_ip'' (Addr_String (Peer c) @ ''/'' @ decimal (BitLen (Peer c)))
   @ ipc_line ''endpoint'' ep
   @ (if Initiate c then ipc_line ''persistent_keepalive_interval'' (decimal keepaliveSeconds) else [])"

section \<open>The handshake\<close>

fun handshaken_lines :: "string list \<Rightarrow> bool" where
  "handshaken_lines [] = False"
| "handshaken_lines (line # rest) =
     (case Cut (CHR ''='') (TrimSpace line) of (key, value, ok) \<Rightarrow>
        if \<not> ok \<or> key \<noteq> ''last_handshake_time_sec'' then handshaken_lines rest
        else if value \<noteq> '''' \<and> value \<noteq> ''0'' then True else handshaken_lines rest)"

definition handshaken :: "go_error + string \<Rightarrow> go_error + bool" where
  "handshaken ipc = (case ipc of Inl e \<Rightarrow> Inl e | Inr state \<Rightarrow> Inr (handshaken_lines (Split (CHR 0x0A) state)))"

text \<open>\<^verbatim>\<open>WaitHandshake\<close>. \<open>get i\<close> is what the device answers to the \<open>i\<close>-th \<^verbatim>\<open>IpcGet\<close>; \<open>cancelled i\<close> says that the
  caller's context is done at the \<open>i\<close>-th wait. The ticker fires an interval after the previous tick;
  when tick and deadline fall on the same instant \<^verbatim>\<open>select\<close> may take either (\<open>tie\<close>).\<close>

datatype wait_error = WaitIpc go_error | WaitCtx

function WaitHandshake_loop ::
  "(nat \<Rightarrow> go_error + string) \<Rightarrow> (nat \<Rightarrow> bool) \<Rightarrow> bool \<Rightarrow> gtime \<Rightarrow> nat \<Rightarrow> gtime \<Rightarrow> wait_error option" where
  "WaitHandshake_loop get cancelled tie deadline i now =
     (case handshaken (get i) of
        Inl e \<Rightarrow> Some (WaitIpc e)
      | Inr True \<Rightarrow> None
      | Inr False \<Rightarrow>
          if cancelled i \<or> deadline < now + handshakePollInterval
             \<or> deadline = now + handshakePollInterval \<and> \<not> tie
          then Some WaitCtx
          else WaitHandshake_loop get cancelled tie deadline (Suc i) (now + handshakePollInterval))"
  by pat_completeness auto

termination
  by (relation "measure (\<lambda>(get, cancelled, tie, deadline, i, now). nat (deadline - now))")
    (auto simp: handshakePollInterval_def)

declare WaitHandshake_loop.simps [simp del]

definition WaitHandshake ::
  "(nat \<Rightarrow> go_error + string) \<Rightarrow> (nat \<Rightarrow> bool) \<Rightarrow> bool \<Rightarrow> gtime \<Rightarrow> duration \<Rightarrow> wait_error option" where
  "WaitHandshake get cancelled tie now timeout = WaitHandshake_loop get cancelled tie (now + timeout) 0 now"

section \<open>Building and closing a tunnel\<close>

text \<open>What \<^verbatim>\<open>New\<close> leaves behind: the device, whether it is still open, and the bind it was given.\<close>

record wg_tunnel =
  wt_bind :: Bind
  wt_conf :: string
  wt_closed :: bool

datatype wg_error = ErrNoPeerKey | NetstackError go_error | ConfigureError go_error

definition noKey :: "byte list" where "noKey = replicate 32 0"

text \<open>\<open>createTUN\<close> and \<open>ipcSet\<close> are the answers of netstack and of the device. The second result says what of
  the created TUN and device is still open; \<^verbatim>\<open>dev.Close\<close> closes both.\<close>

definition wireguard_New ::
  "go_error option \<Rightarrow> (string \<Rightarrow> go_error option) \<Rightarrow> string \<Rightarrow> substrate \<Rightarrow> wg_config
     \<Rightarrow> (wg_error + wg_tunnel) \<times> bool" where
  "wireguard_New createTUN ipcSet ep sub c =
     (if PeerPublicKey c = noKey then (Inl ErrNoPeerKey, False)
      else case createTUN of
        Some e \<Rightarrow> (Inl (NetstackError e), False)
      | None \<Rightarrow>
          (let conf = ipcConfig c ep in
           case ipcSet conf of
             Some e \<Rightarrow> (Inl (ConfigureError e), False)
           | None \<Rightarrow> (Inr \<lparr>wt_bind = NewBind sub, wt_conf = conf, wt_closed = False\<rparr>, True)))"

text \<open>\<^verbatim>\<open>Tunnel.Close\<close>: once, \<^verbatim>\<open>Down\<close> then \<^verbatim>\<open>Close\<close> of the device, which both drive the bind; then, on every call, the
  bind's verdict.\<close>

definition Tunnel_Close :: "(Bind \<Rightarrow> Bind) \<Rightarrow> (Bind \<Rightarrow> Bind) \<Rightarrow> wg_tunnel \<Rightarrow> go_error option \<times> wg_tunnel" where
  "Tunnel_Close devDown devClose t =
     (let t' = (if wt_closed t then t
                else t\<lparr>wt_bind := devClose (devDown (wt_bind t)), wt_closed := True\<rparr>)
      in (if Abandoned (wt_bind t') then Some WGSubstrateAbandoned else None, t'))"

section \<open>The UDP flow multiplexer\<close>

record UDPMux =
  um_mux :: mux
  um_conn_closed :: bool
  um_closed :: bool

definition mux_config :: "bool \<Rightarrow> muxConfig" where
  "mux_config dialing = \<lparr>Dialing = dialing, FINRetryInterval = 0, FINRetryCount = 0, IdleTimeout = 0,
     TombstoneTTL = 0, MaxPending = 0, MaxTombstones = 0\<rparr>"

definition NewUDPMux :: "go_error option \<Rightarrow> bool \<Rightarrow> go_error + UDPMux" where
  "NewUDPMux dial dialing =
     (case dial of
        Some e \<Rightarrow> Inl e
      | None \<Rightarrow> Inr \<lparr>um_mux = mux_New (mux_config dialing), um_conn_closed = False, um_closed = False\<rparr>)"

definition um_send :: "(byte list \<Rightarrow> io_error + nat) \<Rightarrow> byte list \<Rightarrow> io_error option" where
  "um_send w msg = (case w msg of Inl e \<Rightarrow> Some e | Inr _ \<Rightarrow> None)"

text \<open>One read of the virtual connection: a datagram longer than the buffer is cut.\<close>

definition um_recv :: "io_error + byte list \<Rightarrow> io_error + byte list" where
  "um_recv r = (case r of Inl e \<Rightarrow> Inl e | Inr d \<Rightarrow> Inr (take maxVirtualDatagram d))"

definition um_Close :: "io_error option \<Rightarrow> UDPMux \<Rightarrow> io_error option \<times> UDPMux" where
  "um_Close connErr m =
     (if um_closed m then (None, m)
      else (connErr, m\<lparr>um_mux := mux_Close (um_mux m), um_conn_closed := True, um_closed := True\<rparr>))"

section \<open>The configuration text\<close>

text \<open>How the device reads it: one \<^verbatim>\<open>key=value\<close> pair per line.\<close>

definition uapi_pairs :: "string \<Rightarrow> (string \<times> string) list" where
  "uapi_pairs s = map (\<lambda>l. case Cut (CHR ''='') l of (k, v, _) \<Rightarrow> (k, v)) (filter (\<lambda>l. l \<noteq> []) (Split (CHR 0x0A) s))"

definition render_pairs :: "(string \<times> string) list \<Rightarrow> string" where
  "render_pairs kvs = concat (map (\<lambda>(k, v). ipc_line k v) kvs)"

definition clean_pair :: "string \<times> string \<Rightarrow> bool" where
  "clean_pair kv = (no_space (fst kv) \<and> CHR ''='' \<notin> set (fst kv) \<and> no_space (snd kv))"

lemma Split_render:
  "list_all clean_pair kvs \<Longrightarrow> Split (CHR 0x0A) (render_pairs kvs) = map (\<lambda>(k, v). k @ ''='' @ v) kvs @ [[]]"
proof (induction kvs)
  case (Cons kv kvs)
  obtain k v where kv: "kv = (k, v)" by (cases kv)
  have "CHR 0x0A \<notin> set (k @ ''='' @ v)"
    using Cons.prems no_space_newline by (auto simp: kv clean_pair_def)
  then have "Split (CHR 0x0A) ((k @ ''='' @ v) @ CHR 0x0A # render_pairs kvs) = (k @ ''='' @ v) # Split (CHR 0x0A) (render_pairs kvs)"
    by (rule Split_append)
  then show ?case using Cons by (simp add: kv render_pairs_def ipc_line_def)
qed (simp add: render_pairs_def)

lemma uapi_pairs_render: "list_all clean_pair kvs \<Longrightarrow> uapi_pairs (render_pairs kvs) = kvs"
proof -
  assume c: "list_all clean_pair kvs"
  have "filter (\<lambda>l. l \<noteq> []) (map (\<lambda>(k, v). k @ ''='' @ v) kvs) = map (\<lambda>(k, v). k @ ''='' @ v) kvs"
    by (auto simp: filter_id_conv)
  moreover have "map (\<lambda>l. case Cut (CHR ''='') l of (k, v, _) \<Rightarrow> (k, v)) (map (\<lambda>(k, v). k @ ''='' @ v) kvs) = kvs"
    using c by (induction kvs) (auto simp: Cut_append clean_pair_def)
  ultimately show ?thesis by (simp add: uapi_pairs_def Split_render [OF c])
qed

lemma no_space_Addr_String [simp]: "no_space (Addr_String a)"
  by (cases a) (simp add: isSpace_def)

definition ipc_pairs :: "wg_config \<Rightarrow> string \<Rightarrow> (string \<times> string) list" where
  "ipc_pairs c ep =
     [(''private_key'', hexEncode (PrivateKey c)), (''public_key'', hexEncode (PeerPublicKey c)),
      (''allowed_ip'', Addr_String (Peer c) @ ''/'' @ decimal (BitLen (Peer c))), (''endpoint'', ep)]
   @ (if Initiate c then [(''persistent_keepalive_interval'', decimal keepaliveSeconds)] else [])"

lemma ipcConfig_render: "ipcConfig c ep = render_pairs (ipc_pairs c ep)"
  by (simp add: ipcConfig_def render_pairs_def ipc_pairs_def)

lemma ipc_pairs_clean: "no_space ep \<Longrightarrow> list_all clean_pair (ipc_pairs c ep)"
  by (simp add: ipc_pairs_def clean_pair_def isSpace_def)

text \<open>The configuration text says what was configured and nothing else. For an endpoint name without white
  space, reading the text line by line gives exactly the four pairs, the keys decode to the key bytes, and
  the keepalive, which is what makes a device open the handshake, is there exactly on the initiator; so two
  devices of one session never both initiate.\<close>

theorem ipcConfig_read_back:
  assumes "no_space ep"
  shows "uapi_pairs (ipcConfig c ep) = ipc_pairs c ep
    \<and> map_option hexDecode (map_of (uapi_pairs (ipcConfig c ep)) ''private_key'') = Some (Some (PrivateKey c))
    \<and> map_option hexDecode (map_of (uapi_pairs (ipcConfig c ep)) ''public_key'') = Some (Some (PeerPublicKey c))
    \<and> (map_of (uapi_pairs (ipcConfig c ep)) ''persistent_keepalive_interval'' \<noteq> None) = Initiate c"
proof -
  have "uapi_pairs (ipcConfig c ep) = ipc_pairs c ep"
    unfolding ipcConfig_render by (rule uapi_pairs_render) (rule ipc_pairs_clean [OF assms])
  then show ?thesis by (simp add: ipc_pairs_def)
qed

definition sample_wg_config :: wg_config where
  "sample_wg_config = \<lparr>PrivateKey = replicate 32 7, PeerPublicKey = replicate 32 9, Local = ClientAddr, Peer = HostAddr, Initiate = True\<rparr>"

theorem ipcConfig_read_back_witness:
  "no_space ''192.0.2.7:4500''
   \<and> uapi_pairs (ipcConfig sample_wg_config ''192.0.2.7:4500'') = ipc_pairs sample_wg_config ''192.0.2.7:4500''
   \<and> map_of (uapi_pairs (ipcConfig sample_wg_config ''192.0.2.7:4500'')) ''persistent_keepalive_interval'' \<noteq> None"
proof -
  have n: "no_space ''192.0.2.7:4500''" by (simp add: isSpace_def)
  have i: "Initiate sample_wg_config" by (simp add: sample_wg_config_def)
  show ?thesis using ipcConfig_read_back [OF n, of sample_wg_config] n i by blast
qed

section \<open>The state dump\<close>

lemma handshaken_lines_clean:
  assumes "list_all clean_pair kvs"
  shows "handshaken_lines (map (\<lambda>(k, v). k @ ''='' @ v) kvs @ [[]])
    = (\<exists>v. (''last_handshake_time_sec'', v) \<in> set kvs \<and> v \<noteq> '''' \<and> v \<noteq> ''0'')"
  using assms
proof (induction kvs)
  case Nil
  then show ?case by (simp add: TrimSpace_def Cut_def)
next
  case (Cons kv kvs)
  obtain k v where kv: "kv = (k, v)" by (cases kv)
  have "no_space (k @ ''='' @ v)" "CHR ''='' \<notin> set k" using Cons.prems by (auto simp: kv clean_pair_def isSpace_def)
  then have "Cut (CHR ''='') (TrimSpace (k @ ''='' @ v)) = (k, v, True)"
    by (simp only: TrimSpace_no_space) (simp add: Cut_append)
  then show ?case using Cons by (auto simp: kv)
qed

lemma handshaken_reads_clean:
  "list_all clean_pair kvs \<Longrightarrow> handshaken (Inr (render_pairs kvs))
    = Inr (\<exists>v. (''last_handshake_time_sec'', v) \<in> set kvs \<and> v \<noteq> '''' \<and> v \<noteq> ''0'')"
  using handshaken_lines_clean [of kvs] by (simp add: handshaken_def Split_render)

definition sample_dump :: "(string \<times> string) list" where
  "sample_dump = [(''public_key'', ''0909''), (''last_handshake_time_sec'', ''0''),
     (''public_key'', ''0a0a''), (''last_handshake_time_sec'', ''1700000000'')]"

lemma sample_dump_clean: "list_all clean_pair sample_dump" "list_all clean_pair (take 2 sample_dump)"
  by (simp_all add: sample_dump_def clean_pair_def isSpace_def)

lemma sample_dump_read:
  "handshaken (Inr (render_pairs sample_dump)) = Inr True"
  "handshaken (Inr (render_pairs (take 2 sample_dump))) = Inr False"
proof -
  have "(''last_handshake_time_sec'', ''1700000000'') \<in> set sample_dump" by (simp add: sample_dump_def)
  then show "handshaken (Inr (render_pairs sample_dump)) = Inr True"
    unfolding handshaken_reads_clean [OF sample_dump_clean(1)] by force
  show "handshaken (Inr (render_pairs (take 2 sample_dump))) = Inr False"
    unfolding handshaken_reads_clean [OF sample_dump_clean(2)] by (simp add: sample_dump_def)
qed

text \<open>\<^verbatim>\<open>handshaken\<close> reads the device state right: on any dump of \<^verbatim>\<open>key=value\<close> lines it reports a handshake
  exactly when some peer's \<^verbatim>\<open>last_handshake_time_sec\<close> is neither empty nor zero, whatever other lines there are
  and in whatever order.\<close>

theorem handshaken_reads_dump:
  assumes "list_all clean_pair kvs"
  shows "handshaken (Inr (render_pairs kvs))
    = Inr (\<exists>v. (''last_handshake_time_sec'', v) \<in> set kvs \<and> v \<noteq> '''' \<and> v \<noteq> ''0'')"
  by (rule handshaken_reads_clean [OF assms])

theorem handshaken_reads_dump_witness:
  "list_all clean_pair sample_dump \<and> handshaken (Inr (render_pairs sample_dump))
    = Inr (\<exists>v. (''last_handshake_time_sec'', v) \<in> set sample_dump \<and> v \<noteq> '''' \<and> v \<noteq> ''0'')
   \<and> handshaken (Inr (render_pairs sample_dump)) = Inr True"
  using handshaken_reads_dump [OF sample_dump_clean(1)] sample_dump_clean sample_dump_read by blast

section \<open>The wait\<close>

text \<open>The \<open>k\<close>-th poll after the \<open>i\<close>-th takes place, with \<open>d\<close> left until the deadline.\<close>

definition poll_reached ::
  "(nat \<Rightarrow> go_error + string) \<Rightarrow> (nat \<Rightarrow> bool) \<Rightarrow> bool \<Rightarrow> duration \<Rightarrow> nat \<Rightarrow> nat \<Rightarrow> bool" where
  "poll_reached get cancelled tie d i k \<longleftrightarrow>
     (\<forall>j<k. handshaken (get (i + j)) = Inr False \<and> \<not> cancelled (i + j))
   \<and> (k = 0 \<or> int k * handshakePollInterval < d \<or> int k * handshakePollInterval = d \<and> tie)"

lemma poll_reached_0 [simp]: "poll_reached get cancelled tie d i 0"
  by (simp add: poll_reached_def)

lemma poll_reached_Suc:
  "poll_reached get cancelled tie d i (Suc k) \<longleftrightarrow>
     handshaken (get i) = Inr False \<and> \<not> cancelled i
   \<and> (handshakePollInterval < d \<or> handshakePollInterval = d \<and> tie)
   \<and> poll_reached get cancelled tie (d - handshakePollInterval) (Suc i) k"
proof -
  define x where "x = int k * handshakePollInterval"
  have pos: "0 < handshakePollInterval" by (simp add: handshakePollInterval_def)
  then have x: "0 \<le> x" "k = 0 \<longleftrightarrow> x = 0" by (auto simp: x_def)
  have "int (Suc k) * handshakePollInterval = handshakePollInterval + x" by (simp add: x_def algebra_simps)
  moreover have "(handshakePollInterval + x < d \<or> handshakePollInterval + x = d \<and> tie) \<longleftrightarrow>
      (handshakePollInterval < d \<or> handshakePollInterval = d \<and> tie)
      \<and> (k = 0 \<or> x < d - handshakePollInterval \<or> x = d - handshakePollInterval \<and> tie)"
    using pos x by auto
  ultimately show ?thesis by (simp add: poll_reached_def All_less_Suc2 x_def) blast
qed

lemma poll_search:
  "(\<exists>k. poll_reached get cancelled tie d i k \<and> handshaken (get (i + k)) = x) \<longleftrightarrow>
     handshaken (get i) = x \<or> handshaken (get i) = Inr False \<and> \<not> cancelled i
       \<and> (handshakePollInterval < d \<or> handshakePollInterval = d \<and> tie)
       \<and> (\<exists>k. poll_reached get cancelled tie (d - handshakePollInterval) (Suc i) k \<and> handshaken (get (Suc i + k)) = x)"
  (is "(\<exists>k. ?P k) \<longleftrightarrow> ?rhs")
proof -
  have "(\<exists>k. ?P k) \<longleftrightarrow> ?P 0 \<or> (\<exists>k. ?P (Suc k))" using not0_implies_Suc by metis
  then show ?thesis by (simp add: poll_reached_Suc)
qed

lemma WaitHandshake_loop_spec:
  "(WaitHandshake_loop get cancelled tie deadline i now = None
      \<longleftrightarrow> (\<exists>k. poll_reached get cancelled tie (deadline - now) i k \<and> handshaken (get (i + k)) = Inr True))
   \<and> (\<forall>e. WaitHandshake_loop get cancelled tie deadline i now = Some (WaitIpc e)
      \<longleftrightarrow> (\<exists>k. poll_reached get cancelled tie (deadline - now) i k \<and> handshaken (get (i + k)) = Inl e))"
proof (induction get cancelled tie deadline i now rule: WaitHandshake_loop.induct)
  case (1 get cancelled tie deadline i now)
  note unfold = WaitHandshake_loop.simps [of get cancelled tie deadline i now]
  consider e where "handshaken (get i) = Inl e" | "handshaken (get i) = Inr True" | "handshaken (get i) = Inr False"
    by (cases "handshaken (get i)") auto
  then show ?case
  proof cases
    case 3
    have d: "deadline - (now + handshakePollInterval) = deadline - now - handshakePollInterval" by simp
    show ?thesis unfolding poll_search [of get cancelled tie "deadline - now" i]
      using 1(1) [OF 3, unfolded d] 3 by (auto simp: unfold)
  qed (auto simp: poll_search [of get cancelled tie "deadline - now" i] unfold)
qed

text \<open>C35: the wait for the handshake always ends, and right. It polls the device a bounded number of times, at most
  one poll per interval of the timeout after the first; it succeeds exactly when one of the polls it reaches
  shows a handshake, fails with the device's error exactly when one it reaches fails, and otherwise reports
  the context.\<close>

theorem WaitHandshake_result:
  "(WaitHandshake get cancelled tie now timeout = None
      \<longleftrightarrow> (\<exists>k. poll_reached get cancelled tie timeout 0 k \<and> handshaken (get k) = Inr True))
   \<and> (\<forall>e. WaitHandshake get cancelled tie now timeout = Some (WaitIpc e)
      \<longleftrightarrow> (\<exists>k. poll_reached get cancelled tie timeout 0 k \<and> handshaken (get k) = Inl e))
   \<and> (\<forall>k. poll_reached get cancelled tie timeout 0 k \<longrightarrow> int k \<le> max 0 timeout div handshakePollInterval)"
proof (intro conjI allI impI)
  note loop = WaitHandshake_loop_spec [of get cancelled tie "now + timeout" 0 now]
  show "WaitHandshake get cancelled tie now timeout = None
      \<longleftrightarrow> (\<exists>k. poll_reached get cancelled tie timeout 0 k \<and> handshaken (get k) = Inr True)"
    using loop by (simp add: WaitHandshake_def)
  show "WaitHandshake get cancelled tie now timeout = Some (WaitIpc e)
      \<longleftrightarrow> (\<exists>k. poll_reached get cancelled tie timeout 0 k \<and> handshaken (get k) = Inl e)" for e
    using loop by (simp add: WaitHandshake_def)
  fix k assume "poll_reached get cancelled tie timeout 0 k"
  then have "k = 0 \<or> int k * handshakePollInterval \<le> max 0 timeout" by (auto simp: poll_reached_def)
  then show "int k \<le> max 0 timeout div handshakePollInterval"
    by (auto simp: handshakePollInterval_def)
qed

theorem WaitHandshake_result_witness:
  "WaitHandshake (\<lambda>i. Inr (render_pairs (if i < 3 then take 2 sample_dump else sample_dump))) (\<lambda>_. False) False 0 second = None
   \<and> WaitHandshake (\<lambda>i. Inr (render_pairs (take 2 sample_dump))) (\<lambda>_. False) False 0 second \<noteq> None"
proof -
  note h = sample_dump_read
  have "poll_reached (\<lambda>i. Inr (render_pairs (if i < 3 then take 2 sample_dump else sample_dump))) (\<lambda>_. False) False second 0 3"
    using h by (simp add: poll_reached_def second_def handshakePollInterval_def)
  then show ?thesis
    using h WaitHandshake_result [of "\<lambda>i. Inr (render_pairs (if i < 3 then take 2 sample_dump else sample_dump))" "\<lambda>_. False" False 0 second]
      WaitHandshake_result [of "\<lambda>i. Inr (render_pairs (take 2 sample_dump))" "\<lambda>_. False" False 0 second]
    by force
qed

section \<open>The teardown of a tunnel\<close>

text \<open>What the device does with the bind between \<^verbatim>\<open>New\<close> and the return of \<^verbatim>\<open>Tunnel.Close\<close>: it only calls the
  bind's methods, it brought it up at most once, it has closed it, and none of its \<^verbatim>\<open>Bind.Close\<close> calls is
  still running.\<close>

definition settled :: "Bind \<Rightarrow> bool" where
  "settled b \<longleftrightarrow> length (b_openings b) \<le> 1 \<and> b_open b = None
     \<and> (\<forall>k c. b_closing b k = Some c \<longrightarrow> (\<exists>e. c = CReturned e \<or> c = CAbandoned e))"

lemma settled_cases:
  assumes inv: "bind_inv b" "closers_inv b" and s: "settled b"
  shows "b_sub b = fresh_substrate \<and> \<not> Abandoned b \<and> (\<forall>e < length (b_openings b). op_recv (b_openings b ! e) \<noteq> RvRead)
    \<or> su_closed (b_sub b) \<and> Abandoned b"
proof (cases "b_openings b")
  case Nil
  then have "b_closing b k = None" for k using bind_invD(3) [OF inv(1), of k] by (cases "b_closing b k") auto
  then show ?thesis using bind_invD(5-7) [OF inv(1)] Nil
    by (auto simp: Abandoned_def fresh_substrate_def intro!: substrate.equality)
next
  case (Cons x xs)
  then have l: "length (b_openings b) = 1" using s by (simp add: settled_def)
  then obtain k c where c: "b_closing b k = Some c" "closing_of c = 0"
    using inv(2) s by (auto simp: closers_inv_def settled_def)
  then consider "c = CReturned 0" | "c = CAbandoned 0" using s unfolding settled_def by fastforce
  then show ?thesis
  proof cases
    case 1
    have "op_recv (b_openings b ! 0) \<noteq> RvRead"
      using bind_invD(1,3) [OF inv(1)] c 1 by (fastforce simp: recv_inv_def)
    then show ?thesis using single_opening_returned [OF inv(1) c(1) [unfolded 1] l] l by simp
  next
    case 2
    then show ?thesis using bind_invD(5,6) [OF inv(1)] c gave_up.simps(2) unfolding Abandoned_def by blast
  qed
qed

text \<open>The verdict of \<^verbatim>\<open>Tunnel.Close\<close> is the truth about the substrate. For a tunnel built over a fresh
  substrate whose device used the bind in any way through its methods, brought it up at most once and left
  no close running: the first \<^verbatim>\<open>Close\<close> returns nil exactly when the substrate is left open, without a deadline
  and with no receive inside it, and \<^verbatim>\<open>ErrSubstrateAbandoned\<close> exactly when it was closed; every further \<^verbatim>\<open>Close\<close>
  says the same and touches nothing.\<close>

theorem Tunnel_Close_verdict:
  assumes new: "wireguard_New createTUN ipcSet ep fresh_substrate c = (Inr t, still_open)"
    and used: "bind_step\<^sup>*\<^sup>* (wt_bind t) b"
    and down: "bind_step\<^sup>*\<^sup>* b (devDown b)" "bind_step\<^sup>*\<^sup>* (devDown b) (devClose (devDown b))"
    and quiet: "settled (devClose (devDown b))"
    and close: "Tunnel_Close devDown devClose (t\<lparr>wt_bind := b\<rparr>) = (r, t')"
  shows "(r = None) = (b_sub (wt_bind t') = fresh_substrate
            \<and> (\<forall>e < length (b_openings (wt_bind t')). op_recv (b_openings (wt_bind t') ! e) \<noteq> RvRead))
    \<and> (r = Some WGSubstrateAbandoned) = su_closed (b_sub (wt_bind t'))
    \<and> Tunnel_Close down' close' t' = (r, t')"
proof -
  let ?b = "devClose (devDown b)"
  have t: "wt_bind t = NewBind fresh_substrate" "\<not> wt_closed t"
    using new by (auto simp: wireguard_New_def Let_def split: if_splits option.splits)
  then have reach: "bind_step\<^sup>*\<^sup>* (NewBind fresh_substrate) ?b"
    using used down by (auto intro: rtranclp_trans)
  have inv: "bind_inv ?b" "closers_inv ?b"
    using bind_user.ok_steps [OF reach bind_inv_start [OF refl]] closers_inv_steps [OF reach closers_inv_start] .
  have t': "wt_bind t' = ?b" "wt_closed t'" "r = (if Abandoned ?b then Some WGSubstrateAbandoned else None)"
    using close t by (auto simp: Tunnel_Close_def Let_def)
  then have again: "Tunnel_Close down' close' t' = (r, t')" by (simp add: Tunnel_Close_def)
  have "su_closed fresh_substrate = False" by (simp add: fresh_substrate_def)
  then show ?thesis using settled_cases [OF inv quiet] t' again by auto
qed

text \<open>A device that brings the bind up, is blocked in a receive, and on \<^verbatim>\<open>Down\<close> closes the bind and waits.\<close>

definition sample_down :: "Bind \<Rightarrow> Bind" where
  "sample_down b = the (run_acts bind_act [AClose 3 CBegin, AClose 3 (CDeadline False),
     ARecv 0 (RFail True False), ARecv 0 RCheckErr, AClose 3 CSawExited, AClose 3 CCleared] b)"

definition sample_up :: Bind where
  "sample_up = the (run_acts bind_act [AOpen 0, ARecv 0 (RCall True), ARecv 0 RCheckTop] (NewBind fresh_substrate))"

theorem Tunnel_Close_verdict_witness:
  "\<exists>t t'. wireguard_New None (\<lambda>_. None) ''192.0.2.7:4500'' fresh_substrate sample_wg_config = (Inr t, True)
    \<and> Tunnel_Close sample_down id (t\<lparr>wt_bind := sample_up\<rparr>) = (None, t') \<and> b_sub (wt_bind t') = fresh_substrate"
proof -
  let ?t = "\<lparr>wt_bind = NewBind fresh_substrate, wt_conf = ipcConfig sample_wg_config ''192.0.2.7:4500'', wt_closed = False\<rparr>"
  let ?acts = "[AClose 3 CBegin, AClose 3 (CDeadline False),
     ARecv 0 (RFail True False), ARecv 0 RCheckErr, AClose 3 CSawExited, AClose 3 CCleared]"
  note ev = sample_up_def sample_down_def NewBind_def bind_Open_def upd_opening_def told_closed_def fresh_substrate_def
  have new: "wireguard_New None (\<lambda>_. None) ''192.0.2.7:4500'' fresh_substrate sample_wg_config = (Inr ?t, True)"
    by (simp add: wireguard_New_def Let_def sample_wg_config_def noKey_def)
  have used: "bind_step\<^sup>*\<^sup>* (wt_bind ?t) sample_up"
    by (rule bind_run [of "[AOpen 0, ARecv 0 (RCall True), ARecv 0 RCheckTop]"]) (simp add: ev)
  have down: "bind_step\<^sup>*\<^sup>* sample_up (sample_down sample_up)" by (rule bind_run [of ?acts]) (simp add: ev)
  have quiet: "settled (id (sample_down sample_up))" by (simp add: settled_def ev)
  have "\<not> Abandoned (sample_down sample_up)" by (simp add: Abandoned_def ev)
  then have cl: "Tunnel_Close sample_down id (?t\<lparr>wt_bind := sample_up\<rparr>)
      = (None, ?t\<lparr>wt_bind := sample_down sample_up, wt_closed := True\<rparr>)" by (simp add: Tunnel_Close_def)
  have "bind_step\<^sup>*\<^sup>* (sample_down sample_up) (id (sample_down sample_up))" by simp
  from Tunnel_Close_verdict [OF new used down this quiet cl] show ?thesis using new cl by blast
qed

section \<open>The multiplexer over the virtual connection\<close>

lemma um_recv_whole: "length d \<le> maxVirtualDatagram \<Longrightarrow> um_recv (Inr d) = Inr d"
  by (simp add: um_recv_def)

lemma um_Close_twice: "um_Close e (snd (um_Close e' m)) = (None, snd (um_Close e' m))"
  by (simp add: um_Close_def)

end
