(* ===== verification/Slog.thy ===== *)
theory Slog
  imports Prelude
begin

text \<open>
  Structured log records (\<^verbatim>\<open>log/slog\<close>): a level, a message and its attributes, in the order they are given. A
  function that logs returns the records it emits. A float is kept as it is printed.
\<close>

datatype slog_level = LevelDebug | LevelInfo | LevelWarn | LevelError

datatype slog_value = VStr string | VInt int | VFloat string | VBool bool | VStrs "string list"

record slog_record =
  sl_level :: slog_level
  sl_msg :: string
  sl_attrs :: "(string \<times> slog_value) list"

definition slog :: "slog_level \<Rightarrow> string \<Rightarrow> (string \<times> slog_value) list \<Rightarrow> slog_record" where
  "slog l msg attrs = \<lparr>sl_level = l, sl_msg = msg, sl_attrs = attrs\<rparr>"

lemma slog_simps [simp]:
  "sl_level (slog l m as) = l" "sl_msg (slog l m as) = m" "sl_attrs (slog l m as) = as"
  by (simp_all add: slog_def)

text \<open>\<^verbatim>\<open>Duration.Milliseconds\<close> truncates toward zero.\<close>

definition Milliseconds :: "duration \<Rightarrow> int" where
  "Milliseconds d = (if d \<ge> 0 then d div 1000000 else - ((- d) div 1000000))"

definition error_attr :: "string option \<Rightarrow> (string \<times> slog_value) list" where
  "error_attr cause = (case cause of None \<Rightarrow> [] | Some e \<Rightarrow> [(''error'', VStr e)])"

end
