(* ===== verification/Quic_Tunnel.thy ===== *)
theory Quic_Tunnel
  imports Tier Fragment Slog
begin

text \<open>
  The QUIC data plane: \<^verbatim>\<open>internal/quictun/quictun.go\<close> (construction, teardown, streams), \<^verbatim>\<open>identity.go\<close>
  (credentials and certificate pinning) and \<^verbatim>\<open>datagram.go\<close> (the multiplexer over the datagram channel).
  quic-go, TLS, X.509 and SHA-256 are parameters: \<open>start_env\<close> is what the calls answer, and every function
  returns, besides its Go results, the calls it made on the shared resources, in order.
\<close>

section \<open>Constants and configuration\<close>

definition defaultHandshakeTimeout :: duration where "defaultHandshakeTimeout = 6 * second"
definition defaultKeepAlive :: duration where "defaultKeepAlive = 15 * second"
definition defaultMaxIdle :: duration where "defaultMaxIdle = 60 * second"
definition maxIncomingStreams :: int where "maxIncomingStreams = 1024"

record quic_identity =
  id_cert :: "byte list"
  id_Fingerprint :: "byte list"

record quic_options = quictun_config +
  Identity :: "quic_identity option"
  KeepAlive :: duration
  MaxIdle :: duration

definition quic_handshakeTimeout :: "quic_options \<Rightarrow> duration" where
  "quic_handshakeTimeout c = (if QHandshakeTimeout c > 0 then QHandshakeTimeout c else defaultHandshakeTimeout)"

record quic_Config =
  EnableDatagrams :: bool
  HandshakeIdleTimeout :: duration
  KeepAlivePeriod :: duration
  MaxIdleTimeout :: duration
  MaxIncomingStreams :: int
  DisablePathMTUDiscovery :: bool

definition Config_quic :: "quic_options \<Rightarrow> quic_Config" where
  "Config_quic c = \<lparr>EnableDatagrams = Datagrams c, HandshakeIdleTimeout = quic_handshakeTimeout c,
     KeepAlivePeriod = (if KeepAlive c \<le> 0 then defaultKeepAlive else KeepAlive c),
     MaxIdleTimeout = (if MaxIdle c \<le> 0 then defaultMaxIdle else MaxIdle c),
     MaxIncomingStreams = maxIncomingStreams, DisablePathMTUDiscovery = True\<rparr>"

section \<open>Credentials and pinning\<close>

definition alpn :: string where "alpn = ''mtunnel/2''"

text \<open>\<open>genKey\<close>, \<open>serial\<close> and \<open>createCert\<close> are the answers of the key, serial number and certificate generation.\<close>

definition NewIdentity ::
  "(byte list \<Rightarrow> byte list) \<Rightarrow> go_error option \<Rightarrow> go_error option \<Rightarrow> go_error + byte list \<Rightarrow> go_error + quic_identity" where
  "NewIdentity sha256 genKey serial createCert =
     (case genKey of Some e \<Rightarrow> Inl e
      | None \<Rightarrow> (case serial of Some e \<Rightarrow> Inl e
      | None \<Rightarrow> (case createCert of Inl e \<Rightarrow> Inl e
      | Inr der \<Rightarrow> Inr \<lparr>id_cert = der, id_Fingerprint = sha256 der\<rparr>)))"

record tls_Config =
  Certificates :: "byte list list"
  NextProtos :: "string list"
  RequireAnyClientCert :: bool
  InsecureSkipVerify :: bool
  VerifyPeerCertificate :: "byte list list \<Rightarrow> go_error option"

definition pinnedTo :: "(byte list \<Rightarrow> byte list) \<Rightarrow> byte list \<Rightarrow> byte list list \<Rightarrow> go_error option" where
  "pinnedTo sha256 want rawCerts =
     (case rawCerts of
        [] \<Rightarrow> Some (ErrText ''quictun: peer presented no certificate'')
      | leaf # _ \<Rightarrow> if sha256 leaf \<noteq> want then Some (ErrText ''quictun: peer certificate fingerprint does not match'') else None)"

definition clientTLS :: "(byte list \<Rightarrow> byte list) \<Rightarrow> byte list \<Rightarrow> quic_identity \<Rightarrow> tls_Config" where
  "clientTLS sha256 peer i = \<lparr>Certificates = [id_cert i], NextProtos = [alpn], RequireAnyClientCert = False,
     InsecureSkipVerify = True, VerifyPeerCertificate = pinnedTo sha256 peer\<rparr>"

definition serverTLS :: "(byte list \<Rightarrow> byte list) \<Rightarrow> byte list \<Rightarrow> quic_identity \<Rightarrow> tls_Config" where
  "serverTLS sha256 peer i = \<lparr>Certificates = [id_cert i], NextProtos = [alpn], RequireAnyClientCert = True,
     InsecureSkipVerify = True, VerifyPeerCertificate = pinnedTo sha256 peer\<rparr>"

definition validFingerprint :: "byte list \<Rightarrow> bool" where
  "validFingerprint fp = (fp \<noteq> replicate 32 0)"

section \<open>Construction\<close>

text \<open>The calls on what a tunnel is built from, and what they answer. \<^verbatim>\<open>pc.Close\<close> answers nil or
  \<^verbatim>\<open>ErrSubstrateAbandoned\<close>.\<close>

datatype qcall = CallDial | CallListen | CallAccept | CloseConn | CloseCodec | CloseMux | AwaitMux
  | CloseListener | CloseTransport | ClosePacketConn

record start_env =
  se_Dial :: "go_error option"
  se_Listen :: "go_error option"
  se_Accept :: "go_error option"
  se_Datagrams :: "bool \<times> bool"
  se_tr_Close :: "go_error option"
  se_pc_abandons :: bool

definition pc_verdict :: "start_env \<Rightarrow> go_error option" where
  "pc_verdict env = (if se_pc_abandons env then Some QUICSubstrateAbandoned else None)"

record quic_tunnel =
  qt_listener :: bool
  qt_mux :: "mux option"
  qt_codec_closed :: bool
  qt_closed :: bool
  qt_closeErr :: "go_error option"

definition release :: "start_env \<Rightarrow> bool \<Rightarrow> go_error option \<times> qcall list" where
  "release env ln = (pc_verdict env, (if ln then [CloseListener] else []) @ [CloseTransport, ClosePacketConn])"

text \<open>The handshake: dialled, or listened for and accepted. The flag says whether a listener exists.\<close>

definition quic_connect :: "start_env \<Rightarrow> bool \<Rightarrow> go_error option \<times> bool \<times> qcall list" where
  "quic_connect env dialing =
     (if dialing then (se_Dial env, False, [CallDial])
      else case se_Listen env of
        Some e \<Rightarrow> (Some e, False, [CallListen])
      | None \<Rightarrow> (se_Accept env, True, [CallListen, CallAccept]))"

definition newMux :: "bool \<Rightarrow> mux" where
  "newMux dialing = mux_New \<lparr>Dialing = dialing, FINRetryInterval = 0, FINRetryCount = 0, IdleTimeout = 0,
     TombstoneTTL = 0, MaxPending = 0, MaxTombstones = 0\<rparr>"

definition noDatagrams :: go_error where
  "noDatagrams = ErrText ''quictun: peer did not enable QUIC datagram support''"

definition start :: "start_env \<Rightarrow> quic_options \<Rightarrow> bool \<Rightarrow> (go_error + quic_tunnel) \<times> qcall list" where
  "start env c dialing =
     (if Identity c = None then (Inl (ErrText ''quictun: no local identity''), [])
      else if \<not> validFingerprint (PeerFingerprint c)
      then (Inl (ErrText ''quictun: peer supplied no certificate fingerprint''), [])
      else case quic_connect env dialing of (err, ln, calls) \<Rightarrow>
        (case err of
           Some e \<Rightarrow> (case release env ln of (rel, calls') \<Rightarrow> (Inl (the (errors_Join [Some e, rel])), calls @ calls'))
         | None \<Rightarrow>
             if Datagrams c \<and> \<not> (fst (se_Datagrams env) \<and> snd (se_Datagrams env))
             then (Inl noDatagrams, calls @ [CloseConn] @ snd (release env ln))
             else (Inr \<lparr>qt_listener = ln, qt_mux = (if Datagrams c then Some (newMux dialing) else None),
                     qt_codec_closed = False, qt_closed = False, qt_closeErr = None\<rparr>, calls)))"

definition quictun_Dial :: "start_env \<Rightarrow> quic_options \<Rightarrow> (go_error + quic_tunnel) \<times> qcall list" where
  "quictun_Dial env c = start env c True"

definition quictun_Accept :: "start_env \<Rightarrow> quic_options \<Rightarrow> (go_error + quic_tunnel) \<times> qcall list" where
  "quictun_Accept env c = start env c False"

section \<open>Use and teardown\<close>

text \<open>A forwarded connection is a flow of the mux in the datagram sub-mode, a QUIC stream otherwise;
  \<open>conn\<close> is what the connection answers.\<close>

datatype quic_channel = Flow addr | QuicStream nat

definition quic_OpenStream ::
  "go_error + nat \<Rightarrow> gtime \<Rightarrow> quic_tunnel \<Rightarrow> ((io_error + go_error) + quic_channel) \<times> quic_tunnel" where
  "quic_OpenStream conn now t =
     (case qt_mux t of
        Some m \<Rightarrow>
          (case mux_OpenStream now m of
             (Inl e, m') \<Rightarrow> (Inl (Inl e), t\<lparr>qt_mux := Some m'\<rparr>)
           | (Inr a, m') \<Rightarrow> (Inr (Flow a), t\<lparr>qt_mux := Some m'\<rparr>))
      | None \<Rightarrow> (case conn of Inl e \<Rightarrow> (Inl (Inr e), t) | Inr s \<Rightarrow> (Inr (QuicStream s), t)))"

text \<open>\<open>sel\<close> and \<open>ctx\<close> are the mux's select and the caller's context, \<open>conn\<close> what the connection answers.\<close>

definition quic_AcceptStream ::
  "go_error + nat \<Rightarrow> accept_case \<Rightarrow> bool \<Rightarrow> quic_tunnel \<Rightarrow> (((accept_error + go_error) + quic_channel) \<times> quic_tunnel) option" where
  "quic_AcceptStream conn sel ctx t =
     (case qt_mux t of
        Some m \<Rightarrow>
          (case mux_AcceptStream sel ctx m of
             None \<Rightarrow> None
           | Some (Inl e, m') \<Rightarrow> Some (Inl (Inl e), t\<lparr>qt_mux := Some m'\<rparr>)
           | Some (Inr a, m') \<Rightarrow> Some (Inr (Flow a), t\<lparr>qt_mux := Some m'\<rparr>))
      | None \<Rightarrow> (case conn of Inl e \<Rightarrow> Some (Inl (Inr e), t) | Inr s \<Rightarrow> Some (Inr (QuicStream s), t)))"

definition quic_logFlowDrop :: "bool \<Rightarrow> u32 \<Rightarrow> string \<Rightarrow> slog_record list" where
  "quic_logFlowDrop diagnostic i reason =
     (if \<not> diagnostic then []
      else [slog LevelWarn ''tunnel_quic_flow_dropped'' [(''flow'', VInt (uint i)), (''reason'', VStr reason)]])"

text \<open>\<^verbatim>\<open>muxDone\<close> is closed at once when there is no mux.\<close>

definition muxDone :: "quic_tunnel \<Rightarrow> bool" where
  "muxDone t = (case qt_mux t of None \<Rightarrow> True | Some m \<Rightarrow> recvDone m)"

text \<open>\<^verbatim>\<open>waitMuxDone\<close> returns when the mux's receive loop has stopped or its context is done.\<close>

definition waitMuxDone :: "bool \<Rightarrow> quic_tunnel \<Rightarrow> unit option" where
  "waitMuxDone ctxDone t = (if muxDone t \<or> ctxDone then Some () else None)"

definition Close_calls :: "quic_tunnel \<Rightarrow> qcall list" where
  "Close_calls t = [CloseConn] @ (if qt_mux t \<noteq> None then [CloseCodec, CloseMux, AwaitMux] else [])
     @ (if qt_listener t then [CloseListener] else []) @ [CloseTransport, ClosePacketConn]"

definition quic_Close :: "start_env \<Rightarrow> quic_tunnel \<Rightarrow> go_error option \<times> quic_tunnel \<times> qcall list" where
  "quic_Close env t =
     (if qt_closed t then (qt_closeErr t, t, [])
      else let err = errors_Join [se_tr_Close env, pc_verdict env] in
        (err, t\<lparr>qt_mux := map_option mux_Close (qt_mux t), qt_codec_closed := (qt_mux t \<noteq> None),
                qt_closed := True, qt_closeErr := err\<rparr>, Close_calls t))"

text \<open>The calls \<^verbatim>\<open>quicStream\<close> makes on its QUIC stream.\<close>

datatype stream_call = CancelRead | CancelWrite | CloseSend

definition qs_CloseWrite :: "stream_call list" where "qs_CloseWrite = [CloseSend]"
definition qs_Close :: "stream_call list" where "qs_Close = [CancelRead, CloseSend]"
definition qs_Reset :: "stream_call list" where "qs_Reset = [CancelWrite, CancelRead]"

section \<open>A failed construction leaves nothing behind\<close>

definition usable :: "quic_options \<Rightarrow> bool" where
  "usable c = (Identity c \<noteq> None \<and> validFingerprint (PeerFingerprint c))"

definition teardown_calls :: "bool \<Rightarrow> bool \<Rightarrow> qcall list" where
  "teardown_calls conn ln = (if conn then [CloseConn] else []) @ (if ln then [CloseListener] else [])
     @ [CloseTransport, ClosePacketConn]"

lemma start_unusable: "\<not> usable c \<Longrightarrow> \<exists>e. start env c dialing = (Inl (ErrText e), [])"
  by (auto simp: start_def usable_def)

lemma start_handshake_failed:
  "usable c \<Longrightarrow> quic_connect env dialing = (Some h, ln, made) \<Longrightarrow>
     start env c dialing = (Inl (the (errors_Join [Some h, pc_verdict env])), made @ teardown_calls False ln)"
  by (simp add: start_def usable_def release_def teardown_calls_def)

lemma start_no_datagrams:
  "usable c \<Longrightarrow> quic_connect env dialing = (None, ln, made) \<Longrightarrow> Datagrams c \<Longrightarrow> se_Datagrams env \<noteq> (True, True) \<Longrightarrow>
     start env c dialing = (Inl noDatagrams, made @ teardown_calls True ln)"
  by (cases "se_Datagrams env") (auto simp: start_def usable_def release_def teardown_calls_def)

lemma start_ok:
  "usable c \<Longrightarrow> quic_connect env dialing = (None, ln, made) \<Longrightarrow> (Datagrams c \<Longrightarrow> se_Datagrams env = (True, True)) \<Longrightarrow>
     start env c dialing = (Inr \<lparr>qt_listener = ln, qt_mux = (if Datagrams c then Some (newMux dialing) else None),
       qt_codec_closed = False, qt_closed = False, qt_closeErr = None\<rparr>, made)"
  by (auto simp: start_def usable_def)

lemma errors_Is_Join_verdict:
  "\<not> errors_Is e QUICSubstrateAbandoned \<Longrightarrow>
     errors_Is (the (errors_Join [Some e, pc_verdict env])) QUICSubstrateAbandoned = se_pc_abandons env"
  by (simp add: errors_Join_def pc_verdict_def)

text \<open>The tier's view of a construction: what \<^verbatim>\<open>tier.quicTier.Dial\<close> and \<^verbatim>\<open>Serve\<close> are told.\<close>

definition result_error :: "(go_error + quic_tunnel) \<times> qcall list \<Rightarrow> go_error option" where
  "result_error r = (case fst r of Inl e \<Rightarrow> Some e | Inr _ \<Rightarrow> None)"

definition quic_plane :: "start_env \<Rightarrow> quic_options \<Rightarrow> quic_env" where
  "quic_plane env c = \<lparr>quic_Dial_result = result_error (quictun_Dial env c),
     quic_Accept_result = result_error (quictun_Accept env c)\<rparr>"

text \<open>The outcome of a rung that \<open>dialing\<close> tells apart.\<close>

definition quic_rung :: "bool \<Rightarrow> tier_impl \<Rightarrow> start_env \<Rightarrow> quic_options \<Rightarrow> tier_session \<Rightarrow> build" where
  "quic_rung dialing t env c s = (if dialing then quic_Dial t (quic_plane env c) s else quic_Serve t (quic_plane env c) s)"

lemma quic_rung_outcome:
  "fst (snd (quic_rung dialing t env c s)) =
     (case result_error (start env c dialing) of
        None \<Rightarrow> if dialing then OutcomeConnected else OutcomeServing
      | Some e \<Rightarrow> if tier_SubstrateAbandoned t (Some e) then OutcomeSubstrateAbandoned else OutcomeHandshakeFailed)"
  by (simp add: quic_rung_def quic_Dial_def quic_Serve_def quic_plane_def quictun_Dial_def quictun_Accept_def phaseFor_def
      split: option.splits)

text \<open>C25: a QUIC rung that was not built holds nothing, and says truthfully what became of the substrate. On
  either side, with a usable configuration and a QUIC library that never returns this package's own sentinel:
  the rung succeeds exactly when the handshake did and, in the datagram sub-mode, both ends enabled
  datagrams; when it succeeds nothing was closed; when the handshake failed the listener (if any), the
  transport and the packet connection were closed, in this order, and the outcome is
  \<^verbatim>\<open>OutcomeSubstrateAbandoned\<close> exactly when releasing had to close the substrate. An unusable configuration
  touches nothing.\<close>

theorem quic_rung_contract:
  assumes c: "quic_connect env dialing = (err, ln, made)" and sentinel: "\<And>h. err = Some h \<Longrightarrow> \<not> errors_Is h QUICSubstrateAbandoned"
  shows "if \<not> usable c then snd (start env c dialing) = []
           \<and> fst (snd (quic_rung dialing (QUICTier i p) env c s)) = OutcomeHandshakeFailed
         else Succeeded (fst (snd (quic_rung dialing (QUICTier i p) env c s)))
             = (err = None \<and> (Datagrams c \<longrightarrow> se_Datagrams env = (True, True)))
           \<and> (Succeeded (fst (snd (quic_rung dialing (QUICTier i p) env c s))) \<longrightarrow> snd (start env c dialing) = made)
           \<and> (err \<noteq> None \<longrightarrow> snd (start env c dialing) = made @ teardown_calls False ln
               \<and> (fst (snd (quic_rung dialing (QUICTier i p) env c s)) = OutcomeSubstrateAbandoned) = se_pc_abandons env)"
proof (cases "usable c")
  case False
  then obtain e where "start env c dialing = (Inl (ErrText e), [])" using start_unusable by blast
  then show ?thesis using False by (simp add: quic_rung_outcome result_error_def)
next
  case True
  show ?thesis
  proof (cases err)
    case None
    show ?thesis
    proof (cases "Datagrams c \<and> se_Datagrams env \<noteq> (True, True)")
      case d: True
      then show ?thesis using start_no_datagrams [OF True c [unfolded None]] True None
        by (simp add: quic_rung_outcome result_error_def noDatagrams_def Succeeded_def)
    next
      case False
      then show ?thesis using start_ok [OF True c [unfolded None]] True None
        by (auto simp: quic_rung_outcome result_error_def Succeeded_def)
    qed
  next
    case (Some h)
    then show ?thesis
      using start_handshake_failed [OF True c [unfolded Some]] errors_Is_Join_verdict [OF sentinel [OF Some], of env] True
      by (simp add: quic_rung_outcome result_error_def Succeeded_def)
  qed
qed

definition sample_start_env :: start_env where
  "sample_start_env = \<lparr>se_Dial = Some (ErrText ''timeout''), se_Listen = None, se_Accept = None,
     se_Datagrams = (True, False), se_tr_Close = None, se_pc_abandons = True\<rparr>"

definition sample_options :: "bool \<Rightarrow> quic_options" where
  "sample_options d = \<lparr>PeerFingerprint = replicate 32 5, Datagrams = d, QHandshakeTimeout = 0,
     Identity = Some \<lparr>id_cert = [1], id_Fingerprint = replicate 32 4\<rparr>, KeepAlive = 0, MaxIdle = 0\<rparr>"

lemma sample_options_usable [simp]: "usable (sample_options d)"
  by (simp add: usable_def sample_options_def validFingerprint_def)

theorem quic_rung_contract_witness:
  "fst (snd (quic_rung True (QUICTier (QUICIdentity []) \<lparr>HandshakeTimeout = 0, Diagnostic = False\<rparr>) sample_start_env (sample_options True)
        \<lparr>Network = NetworkUDP, PeerWireGuardKey = [], PeerQUICFingerprint = []\<rparr>)) = OutcomeSubstrateAbandoned"
proof -
  have c: "quic_connect sample_start_env True = (Some (ErrText ''timeout''), False, [CallDial])"
    by (simp add: quic_connect_def sample_start_env_def)
  show ?thesis
    using quic_rung_contract [OF c, of "sample_options True" "QUICIdentity []" "\<lparr>HandshakeTimeout = 0, Diagnostic = False\<rparr>"
        "\<lparr>Network = NetworkUDP, PeerWireGuardKey = [], PeerQUICFingerprint = []\<rparr>"]
    by (simp add: sample_start_env_def)
qed

text \<open>C40: one path loses the verdict. On either side, whenever the handshake completes in the datagram sub-mode but not both
  ends enabled datagrams, \<^verbatim>\<open>start\<close> tears everything down, down to the packet connection, and discards what \<^verbatim>\<open>release\<close>
  reported: the outcome is a failed handshake also when the teardown closed the shared substrate, which \<^verbatim>\<open>release\<close> did
  tell, so the ladder goes on to the next rung on a closed substrate.\<close>

theorem no_datagrams_hides_abandonment:
  assumes "usable c" "Datagrams c" "quic_connect env dialing = (None, ln, made)" "se_Datagrams env \<noteq> (True, True)"
  shows "snd (start env c dialing) = made @ teardown_calls True ln
    \<and> (\<exists>e. fst (release env ln) = Some e \<and> errors_Is e QUICSubstrateAbandoned) = se_pc_abandons env
    \<and> fst (snd (quic_rung dialing (QUICTier i p) env c s)) = OutcomeHandshakeFailed"
proof -
  have "start env c dialing = (Inl noDatagrams, made @ teardown_calls True ln)" by (rule start_no_datagrams [OF assms(1,3,2,4)])
  then show ?thesis by (simp add: quic_rung_outcome result_error_def noDatagrams_def release_def pc_verdict_def)
qed

theorem no_datagrams_hides_abandonment_witness:
  "\<exists>e. fst (release sample_start_env True) = Some e \<and> errors_Is e QUICSubstrateAbandoned
     \<and> fst (snd (quic_rung False (QUICTier (QUICIdentity []) \<lparr>HandshakeTimeout = 0, Diagnostic = False\<rparr>) sample_start_env (sample_options True)
        \<lparr>Network = NetworkUDP, PeerWireGuardKey = [], PeerQUICFingerprint = []\<rparr>)) = OutcomeHandshakeFailed"
proof -
  have c: "quic_connect sample_start_env False = (None, True, [CallListen, CallAccept])"
    by (simp add: quic_connect_def sample_start_env_def)
  have d: "Datagrams (sample_options True)" "se_Datagrams sample_start_env \<noteq> (True, True)" "se_pc_abandons sample_start_env"
    by (simp_all add: sample_options_def sample_start_env_def)
  show ?thesis using no_datagrams_hides_abandonment [OF sample_options_usable d(1) c d(2)] d(3) by blast
qed

section \<open>Teardown\<close>

text \<open>Closing an established QUIC tunnel. The first \<^verbatim>\<open>Close\<close> ends the connection, then the codec, the mux and its
  receive loop in the datagram sub-mode, then the listener if there is one, the transport and last the packet
  connection; every flow of the mux is ended and no new one opens; the error tells abandonment exactly when
  the packet connection had to close the substrate. Every later \<^verbatim>\<open>Close\<close> returns the same and calls nothing.\<close>

theorem quic_Close_contract:
  assumes "start env0 c dialing = (Inr t, calls)" and "qt_mux t' = map_option f (qt_mux t)"
    and "qt_listener t' = qt_listener t" "\<not> qt_closed t'" "quic_Close env t' = (err, t'', made)"
    and "\<And>e. se_tr_Close env = Some e \<Longrightarrow> \<not> errors_Is e QUICSubstrateAbandoned"
  shows "made = [CloseConn] @ (if Datagrams c then [CloseCodec, CloseMux, AwaitMux] else [])
           @ (if dialing then [] else [CloseListener]) @ [CloseTransport, ClosePacketConn]
    \<and> (\<exists>e. err = Some e \<and> errors_Is e QUICSubstrateAbandoned) = se_pc_abandons env
    \<and> qt_mux t'' = map_option mux_Close (qt_mux t')
    \<and> (\<forall>env'. quic_Close env' t'' = (err, t'', []))"
proof -
  have u: "usable c" using assms(1) start_unusable [of c env0 dialing] by auto
  obtain e ln md where q: "quic_connect env0 dialing = (e, ln, md)" by (cases "quic_connect env0 dialing") auto
  have e: "e = None" using start_handshake_failed [OF u, of env0 dialing _ ln md] q assms(1) by (cases e) auto
  have d: "Datagrams c \<longrightarrow> se_Datagrams env0 = (True, True)"
    using start_no_datagrams [OF u q [unfolded e]] assms(1) by auto
  have ln: "ln = (\<not> dialing)" using q e by (auto simp: quic_connect_def split: if_splits option.splits)
  have "qt_mux t = (if Datagrams c then Some (newMux dialing) else None)" "qt_listener t = (\<not> dialing)"
    using start_ok [OF u q [unfolded e]] d assms(1) ln by auto
  then have m: "(qt_mux t' \<noteq> None) = Datagrams c" "qt_listener t' = (\<not> dialing)" using assms(2,3) by auto
  have "(\<exists>e. errors_Join [se_tr_Close env, pc_verdict env] = Some e \<and> errors_Is e QUICSubstrateAbandoned) = se_pc_abandons env"
    using assms(6) by (cases "se_tr_Close env") (auto simp: errors_Join_def pc_verdict_def)
  then show ?thesis using assms(4,5) m by (auto simp: quic_Close_def Close_calls_def Let_def)
qed

theorem quic_Close_contract_witness:
  "\<exists>t err t'' made. start sample_start_env (sample_options False) False = (Inr t, [CallListen, CallAccept])
    \<and> quic_Close sample_start_env t = (err, t'', made) \<and> made = [CloseConn, CloseListener, CloseTransport, ClosePacketConn]
    \<and> (\<exists>e. err = Some e \<and> errors_Is e QUICSubstrateAbandoned)"
proof -
  let ?t = "\<lparr>qt_listener = True, qt_mux = None, qt_codec_closed = False, qt_closed = False, qt_closeErr = None\<rparr>"
  have s: "start sample_start_env (sample_options False) False = (Inr ?t, [CallListen, CallAccept])"
    by (simp add: start_def quic_connect_def sample_start_env_def sample_options_def validFingerprint_def)
  obtain err t'' made where c: "quic_Close sample_start_env ?t = (err, t'', made)" by (cases "quic_Close sample_start_env ?t") auto
  have "\<And>e. se_tr_Close sample_start_env = Some e \<Longrightarrow> \<not> errors_Is e QUICSubstrateAbandoned" "se_pc_abandons sample_start_env"
    "\<not> Datagrams (sample_options False)"
    by (simp_all add: sample_start_env_def sample_options_def)
  with quic_Close_contract [OF s, of ?t id, OF _ _ _ c] show ?thesis using s c by auto
qed

section \<open>Pinning\<close>

text \<open>C26: the QUIC handshake is authenticated in both directions. Of TLS only this is used: a handshake that
  completes had the dialling side's callback accept the accepting side's certificates, and, where the accepting
  side requires a client certificate, the other way round. Then, when the two configurations this package
  builds complete a handshake and both identities came from \<^verbatim>\<open>NewIdentity\<close>, each side's peer is the one whose
  fingerprint it was given; no other certificate passes, and in particular none whose fingerprint is
  another one.\<close>

theorem handshake_is_pinned:
  assumes tls: "\<And>cc sc. handshake cc sc \<Longrightarrow> VerifyPeerCertificate cc (Certificates sc) = None
      \<and> (RequireAnyClientCert sc \<longrightarrow> VerifyPeerCertificate sc (Certificates cc) = None)"
    and both: "handshake (clientTLS sha256 pinOfHost client) (serverTLS sha256 pinOfClient host)"
    and made: "NewIdentity sha256 None None (Inr derC) = Inr client" "NewIdentity sha256 None None (Inr derH) = Inr host"
  shows "id_Fingerprint host = pinOfHost \<and> id_Fingerprint client = pinOfClient
    \<and> (\<forall>other fp. sha256 (id_cert other) \<noteq> pinOfHost \<longrightarrow> \<not> handshake (clientTLS sha256 pinOfHost client) (serverTLS sha256 fp other))
    \<and> (\<forall>other fp. sha256 (id_cert other) \<noteq> pinOfClient \<longrightarrow> \<not> handshake (clientTLS sha256 fp other) (serverTLS sha256 pinOfClient host))"
proof -
  have accepted: "sha256 (id_cert b) = pb \<and> sha256 (id_cert a) = pa"
    if "handshake (clientTLS sha256 pb a) (serverTLS sha256 pa b)" for a b pa pb
    using tls [OF that] by (simp add: clientTLS_def serverTLS_def pinnedTo_def split: if_splits)
  have "id_Fingerprint host = sha256 (id_cert host)" "id_Fingerprint client = sha256 (id_cert client)"
    using made by (auto simp: NewIdentity_def)
  then show ?thesis using accepted [OF both] accepted by metis
qed

text \<open>A TLS that completes exactly when both callbacks accept.\<close>

definition strict_tls :: "tls_Config \<Rightarrow> tls_Config \<Rightarrow> bool" where
  "strict_tls cc sc = (VerifyPeerCertificate cc (Certificates sc) = None
     \<and> (RequireAnyClientCert sc \<longrightarrow> VerifyPeerCertificate sc (Certificates cc) = None))"

theorem handshake_is_pinned_witness:
  "strict_tls (clientTLS rev [2, 1] \<lparr>id_cert = [3, 4], id_Fingerprint = [4, 3]\<rparr>)
      (serverTLS rev [4, 3] \<lparr>id_cert = [1, 2], id_Fingerprint = [2, 1]\<rparr>)
   \<and> \<not> strict_tls (clientTLS rev [2, 1] \<lparr>id_cert = [3, 4], id_Fingerprint = [4, 3]\<rparr>)
      (serverTLS rev [4, 3] \<lparr>id_cert = [9, 9], id_Fingerprint = [9, 9]\<rparr>)"
proof -
  let ?c = "\<lparr>id_cert = [3, 4 :: byte], id_Fingerprint = [4, 3]\<rparr>" and ?h = "\<lparr>id_cert = [1, 2 :: byte], id_Fingerprint = [2, 1]\<rparr>"
  have both: "strict_tls (clientTLS rev [2, 1] ?c) (serverTLS rev [4, 3] ?h)"
    by (simp add: strict_tls_def clientTLS_def serverTLS_def pinnedTo_def)
  have made: "NewIdentity rev None None (Inr [3, 4]) = Inr ?c" "NewIdentity rev None None (Inr [1, 2]) = Inr ?h"
    by (simp_all add: NewIdentity_def)
  have "rev (id_cert \<lparr>id_cert = [9, 9 :: byte], id_Fingerprint = [9, 9]\<rparr>) \<noteq> [2, 1]" by simp
  moreover have "strict_tls cc sc \<Longrightarrow> VerifyPeerCertificate cc (Certificates sc) = None
      \<and> (RequireAnyClientCert sc \<longrightarrow> VerifyPeerCertificate sc (Certificates cc) = None)" for cc sc
    by (simp add: strict_tls_def)
  ultimately show ?thesis using handshake_is_pinned [of strict_tls rev "[2, 1]" ?c "[4, 3]" ?h, OF _ both made] both by blast
qed

end
