(* ===== verification/Tcp_Pipe.thy ===== *)
theory Tcp_Pipe
  imports Prelude
begin

text \<open>
  TCP forwarding, \<^verbatim>\<open>internal/tcp\<close>: the byte copy in its two forms (\<^verbatim>\<open>io.Copy\<close>, and the instrumented loop of a
  diagnostic run), the half-close, the pipe of both directions, and the accept loop (\<^verbatim>\<open>pipe.go\<close>,
  \<^verbatim>\<open>transport.go\<close>). A source is the list of what its \<^verbatim>\<open>Read\<close> calls return, data and error together as Go allows;
  a list that ends without an error is a read that has not returned yet. A destination is a state with a
  \<^verbatim>\<open>Write\<close>. The progress counters and the goroutines of the
  accept loop are in \<open>Forwarding\<close>.
\<close>

section \<open>Copying\<close>

type_synonym reads = "(byte list \<times> io_error option) list"
type_synonym 's writer = "byte list \<Rightarrow> 's \<Rightarrow> (nat \<times> io_error option) \<times> 's"

text \<open>\<open>None\<close>: still copying. \<open>Some (err, s)\<close>: returned \<open>err\<close>, nil being \<open>None\<close>.\<close>

fun io_Copy :: "'s writer \<Rightarrow> reads \<Rightarrow> 's \<Rightarrow> (io_error option \<times> 's) option" where
  "io_Copy w [] s = None"
| "io_Copy w ((d, er) # rs) s =
     (let (ew, s') = (if d = [] then (None, s)
                      else case w d s of ((nw, e), s1) \<Rightarrow>
                        (if e \<noteq> None then e else if nw \<noteq> length d then Some ErrShortWrite else None, s1))
      in if ew \<noteq> None then Some (ew, s')
         else case er of None \<Rightarrow> io_Copy w rs s' | Some e \<Rightarrow> Some (if e = EOF then None else Some e, s'))"

text \<open>The inner loop of \<^verbatim>\<open>copyWithDiagnostics\<close>: write until the chunk is out.\<close>

function write_all :: "'s writer \<Rightarrow> byte list \<Rightarrow> 's \<Rightarrow> io_error option \<times> 's" where
  "write_all w p s =
     (if p = [] then (None, s)
      else case w p s of ((nw, e), s') \<Rightarrow>
        if e \<noteq> None then (e, s') else if nw = 0 then (Some ErrShortWrite, s') else write_all w (drop nw p) s')"
  by pat_completeness auto

termination
  by (relation "measure (\<lambda>(w, p, s). length p)") auto

declare write_all.simps [simp del]

fun copyWithDiagnostics :: "'s writer \<Rightarrow> reads \<Rightarrow> 's \<Rightarrow> (io_error option \<times> 's) option" where
  "copyWithDiagnostics w [] s = None"
| "copyWithDiagnostics w ((d, er) # rs) s =
     (case write_all w d s of (ew, s') \<Rightarrow>
        if ew \<noteq> None then Some (ew, s')
        else case er of None \<Rightarrow> copyWithDiagnostics w rs s' | Some e \<Rightarrow> Some (if e = EOF then None else Some e, s'))"

definition isBenignForwardErr :: "io_error \<Rightarrow> bool" where
  "isBenignForwardErr e = (e = ErrClosed)"

text \<open>The destination after the copy: its write side is closed, with \<^verbatim>\<open>CloseWrite\<close> where it has one and with
  \<^verbatim>\<open>Close\<close> otherwise. \<open>logged\<close> is an error worth a log line.\<close>

record 's end_state =
  es_dst :: 's
  es_half_closed :: bool
  es_closed :: bool
  es_logged :: "io_error option"

definition copyAndCloseWrite :: "bool \<Rightarrow> bool \<Rightarrow> 's writer \<Rightarrow> reads \<Rightarrow> 's \<Rightarrow> 's end_state option" where
  "copyAndCloseWrite diagnostic canHalfClose w rs s =
     map_option (\<lambda>(err, s'). \<lparr>es_dst = s', es_half_closed = canHalfClose, es_closed = \<not> canHalfClose,
         es_logged = (case err of Some e \<Rightarrow> if isBenignForwardErr e then None else Some e | None \<Rightarrow> None)\<rparr>)
       (if diagnostic then copyWithDiagnostics w rs s else io_Copy w rs s)"

text \<open>\<^verbatim>\<open>pipe\<close>: both directions, done when both are. The directions share no state: each reads one end and writes
  the other.\<close>

definition pipe ::
  "bool \<Rightarrow> bool \<Rightarrow> bool \<Rightarrow> 'a writer \<Rightarrow> reads \<Rightarrow> 'a \<Rightarrow> 'b writer \<Rightarrow> reads \<Rightarrow> 'b \<Rightarrow> ('a end_state \<times> 'b end_state) option" where
  "pipe diagnostic halfA halfB wa fromB a wb fromA b =
     (case (copyAndCloseWrite diagnostic halfA wa fromB a, copyAndCloseWrite diagnostic halfB wb fromA b) of
        (Some x, Some y) \<Rightarrow> Some (x, y) | _ \<Rightarrow> None)"

section \<open>Accepting\<close>

text \<open>\<^verbatim>\<open>handleLocalConn\<close> as the calls it makes: the stream opened or not, the pipe, and the deferred closes.\<close>

datatype conn_call = OpenTunnel | RunPipe | CloseStream | CloseConn

definition handleLocalConn :: "bool \<Rightarrow> conn_call list" where
  "handleLocalConn opened = (if opened then [OpenTunnel, RunPipe, CloseStream, CloseConn] else [OpenTunnel, CloseConn])"

text \<open>\<^verbatim>\<open>acceptLocalConns\<close> over what \<^verbatim>\<open>Accept\<close> returns: the connections handed to a handler, in order, and whether the
  loop has returned. Only a closed listener ends it; every other error is tried again.\<close>

fun acceptLocalConns :: "(io_error + 'c) list \<Rightarrow> 'c list \<times> bool" where
  "acceptLocalConns [] = ([], False)"
| "acceptLocalConns (Inr c # rs) = (let (cs, r) = acceptLocalConns rs in (c # cs, r))"
| "acceptLocalConns (Inl e # rs) = (if e = ErrClosed then ([], True) else acceptLocalConns rs)"

section \<open>The two copies agree\<close>

text \<open>What \<^verbatim>\<open>io.Writer\<close> promises, for a destination whose received bytes \<open>out\<close> reads: what was taken is a prefix, and
  taking less than all comes with an error.\<close>

definition io_writer :: "'s writer \<Rightarrow> ('s \<Rightarrow> byte list) \<Rightarrow> bool" where
  "io_writer w out \<longleftrightarrow> (\<forall>p s n e s'. w p s = ((n, e), s') \<longrightarrow>
     n \<le> length p \<and> out s' = out s @ take n p \<and> (e = None \<longrightarrow> n = length p))"

lemma io_writerD:
  "io_writer w out \<Longrightarrow> w p s = ((n, e), s') \<Longrightarrow> n \<le> length p \<and> out s' = out s @ take n p \<and> (e = None \<longrightarrow> n = length p)"
  by (simp add: io_writer_def)

lemma write_all_once:
  assumes c: "io_writer w out" and "p \<noteq> []"
  shows "write_all w p s = (case w p s of ((nw, e), s1) \<Rightarrow>
      (if e \<noteq> None then e else if nw \<noteq> length p then Some ErrShortWrite else None, s1))"
proof -
  obtain n e s1 where w: "w p s = ((n, e), s1)" by (metis surj_pair)
  show ?thesis
  proof (cases e)
    case None
    then have "n = length p" using io_writerD [OF c w] by blast
    then show ?thesis using assms w None by (simp add: write_all.simps [of w p s] write_all.simps [of w "[]" s1])
  next
    case (Some x)
    then show ?thesis using assms w by (simp add: write_all.simps [of w p s])
  qed
qed

lemma copies_agree: "io_writer w out \<Longrightarrow> copyWithDiagnostics w rs s = io_Copy w rs s"
proof (induction rs arbitrary: s)
  case (Cons r rs)
  obtain d er where r: "r = (d, er)" by (cases r)
  have "write_all w d s = (if d = [] then (None, s) else case w d s of ((nw, e), s1) \<Rightarrow>
      (if e \<noteq> None then e else if nw \<noteq> length d then Some ErrShortWrite else None, s1))"
    using write_all_once [OF Cons.prems, of d s] by (simp add: write_all.simps [of w "[]" s])
  then show ?case using Cons by (simp add: r Let_def split: prod.splits option.splits)
qed simp

text \<open>One chunk: all of it is out unless the write failed, and then a part.\<close>

lemma chunk_out:
  assumes "io_writer w out"
  shows "case (if d = [] then (None, s) else case w d s of ((nw, e), s1) \<Rightarrow>
      (if e \<noteq> None then e else if nw \<noteq> length d then Some ErrShortWrite else None, s1)) of
    (ew, s') \<Rightarrow> \<exists>k \<le> length d. out s' = out s @ take k d \<and> (ew = None \<longrightarrow> k = length d)"
proof (cases "d = []")
  case False
  obtain n e s1 where w: "w d s = ((n, e), s1)" by (metis surj_pair)
  show ?thesis using False io_writerD [OF assms w] by (auto simp: w split: if_splits)
qed simp

lemma io_Copy_out:
  assumes c: "io_writer w out"
  shows "io_Copy w rs s = Some (err, s') \<Longrightarrow>
    \<exists>k. out s' = out s @ take k (concat (map fst rs))
      \<and> (err = None \<longrightarrow> (\<exists>pre d rest. rs = pre @ (d, Some EOF) # rest \<and> (\<forall>x \<in> set pre. snd x = None)
            \<and> out s' = out s @ concat (map fst pre) @ d))"
proof (induction rs arbitrary: s)
  case (Cons r rs)
  obtain d er where r: "r = (d, er)" by (cases r)
  let ?wr = "if d = [] then (None, s) else case w d s of ((nw, e), s1) \<Rightarrow>
      (if e \<noteq> None then e else if nw \<noteq> length d then Some ErrShortWrite else None, s1)"
  obtain ew s1 where wr: "?wr = (ew, s1)" by (rule prod.exhaust)
  obtain k where k: "k \<le> length d" "out s1 = out s @ take k d" "ew = None \<longrightarrow> k = length d"
    using chunk_out [OF c, of d s] wr by auto
  have step: "io_Copy w (r # rs) s = (if ew \<noteq> None then Some (ew, s1)
      else case er of None \<Rightarrow> io_Copy w rs s1 | Some e \<Rightarrow> Some (if e = EOF then None else Some e, s1))"
    using wr by (simp add: r Let_def)
  show ?case
  proof (cases "ew = None")
    case False
    then have "s' = s1" "err = ew" using Cons.prems unfolding step by auto
    then show ?thesis using False k by (intro exI [of _ k]) (auto simp: r)
  next
    case True
    then have all: "out s1 = out s @ d" using k by simp
    show ?thesis
    proof (cases er)
      case None
      then have "io_Copy w rs s1 = Some (err, s')" using Cons.prems True unfolding step by simp
      from Cons.IH [OF this] obtain k' where k': "out s' = out s1 @ take k' (concat (map fst rs))"
        and eof: "err = None \<longrightarrow> (\<exists>pre d rest. rs = pre @ (d, Some EOF) # rest \<and> (\<forall>x \<in> set pre. snd x = None)
            \<and> out s' = out s1 @ concat (map fst pre) @ d)"
        by blast
      have "\<exists>pre d' rest. r # rs = pre @ (d', Some EOF) # rest \<and> (\<forall>x \<in> set pre. snd x = None)
            \<and> out s' = out s @ concat (map fst pre) @ d'" if "err = None"
      proof -
        obtain pre d' rest where "rs = pre @ (d', Some EOF) # rest" "\<forall>x \<in> set pre. snd x = None"
          "out s' = out s1 @ concat (map fst pre) @ d'" using eof \<open>err = None\<close> by blast
        then show ?thesis using all None by (intro exI [of _ "r # pre"] exI [of _ d'] exI [of _ rest]) (simp add: r)
      qed
      then show ?thesis using k' all by (intro exI [of _ "length d + k'"]) (auto simp: r)
    next
      case (Some e)
      then have "s' = s1" "err = (if e = EOF then None else Some e)" using Cons.prems True unfolding step by auto
      moreover have "\<exists>pre d' rest. r # rs = pre @ (d', Some EOF) # rest \<and> (\<forall>x \<in> set pre. snd x = None)
            \<and> out s1 = out s @ concat (map fst pre) @ d'" if "e = EOF"
        using all Some \<open>e = EOF\<close> by (intro exI [of _ "[]"] exI [of _ d] exI [of _ rs]) (simp add: r)
      ultimately show ?thesis using all by (intro exI [of _ "length d"]) (auto simp: r split: if_splits)
    qed
  qed
qed simp

text \<open>C32: forwarding TCP is a faithful byte copy, diagnostics or not. Over any destination that keeps the
  \<^verbatim>\<open>io.Writer\<close> contract: the instrumented loop does exactly what \<^verbatim>\<open>io.Copy\<close> does; when a copy ends, the destination
  has received, after what it had, a prefix of what the source delivered, and its write side is closed, half
  where it can be and fully otherwise; and a copy that ended without an error met the source's end and
  delivered everything up to it.\<close>

theorem tcp_copy_faithful:
  assumes "io_writer w out"
  shows "copyWithDiagnostics w rs s = io_Copy w rs s
    \<and> copyAndCloseWrite True half w rs s = copyAndCloseWrite False half w rs s
    \<and> (\<forall>r. copyAndCloseWrite diagnostic half w rs s = Some r \<longrightarrow>
         es_half_closed r = half \<and> es_closed r = (\<not> half)
       \<and> (\<exists>k. out (es_dst r) = out s @ take k (concat (map fst rs))))
    \<and> (\<forall>s'. io_Copy w rs s = Some (None, s') \<longrightarrow>
         (\<exists>pre d rest. rs = pre @ (d, Some EOF) # rest \<and> (\<forall>x \<in> set pre. snd x = None)
            \<and> out s' = out s @ concat (map fst pre) @ d))"
proof (intro conjI allI impI)
  note agree = copies_agree [OF assms]
  show "copyWithDiagnostics w rs s = io_Copy w rs s" by (rule agree)
  show "copyAndCloseWrite True half w rs s = copyAndCloseWrite False half w rs s" by (simp add: copyAndCloseWrite_def agree)
  fix r assume "copyAndCloseWrite diagnostic half w rs s = Some r"
  then obtain err where "io_Copy w rs s = Some (err, es_dst r)" "es_half_closed r = half" "es_closed r = (\<not> half)"
    by (auto simp: copyAndCloseWrite_def agree split: if_splits)
  then show "es_half_closed r = half" "es_closed r = (\<not> half)" "\<exists>k. out (es_dst r) = out s @ take k (concat (map fst rs))"
    using io_Copy_out [OF assms] by blast+
next
  fix s' assume "io_Copy w rs s = Some (None, s')"
  from io_Copy_out [OF assms this] show "\<exists>pre d rest. rs = pre @ (d, Some EOF) # rest \<and> (\<forall>x \<in> set pre. snd x = None)
            \<and> out s' = out s @ concat (map fst pre) @ d" by blast
qed

text \<open>A destination that takes four bytes and then fails.\<close>

definition small_writer :: "byte list writer" where
  "small_writer p s = (if length s + length p \<le> 4 then ((length p, None), s @ p)
     else ((4 - min 4 (length s), Some ErrClosed), s @ take (4 - min 4 (length s)) p))"

lemma small_writer_contract: "io_writer small_writer id"
  by (auto simp: io_writer_def small_writer_def split: if_splits)

theorem tcp_copy_faithful_witness:
  "io_writer small_writer id
   \<and> io_Copy small_writer [([1, 2], None), ([3], Some EOF)] [] = Some (None, [1, 2, 3])
   \<and> copyWithDiagnostics small_writer [([1, 2], None), ([3], Some EOF)] [] = Some (None, [1, 2, 3])
   \<and> copyWithDiagnostics small_writer [([1, 2], None), ([3, 4, 5], None)] [] = Some (Some ErrClosed, [1, 2, 3, 4])"
proof -
  note f = tcp_copy_faithful [OF small_writer_contract]
  have a: "io_Copy small_writer [([1, 2], None), ([3], Some EOF)] [] = Some (None, [1, 2, 3])"
    "io_Copy small_writer [([1, 2], None), ([3, 4, 5], None)] [] = Some (Some ErrClosed, [1, 2, 3, 4])"
    by (simp_all add: small_writer_def)
  show ?thesis
    using a small_writer_contract f [of "[([1, 2], None), ([3], Some EOF)]" "[]"] f [of "[([1, 2], None), ([3, 4, 5], None)]" "[]"]
    by simp
qed

section \<open>Every accepted connection is released\<close>

lemma handleLocalConn_releases:
  "count_list (handleLocalConn opened) CloseConn = 1 \<and> count_list (handleLocalConn opened) CloseStream = (if opened then 1 else 0)
   \<and> last (handleLocalConn opened) = CloseConn"
  by (simp add: handleLocalConn_def)

lemma acceptLocalConns_returns: "snd (acceptLocalConns rs) = (Inl ErrClosed \<in> set rs)"
  by (induction rs rule: acceptLocalConns.induct) (auto simp: Let_def split: prod.splits)

end
