(* ===== verification/P2p.thy ===== *)
theory P2p
  imports Gostrings Tier
begin

text \<open>
  \<^verbatim>\<open>internal/p2p\<close>, the program's contact with libp2p: the modes the command line selects (\<^verbatim>\<open>config.go\<close>), the
  connection token and the protocol generations (\<^verbatim>\<open>token.go\<close>, \<^verbatim>\<open>protocol.go\<close>), the policy under which tunnel
  streams may use a relay (\<^verbatim>\<open>stream.go\<close>, \<^verbatim>\<open>negotiate.go\<close>), peer discovery (\<^verbatim>\<open>dht.go\<close>), and the choice of
  addresses and transports (\<^verbatim>\<open>host.go\<close>). libp2p, the DHT and \<^verbatim>\<open>encoding/gob\<close> are parameters: what their calls
  answer. Functions that call them also return the calls they made.
\<close>

section \<open>Modes\<close>

definition ConnectionDirectOnly :: string where "ConnectionDirectOnly = ''direct-only''"
definition ConnectionDirectFirst :: string where "ConnectionDirectFirst = ''direct-first''"
definition ConnectionRelayOnly :: string where "ConnectionRelayOnly = ''relay-only''"

definition TransportDefault :: string where "TransportDefault = ''default''"
definition TransportQUIC :: string where "TransportQUIC = ''quic''"
definition TransportTCP :: string where "TransportTCP = ''tcp''"
definition TransportWebRTC :: string where "TransportWebRTC = ''webrtc''"

definition DHTCloseAfterConnect :: string where "DHTCloseAfterConnect = ''close-after-connect''"
definition DHTNoRefresh :: string where "DHTNoRefresh = ''no-refresh''"
definition DHTCurrent :: string where "DHTCurrent = ''current''"

lemmas mode_defs = ConnectionDirectOnly_def ConnectionDirectFirst_def ConnectionRelayOnly_def
  TransportDefault_def TransportQUIC_def TransportTCP_def TransportWebRTC_def
  DHTCloseAfterConnect_def DHTNoRefresh_def DHTCurrent_def

text \<open>The parsers differ only in the names they accept.\<close>

definition parse_mode :: "string list \<Rightarrow> string \<Rightarrow> string option" where
  "parse_mode names value = (let mode = ToLower value in if mode \<in> set names then Some mode else None)"

definition ParseConnectionMode :: "string \<Rightarrow> string option" where
  "ParseConnectionMode = parse_mode [ConnectionDirectOnly, ConnectionDirectFirst, ConnectionRelayOnly]"

definition ParseTransportMode :: "string \<Rightarrow> string option" where
  "ParseTransportMode = parse_mode [TransportDefault, TransportQUIC, TransportTCP, TransportWebRTC]"

definition ParseDHTMode :: "string \<Rightarrow> string option" where
  "ParseDHTMode = parse_mode [DHTCloseAfterConnect, DHTNoRefresh, DHTCurrent]"

definition ParseTunnelMode :: "string \<Rightarrow> string option" where
  "ParseTunnelMode = parse_mode [''auto'', ''wireguard'', ''quic'', ''libp2p'']"

section \<open>Protocols and tokens\<close>

record Protocols =
  Data :: string
  Negotiate :: string

definition ProtocolID :: string where "ProtocolID = ''/mtunnel/2.0.0''"
definition NegotiateProtocolID :: string where "NegotiateProtocolID = ''/mtunnel/negotiate/2.0.0''"

definition CurrentProtocols :: Protocols where
  "CurrentProtocols = \<lparr>Data = ProtocolID, Negotiate = NegotiateProtocolID\<rparr>"

definition TokenVersionLegacy :: u16 where "TokenVersionLegacy = 0"
definition TokenVersionCurrent :: u16 where "TokenVersionCurrent = 1"

datatype token_error =
    TokenBase64 | TokenGob | UpgradeHost | UpgradeClient u16 | EncodeFailed

fun unsupported :: "token_error \<Rightarrow> bool" where
  "unsupported UpgradeHost = True"
| "unsupported (UpgradeClient _) = True"
| "unsupported _ = False"

definition ProtocolsFor :: "u16 \<Rightarrow> token_error + Protocols" where
  "ProtocolsFor v = (if v = TokenVersionCurrent then Inr CurrentProtocols
     else if v = TokenVersionLegacy then Inl UpgradeHost else Inl (UpgradeClient v))"

record Token =
  Version :: u16
  token_Network :: string
  ID :: string
  WireGuardPubKey :: "byte list"

definition Token_Encode :: "(Token \<Rightarrow> byte list option) \<Rightarrow> Token \<Rightarrow> token_error + string" where
  "Token_Encode gobEncode t =
     (case gobEncode (t\<lparr>Version := TokenVersionCurrent\<rparr>) of
        None \<Rightarrow> Inl EncodeFailed | Some data \<Rightarrow> Inr (base64Encode data))"

definition decodeToken :: "(byte list \<Rightarrow> Token option) \<Rightarrow> string \<Rightarrow> token_error + Token" where
  "decodeToken gobDecode encoded =
     (case base64Decode encoded of
        None \<Rightarrow> Inl TokenBase64
      | Some data \<Rightarrow> (case gobDecode data of None \<Rightarrow> Inl TokenGob | Some t \<Rightarrow> Inr t))"

definition DecodeToken :: "(byte list \<Rightarrow> Token option) \<Rightarrow> string \<Rightarrow> token_error + Token" where
  "DecodeToken gobDecode encoded =
     rbind (decodeToken gobDecode encoded) (\<lambda>t. rbind (ProtocolsFor (Version t)) (\<lambda>_. Inr t))"

record p2p_config =
  ConnectionMode :: string
  Transport :: string
  DHTMode :: string
  DirectDialTimeout :: duration
  RelayAddrs :: "string list"
  cfg_Protocols :: Protocols

definition protocols :: "p2p_config \<Rightarrow> Protocols" where
  "protocols c = (if Data (cfg_Protocols c) = '''' \<or> Negotiate (cfg_Protocols c) = '''' then CurrentProtocols
     else cfg_Protocols c)"

section \<open>Opening streams\<close>

definition streamOpenTimeout :: duration where "streamOpenTimeout = 30 * second"

datatype streamReason = reasonDirectOnly | reasonDirectFirst | reasonRelayFallback | reasonRelayOnly | reasonNegotiate

text \<open>One call of \<^verbatim>\<open>h.NewStream\<close> and what it answers: an error, or a stream and whether libp2p reports its connection as
  limited. A stream that is not wanted is reset.\<close>

record open_call =
  oc_proto :: string
  oc_allowLimited :: bool
  oc_timeout :: duration
  oc_reason :: streamReason

type_synonym stream_answer = "go_error + bool"

datatype stream_error = NewStreamError go_error | UnexpectedLimited | DeadlinePassed | CtxDone | UnsupportedMode string

definition openStream :: "stream_answer \<Rightarrow> open_call \<Rightarrow> (stream_error + bool) \<times> nat" where
  "openStream answer c =
     (case answer of
        Inl e \<Rightarrow> (Inl (NewStreamError e), 0)
      | Inr limited \<Rightarrow>
          if \<not> oc_allowLimited c \<and> limited then (Inl UnexpectedLimited, 1) else (Inr limited, 0))"

text \<open>What happens around a direct attempt: the first answer; whether a direct connection exists after it
  failed; whether the notification fired before the second look, and what that look saw; whether the wait
  ended with a connection, the time left then, and the second answer.\<close>

record direct_env =
  de_first :: stream_answer
  de_direct1 :: bool
  de_notified :: bool
  de_direct2 :: bool
  de_connected :: bool
  de_remaining :: duration
  de_second :: stream_answer

text \<open>\<^verbatim>\<open>openDirectStream\<close> from its answers. \<open>directConnected\<close> holds one signal; when the callback has filled it (\<open>de_notified\<close>), the
  second look's own send, which has no \<^verbatim>\<open>default\<close>, does not return: \<open>None\<close>. \<open>Open_Direct\<close> derives this function from the
  goroutines and the channel. The result carries the calls made and the number of streams reset.\<close>

definition openDirectStream ::
  "direct_env \<Rightarrow> string \<Rightarrow> duration \<Rightarrow> streamReason \<Rightarrow> ((stream_error + bool) \<times> open_call list \<times> nat) option" where
  "openDirectStream env proto timeout reason =
     (let c = \<lparr>oc_proto = proto, oc_allowLimited = False, oc_timeout = timeout, oc_reason = reason\<rparr>;
          (r, resets) = openStream (de_first env) c in
      case r of
        Inr s \<Rightarrow> Some (Inr s, [c], resets)
      | Inl firstErr \<Rightarrow>
          if de_direct1 env then Some (Inl firstErr, [c], resets)
          else if de_direct2 env \<and> de_notified env then None
          else if de_connected env
          then if de_remaining env \<le> 0 then Some (Inl DeadlinePassed, [c], resets)
               else (let c2 = c\<lparr>oc_timeout := de_remaining env\<rparr>; (r2, resets2) = openStream (de_second env) c2
                     in Some (r2, [c, c2], resets + resets2))
          else Some (Inl DeadlinePassed, [c], resets))"

text \<open>\<open>ctxDone\<close>: the caller's context is done after the direct attempt; \<open>relay\<close> is the answer to a call that
  permits a limited connection.\<close>

definition directTimeout :: "p2p_config \<Rightarrow> duration" where
  "directTimeout c = (if DirectDialTimeout c \<le> 0 then 15 * second else DirectDialTimeout c)"

definition relay_call :: "string \<Rightarrow> streamReason \<Rightarrow> open_call" where
  "relay_call proto reason = \<lparr>oc_proto = proto, oc_allowLimited = True, oc_timeout = streamOpenTimeout, oc_reason = reason\<rparr>"

definition OpenStream ::
  "direct_env \<Rightarrow> bool \<Rightarrow> stream_answer \<Rightarrow> p2p_config \<Rightarrow> ((stream_error + bool) \<times> open_call list \<times> nat) option" where
  "OpenStream env ctxDone relay c =
     (let proto = Data (protocols c) in
      if ConnectionMode c = ConnectionRelayOnly
      then (let k = relay_call proto reasonRelayOnly; (r, resets) = openStream relay k in Some (r, [k], resets))
      else if ConnectionMode c = ConnectionDirectOnly
      then openDirectStream env proto streamOpenTimeout reasonDirectOnly
      else if ConnectionMode c = ConnectionDirectFirst
      then (case openDirectStream env proto (directTimeout c) reasonDirectFirst of
              None \<Rightarrow> None
            | Some (Inr s, calls, resets) \<Rightarrow> Some (Inr s, calls, resets)
            | Some (Inl e, calls, resets) \<Rightarrow>
                if ctxDone then Some (Inl CtxDone, calls, resets)
                else (let k = relay_call proto reasonRelayFallback; (r, resets') = openStream relay k
                      in Some (r, calls @ [k], resets + resets')))
      else Some (Inl (UnsupportedMode (ConnectionMode c)), [], 0))"

definition OpenNegotiateStream :: "stream_answer \<Rightarrow> p2p_config \<Rightarrow> (stream_error + bool) \<times> open_call list" where
  "OpenNegotiateStream answer c =
     (let k = relay_call (Negotiate (protocols c)) reasonNegotiate
      in (case answer of Inl e \<Rightarrow> Inl (NewStreamError e) | Inr limited \<Rightarrow> Inr limited, [k]))"

section \<open>Discovery\<close>

definition dhtLookupMaxAttempts :: nat where "dhtLookupMaxAttempts = 6"

text \<open>One attempt: whether the context is done when it starts, what the lookup answers (a list of addresses, or an
  error that may be \<^verbatim>\<open>routing.ErrNotFound\<close>), and whether the context ends during the retry delay.\<close>

datatype lookup_error = NoAddresses | NotYetAvailable | LookupFailed go_error

record attempt_env =
  at_ctxDone :: bool
  at_answer :: "go_error option + string list"
  at_delayDone :: bool

datatype find_error = FindCtx | FindLast lookup_error

definition classify :: "go_error option + string list \<Rightarrow> lookup_error + string list" where
  "classify a = (case a of
       Inr [] \<Rightarrow> Inl NoAddresses
     | Inr addrs \<Rightarrow> Inr addrs
     | Inl None \<Rightarrow> Inl NotYetAvailable
     | Inl (Some e) \<Rightarrow> Inl (LookupFailed e))"

function FindPeer_loop :: "(nat \<Rightarrow> attempt_env) \<Rightarrow> nat \<Rightarrow> lookup_error \<Rightarrow> (find_error + string list) \<times> nat" where
  "FindPeer_loop env attempt lastErr =
     (if attempt > dhtLookupMaxAttempts then (Inl (FindLast lastErr), attempt - 1)
      else if at_ctxDone (env attempt) then (Inl FindCtx, attempt - 1)
      else case classify (at_answer (env attempt)) of
        Inr addrs \<Rightarrow> (Inr addrs, attempt)
      | Inl e \<Rightarrow>
          if attempt < dhtLookupMaxAttempts \<and> at_delayDone (env attempt) then (Inl FindCtx, attempt)
          else FindPeer_loop env (Suc attempt) e)"
  by pat_completeness auto

termination
  by (relation "measure (\<lambda>(env, attempt, lastErr). Suc dhtLookupMaxAttempts - attempt)") auto

declare FindPeer_loop.simps [simp del]

text \<open>The second result is the number of lookups made. The error of the first attempt replaces the initial nil.\<close>

definition FindPeer :: "(nat \<Rightarrow> attempt_env) \<Rightarrow> (find_error + string list) \<times> nat" where
  "FindPeer env = FindPeer_loop env 1 NoAddresses"

text \<open>\<^verbatim>\<open>NewDHT\<close>: the mode, and the instance (open or closed again) with the result.\<close>

record dht_options =
  dht_server :: bool
  dht_autoRefresh :: bool

definition NewDHT :: "go_error option \<Rightarrow> go_error option \<Rightarrow> bool \<Rightarrow> string \<Rightarrow> (go_error + dht_options) \<times> bool" where
  "NewDHT create bootstrap asServer clientMode =
     (let opts = \<lparr>dht_server = asServer, dht_autoRefresh = \<not> (\<not> asServer \<and> clientMode = DHTNoRefresh)\<rparr> in
      case create of
        Some e \<Rightarrow> (Inl e, False)
      | None \<Rightarrow> (case bootstrap of Some e \<Rightarrow> (Inl e, False) | None \<Rightarrow> (Inr opts, True)))"

section \<open>Addresses\<close>

text \<open>A multiaddress: the protocols it names, and whether its host part is public.\<close>

record multiaddr =
  ad_protocols :: "string list"
  ad_public :: bool

definition has_protocol :: "string \<Rightarrow> multiaddr \<Rightarrow> bool" where
  "has_protocol p a = (p \<in> set (ad_protocols a))"

definition keep_address :: "string \<Rightarrow> string \<Rightarrow> multiaddr \<Rightarrow> bool" where
  "keep_address connectionMode transportMode a =
     (if connectionMode = ConnectionRelayOnly then has_protocol ''p2p-circuit'' a
      else if transportMode = TransportDefault then True
      else if transportMode = TransportQUIC then has_protocol ''quic-v1'' a
      else if transportMode = TransportTCP then has_protocol ''tcp'' a \<and> \<not> has_protocol ''p2p-circuit'' a
      else if transportMode = TransportWebRTC then has_protocol ''webrtc-direct'' a
      else False)"

definition selectAddresses :: "multiaddr list \<Rightarrow> string \<Rightarrow> string \<Rightarrow> multiaddr list option" where
  "selectAddresses addrs connectionMode transportMode =
     (let filtered = filter (keep_address connectionMode transportMode) addrs
      in if filtered = [] then None else Some filtered)"

definition hasReachableAddr :: "multiaddr list \<Rightarrow> bool" where
  "hasReachableAddr addrs = list_ex (\<lambda>a. has_protocol ''p2p-circuit'' a \<or> ad_public a) addrs"

text \<open>\<^verbatim>\<open>WaitForNetworkReady\<close> over the wake-ups it sees; \<open>addrs i\<close> is what the host advertises at the \<open>i\<close>-th look.
  The result says whether it found an address; a list that ends is a wait that goes on.\<close>

datatype wake = WakeCtx | WakeTimer | WakeEvent | WakeClosed

fun WaitForNetworkReady :: "(nat \<Rightarrow> multiaddr list) \<Rightarrow> nat \<Rightarrow> wake list \<Rightarrow> bool option" where
  "WaitForNetworkReady addrs i ws =
     (if hasReachableAddr (addrs i) then Some True
      else case ws of [] \<Rightarrow> None
        | WakeEvent # rest \<Rightarrow> WaitForNetworkReady addrs (Suc i) rest
        | _ # _ \<Rightarrow> Some False)"

definition relayCandidates :: "string list \<Rightarrow> (string \<Rightarrow> go_error + string) \<Rightarrow> string list \<Rightarrow> go_error + string list" where
  "relayCandidates defaults parse configured =
     (if configured = [] then Inr (take 3 defaults)
      else foldr (\<lambda>v acc. rbind (parse v) (\<lambda>a. rbind acc (\<lambda>as. Inr (a # as)))) configured (Inr []))"

datatype host_option = AutoRelay "string list" | NATPortMap | AutoNATv2 | NATService | HolePunching
  | BandwidthReporter | NoTransports | QUICTransport | TCPTransport | WebRTCTransport | ListenAddrs "string list"

definition transportOptions :: "string \<Rightarrow> host_option list option" where
  "transportOptions mode =
     (if mode = TransportDefault then Some []
      else if mode = TransportQUIC then
        Some [NoTransports, QUICTransport, ListenAddrs [''/ip4/0.0.0.0/udp/0/quic-v1'', ''/ip6/::/udp/0/quic-v1'']]
      else if mode = TransportTCP then
        Some [NoTransports, TCPTransport, ListenAddrs [''/ip4/0.0.0.0/tcp/0'', ''/ip6/::/tcp/0'']]
      else if mode = TransportWebRTC then
        Some [NoTransports, TCPTransport, WebRTCTransport,
          ListenAddrs [''/ip4/0.0.0.0/tcp/0'', ''/ip6/::/tcp/0'',
            ''/ip4/0.0.0.0/udp/0/webrtc-direct'', ''/ip6/::/udp/0/webrtc-direct'']]
      else None)"

definition holePunching :: "p2p_config \<Rightarrow> host_option list" where
  "holePunching c = (if ConnectionMode c \<noteq> ConnectionRelayOnly then [HolePunching] else [])"

datatype hostRole = roleServer | roleClient

datatype host_error = UnsupportedTransport string | CreateHostFailed hostRole go_error | RelayAddrError go_error

text \<open>\<open>create\<close> is \<^verbatim>\<open>libp2p.New\<close>.\<close>

definition newHost :: "(host_option list \<Rightarrow> go_error + 'h) \<Rightarrow> hostRole \<Rightarrow> p2p_config \<Rightarrow> host_option list \<Rightarrow> host_error + 'h" where
  "newHost create role c opts =
     (case transportOptions (Transport c) of
        None \<Rightarrow> Inl (UnsupportedTransport (Transport c))
      | Some transportOpts \<Rightarrow>
          (case create (opts @ [BandwidthReporter] @ transportOpts) of
             Inl e \<Rightarrow> Inl (CreateHostFailed role e)
           | Inr h \<Rightarrow> Inr h))"

definition NewClientHost :: "(host_option list \<Rightarrow> go_error + 'h) \<Rightarrow> p2p_config \<Rightarrow> host_error + 'h" where
  "NewClientHost create c = newHost create roleClient c ([NATPortMap] @ holePunching c)"

definition NewServerHost ::
  "(host_option list \<Rightarrow> go_error + 'h) \<Rightarrow> string list \<Rightarrow> (string \<Rightarrow> go_error + string) \<Rightarrow> p2p_config \<Rightarrow> host_error + 'h" where
  "NewServerHost create defaults parse c =
     (case relayCandidates defaults parse (RelayAddrs c) of
        Inl e \<Rightarrow> Inl (RelayAddrError e)
      | Inr relays \<Rightarrow> newHost create roleServer c ([AutoRelay relays, NATPortMap, AutoNATv2, NATService] @ holePunching c))"

section \<open>Tokens survive, and say when they are not ours\<close>

text \<open>C31: what a host prints a client of the same build reads back. Of gob only this is used: it decodes what it
  encoded. A token that was encoded decodes, from its base64 text, to the same token with the current version
  stamped, whatever version the caller had left in it; and any text that does decode is accepted exactly when
  its version is the current one, otherwise refused as an unsupported version that tells a legacy host from a
  newer one. An accepted token always resolves to protocols this build speaks.\<close>

theorem token_roundtrip:
  assumes gob: "\<And>t d. gobEncode t = Some d \<Longrightarrow> gobDecode d = Some t" and enc: "Token_Encode gobEncode t = Inr s"
  shows "DecodeToken gobDecode s = Inr (t\<lparr>Version := TokenVersionCurrent\<rparr>)
    \<and> (\<forall>s' t'. decodeToken gobDecode s' = Inr t' \<longrightarrow>
         (if Version t' = TokenVersionCurrent then DecodeToken gobDecode s' = Inr t'
          else DecodeToken gobDecode s' = Inl (if Version t' = TokenVersionLegacy then UpgradeHost else UpgradeClient (Version t'))))
    \<and> (\<forall>s' t'. DecodeToken gobDecode s' = Inr t' \<longrightarrow> ProtocolsFor (Version t') = Inr CurrentProtocols)"
proof -
  obtain d where d: "gobEncode (t\<lparr>Version := TokenVersionCurrent\<rparr>) = Some d" "s = base64Encode d"
    using enc by (auto simp: Token_Encode_def split: option.splits)
  have "decodeToken gobDecode s = Inr (t\<lparr>Version := TokenVersionCurrent\<rparr>)"
    using gob [OF d(1)] by (simp add: decodeToken_def d(2))
  then show ?thesis by (auto simp: DecodeToken_def ProtocolsFor_def TokenVersionLegacy_def TokenVersionCurrent_def rbind_eq_Inr)
qed

text \<open>An encoding that keeps the version and the first key byte, enough to exercise the theorem.\<close>

definition tiny_gob :: "Token \<Rightarrow> byte list option" where
  "tiny_gob t = (if token_Network t = ''tcp'' \<and> ID t = ''x'' \<and> WireGuardPubKey t = [] then Some [ucast (Version t), ucast (drop_bit 8 (Version t))] else None)"

definition tiny_ungob :: "byte list \<Rightarrow> Token option" where
  "tiny_ungob d = (case d of [lo, hi] \<Rightarrow> Some \<lparr>Version = ucast lo OR push_bit 8 (ucast hi), token_Network = ''tcp'', ID = ''x'', WireGuardPubKey = []\<rparr>
     | _ \<Rightarrow> None)"

lemma tiny_gob_roundtrip: "tiny_gob t = Some d \<Longrightarrow> tiny_ungob d = Some t"
proof -
  assume g: "tiny_gob t = Some d"
  have "(ucast (ucast v :: byte) OR push_bit 8 (ucast (ucast (drop_bit 8 v) :: byte)) :: u16) = v" for v :: u16
    by (rule bit_word_eqI) (auto simp: bit_simps dest: bit_imp_le_length)
  then show ?thesis using g by (cases t) (auto simp: tiny_gob_def tiny_ungob_def split: if_splits)
qed

theorem token_roundtrip_witness:
  "\<exists>s. Token_Encode tiny_gob \<lparr>Version = 9, token_Network = ''tcp'', ID = ''x'', WireGuardPubKey = []\<rparr> = Inr s
     \<and> DecodeToken tiny_ungob s = Inr \<lparr>Version = TokenVersionCurrent, token_Network = ''tcp'', ID = ''x'', WireGuardPubKey = []\<rparr>"
proof -
  let ?t = "\<lparr>Version = 9, token_Network = ''tcp'', ID = ''x'', WireGuardPubKey = []\<rparr>"
  obtain s where s: "Token_Encode tiny_gob ?t = Inr s" by (simp add: Token_Encode_def tiny_gob_def)
  from token_roundtrip [OF tiny_gob_roundtrip s] s show ?thesis by simp
qed

section \<open>The relay policy\<close>

lemma openStream_direct: "openStream a c = (Inr l, n) \<Longrightarrow> \<not> oc_allowLimited c \<Longrightarrow> \<not> l"
  by (auto simp: openStream_def split: sum.splits if_splits)

lemma openDirectStream_calls:
  assumes "openDirectStream env proto timeout reason = Some (r, calls, n)"
  shows "(\<forall>k \<in> set calls. \<not> oc_allowLimited k \<and> oc_proto k = proto \<and> oc_reason k = reason) \<and> r \<noteq> Inr True"
  using assms unfolding openDirectStream_def
  by (auto simp: Let_def openStream_def split: sum.splits if_splits prod.splits)

text \<open>C28: the policy on limited connections holds whatever libp2p answers. Limited is what libp2p reports of a connection; a relayed
  connection without limits is not, and is treated as a direct one. In direct-only mode no call ever permits a limited
  connection and no stream on one is returned. In direct-first mode a limited connection is permitted in at
  most one call, the last, marked as a fallback, and only after the direct attempt failed with the context
  still alive; a stream on a limited connection only comes out of that call. In relay-only mode the one call permits it. Every
  call is for the configured data protocol.\<close>

theorem stream_policy:
  assumes "OpenStream env ctxDone relay c = Some (r, calls, n)"
  shows "(\<forall>k \<in> set calls. oc_proto k = Data (protocols c))
    \<and> (ConnectionMode c = ConnectionDirectOnly \<longrightarrow> (\<forall>k \<in> set calls. \<not> oc_allowLimited k) \<and> r \<noteq> Inr True)
    \<and> (ConnectionMode c = ConnectionDirectFirst \<longrightarrow>
         (\<forall>k \<in> set (butlast calls). \<not> oc_allowLimited k)
       \<and> (r = Inr True \<or> oc_allowLimited (last calls) \<longrightarrow> \<not> ctxDone \<and> oc_reason (last calls) = reasonRelayFallback
            \<and> (\<exists>e m. openDirectStream env (Data (protocols c)) (directTimeout c) reasonDirectFirst = Some (Inl e, butlast calls, m))))
    \<and> (ConnectionMode c = ConnectionRelayOnly \<longrightarrow> (\<exists>k. calls = [k] \<and> oc_allowLimited k \<and> oc_reason k = reasonRelayOnly))"
proof -
  let ?p = "Data (protocols c)"
  consider (relay) "ConnectionMode c = ConnectionRelayOnly" | (only) "ConnectionMode c = ConnectionDirectOnly"
    | (first) "ConnectionMode c = ConnectionDirectFirst"
    | (other) "ConnectionMode c \<notin> {ConnectionRelayOnly, ConnectionDirectOnly, ConnectionDirectFirst}" by blast
  then show ?thesis
  proof cases
    case relay
    then show ?thesis using assms by (auto simp: OpenStream_def relay_call_def mode_defs Let_def split: prod.splits)
  next
    case only
    then have "openDirectStream env ?p streamOpenTimeout reasonDirectOnly = Some (r, calls, n)"
      using assms by (simp add: OpenStream_def mode_defs)
    from openDirectStream_calls [OF this] only show ?thesis by (auto simp: mode_defs)
  next
    case first
    then obtain r1 calls1 n1 where d: "openDirectStream env ?p (directTimeout c) reasonDirectFirst = Some (r1, calls1, n1)"
      using assms by (auto simp: OpenStream_def mode_defs Let_def split: option.splits)
    note dc = openDirectStream_calls [OF d]
    have ne: "calls1 \<noteq> []" using d by (auto simp: openDirectStream_def Let_def split: sum.splits if_splits prod.splits)
    have last1: "\<not> oc_allowLimited (last calls1)" using dc last_in_set [OF ne] by blast
    have but: "k \<in> set (butlast calls1) \<Longrightarrow> k \<in> set calls1" for k by (rule in_set_butlastD)
    show ?thesis
    proof (cases r1)
      case (Inr s)
      then have "r = r1" "calls = calls1" using assms first d by (auto simp: OpenStream_def mode_defs Let_def)
      then show ?thesis using dc last1 but first by (auto simp: mode_defs)
    next
      case (Inl e)
      show ?thesis
      proof (cases ctxDone)
        case True
        then have "r = Inl CtxDone" "calls = calls1" using assms first d Inl by (auto simp: OpenStream_def mode_defs Let_def)
        then show ?thesis using dc last1 but first by (auto simp: mode_defs)
      next
        case False
        then have "calls = calls1 @ [relay_call ?p reasonRelayFallback]"
          using assms first d Inl by (auto simp: OpenStream_def mode_defs Let_def split: prod.splits)
        then show ?thesis using dc d Inl False first by (auto simp: mode_defs relay_call_def)
      qed
    qed
  next
    case other
    then show ?thesis using assms by (auto simp: OpenStream_def Let_def)
  qed
qed

definition sample_p2p :: "string \<Rightarrow> p2p_config" where
  "sample_p2p mode = \<lparr>ConnectionMode = mode, Transport = TransportDefault, DHTMode = DHTCurrent, DirectDialTimeout = 0,
     RelayAddrs = [], cfg_Protocols = \<lparr>Data = [], Negotiate = []\<rparr>\<rparr>"

definition no_direct :: direct_env where
  "no_direct = \<lparr>de_first = Inl (ErrText ''no route''), de_direct1 = False, de_notified = False, de_direct2 = False,
     de_connected = False, de_remaining = 0, de_second = Inl (ErrText ''no route'')\<rparr>"

theorem stream_policy_witness:
  "\<exists>calls n. OpenStream no_direct False (Inr True) (sample_p2p ConnectionDirectFirst) = Some (Inr True, calls, n)
     \<and> \<not> oc_allowLimited (hd calls) \<and> oc_reason (last calls) = reasonRelayFallback"
proof -
  let ?c1 = "\<lparr>oc_proto = ProtocolID, oc_allowLimited = False, oc_timeout = 15 * second, oc_reason = reasonDirectFirst\<rparr>"
  let ?calls = "[?c1, relay_call ProtocolID reasonRelayFallback]"
  have o: "OpenStream no_direct False (Inr True) (sample_p2p ConnectionDirectFirst) = Some (Inr True, ?calls, 0)"
    by (simp add: OpenStream_def openDirectStream_def openStream_def no_direct_def sample_p2p_def protocols_def
        CurrentProtocols_def directTimeout_def relay_call_def mode_defs Let_def)
  have m: "ConnectionMode (sample_p2p ConnectionDirectFirst) = ConnectionDirectFirst" by (simp add: sample_p2p_def)
  show ?thesis using stream_policy [OF o] m o by auto
qed

section \<open>Discovery is bounded\<close>

definition alive_until :: "(nat \<Rightarrow> attempt_env) \<Rightarrow> nat \<Rightarrow> nat \<Rightarrow> bool" where
  "alive_until env i k \<longleftrightarrow> (\<forall>j. i \<le> j \<and> j < k \<longrightarrow> \<not> at_ctxDone (env j) \<and> \<not> at_delayDone (env j)
     \<and> (\<exists>e. classify (at_answer (env j)) = Inl e)) \<and> \<not> at_ctxDone (env k)"

lemma alive_until_step:
  "i < k \<Longrightarrow> alive_until env i k \<longleftrightarrow> \<not> at_ctxDone (env i) \<and> \<not> at_delayDone (env i)
     \<and> (\<exists>e. classify (at_answer (env i)) = Inl e) \<and> alive_until env (Suc i) k"
  unfolding alive_until_def using Suc_le_eq le_eq_less_or_eq by (metis (no_types, lifting))

lemma FindPeer_loop_spec:
  "i \<le> Suc dhtLookupMaxAttempts \<Longrightarrow> 0 < i \<Longrightarrow>
     snd (FindPeer_loop env i e0) \<le> dhtLookupMaxAttempts
   \<and> (fst (FindPeer_loop env i e0) = Inr a \<longleftrightarrow>
       (\<exists>k. i \<le> k \<and> k \<le> dhtLookupMaxAttempts \<and> alive_until env i k \<and> classify (at_answer (env k)) = Inr a))"
proof (induction env i e0 rule: FindPeer_loop.induct)
  case (1 env i e0)
  note unfold = FindPeer_loop.simps [of env i e0]
  show ?case
  proof (cases "i > dhtLookupMaxAttempts")
    case True
    then show ?thesis using 1(2,3) by (auto simp: unfold)
  next
    case False
    show ?thesis
    proof (cases "at_ctxDone (env i)")
      case True
      have "\<not> alive_until env i k" if "i \<le> k" for k
        using that True by (cases "i = k") (auto simp: alive_until_def)
      then show ?thesis using False True 1(3) by (auto simp: unfold)
    next
      case alive: False
      show ?thesis
      proof (cases "classify (at_answer (env i))")
        case (Inr addrs)
        have "alive_until env i i" using alive by (auto simp: alive_until_def)
        moreover have "\<not> alive_until env i k" if "i < k" for k using that Inr by (auto simp: alive_until_step)
        ultimately show ?thesis using False alive Inr by (auto simp: unfold le_less)
      next
        case (Inl e)
        show ?thesis
        proof (cases "i < dhtLookupMaxAttempts \<and> at_delayDone (env i)")
          case True
          have "\<not> alive_until env i k" if "i < k" for k using that True by (auto simp: alive_until_step)
          then show ?thesis using False alive Inl True by (auto simp: unfold le_less)
        next
          case go: False
          have eq: "(\<exists>k. i \<le> k \<and> k \<le> dhtLookupMaxAttempts \<and> alive_until env i k \<and> classify (at_answer (env k)) = Inr a)
              \<longleftrightarrow> (\<exists>k. Suc i \<le> k \<and> k \<le> dhtLookupMaxAttempts \<and> alive_until env (Suc i) k \<and> classify (at_answer (env k)) = Inr a)"
            using Inl alive go alive_until_step [of i _ env] by (metis (no_types, lifting) Suc_le_eq le_less le_trans less_le_not_le sum.distinct(1) order_le_less_trans)
          show ?thesis using 1(1) [OF False alive Inl go] 1(2,3) False alive Inl go unfolding eq by (auto simp: unfold)
        qed
      qed
    qed
  qed
qed

text \<open>Discovery always ends, after at most six lookups, and finds the peer exactly when one of the six
  attempts it gets to, each before the context ends and after failed ones, answers with addresses.\<close>

theorem FindPeer_result:
  "snd (FindPeer env) \<le> 6
   \<and> (fst (FindPeer env) = Inr addrs \<longleftrightarrow>
       (\<exists>k. 1 \<le> k \<and> k \<le> 6 \<and> alive_until env 1 k \<and> classify (at_answer (env k)) = Inr addrs))"
  using FindPeer_loop_spec [of 1 env NoAddresses addrs] by (simp add: FindPeer_def dhtLookupMaxAttempts_def)

section \<open>Addresses\<close>

lemma selectAddresses_spec:
  "selectAddresses addrs conn tr = Some sel \<Longrightarrow> sel \<noteq> [] \<and> set sel \<subseteq> set addrs
     \<and> (conn = ConnectionRelayOnly \<longrightarrow> (\<forall>a \<in> set sel. has_protocol ''p2p-circuit'' a))
     \<and> (conn \<noteq> ConnectionRelayOnly \<and> tr = TransportTCP \<longrightarrow> (\<forall>a \<in> set sel. \<not> has_protocol ''p2p-circuit'' a))"
  by (auto simp: selectAddresses_def Let_def keep_address_def mode_defs split: if_splits)

end
