(* ===== verification/Run.thy ===== *)
theory Run
  imports P2p Ladder
begin

text \<open>
  The entry point and the two roles: flag validation (\<^verbatim>\<open>cmd/tunnel/main.go\<close>), the choice of transport
  (\<^verbatim>\<open>internal/tunnel/transport.go\<close>), the run of a host and of a client (\<^verbatim>\<open>host.go\<close>, \<^verbatim>\<open>client.go\<close>) as the sequence of
  their calls on the resources they own, and the watcher that ends a client when its host is gone
  (\<^verbatim>\<open>watcher.go\<close>). What discovery, negotiation and the operating system answer is a record of results. The wait
  for the context is one call in the sequence; log lines are not modelled. \<open>Program\<close> puts \<^verbatim>\<open>main\<close> around the two runs;
  \<open>Client_Shutdown\<close> and \<open>Host_Shutdown\<close> open them into their goroutines.
\<close>

section \<open>Flags\<close>

text \<open>\<^verbatim>\<open>splitList\<close>: the trimmed, non-empty entries between commas.\<close>

definition splitList :: "string \<Rightarrow> string list" where
  "splitList value = filter (\<lambda>e. e \<noteq> []) (map TrimSpace (Split (CHR '','') value))"

definition transportFor :: "network \<Rightarrow> network option" where
  "transportFor n = (if n = NetworkTCP then Some NetworkTCP else if n = NetworkUDP then Some NetworkUDP else None)"

definition NetworkSupported :: "network \<Rightarrow> bool" where
  "NetworkSupported n = (transportFor n \<noteq> None)"

record cli_flags =
  fl_port :: int
  fl_network :: string
  fl_token :: string
  fl_connectionMode :: string
  fl_transport :: string
  fl_dhtMode :: string
  fl_tunnelMode :: string
  fl_directTimeout :: duration
  fl_relays :: string
  fl_stunServers :: string
  fl_punchTimeout :: duration
  fl_punchGatherTimeout :: duration
  fl_punchAttempts :: nat
  fl_handshakeTimeout :: duration
  fl_diagnostic :: bool

datatype usage_error = BadNetwork | BadPort | HostNeedsPort | BadConnectionMode | BadTransport | BadDHTMode
  | BadTunnelMode | BadDirectTimeout | BadPunchTimeout | BadGatherTimeout | BadPunchAttempts | BadHandshakeTimeout

text \<open>What \<^verbatim>\<open>main\<close> builds from valid flags. The list of STUN servers is nil when no entry is left.\<close>

record run_config =
  rc_host :: bool
  rc_network :: network
  rc_port :: int
  rc_p2p :: p2p_config
  rc_options :: options

definition need :: "'a option \<Rightarrow> usage_error \<Rightarrow> usage_error + 'a" where
  "need x e = (case x of None \<Rightarrow> Inl e | Some v \<Rightarrow> Inr v)"

definition nil_list :: "string list \<Rightarrow> string list option" where
  "nil_list xs = (if xs = [] then None else Some xs)"

definition main_config :: "cli_flags \<Rightarrow> usage_error + run_config" where
  "main_config f =
     rbind (case ParseNetwork (fl_network f) of Inl _ \<Rightarrow> Inl BadNetwork | Inr n \<Rightarrow> Inr n) (\<lambda>network.
     rbind (guard (NetworkSupported network) BadNetwork) (\<lambda>_.
     rbind (guard (fl_port f \<ge> 0) BadPort) (\<lambda>_.
     rbind (guard (\<not> (fl_token f = [] \<and> fl_port f = 0)) HostNeedsPort) (\<lambda>_.
     rbind (need (ParseConnectionMode (fl_connectionMode f)) BadConnectionMode) (\<lambda>connectionMode.
     rbind (need (ParseTransportMode (fl_transport f)) BadTransport) (\<lambda>transportMode.
     rbind (need (ParseDHTMode (fl_dhtMode f)) BadDHTMode) (\<lambda>dhtMode.
     rbind (need (ParseTunnelMode (fl_tunnelMode f)) BadTunnelMode) (\<lambda>tunnelMode.
     rbind (guard (fl_directTimeout f > 0) BadDirectTimeout) (\<lambda>_.
     rbind (guard (fl_punchTimeout f > 0) BadPunchTimeout) (\<lambda>_.
     rbind (guard (fl_punchGatherTimeout f > 0) BadGatherTimeout) (\<lambda>_.
     rbind (guard (1 \<le> fl_punchAttempts f \<and> fl_punchAttempts f \<le> 255) BadPunchAttempts) (\<lambda>_.
     rbind (guard (fl_handshakeTimeout f > 0) BadHandshakeTimeout) (\<lambda>_.
     Inr \<lparr>rc_host = (fl_token f = []), rc_network = network, rc_port = fl_port f,
       rc_p2p = \<lparr>ConnectionMode = connectionMode, Transport = transportMode, DHTMode = dhtMode,
                 DirectDialTimeout = fl_directTimeout f, RelayAddrs = splitList (fl_relays f),
                 cfg_Protocols = \<lparr>Data = [], Negotiate = []\<rparr>\<rparr>,
       rc_options = \<lparr>opt_TunnelMode = tunnelMode, opt_Diagnostic = fl_diagnostic f,
         opt_PunchAttempts = of_nat (fl_punchAttempts f), opt_HandshakeTimeout = fl_handshakeTimeout f,
         opt_STUNServers = nil_list (splitList (fl_stunServers f)),
         opt_PunchTimeout = fl_punchTimeout f, opt_PunchGatherTimeout = fl_punchGatherTimeout f\<rparr>\<rparr>)))))))))))))"

section \<open>The client\<close>

datatype run_call =
    NewDHTCall | FindPeerCall | ConnectCall | NegotiateCall | StartForwarder | WatchPeer | AwaitCtx
  | SetDataHandler | SetNegotiateHandler | Announce | EmitConnected
  | Cancel | StopWatch | CloseForwarder | ClosePlane | CloseDHT | CloseHost | WaitGroup
  | RemoveDataHandler | RemoveNegotiateHandler | SessionShutdown | NegotiationsShutdown

datatype run_error = TokenRefused token_error | BadTransportNetwork | DHTFailed | DiscoverFailed | ConnectFailed
  | TiersFailed | NegotiateFailed | DHTCloseFailed | ListenFailed | EncodeTokenFailed

record client_env =
  ce_token :: "token_error + Token"
  ce_dht :: bool
  ce_find :: bool
  ce_connect :: bool
  ce_tiers :: bool
  ce_negotiate :: bool
  ce_dhtClose :: bool
  ce_listen :: bool

text \<open>\<^verbatim>\<open>p2p.Close\<close> closes the DHT, unless it is nil, and then the host.\<close>

definition p2p_Close :: "bool \<Rightarrow> run_call list" where
  "p2p_Close dht = (if dht then [CloseDHT] else []) @ [CloseHost]"

text \<open>The part of \<^verbatim>\<open>RunClient\<close> after the negotiation; \<open>dht\<close> says whether the client's DHT is still there.\<close>

definition serve_client :: "client_env \<Rightarrow> bool \<Rightarrow> run_error option \<times> run_call list" where
  "serve_client env dht =
     (if \<not> ce_listen env
      then (Some ListenFailed, [WatchPeer, StopWatch, Cancel, ClosePlane] @ p2p_Close dht @ [WaitGroup])
      else (None, [WatchPeer, EmitConnected, StartForwarder, AwaitCtx, StopWatch, CloseForwarder, ClosePlane]
                    @ p2p_Close dht @ [WaitGroup]))"

definition RunClient :: "client_env \<Rightarrow> p2p_config \<Rightarrow> run_error option \<times> run_call list" where
  "RunClient env c =
     (case ce_token env of
        Inl e \<Rightarrow> (Some (TokenRefused e), [CloseHost])
      | Inr token \<Rightarrow>
          if transportFor (token_Network token) = None then (Some BadTransportNetwork, [CloseHost])
          else (case ProtocolsFor (Version token) of
            Inl e \<Rightarrow> (Some (TokenRefused e), [CloseHost])
          | Inr _ \<Rightarrow>
          if \<not> ce_dht env then (Some DHTFailed, [NewDHTCall, CloseHost])
          else if \<not> ce_find env then (Some DiscoverFailed, [NewDHTCall, FindPeerCall] @ p2p_Close True)
          else if \<not> ce_connect env then (Some ConnectFailed, [NewDHTCall, FindPeerCall, ConnectCall] @ p2p_Close True)
          else if \<not> ce_tiers env then (Some TiersFailed, [NewDHTCall, FindPeerCall, ConnectCall] @ p2p_Close True)
          else let done = [NewDHTCall, FindPeerCall, ConnectCall, NegotiateCall] in
            if \<not> ce_negotiate env then (Some NegotiateFailed, done @ [Cancel] @ p2p_Close True @ [WaitGroup])
            else if DHTMode c = DHTCloseAfterConnect
            then (if \<not> ce_dhtClose env
                  then (Some DHTCloseFailed, done @ [CloseDHT, Cancel, ClosePlane] @ p2p_Close False @ [WaitGroup])
                  else case serve_client env False of (e, cs) \<Rightarrow> (e, done @ [CloseDHT] @ cs))
            else case serve_client env True of (e, cs) \<Rightarrow> (e, done @ cs)))"

section \<open>The host\<close>

record host_env =
  he_dht :: bool
  he_ctxAlive :: bool
  he_tiers :: bool
  he_encode :: bool

definition RunHost :: "host_env \<Rightarrow> network \<Rightarrow> string \<Rightarrow> run_error option \<times> run_call list" where
  "RunHost env n mode =
     (if transportFor n = None then (Some BadTransportNetwork, [CloseHost])
      else if \<not> he_dht env then (Some DHTFailed, [NewDHTCall, CloseHost])
      else if \<not> he_ctxAlive env then (None, [NewDHTCall] @ p2p_Close True)
      else if \<not> he_tiers env then (Some TiersFailed, [NewDHTCall] @ p2p_Close True)
      else if \<not> he_encode env then (Some EncodeTokenFailed, [NewDHTCall] @ p2p_Close True)
      else (None, [NewDHTCall] @ (if forcesTier mode then [] else [SetDataHandler])
         @ [SetNegotiateHandler, Announce, AwaitCtx, RemoveDataHandler, RemoveNegotiateHandler,
            SessionShutdown, NegotiationsShutdown, WaitGroup] @ p2p_Close True))"

text \<open>\<^verbatim>\<open>handleHostStream\<close>: dial the local service, forward, close in reverse order.\<close>

datatype stream_step = DialLocal | ForwardStream | CloseLocal | CloseTunnel

definition handleHostStream :: "bool \<Rightarrow> stream_step list" where
  "handleHostStream dialled = (if dialled then [DialLocal, ForwardStream, CloseLocal, CloseTunnel] else [DialLocal, CloseTunnel])"

section \<open>The watcher\<close>

datatype connectedness = NotConnected | Connected | Limited

text \<open>Whether a \<^verbatim>\<open>Disconnected\<close> callback shuts the client down.\<close>

definition watcher_Disconnected :: "string \<Rightarrow> string \<Rightarrow> connectedness \<Rightarrow> bool" where
  "watcher_Disconnected target remote left = (if remote \<noteq> target then False else if left \<noteq> NotConnected then False else True)"

section \<open>Valid flags\<close>

lemma splitList_entries: "e \<in> set (splitList v) \<Longrightarrow> e \<noteq> [] \<and> TrimSpace e = e \<and> CHR '','' \<notin> set e"
proof -
  assume "e \<in> set (splitList v)"
  then obtain w where "w \<in> set (Split (CHR '','') v)" "e = TrimSpace w" "e \<noteq> []" by (auto simp: splitList_def)
  then show ?thesis using Split_no_sep set_TrimSpace by (fastforce simp: TrimSpace_idem)
qed

lemma splitList_nil: "splitList [] = []"
  by (simp add: splitList_def TrimSpace_def)

lemma parse_mode_in: "parse_mode names v = Some m \<Longrightarrow> m \<in> set names"
  by (auto simp: parse_mode_def Let_def split: if_splits)

lemma main_config_parts:
  assumes "main_config f = Inr rc"
  shows "(\<exists>n. ParseNetwork (fl_network f) = Inr n \<and> rc_network rc = n \<and> NetworkSupported n)"
    and "fl_port f \<ge> 0" "fl_token f = [] \<longrightarrow> fl_port f \<noteq> 0" "rc_host rc = (fl_token f = [])" "rc_port rc = fl_port f"
    and "ParseConnectionMode (fl_connectionMode f) = Some (ConnectionMode (rc_p2p rc))"
    and "ParseTransportMode (fl_transport f) = Some (Transport (rc_p2p rc))"
    and "ParseTunnelMode (fl_tunnelMode f) = Some (opt_TunnelMode (rc_options rc))"
    and "1 \<le> fl_punchAttempts f" "fl_punchAttempts f \<le> 255"
    and "opt_PunchAttempts (rc_options rc) = of_nat (fl_punchAttempts f)"
    and "RelayAddrs (rc_p2p rc) = splitList (fl_relays f)"
    and "opt_STUNServers (rc_options rc) = nil_list (splitList (fl_stunServers f))"
    and "opt_PunchTimeout (rc_options rc) > 0" "opt_PunchGatherTimeout (rc_options rc) > 0"
    and "opt_HandshakeTimeout (rc_options rc) > 0" "DirectDialTimeout (rc_p2p rc) > 0"
  using assms by (auto simp: main_config_def rbind_eq_Inr need_def split: option.splits sum.splits)

lemma openStream_supported: "openStream a k \<noteq> (Inl (UnsupportedMode m), n)"
  by (auto simp: openStream_def split: sum.splits)

lemma openDirectStream_supported: "openDirectStream env p t rs \<noteq> Some (Inl (UnsupportedMode m), calls, n)"
  using openStream_supported unfolding openDirectStream_def
  by (auto simp: Let_def split: sum.splits if_splits prod.splits)

lemma OpenStream_supported:
  assumes "ConnectionMode c \<in> {ConnectionDirectOnly, ConnectionDirectFirst, ConnectionRelayOnly}"
  shows "OpenStream env d a c \<noteq> Some (Inl (UnsupportedMode m), calls, n)"
proof -
  let ?direct = "openDirectStream env (Data (protocols c)) (directTimeout c) reasonDirectFirst"
  consider "ConnectionMode c = ConnectionRelayOnly" | "ConnectionMode c = ConnectionDirectOnly"
    | "ConnectionMode c = ConnectionDirectFirst" using assms by blast
  then show ?thesis
  proof cases
    case 1
    then show ?thesis using openStream_supported by (auto simp: OpenStream_def Let_def split: prod.splits)
  next
    case 2
    then show ?thesis using openDirectStream_supported by (auto simp: OpenStream_def mode_defs Let_def)
  next
    case 3
    then show ?thesis using openStream_supported openDirectStream_supported
      by (auto simp: OpenStream_def mode_defs Let_def split: prod.splits option.splits sum.splits if_splits)
  qed
qed

text \<open>C34: accepted flags never reach an unsupported case further down. If \<^verbatim>\<open>main\<close> accepts the flags then: the
  network has a transport, the transport mode has options, opening a stream never reports an unsupported mode,
  the tunnel mode is one of the four, a host has a port to forward; the attempt count fits its byte unchanged,
  so what the peer is told is what was asked for; every timeout is positive; and the lists hold trimmed,
  non-empty entries, nil when there is none.\<close>

theorem accepted_flags_are_supported:
  assumes "main_config f = Inr rc"
  shows "transportFor (rc_network rc) = Some (rc_network rc)
    \<and> transportOptions (Transport (rc_p2p rc)) \<noteq> None
    \<and> (\<forall>env d a m calls n. OpenStream env d a (rc_p2p rc) \<noteq> Some (Inl (UnsupportedMode m), calls, n))
    \<and> opt_TunnelMode (rc_options rc) \<in> {TunnelAuto, TunnelWireGuard, TunnelQUIC, TunnelLibp2p}
    \<and> (rc_host rc \<longrightarrow> rc_port rc > 0)
    \<and> unat (punchAttemptsFor (rc_options rc)) = fl_punchAttempts f
    \<and> opt_PunchTimeout (rc_options rc) > 0 \<and> opt_PunchGatherTimeout (rc_options rc) > 0
    \<and> opt_HandshakeTimeout (rc_options rc) > 0 \<and> DirectDialTimeout (rc_p2p rc) > 0
    \<and> (\<forall>e \<in> set (RelayAddrs (rc_p2p rc)). e \<noteq> [] \<and> TrimSpace e = e)
    \<and> (\<forall>l. opt_STUNServers (rc_options rc) = Some l \<longrightarrow> l \<noteq> [] \<and> (\<forall>e \<in> set l. e \<noteq> [] \<and> TrimSpace e = e))"
proof (intro conjI allI impI ballI)
  note m = main_config_parts [OF assms]
  show "transportFor (rc_network rc) = Some (rc_network rc)"
    using m(1) by (auto simp: NetworkSupported_def transportFor_def split: if_splits)
  show "transportOptions (Transport (rc_p2p rc)) \<noteq> None"
    using parse_mode_in [OF m(7) [unfolded ParseTransportMode_def]] by (auto simp: transportOptions_def)
  have mode: "ConnectionMode (rc_p2p rc) \<in> {ConnectionDirectOnly, ConnectionDirectFirst, ConnectionRelayOnly}"
    using parse_mode_in [OF m(6) [unfolded ParseConnectionMode_def]] by auto
  show "OpenStream env d a (rc_p2p rc) \<noteq> Some (Inl (UnsupportedMode x), calls, n)" for env d a x calls n
    using OpenStream_supported [OF mode] by blast
  show "opt_TunnelMode (rc_options rc) \<in> {TunnelAuto, TunnelWireGuard, TunnelQUIC, TunnelLibp2p}"
    using parse_mode_in [OF m(8) [unfolded ParseTunnelMode_def]]
    by (auto simp: TunnelAuto_def TunnelWireGuard_def TunnelQUIC_def TunnelLibp2p_def)
  show "rc_port rc > 0" if "rc_host rc" using that m(2-5) by auto
  have u: "unat (of_nat (fl_punchAttempts f) :: u8) = fl_punchAttempts f"
    using m(10) by (simp add: unat_of_nat take_bit_nat_eq_self)
  then have "(of_nat (fl_punchAttempts f) :: u8) \<noteq> 0" using m(9) by auto
  then show "unat (punchAttemptsFor (rc_options rc)) = fl_punchAttempts f" using u by (simp add: punchAttemptsFor_def m(11))
  show "opt_PunchTimeout (rc_options rc) > 0" "opt_PunchGatherTimeout (rc_options rc) > 0"
    "opt_HandshakeTimeout (rc_options rc) > 0" "DirectDialTimeout (rc_p2p rc) > 0" by (rule m(14-17))+
  show "e \<noteq> []" "TrimSpace e = e" if "e \<in> set (RelayAddrs (rc_p2p rc))" for e
    using splitList_entries that m(12) by auto
  show "l \<noteq> []" if "opt_STUNServers (rc_options rc) = Some l" for l
    using that m(13) by (auto simp: nil_list_def split: if_splits)
  show "e \<noteq> []" "TrimSpace e = e" if "opt_STUNServers (rc_options rc) = Some l" "e \<in> set l" for l e
    using splitList_entries that m(13) by (auto simp: nil_list_def split: if_splits)
qed

definition sample_flags :: cli_flags where
  "sample_flags = \<lparr>fl_port = 8080, fl_network = ''udp'', fl_token = [], fl_connectionMode = ''direct-first'',
     fl_transport = ''default'', fl_dhtMode = ''current'', fl_tunnelMode = ''auto'', fl_directTimeout = 1,
     fl_relays = [], fl_stunServers = '' a , ,b'', fl_punchTimeout = 1, fl_punchGatherTimeout = 1,
     fl_punchAttempts = 255, fl_handshakeTimeout = 1, fl_diagnostic = False\<rparr>"

lemma sample_flags_accepted:
  "\<exists>rc. main_config sample_flags = Inr rc \<and> rc_host rc \<and> opt_STUNServers (rc_options rc) = Some [''a'', ''b'']
    \<and> Transport (rc_p2p rc) = TransportDefault \<and> RelayAddrs (rc_p2p rc) = []"
proof -
  have l: "ToLower ''direct-first'' = ''direct-first''" "ToLower ''default'' = ''default''"
    "ToLower ''current'' = ''current''" "ToLower ''auto'' = ''auto''"
    by (simp_all add: ToLower_def)
  have s: "splitList '' a , ,b'' = [''a'', ''b'']"
    "splitList [] = []"
    by (simp_all add: splitList_def TrimSpace_def isSpace_def)
  show ?thesis
    unfolding main_config_def sample_flags_def
    by (simp add: ParseNetwork_def NetworkSupported_def transportFor_def NetworkTCP_def NetworkUDP_def need_def
        ParseConnectionMode_def ParseTransportMode_def ParseDHTMode_def ParseTunnelMode_def parse_mode_def Let_def l
        mode_defs s nil_list_def)
qed

theorem accepted_flags_are_supported_witness:
  "\<exists>rc. main_config sample_flags = Inr rc \<and> unat (punchAttemptsFor (rc_options rc)) = 255
     \<and> opt_STUNServers (rc_options rc) = Some [''a'', ''b''] \<and> rc_port rc > 0"
proof -
  obtain rc where rc: "main_config sample_flags = Inr rc" "rc_host rc" "opt_STUNServers (rc_options rc) = Some [''a'', ''b'']"
    using sample_flags_accepted
    by blast
  have "fl_punchAttempts sample_flags = 255" by (simp add: sample_flags_def)
  then show ?thesis using accepted_flags_are_supported [OF rc(1)] rc by auto
qed

section \<open>Every run releases what it owns\<close>

text \<open>C33: whatever discovery, negotiation and the system answer, a run ends with everything it owned released,
  once. A client closes its libp2p host exactly once, its DHT exactly once if it was created, the negotiated
  plane exactly once if there is one, stops watching as often as it watched, closes its forwarder if it
  started one, and after a negotiation waits for its background work last. A host closes its libp2p host
  exactly once and its DHT exactly once if it was created; once it announced its token it stops accepting
  streams and negotiations, then retires the sessions, then the negotiations that own their tiers, then waits
  for the control handler, and only then closes the libp2p stack.\<close>

theorem runs_release_everything:
  "(\<forall>env c err calls. RunClient env c = (err, calls) \<longrightarrow>
      count_list calls CloseHost = 1
    \<and> count_list calls CloseDHT = (if NewDHTCall \<in> set calls \<and> ce_dht env then 1 else 0)
    \<and> count_list calls ClosePlane = (if NegotiateCall \<in> set calls \<and> ce_negotiate env then 1 else 0)
    \<and> count_list calls StopWatch = count_list calls WatchPeer
    \<and> count_list calls CloseForwarder = count_list calls StartForwarder
    \<and> (NegotiateCall \<in> set calls \<longrightarrow> last calls = WaitGroup)
    \<and> (err = None \<longleftrightarrow> AwaitCtx \<in> set calls))
   \<and> (\<forall>env n mode err calls. RunHost env n mode = (err, calls) \<longrightarrow>
      count_list calls CloseHost = 1
    \<and> count_list calls CloseDHT = (if NewDHTCall \<in> set calls \<and> he_dht env then 1 else 0)
    \<and> (Announce \<in> set calls \<longrightarrow> (\<exists>before. calls = before @ [Announce, AwaitCtx, RemoveDataHandler, RemoveNegotiateHandler,
         SessionShutdown, NegotiationsShutdown, WaitGroup, CloseDHT, CloseHost]
         \<and> SetNegotiateHandler \<in> set before \<and> (SetDataHandler \<in> set before) = (\<not> forcesTier mode))))"
proof (intro conjI allI impI)
  fix env c err calls assume r: "RunClient env c = (err, calls)"
  note defs = RunClient_def serve_client_def p2p_Close_def Let_def
  show "count_list calls CloseHost = 1" using r by (auto simp: defs split: sum.splits if_splits)
  show "count_list calls CloseDHT = (if NewDHTCall \<in> set calls \<and> ce_dht env then 1 else 0)"
    using r by (auto simp: defs split: sum.splits if_splits)
  show "count_list calls ClosePlane = (if NegotiateCall \<in> set calls \<and> ce_negotiate env then 1 else 0)"
    using r by (auto simp: defs split: sum.splits if_splits)
  show "count_list calls StopWatch = count_list calls WatchPeer" using r by (auto simp: defs split: sum.splits if_splits)
  show "count_list calls CloseForwarder = count_list calls StartForwarder" using r by (auto simp: defs split: sum.splits if_splits)
  show "last calls = WaitGroup" if "NegotiateCall \<in> set calls" using r that by (auto simp: defs split: sum.splits if_splits)
  show "err = None \<longleftrightarrow> AwaitCtx \<in> set calls" using r by (auto simp: defs split: sum.splits if_splits)
next
  fix env n mode err calls assume r: "RunHost env n mode = (err, calls)"
  note defs = RunHost_def p2p_Close_def
  show "count_list calls CloseHost = 1" using r by (auto simp: defs split: if_splits)
  show "count_list calls CloseDHT = (if NewDHTCall \<in> set calls \<and> he_dht env then 1 else 0)"
    using r by (auto simp: defs split: if_splits)
  show "\<exists>before. calls = before @ [Announce, AwaitCtx, RemoveDataHandler, RemoveNegotiateHandler,
         SessionShutdown, NegotiationsShutdown, WaitGroup, CloseDHT, CloseHost]
         \<and> SetNegotiateHandler \<in> set before \<and> (SetDataHandler \<in> set before) = (\<not> forcesTier mode)" if "Announce \<in> set calls"
    using r that by (auto simp: defs split: if_splits)
qed

theorem runs_release_everything_witness:
  "\<exists>err calls. RunClient \<lparr>ce_token = Inr \<lparr>Version = 1, token_Network = ''tcp'', ID = ''x'', WireGuardPubKey = []\<rparr>,
      ce_dht = True, ce_find = True, ce_connect = True, ce_tiers = True, ce_negotiate = True, ce_dhtClose = False, ce_listen = True\<rparr>
      (sample_p2p ConnectionDirectOnly\<lparr>DHTMode := DHTCloseAfterConnect\<rparr>) = (err, calls)
    \<and> err = Some DHTCloseFailed \<and> count_list calls CloseDHT = 1 \<and> count_list calls ClosePlane = 1 \<and> count_list calls CloseHost = 1"
proof -
  let ?env = "\<lparr>ce_token = Inr \<lparr>Version = 1, token_Network = ''tcp'', ID = ''x'', WireGuardPubKey = []\<rparr>,
      ce_dht = True, ce_find = True, ce_connect = True, ce_tiers = True, ce_negotiate = True, ce_dhtClose = False, ce_listen = True\<rparr>"
    and ?c = "sample_p2p ConnectionDirectOnly\<lparr>DHTMode := DHTCloseAfterConnect\<rparr>"
  obtain err calls where r: "RunClient ?env ?c = (err, calls)" by (cases "RunClient ?env ?c")
  have "err = Some DHTCloseFailed" "NewDHTCall \<in> set calls" "NegotiateCall \<in> set calls"
    using r by (auto simp: RunClient_def transportFor_def NetworkTCP_def ProtocolsFor_def TokenVersionCurrent_def Let_def)
  then show ?thesis using runs_release_everything r by fastforce
qed

end
