(* ===== verification/Rung_Serving.thy ===== *)
theory Rung_Serving
  imports Prelude
begin

text \<open>
  Serving one rung on the host, \<^verbatim>\<open>internal/tunnel/tier.go\<close>: the set of live streams (\<^verbatim>\<open>streamSet\<close>), the accept loop
  with its handlers (\<^verbatim>\<open>acceptRung\<close>), the goroutine of \<^verbatim>\<open>serveRung\<close> that tears the rung down when its context ends,
  and the peer watcher that ends a committed rung. Every locked section, every close and every call of the
  session manager is one step; forwards, accepts, cancellation and shutdown interleave freely. A stream is
  the number of its accept.
\<close>

section \<open>The set of live streams\<close>

record streamSet =
  ss_streams :: "nat set"
  ss_closed :: bool

definition ss_add :: "nat \<Rightarrow> streamSet \<Rightarrow> bool \<times> streamSet" where
  "ss_add s st = (if ss_closed st then (False, st) else (True, st\<lparr>ss_streams := insert s (ss_streams st)\<rparr>))"

definition ss_remove :: "nat \<Rightarrow> streamSet \<Rightarrow> streamSet" where
  "ss_remove s st = st\<lparr>ss_streams := ss_streams st - {s}\<rparr>"

text \<open>The locked part of \<^verbatim>\<open>closeAll\<close>: the streams to close, outside the lock, one by one.\<close>

definition ss_closeAll :: "streamSet \<Rightarrow> nat set \<times> streamSet" where
  "ss_closeAll st = (ss_streams st, st\<lparr>ss_streams := {}, ss_closed := True\<rparr>)"

section \<open>The goroutines\<close>

datatype accept_state = AWaiting | AGot nat | AAdded nat | ARefused nat | AExited

text \<open>A handler: forwarding; forwarded and the stream closed; out of the set.\<close>

datatype handler_state = HForward | HClosed | HRemoved

datatype teardown_state = TWait | TRungClosed | TClosing "nat set" | TDone

record rung_serving =
  rs_live :: streamSet
  rs_accepted :: nat
  rs_accept :: accept_state
  rs_handlers :: "nat \<rightharpoonup> handler_state"
  rs_closed :: "nat set"
  rs_teardown :: teardown_state
  rs_cancelled :: bool
  rs_shutdown :: bool
  rs_begun :: nat
  rs_ended :: nat

definition serve_start :: rung_serving where
  "serve_start = \<lparr>rs_live = \<lparr>ss_streams = {}, ss_closed = False\<rparr>, rs_accepted = 0, rs_accept = AWaiting,
     rs_handlers = Map.empty, rs_closed = {}, rs_teardown = TWait, rs_cancelled = False, rs_shutdown = False,
     rs_begun = 0, rs_ended = 0\<rparr>"

text \<open>\<^verbatim>\<open>acceptRung\<close> and the goroutine around it. \<^verbatim>\<open>BeginStream\<close> refuses once the session manager shuts down. The loop left, the
  deferred \<^verbatim>\<open>handlers.Wait\<close> waits for the handlers, and only then is the rung stopped.\<close>

datatype accept_event = Accepted | AcceptFailed | AddStream | BeginServing | CloseRefused | AcceptReturns

fun acceptRung :: "accept_event \<Rightarrow> rung_serving \<Rightarrow> rung_serving option" where
  "acceptRung Accepted r =
     (if rs_accept r = AWaiting
      then Some (r\<lparr>rs_accept := AGot (rs_accepted r), rs_accepted := Suc (rs_accepted r)\<rparr>) else None)"
| "acceptRung AcceptFailed r =
     (if rs_accept r = AWaiting then Some (r\<lparr>rs_accept := AExited\<rparr>) else None)"
| "acceptRung AddStream r =
     (case rs_accept r of
        AGot s \<Rightarrow> (case ss_add s (rs_live r) of
            (True, live) \<Rightarrow> Some (r\<lparr>rs_live := live, rs_accept := AAdded s\<rparr>)
          | (False, live) \<Rightarrow> Some (r\<lparr>rs_accept := ARefused s\<rparr>))
      | _ \<Rightarrow> None)"
| "acceptRung BeginServing r =
     (case rs_accept r of
        AAdded s \<Rightarrow>
          if rs_shutdown r then Some (r\<lparr>rs_live := ss_remove s (rs_live r), rs_accept := ARefused s\<rparr>)
          else Some (r\<lparr>rs_begun := Suc (rs_begun r), rs_handlers := (rs_handlers r)(s \<mapsto> HForward), rs_accept := AWaiting\<rparr>)
      | _ \<Rightarrow> None)"
| "acceptRung CloseRefused r =
     (case rs_accept r of
        ARefused s \<Rightarrow> Some (r\<lparr>rs_closed := insert s (rs_closed r), rs_accept := AExited\<rparr>)
      | _ \<Rightarrow> None)"
| "acceptRung AcceptReturns r =
     (if rs_accept r = AExited \<and> rs_begun r = rs_ended r then Some (r\<lparr>rs_cancelled := True\<rparr>) else None)"

text \<open>A handler's deferred calls: the forward's own close, then the set, then \<^verbatim>\<open>EndStream\<close>.\<close>

fun handler_next :: "nat \<Rightarrow> rung_serving \<Rightarrow> rung_serving option" where
  "handler_next s r =
     (case rs_handlers r s of
        Some HForward \<Rightarrow> Some (r\<lparr>rs_closed := insert s (rs_closed r), rs_handlers := (rs_handlers r)(s \<mapsto> HClosed)\<rparr>)
      | Some HClosed \<Rightarrow> Some (r\<lparr>rs_live := ss_remove s (rs_live r), rs_handlers := (rs_handlers r)(s \<mapsto> HRemoved)\<rparr>)
      | Some HRemoved \<Rightarrow> Some (r\<lparr>rs_ended := Suc (rs_ended r), rs_handlers := (rs_handlers r)(s := None)\<rparr>)
      | None \<Rightarrow> None)"

text \<open>The teardown goroutine of \<^verbatim>\<open>serveRung\<close>: wait for the context, close the rung, close every live stream.\<close>

datatype teardown_event = CloseRung | TakeAll | CloseOne nat | AllClosed

fun serveRung_teardown :: "teardown_event \<Rightarrow> rung_serving \<Rightarrow> rung_serving option" where
  "serveRung_teardown CloseRung r =
     (if rs_teardown r = TWait \<and> rs_cancelled r then Some (r\<lparr>rs_teardown := TRungClosed\<rparr>) else None)"
| "serveRung_teardown TakeAll r =
     (if rs_teardown r = TRungClosed
      then (case ss_closeAll (rs_live r) of (streams, live) \<Rightarrow> Some (r\<lparr>rs_live := live, rs_teardown := TClosing streams\<rparr>))
      else None)"
| "serveRung_teardown (CloseOne s) r =
     (case rs_teardown r of
        TClosing streams \<Rightarrow>
          if s \<in> streams then Some (r\<lparr>rs_closed := insert s (rs_closed r), rs_teardown := TClosing (streams - {s})\<rparr>) else None
      | _ \<Rightarrow> None)"
| "serveRung_teardown AllClosed r =
     (if rs_teardown r = TClosing {} then Some (r\<lparr>rs_teardown := TDone\<rparr>) else None)"

text \<open>The peer watcher of a committed rung.\<close>

definition tierPeerWatcher_Disconnected :: "string \<Rightarrow> string \<Rightarrow> bool \<Rightarrow> bool \<Rightarrow> bool" where
  "tierPeerWatcher_Disconnected target remote connected done = (done \<or> (remote = target \<and> \<not> connected))"

inductive serve_step :: "rung_serving \<Rightarrow> rung_serving \<Rightarrow> bool" where
  Accept: "acceptRung ev r = Some r' \<Longrightarrow> serve_step r r'"
| Handler: "handler_next s r = Some r' \<Longrightarrow> serve_step r r'"
| Teardown: "serveRung_teardown ev r = Some r' \<Longrightarrow> serve_step r r'"
| Cancel: "serve_step r (r\<lparr>rs_cancelled := True\<rparr>)"
| Shutdown: "serve_step r (r\<lparr>rs_shutdown := True\<rparr>)"

section \<open>Invariant\<close>

fun to_close :: "teardown_state \<Rightarrow> nat set" where
  "to_close (TClosing s) = s"
| "to_close _ = {}"

fun in_hand :: "accept_state \<Rightarrow> nat set" where
  "in_hand (AGot s) = {s}"
| "in_hand (AAdded s) = {s}"
| "in_hand (ARefused s) = {s}"
| "in_hand _ = {}"

definition reachable_by_teardown :: "rung_serving \<Rightarrow> nat set" where
  "reachable_by_teardown r = rs_closed r \<union> ss_streams (rs_live r) \<union> to_close (rs_teardown r)"

definition serve_inv :: "rung_serving \<Rightarrow> bool" where
  "serve_inv r \<longleftrightarrow>
     (\<forall>s. rs_handlers r s = Some HForward \<longrightarrow> s \<in> reachable_by_teardown r)
   \<and> (\<forall>s. rs_handlers r s \<in> {Some HClosed, Some HRemoved} \<longrightarrow> s \<in> rs_closed r)
   \<and> (\<forall>s. rs_accept r = AAdded s \<longrightarrow> s \<in> reachable_by_teardown r)
   \<and> ss_closed (rs_live r) = (rs_teardown r \<notin> {TWait, TRungClosed})
   \<and> (ss_closed (rs_live r) \<longrightarrow> ss_streams (rs_live r) = {})
   \<and> (\<forall>s < rs_accepted r. s \<in> rs_closed r \<or> s \<in> in_hand (rs_accept r) \<or> rs_handlers r s \<noteq> None)
   \<and> (\<forall>s. s \<in> in_hand (rs_accept r) \<longrightarrow> s < rs_accepted r \<and> rs_handlers r s = None)
   \<and> dom (rs_handlers r) \<subseteq> {..<rs_accepted r}
   \<and> finite (dom (rs_handlers r)) \<and> rs_begun r = rs_ended r + card (dom (rs_handlers r))"

lemma serve_inv_start: "serve_inv serve_start"
  by (simp add: serve_inv_def serve_start_def reachable_by_teardown_def)

lemma serve_invD:
  assumes "serve_inv r"
  shows "rs_handlers r s = Some HForward \<Longrightarrow> s \<in> reachable_by_teardown r"
    and "rs_handlers r s = Some HClosed \<Longrightarrow> s \<in> rs_closed r"
    and "rs_handlers r s = Some HRemoved \<Longrightarrow> s \<in> rs_closed r"
    and "rs_accept r = AAdded s \<Longrightarrow> s \<in> reachable_by_teardown r"
    and "ss_closed (rs_live r) = (rs_teardown r \<notin> {TWait, TRungClosed})"
    and "ss_closed (rs_live r) \<Longrightarrow> ss_streams (rs_live r) = {}"
    and "s < rs_accepted r \<Longrightarrow> s \<in> rs_closed r \<or> s \<in> in_hand (rs_accept r) \<or> rs_handlers r s \<noteq> None"
    and "s \<in> in_hand (rs_accept r) \<Longrightarrow> s < rs_accepted r \<and> rs_handlers r s = None"
    and "dom (rs_handlers r) \<subseteq> {..<rs_accepted r}"
    and "finite (dom (rs_handlers r))" "rs_begun r = rs_ended r + card (dom (rs_handlers r))"
  using assms unfolding serve_inv_def by blast+

lemma acceptRung_inv:
  assumes inv: "serve_inv r" and s: "acceptRung ev r = Some r'"
  shows "serve_inv r'"
proof (cases ev)
  case Accepted
  then have r': "rs_accept r = AWaiting" "r' = r\<lparr>rs_accept := AGot (rs_accepted r), rs_accepted := Suc (rs_accepted r)\<rparr>"
    using s by (auto split: if_splits)
  show ?thesis using inv unfolding serve_inv_def r'
    by (auto simp: r' reachable_by_teardown_def less_Suc_eq)
next
  case AcceptFailed
  then have r': "rs_accept r = AWaiting" "r' = r\<lparr>rs_accept := AExited\<rparr>"
    using s by (auto split: if_splits)
  show ?thesis using inv unfolding serve_inv_def r' by (auto simp: r' reachable_by_teardown_def)
next
  case AddStream
  then obtain a where a: "rs_accept r = AGot a" using s by (auto split: accept_state.splits)
  show ?thesis
  proof (cases "ss_closed (rs_live r)")
    case True
    then have r': "r' = r\<lparr>rs_accept := ARefused a\<rparr>" using s a AddStream by (simp add: ss_add_def)
    show ?thesis using inv a unfolding serve_inv_def r' by (auto simp: reachable_by_teardown_def)
  next
    case False
    then have r': "r' = r\<lparr>rs_live := (rs_live r)\<lparr>ss_streams := insert a (ss_streams (rs_live r))\<rparr>, rs_accept := AAdded a\<rparr>"
      using s a AddStream by (simp add: ss_add_def)
    show ?thesis using inv a False unfolding serve_inv_def r' by (auto simp: reachable_by_teardown_def)
  qed
next
  case BeginServing
  then obtain a where a: "rs_accept r = AAdded a" using s by (auto split: accept_state.splits)
  note d = serve_invD [OF inv]
  have new: "rs_handlers r a = None" "a < rs_accepted r" using d(8) a by auto
  show ?thesis
  proof (cases "rs_shutdown r")
    case True
    then have r': "r' = r\<lparr>rs_live := ss_remove a (rs_live r), rs_accept := ARefused a\<rparr>" using s a BeginServing by simp
    show ?thesis using inv a new unfolding serve_inv_def r'
      by (auto simp: reachable_by_teardown_def ss_remove_def)
  next
    case False
    then have r': "r' = r\<lparr>rs_begun := Suc (rs_begun r), rs_handlers := (rs_handlers r)(a \<mapsto> HForward), rs_accept := AWaiting\<rparr>"
      using s a BeginServing by simp
    have "card (insert a (dom (rs_handlers r))) = Suc (card (dom (rs_handlers r)))" using new d(10) by (simp add: domIff)
    then show ?thesis using inv a new unfolding serve_inv_def r' by (auto simp: reachable_by_teardown_def)
  qed
next
  case CloseRefused
  then obtain a where a: "rs_accept r = ARefused a" using s by (auto split: accept_state.splits)
  then have r': "r' = r\<lparr>rs_closed := insert a (rs_closed r), rs_accept := AExited\<rparr>" using s CloseRefused by simp
  show ?thesis using inv a unfolding serve_inv_def r' by (auto simp: reachable_by_teardown_def)
next
  case AcceptReturns
  then have r': "r' = r\<lparr>rs_cancelled := True\<rparr>" using s by (auto split: if_splits)
  show ?thesis using inv unfolding serve_inv_def r' by (simp add: reachable_by_teardown_def)
qed

lemma handler_next_inv:
  assumes inv: "serve_inv r" and s: "handler_next a r = Some r'"
  shows "serve_inv r'"
proof (cases "rs_handlers r a")
  case (Some h)
  note d = serve_invD [OF inv]
  have dom: "a \<in> dom (rs_handlers r)" using Some by blast
  show ?thesis
  proof (cases h)
    case HForward
    then have r': "r' = r\<lparr>rs_closed := insert a (rs_closed r), rs_handlers := (rs_handlers r)(a \<mapsto> HClosed)\<rparr>" using s Some by simp
    have "insert a (dom (rs_handlers r)) = dom (rs_handlers r)" using dom by blast
    then show ?thesis using inv dom unfolding serve_inv_def r' by (auto simp: reachable_by_teardown_def)
  next
    case HClosed
    then have r': "r' = r\<lparr>rs_live := ss_remove a (rs_live r), rs_handlers := (rs_handlers r)(a \<mapsto> HRemoved)\<rparr>" using s Some by simp
    have "insert a (dom (rs_handlers r)) = dom (rs_handlers r)" using dom by blast
    moreover have "a \<in> rs_closed r" using d(2) Some HClosed by simp
    ultimately show ?thesis using inv dom unfolding serve_inv_def r' by (auto simp: reachable_by_teardown_def ss_remove_def)
  next
    case HRemoved
    then have r': "r' = r\<lparr>rs_ended := Suc (rs_ended r), rs_handlers := (rs_handlers r)(a := None)\<rparr>" using s Some by simp
    have "Suc (card (dom (rs_handlers r) - {a})) = card (dom (rs_handlers r))"
      using dom d(10) by (rule card_Suc_Diff1 [rotated])
    moreover have "a \<in> rs_closed r" using d(3) Some HRemoved by simp
    ultimately show ?thesis using inv dom unfolding serve_inv_def r' by (auto simp: reachable_by_teardown_def)
  qed
qed (use s in simp)

lemma teardown_inv:
  assumes inv: "serve_inv r" and s: "serveRung_teardown ev r = Some r'"
  shows "serve_inv r'"
proof (cases ev)
  case CloseRung
  then have r': "rs_teardown r = TWait" "r' = r\<lparr>rs_teardown := TRungClosed\<rparr>" using s by (auto split: if_splits)
  show ?thesis using inv unfolding serve_inv_def r' by (auto simp: r' reachable_by_teardown_def)
next
  case TakeAll
  then have r': "rs_teardown r = TRungClosed" "r' = r\<lparr>rs_live := (rs_live r)\<lparr>ss_streams := {}, ss_closed := True\<rparr>, rs_teardown := TClosing (ss_streams (rs_live r))\<rparr>"
    using s by (auto simp: ss_closeAll_def split: if_splits)
  show ?thesis using inv unfolding serve_inv_def r' by (auto simp: r' reachable_by_teardown_def)
next
  case (CloseOne a)
  then obtain ss where t: "rs_teardown r = TClosing ss" "a \<in> ss" using s by (auto split: teardown_state.splits if_splits)
  then have r': "r' = r\<lparr>rs_closed := insert a (rs_closed r), rs_teardown := TClosing (ss - {a})\<rparr>" using s CloseOne by simp
  show ?thesis using inv t unfolding serve_inv_def r' by (auto simp: reachable_by_teardown_def)
next
  case AllClosed
  then have r': "rs_teardown r = TClosing {}" "r' = r\<lparr>rs_teardown := TDone\<rparr>" using s by (auto split: if_splits)
  show ?thesis using inv unfolding serve_inv_def r' by (auto simp: r' reachable_by_teardown_def)
qed

lemma serve_inv_step: "serve_step r r' \<Longrightarrow> serve_inv r \<Longrightarrow> serve_inv r'"
proof (induction rule: serve_step.induct)
  case (Cancel r)
  then show ?case by (simp add: serve_inv_def reachable_by_teardown_def)
next
  case (Shutdown r)
  then show ?case by (simp add: serve_inv_def reachable_by_teardown_def)
qed (auto intro: acceptRung_inv handler_next_inv teardown_inv)

lemma serve_inv_steps: "serve_step\<^sup>*\<^sup>* serve_start r \<Longrightarrow> serve_inv r"
  by (induction rule: rtranclp_induct) (auto intro: serve_inv_start serve_inv_step)

section \<open>Nothing escapes the teardown\<close>

text \<open>C17: tearing a rung down releases every forward on it. In every interleaving of accepts, handlers, shutdown
  and teardown: once the teardown goroutine is done every stream a handler still forwards has been closed, so
  no handler stays blocked in it, and no stream can be added any more; the session manager has been told of
  exactly the streams that have a handler, begun minus ended; and when the accept loop has returned and no
  handler is left, every stream ever accepted has been closed, served or refused.\<close>

theorem rung_teardown_releases:
  assumes "serve_step\<^sup>*\<^sup>* serve_start r"
  shows "(rs_teardown r = TDone \<longrightarrow> (\<forall>s. rs_handlers r s \<noteq> None \<longrightarrow> s \<in> rs_closed r) \<and> (\<forall>s. \<not> fst (ss_add s (rs_live r))))
    \<and> rs_begun r = rs_ended r + card (dom (rs_handlers r))
    \<and> (rs_accept r = AExited \<and> rs_handlers r = Map.empty \<longrightarrow> {..<rs_accepted r} \<subseteq> rs_closed r \<and> rs_begun r = rs_ended r)"
proof (intro conjI impI allI)
  note d = serve_invD [OF serve_inv_steps [OF assms]]
  show "rs_begun r = rs_ended r + card (dom (rs_handlers r))" by (rule d(11))
  show "\<not> fst (ss_add s (rs_live r))" if "rs_teardown r = TDone" for s using d(5) that by (simp add: ss_add_def)
  show "s \<in> rs_closed r" if t: "rs_teardown r = TDone" and h: "rs_handlers r s \<noteq> None" for s
  proof -
    have "reachable_by_teardown r = rs_closed r" using d(5,6) t by (auto simp: reachable_by_teardown_def)
    moreover obtain hs where "rs_handlers r s = Some hs" using h by blast
    ultimately show ?thesis using d(1-3) by (cases hs) auto
  qed
  show "{..<rs_accepted r} \<subseteq> rs_closed r" if "rs_accept r = AExited \<and> rs_handlers r = Map.empty"
    using d(7) that by fastforce
  show "rs_begun r = rs_ended r" if "rs_accept r = AExited \<and> rs_handlers r = Map.empty" using d(11) that by simp
qed

text \<open>A stream is being forwarded and another was just accepted when the rung is cancelled.\<close>

datatype serve_action = DoAccept accept_event | DoHandler nat | DoTeardown teardown_event | DoCancel

fun serve_act :: "serve_action \<Rightarrow> rung_serving \<Rightarrow> rung_serving option" where
  "serve_act (DoAccept ev) r = acceptRung ev r"
| "serve_act (DoHandler s) r = handler_next s r"
| "serve_act (DoTeardown ev) r = serveRung_teardown ev r"
| "serve_act DoCancel r = Some (r\<lparr>rs_cancelled := True\<rparr>)"

fun serve_run :: "serve_action list \<Rightarrow> rung_serving \<Rightarrow> rung_serving option" where
  "serve_run [] r = Some r"
| "serve_run (a # as) r = (case serve_act a r of None \<Rightarrow> None | Some r' \<Rightarrow> serve_run as r')"

lemma serve_act_step: "serve_act a r = Some r' \<Longrightarrow> serve_step r r'"
  by (cases a) (auto intro: serve_step.intros)

lemma serve_run_steps: "serve_run as r = Some r' \<Longrightarrow> serve_step\<^sup>*\<^sup>* r r'"
proof (induction "as" arbitrary: r)
  case (Cons a as)
  then obtain r1 where "serve_act a r = Some r1" "serve_run as r1 = Some r'" by (auto split: option.splits)
  then show ?case using Cons.IH serve_act_step by (blast intro: converse_rtranclp_into_rtranclp)
qed simp

definition torn_down :: rung_serving where
  "torn_down = the (serve_run [DoAccept Accepted, DoAccept AddStream, DoAccept BeginServing, DoAccept Accepted, DoCancel,
     DoTeardown CloseRung, DoTeardown TakeAll, DoAccept AddStream, DoTeardown (CloseOne 0), DoTeardown AllClosed,
     DoAccept CloseRefused] serve_start)"

theorem rung_teardown_releases_witness:
  "serve_step\<^sup>*\<^sup>* serve_start torn_down \<and> rs_teardown torn_down = TDone \<and> rs_handlers torn_down 0 = Some HForward
   \<and> 0 \<in> rs_closed torn_down \<and> rs_begun torn_down = Suc (rs_ended torn_down)"
proof -
  note ev = torn_down_def serve_start_def ss_add_def ss_closeAll_def
  have run: "serve_step\<^sup>*\<^sup>* serve_start torn_down"
    by (rule serve_run_steps [of "[DoAccept Accepted, DoAccept AddStream, DoAccept BeginServing, DoAccept Accepted, DoCancel,
     DoTeardown CloseRung, DoTeardown TakeAll, DoAccept AddStream, DoTeardown (CloseOne 0), DoTeardown AllClosed,
     DoAccept CloseRefused]"]) (simp add: ev)
  have t: "rs_teardown torn_down = TDone" "rs_handlers torn_down = [0 \<mapsto> HForward]" by (simp_all add: ev)
  show ?thesis using rung_teardown_releases [OF run] run t by simp
qed

end
