(* ===== verification/Teardown.thy ===== *)
theory Teardown
  imports Deadline Handover
begin

text \<open>
  The two teardowns on the connection they really run on. The theory \<open>Handover\<close> takes the substrate as
  whether it has a past deadline, \<open>Deadline\<close> models the wrapper that makes deadlines work on the punched
  connection; here QUIC's \<^verbatim>\<open>packetConn\<close> and WireGuard's \<^verbatim>\<open>Bind\<close> read through a \<open>deadlineConn\<close>. A call of the
  substrate's \<^verbatim>\<open>Read\<close> is the begin, the steps and the return of a read of the wrapper, and every
  \<^verbatim>\<open>SetReadDeadline\<close> of a teardown is the wrapper's.

  The locale \<open>deadline_client\<close> is what such a user does with the connection while a teardown waits; in it a
  reader is shown to leave the substrate after a bounded number of its own steps, none of which can
  block, whatever everything else does. Both users are instances.
\<close>

section \<open>A read under a past deadline\<close>

definition read_fired :: "deadlineConn \<Rightarrow> bool" where
  "read_fired c = dl_fired (dc_read c)"

text \<open>How far a read is from its return; \<open>None\<close> is a call that has not captured its expiry channel yet.\<close>

fun read_rank :: "read_state option \<Rightarrow> nat" where
  "read_rank None = 5"
| "read_rank (Some (RCheck n ch)) = 4"
| "read_rank (Some (RWait n ch)) = 3"
| "read_rank (Some (RDrain n)) = 2"
| "read_rank (Some (RConsume n p)) = 1"
| "read_rank (Some (RDone v)) = 0"

lemma read_rank_le: "read_rank x \<le> 5"
  by (cases x rule: read_rank.cases) simp_all

lemma put_reader_map [simp]: "map_of (dc_readers (put_reader r s c)) = (map_of (dc_readers c))(r \<mapsto> s)"
  by (simp add: put_reader_def update_conv')

lemma read_begin_map: "read_begin r n c = Some c' \<Longrightarrow> map_of (dc_readers c) r = None
    \<and> map_of (dc_readers c') = (map_of (dc_readers c))(r \<mapsto> RCheck n (dl_expired (dc_read c)))"
  by (auto simp: read_begin_def split: if_splits)

lemma read_return_map: "read_return r c = Some (v, c') \<Longrightarrow> map_of (dc_readers c) r = Some (RDone v)
    \<and> map_of (dc_readers c') = (map_of (dc_readers c))(r := None)"
  by (auto simp: read_return_def delete_conv' split: option.splits read_state.splits)

lemma read_step_rank: "read_step r e c = Some c' \<Longrightarrow>
    read_rank (map_of (dc_readers c') r) < read_rank (map_of (dc_readers c) r)"
  by (erule read_stepE) (auto simp: put_reader_def update_conv')

lemma read_step_other: "read_step r e c = Some c' \<Longrightarrow> r' \<noteq> r \<Longrightarrow> map_of (dc_readers c') r' = map_of (dc_readers c) r'"
  by (erule read_stepE) (auto simp: put_reader_def update_conv')

text \<open>A read drains only after the pump has stopped.\<close>

definition drain_inv :: "deadlineConn \<Rightarrow> bool" where
  "drain_inv c \<longleftrightarrow> (\<forall>r n. map_of (dc_readers c) r = Some (RDrain n) \<longrightarrow> dc_stopped c)"

lemma stopped_stays: "dc_step c c' \<Longrightarrow> dc_stopped c \<Longrightarrow> dc_stopped c'"
proof (induction rule: dc_step.induct)
  case (Pump e c c')
  then show ?case by (cases e) (auto simp: pump_exit_def split: if_splits pump_state.splits)
next
  case (Read r e c c')
  then show ?case by (elim read_stepE) (auto simp: put_reader_def)
next
  case (SetDl c d t)
  then show ?case using dl_ops_keep_data(1) [of c d t] by (simp add: same_data_def)
next
  case (Fires d c c')
  then show ?case using dl_ops_keep_data(3) by (simp add: same_data_def)
next
  case (Callback c cs d g cs')
  then show ?case using callback_keeps_data [of c d g "cs @ cs'"] by (simp add: same_data_def)
qed (auto simp: dc_stop_def read_begin_def put_reader_def read_return_def split: if_splits option.splits read_state.splits)

lemma drains_stopped:
  assumes "dc_step c c'" "map_of (dc_readers c') r = Some (RDrain n)"
  shows "map_of (dc_readers c) r = Some (RDrain n) \<or> dc_stopped c'"
  using assms
proof (induction rule: dc_step.induct)
  case (Pump e c c')
  then show ?case by (cases e) (auto simp: pump_exit_def split: if_splits pump_state.splits)
next
  case (Begin q m c c')
  then show ?case using read_begin_map [OF Begin.hyps] by (auto split: if_splits)
next
  case (Return q c v c')
  then show ?case using read_return_map [OF Return.hyps] by (auto split: if_splits)
next
  case (Read q e c c')
  then show ?case by (elim read_stepE) (auto simp: put_reader_def update_conv' split: if_splits)
next
  case (SetDl c d t)
  then show ?case using dl_ops_keep_data(1) [of c d t] by (simp add: same_data_def)
next
  case (Fires d c c')
  then show ?case using dl_ops_keep_data(3) by (simp add: same_data_def)
next
  case (Callback c cs d g cs')
  then show ?case using callback_keeps_data [of c d g "cs @ cs'"] by (simp add: same_data_def)
qed (simp_all add: dc_stop_def)

lemma drain_step: "dc_step c c' \<Longrightarrow> drain_inv c \<Longrightarrow> drain_inv c'"
  unfolding drain_inv_def using drains_stopped stopped_stays by blast

lemma dc_reachable_step: "dc_reachable c \<Longrightarrow> dc_step c c' \<Longrightarrow> dc_reachable c'"
  unfolding dc_reachable_def by (meson rtranclp.rtrancl_into_rtrancl)

lemma dc_reachable_drain: "dc_reachable c \<Longrightarrow> drain_inv c"
proof -
  assume "dc_reachable c"
  then obtain now where "dc_step\<^sup>*\<^sup>* (withDeadlines now) c" by (auto simp: dc_reachable_def)
  then show ?thesis
  proof (induction rule: rtranclp_induct)
    case base
    show ?case by (simp add: drain_inv_def withDeadlines_def)
  qed (rule drain_step)
qed

text \<open>Under a past read deadline no state of a read can block: a wait sees its expiry channel closed, a drain
  finds a datagram or the pump's error, and there is room for the buffer of a copy.\<close>

lemma read_not_blocked:
  assumes c: "dc_reachable c" "read_fired c" and s: "map_of (dc_readers c) r = Some s" "\<And>v. s \<noteq> RDone v"
  shows "\<exists>e c'. read_step r e c = Some c'"
proof -
  have i: "queue_inv c" "buffers_inv c" "chan_inv c" "drain_inv c"
    using dc_reachable_inv [OF c(1)] dc_reachable_drain [OF c(1)] by auto
  have closed: "ch \<in> dc_closed c" if "waits_on c ch" for ch
    using chan_read [OF i(3)] that c(2) by (auto simp: read_fired_def get_dl_def)
  show ?thesis
  proof (cases s)
    case (RCheck n ch)
    then show ?thesis using s by (intro exI [of _ Check]) simp
  next
    case (RWait n ch)
    then have "ch \<in> dc_closed c" using s closed unfolding waits_on_def by blast
    then show ?thesis using s RWait by (intro exI [of _ SeeExpired]) simp
  next
    case (RDrain n)
    then have "dc_stopped c" using s i(4) unfolding drain_inv_def by blast
    then have e: "dc_readErr c \<noteq> None" using i(1) by (simp add: queue_inv_def)
    show ?thesis
    proof (cases "dc_packets c")
      case Nil
      then show ?thesis using s RDrain e by (intro exI [of _ DrainEmpty]) auto
    next
      case (Cons p ps)
      then show ?thesis using s RDrain by (intro exI [of _ TakePacket]) (simp add: take_packet_def)
    qed
  next
    case (RConsume n p)
    then show ?thesis using s buffers_free [OF i(2)] by (intro exI [of _ Consume]) simp
  next
    case (RDone v)
    then show ?thesis using s(2) by blast
  qed
qed

text \<open>Everything else that happens to the connection while someone reads it: its pump, \<^verbatim>\<open>stop\<close>, the runtime's
  timers and their callbacks, the clock, and write deadlines.\<close>

datatype env_event = EPump pump_event | EStop | EFires dir | ECallback nat | ETick gtime | EWriteDl "gtime option"

fun env_act :: "env_event \<Rightarrow> deadlineConn \<Rightarrow> deadlineConn option" where
  "env_act (EPump e) c = pump_step e c"
| "env_act EStop c = Some (dc_stop c)"
| "env_act (EFires d) c = timer_fires d c"
| "env_act (ECallback i) c =
     (if i < length (dc_callbacks c)
      then Some (dc_expire (fst (dc_callbacks c ! i)) (snd (dc_callbacks c ! i))
             (c\<lparr>dc_callbacks := take i (dc_callbacks c) @ drop (Suc i) (dc_callbacks c)\<rparr>)) else None)"
| "env_act (ETick t) c = (if dc_now c \<le> t then Some (c\<lparr>dc_now := t\<rparr>) else None)"
| "env_act (EWriteDl t) c = Some (SetWriteDeadline t c)"

lemma env_act_step: "env_act e c = Some c' \<Longrightarrow> dc_step c c'"
proof (cases e)
  case (ECallback i)
  assume a: "env_act e c = Some c'"
  then have i: "i < length (dc_callbacks c)" using ECallback by (simp split: if_splits)
  show ?thesis using a ECallback dc_step.Callback [of c "take i (dc_callbacks c)" "fst (dc_callbacks c ! i)"
        "snd (dc_callbacks c ! i)" "drop (Suc i) (dc_callbacks c)"] id_take_nth_drop [OF i] i by simp
qed (auto simp: SetWriteDeadline_def intro: dc_step.intros split: if_splits)

lemma env_keeps_readers: "env_act e c = Some c' \<Longrightarrow> dc_readers c' = dc_readers c"
proof (cases e)
  case (EPump pe)
  assume "env_act e c = Some c'"
  then show ?thesis using EPump by (cases pe) (auto simp: pump_exit_def split: if_splits pump_state.splits)
next
  case (ECallback i)
  assume "env_act e c = Some c'"
  then show ?thesis using ECallback callback_keeps_data [of c] by (auto simp: same_data_def split: if_splits)
next
  case (EFires d)
  assume "env_act e c = Some c'"
  then show ?thesis using EFires dl_ops_keep_data(3) by (simp add: same_data_def)
next
  case (EWriteDl t)
  assume "env_act e c = Some c'"
  then show ?thesis using EWriteDl dl_ops_keep_data(1) [of c DWrite t] by (auto simp: same_data_def SetWriteDeadline_def)
qed (auto simp: dc_stop_def split: if_splits)

text \<open>An expired read deadline stays expired until someone sets another.\<close>

lemma read_fired_get: "read_fired c = dl_fired (get_dl DRead c)"
  by (simp add: read_fired_def get_dl_def)

lemma fired_same: "same_deadlines c c' \<Longrightarrow> read_fired c' = read_fired c"
  by (simp add: read_fired_def same_deadlines_def)

lemma env_keeps_fired: "env_act e c = Some c' \<Longrightarrow> read_fired c \<Longrightarrow> read_fired c'"
proof (cases e)
  case (EFires d)
  assume "env_act e c = Some c'" and f: "read_fired c"
  then have "timer_fires d c = Some c'" using EFires by simp
  then show ?thesis by (rule timer_fires_spec) (use f in \<open>simp add: read_fired_get\<close>)
next
  case (ECallback i)
  assume "env_act e c = Some c'" "read_fired c"
  then show ?thesis using ECallback by (auto simp: read_fired_get dc_expire_spec split: if_splits)
next
  case (EWriteDl t)
  assume "env_act e c = Some c'" "read_fired c"
  then show ?thesis using EWriteDl by (auto simp: read_fired_get SetWriteDeadline_def dc_set_spec)
next
  case (EPump pe)
  assume "env_act e c = Some c'" "read_fired c"
  then show ?thesis using EPump fired_same [OF data_ops_keep_deadlines(1) [of pe c c']] by simp
qed (auto simp: dc_stop_def read_fired_def split: if_splits)

lemma SetReadDeadline_past: "t \<le> dc_now c \<Longrightarrow> read_fired (SetReadDeadline (Some t) c)"
  by (simp add: read_fired_get SetReadDeadline_def dc_set_spec past_def)

lemma SetReadDeadline_readers [simp]: "dc_readers (SetReadDeadline t c) = dc_readers c"
  using dl_ops_keep_data(1) [of c DRead t] by (simp add: SetReadDeadline_def same_data_def)

lemma SetReadDeadline_step: "dc_step c (SetReadDeadline t c)"
  by (simp add: SetReadDeadline_def dc_step.SetDl)

section \<open>The contract of a user\<close>

text \<open>What a reader does inside the substrate's \<^verbatim>\<open>Read\<close>.\<close>

datatype read_action = ABegin nat | AStep read_event | AReturn

fun read_moves :: "nat \<Rightarrow> read_action \<Rightarrow> deadlineConn \<Rightarrow> deadlineConn option" where
  "read_moves r (ABegin n) c = read_begin r n c"
| "read_moves r (AStep e) c = read_step r e c"
| "read_moves r AReturn c = map_option snd (read_return r c)"

lemma read_moves_step: "read_moves r a c = Some c' \<Longrightarrow> dc_step c c'"
  by (cases a) (auto intro: dc_step.intros)

lemma read_moves_fired: "read_moves r a c = Some c' \<Longrightarrow> read_fired c' = read_fired c"
  by (cases a) (auto intro!: fired_same dest: data_ops_keep_deadlines(2-4))

lemma read_moves_other: "read_moves r a c = Some c' \<Longrightarrow> r' \<noteq> r \<Longrightarrow> map_of (dc_readers c') r' = map_of (dc_readers c) r'"
  by (cases a) (auto dest: read_begin_map read_step_other read_return_map)

lemma read_moves_enabled:
  assumes "dc_reachable c" "read_fired c" shows "\<exists>a. read_moves r a c \<noteq> None"
proof (cases "map_of (dc_readers c) r")
  case None
  then show ?thesis by (intro exI [of _ "ABegin 0"]) (simp add: read_begin_def)
next
  case (Some s)
  show ?thesis
  proof (cases "\<exists>v. s = RDone v")
    case True
    then show ?thesis using Some by (intro exI [of _ AReturn]) (auto simp: read_return_def)
  next
    case False
    then obtain e c' where "read_step r e c = Some c'" using read_not_blocked [OF assms Some] by blast
    then show ?thesis by (intro exI [of _ "AStep e"]) simp
  qed
qed

text \<open>A user of the connection in a teardown. \<open>inside s r\<close>: reader \<open>r\<close> is inside the substrate's \<^verbatim>\<open>Read\<close>;
  \<open>waiting s r\<close>: a teardown has put the deadline in the past and waits for \<open>r\<close>; \<open>rd r a\<close> is the action
  \<open>a\<close> of that reader in the user's system.\<close>

locale deadline_client =
  fixes act :: "'l \<Rightarrow> 's \<Rightarrow> 's option"
    and conn :: "'s \<Rightarrow> deadlineConn"
    and ok :: "'s \<Rightarrow> bool"
    and waiting :: "nat \<Rightarrow> 's \<Rightarrow> bool"
    and inside :: "nat \<Rightarrow> 's \<Rightarrow> bool"
    and rd :: "nat \<Rightarrow> read_action \<Rightarrow> 'l"
    and own :: "nat \<Rightarrow> 'l \<Rightarrow> bool"
  assumes ok_act: "ok s \<Longrightarrow> act l s = Some s' \<Longrightarrow> ok s'"
    and own_iff: "own r l \<longleftrightarrow> (\<exists>a. l = rd r a)"
    and conn_ok: "ok s \<Longrightarrow> dc_reachable (conn s)"
    and waiting_fired: "ok s \<Longrightarrow> waiting r s \<Longrightarrow> read_fired (conn s)"
    and stays_out: "ok s \<Longrightarrow> waiting r s \<Longrightarrow> act l s = Some s' \<Longrightarrow> inside r s' \<Longrightarrow> inside r s"
    and own_inside: "ok s \<Longrightarrow> act (rd r a) s = Some s' \<Longrightarrow> inside r s \<and> read_moves r a (conn s) = Some (conn s')"
    and own_enabled: "ok s \<Longrightarrow> inside r s \<Longrightarrow> read_moves r a (conn s) \<noteq> None \<Longrightarrow> act (rd r a) s \<noteq> None"
    and return_leaves: "ok s \<Longrightarrow> act (rd r AReturn) s = Some s' \<Longrightarrow> \<not> inside r s'"
    and others: "ok s \<Longrightarrow> act l s = Some s' \<Longrightarrow> \<not> own r l \<Longrightarrow>
      map_of (dc_readers (conn s')) r = map_of (dc_readers (conn s)) r"
begin

definition distance :: "nat \<Rightarrow> 's \<Rightarrow> nat" where
  "distance r s = (if inside r s then Suc (read_rank (map_of (dc_readers (conn s)) r)) else 0)"

lemma distance_le: "distance r s \<le> 6"
  using read_rank_le by (simp add: distance_def)

lemma own_closer:
  assumes "ok s" "act (rd r a) s = Some s'" shows "distance r s' < distance r s"
proof (cases a)
  case AReturn
  then show ?thesis using own_inside [OF assms] return_leaves assms by (simp add: distance_def)
next
  case (ABegin n)
  then show ?thesis using own_inside [OF assms] by (auto simp: distance_def dest: read_begin_map)
next
  case (AStep e)
  then show ?thesis using own_inside [OF assms] by (auto simp: distance_def dest: read_step_rank)
qed

lemma others_no_farther:
  assumes "ok s" "waiting r s" "act l s = Some s'" "\<not> own r l" shows "distance r s' \<le> distance r s"
  using others [OF assms(1,3,4)] stays_out [OF assms(1-3)] by (simp add: distance_def)

lemma own_actions_bounded:
  "ok s \<Longrightarrow> run_while act (waiting r) ls s = Some s' \<Longrightarrow> length (filter (own r) ls) + distance r s' \<le> distance r s"
proof (induction ls arbitrary: s)
  case (Cons l ls)
  then obtain t where t: "waiting r s" "act l s = Some t" "run_while act (waiting r) ls t = Some s'"
    by (auto split: if_splits option.splits)
  have "length (filter (own r) ls) + distance r s' \<le> distance r t"
    using Cons.IH ok_act [OF Cons.prems(1) t(2)] t(3) by blast
  moreover have "distance r t < distance r s" if "own r l"
    using own_closer [OF Cons.prems(1)] t(2) that by (auto simp: own_iff)
  ultimately show ?case using others_no_farther [OF Cons.prems(1) t(1,2)] by (cases "own r l") fastforce+
qed (auto split: if_splits)

lemma inside_not_blocked:
  assumes "ok s" "waiting r s" "inside r s" shows "\<exists>l. own r l \<and> act l s \<noteq> None"
  using read_moves_enabled [OF conn_ok [OF assms(1)] waiting_fired [OF assms(1,2)]] own_enabled [OF assms(1,3)] own_iff by blast

lemma run_ok: "ok s \<Longrightarrow> run_while act P ls s = Some s' \<Longrightarrow> ok s' \<and> P s'"
  by (induction ls arbitrary: s) (auto split: if_splits option.splits dest: ok_act)

text \<open>A reader the teardown waits for leaves the substrate by its own steps alone: at most six of them, none
  of which waits for traffic.\<close>

lemma reader_leaves:
  assumes "ok s" "run_while act (waiting r) ls s = Some s'"
  shows "length (filter (own r) ls) \<le> 6 \<and> (inside r s' \<longrightarrow> (\<exists>l. own r l \<and> act l s' \<noteq> None))"
  using own_actions_bounded [OF assms] distance_le [of r s] run_ok [OF assms] inside_not_blocked by fastforce

end

section \<open>QUIC's packet connection over the wrapper\<close>

record pc_sys =
  ps_pc :: packetConn
  ps_conn :: deadlineConn

definition pc_over :: "gtime \<Rightarrow> pc_sys" where
  "pc_over now = \<lparr>ps_pc = newPacketConn fresh_substrate, ps_conn = withDeadlines now\<rparr>"

text \<open>\<open>PNow t\<close> is the detach's \<^verbatim>\<open>SetReadDeadline(time.Now())\<close>, the clock read being \<open>t\<close>; \<open>PDeadline t\<close> one that quic-go
  asks for before the detach.\<close>

datatype pc_label = PFrom nat from_event | PRead nat read_action | PDeadline "gtime option" | PNow gtime
  | PDetach detach_event | PEnv env_event

definition set_pc :: "pc_sys \<Rightarrow> packetConn \<Rightarrow> pc_sys" where
  "set_pc s p = s\<lparr>ps_pc := p\<rparr>"

definition pc_read_return :: "nat \<Rightarrow> pc_sys \<Rightarrow> pc_sys option" where
  "pc_read_return r s =
     (case read_return r (ps_conn s) of
        None \<Rightarrow> None
      | Some (v, c) \<Rightarrow> map_option (\<lambda>p. \<lparr>ps_pc = p, ps_conn = c\<rparr>)
          (ReadFrom r (case v of Inl e \<Rightarrow> FFail | Inr d \<Rightarrow> FData) (ps_pc s)))"

fun pc_sys_act :: "pc_label \<Rightarrow> pc_sys \<Rightarrow> pc_sys option" where
  "pc_sys_act (PFrom r ev) s = (if ev \<in> {FData, FFail} then None else map_option (set_pc s) (ReadFrom r ev (ps_pc s)))"
| "pc_sys_act (PRead r a) s =
     (if pc_reads (ps_pc s) r \<noteq> Some FRead then None
      else if a = AReturn then pc_read_return r s
      else map_option (\<lambda>c. s\<lparr>ps_conn := c\<rparr>) (read_moves r a (ps_conn s)))"
| "pc_sys_act (PDeadline t) s =
     (if pc_detach (ps_pc s) = DNone
      then Some \<lparr>ps_pc = pc_SetReadDeadline (past t (ps_conn s)) (ps_pc s), ps_conn = SetReadDeadline t (ps_conn s)\<rparr> else None)"
| "pc_sys_act (PNow t) s =
     (if t \<le> dc_now (ps_conn s)
      then map_option (\<lambda>p. \<lparr>ps_pc = p, ps_conn = SetReadDeadline (Some t) (ps_conn s)\<rparr>) (detach DDeadline (ps_pc s)) else None)"
| "pc_sys_act (PDetach ev) s =
     (if ev = DDeadline then None
      else map_option (\<lambda>p. \<lparr>ps_pc = p, ps_conn = if ev = DClear then SetReadDeadline None (ps_conn s) else ps_conn s\<rparr>)
             (detach ev (ps_pc s)))"
| "pc_sys_act (PEnv e) s = map_option (\<lambda>c. s\<lparr>ps_conn := c\<rparr>) (env_act e (ps_conn s))"

fun pc_own :: "nat \<Rightarrow> pc_label \<Rightarrow> bool" where
  "pc_own r (PRead r' a) = (r' = r)"
| "pc_own r _ = False"

definition pc_waiting :: "pc_sys \<Rightarrow> bool" where
  "pc_waiting s = (pc_detach (ps_pc s) = DWaiting)"

definition pc_inside :: "nat \<Rightarrow> pc_sys \<Rightarrow> bool" where
  "pc_inside r s = (pc_reads (ps_pc s) r = Some FRead)"

definition pc_sys_ok :: "pc_sys \<Rightarrow> bool" where
  "pc_sys_ok s \<longleftrightarrow> pc_inv (ps_pc s) \<and> dc_reachable (ps_conn s)
     \<and> (pc_detach (ps_pc s) \<in> {DWaiting, DHolding} \<longrightarrow> read_fired (ps_conn s))"

text \<open>Every step of the whole is a step of the packet connection or leaves it alone, and one of the wrapper or
  leaves that alone.\<close>

lemma pc_read_returnE:
  assumes "pc_read_return r s = Some s'"
  obtains ev v where "ReadFrom r ev (ps_pc s) = Some (ps_pc s')" "ev = FFail \<or> ev = FData"
    "read_return r (ps_conn s) = Some (v, ps_conn s')" "pc_reads (ps_pc s') r \<noteq> Some FRead"
proof -
  obtain v c p where v: "read_return r (ps_conn s) = Some (v, c)" and s': "s' = \<lparr>ps_pc = p, ps_conn = c\<rparr>"
    and p: "ReadFrom r (case v of Inl e \<Rightarrow> FFail | Inr d \<Rightarrow> FData) (ps_pc s) = Some p"
    using assms by (auto simp: pc_read_return_def split: option.splits)
  have "pc_reads p r \<noteq> Some FRead" using p by (cases v) (auto split: if_splits)
  with v s' p show ?thesis by (intro that [of "case v of Inl e \<Rightarrow> FFail | Inr d \<Rightarrow> FData" v]) (auto split: sum.splits)
qed

lemma pc_sys_projects:
  assumes "pc_sys_act l s = Some s'"
  shows "(pc_step (ps_pc s) (ps_pc s') \<or> ps_pc s' = ps_pc s) \<and> (dc_step (ps_conn s) (ps_conn s') \<or> ps_conn s' = ps_conn s)"
proof (cases l)
  case (PRead r a)
  show ?thesis
  proof (cases "a = AReturn")
    case True
    then have "pc_read_return r s = Some s'" using assms PRead by (simp split: if_splits)
    then show ?thesis by (rule pc_read_returnE) (auto intro: pc_step.From dc_step.Return)
  next
    case False
    then show ?thesis using assms PRead by (auto simp del: read_moves.simps split: if_splits dest: read_moves_step)
  qed
qed (use assms in \<open>auto simp: set_pc_def SetReadDeadline_step simp del: ReadFrom.simps detach.simps
    intro: pc_step.intros env_act_step split: if_splits\<close>)

lemma pc_sys_fired:
  assumes "pc_sys_act l s = Some s'" "pc_detach (ps_pc s) \<in> {DWaiting, DHolding} \<longrightarrow> read_fired (ps_conn s)"
    "pc_detach (ps_pc s') \<in> {DWaiting, DHolding}"
  shows "read_fired (ps_conn s')"
proof (cases l)
  case (PRead r a)
  show ?thesis
  proof (cases "a = AReturn")
    case True
    then have "pc_read_return r s = Some s'" using assms(1) PRead by (simp split: if_splits)
    then obtain ev v where f: "ReadFrom r ev (ps_pc s) = Some (ps_pc s')" and c: "read_return r (ps_conn s) = Some (v, ps_conn s')"
      by (rule pc_read_returnE)
    have "pc_detach (ps_pc s') = pc_detach (ps_pc s)" using ReadFrom_keeps [OF f] by blast
    then show ?thesis using assms(2,3) fired_same [OF data_ops_keep_deadlines(4) [OF c]] by auto
  next
    case False
    then show ?thesis using assms PRead by (auto simp del: read_moves.simps split: if_splits dest: read_moves_fired)
  qed
next
  case (PFrom r ev)
  then show ?thesis using assms by (auto simp: set_pc_def split: if_splits dest: ReadFrom_keeps)
next
  case (PNow t)
  then show ?thesis using assms by (auto simp: SetReadDeadline_past split: if_splits)
next
  case (PDetach ev)
  then show ?thesis using assms by (cases ev) (auto split: if_splits)
next
  case (PEnv e)
  then show ?thesis using assms by (auto intro: env_keeps_fired)
qed (use assms in \<open>auto simp: pc_SetReadDeadline_def split: if_splits\<close>)

lemma pc_sys_ok_act: "pc_sys_ok s \<Longrightarrow> pc_sys_act l s = Some s' \<Longrightarrow> pc_sys_ok s'"
  unfolding pc_sys_ok_def using pc_sys_projects pc_sys_fired pc_inv_step dc_reachable_step by metis

lemma pc_over_ok: "pc_sys_ok (pc_over now)"
proof -
  have "pc_detach (newPacketConn fresh_substrate) = DNone" by (simp add: newPacketConn_def)
  then show ?thesis by (auto simp: pc_sys_ok_def pc_over_def pc_inv_start dc_reachable_def)
qed

lemma pc_closed_waiting: "pc_sys_ok s \<Longrightarrow> pc_waiting s \<Longrightarrow> pc_closed (ps_pc s)"
  by (simp add: pc_sys_ok_def pc_waiting_def pc_inv_def)

lemma pc_stays_out:
  assumes "pc_sys_ok s" "pc_waiting s" "pc_sys_act l s = Some s'" "pc_inside r s'" shows "pc_inside r s"
proof -
  note c = pc_closed_waiting [OF assms(1,2)]
  show ?thesis
  proof (cases l)
    case (PRead q a)
    show ?thesis
    proof (cases "a = AReturn")
      case True
      then have "pc_read_return q s = Some s'" using assms(3) PRead by (simp split: if_splits)
      then show ?thesis using assms(4) c by (auto elim!: pc_read_returnE simp: pc_inside_def dest: ReadFrom_starts_none)
    next
      case False
      then show ?thesis using assms PRead by (auto simp: pc_inside_def simp del: read_moves.simps split: if_splits)
    qed
  next
    case (PFrom q ev)
    then show ?thesis using assms c by (auto simp: set_pc_def pc_inside_def split: if_splits dest: ReadFrom_starts_none)
  next
    case (PDetach ev)
    then show ?thesis using assms by (cases ev) (auto simp: pc_inside_def split: if_splits)
  qed (use assms in \<open>auto simp: pc_inside_def pc_waiting_def split: if_splits\<close>)
qed

interpretation quic_over: deadline_client pc_sys_act ps_conn pc_sys_ok "\<lambda>_. pc_waiting" pc_inside PRead pc_own
proof
  show "pc_sys_ok s'" if "pc_sys_ok s" "pc_sys_act l s = Some s'" for s l s'
    using that by (rule pc_sys_ok_act)
  show "pc_own r l \<longleftrightarrow> (\<exists>a. l = PRead r a)" for r l by (cases l) auto
  show "dc_reachable (ps_conn s)" if "pc_sys_ok s" for s using that by (simp add: pc_sys_ok_def)
  show "read_fired (ps_conn s)" if "pc_sys_ok s" "pc_waiting s" for s
    using that by (simp add: pc_sys_ok_def pc_waiting_def)
  show "pc_inside r s" if "pc_sys_ok s" "pc_waiting s" "pc_sys_act l s = Some s'" "pc_inside r s'" for s r l s'
    using that by (rule pc_stays_out)
  show "pc_inside r s \<and> read_moves r a (ps_conn s) = Some (ps_conn s')" if "pc_sys_act (PRead r a) s = Some s'" for s r a s'
    using that by (cases a) (auto simp: pc_inside_def elim: pc_read_returnE split: if_splits)
  show "pc_sys_act (PRead r a) s \<noteq> None" if "pc_inside r s" "read_moves r a (ps_conn s) \<noteq> None" for s r a
    using that by (cases a) (auto simp: pc_inside_def pc_read_return_def split: sum.splits)
  show "\<not> pc_inside r s'" if "pc_sys_act (PRead r AReturn) s = Some s'" for s r s'
    using that by (auto simp: pc_inside_def elim: pc_read_returnE split: if_splits)
  show "map_of (dc_readers (ps_conn s')) r = map_of (dc_readers (ps_conn s)) r"
    if "pc_sys_act l s = Some s'" "\<not> pc_own r l" for s l s' r
  proof (cases l)
    case (PRead q a)
    then have "read_moves q a (ps_conn s) = Some (ps_conn s')" "q \<noteq> r"
      using that by (cases a; auto elim: pc_read_returnE split: if_splits)+
    then show ?thesis by (simp add: read_moves_other)
  next
    case (PEnv e)
    then show ?thesis using that by (auto dest: env_keeps_readers)
  qed (use that in \<open>auto simp: set_pc_def split: if_splits\<close>)
qed

text \<open>A waiting detach needs nobody else. Once the reader is out of the substrate, the token holder's own next
  step and the detach's three finish it.\<close>

fun pc_quiet :: "pc_label \<Rightarrow> bool" where
  "pc_quiet (PRead r a) = True"
| "pc_quiet (PFrom r ev) = (ev = FCheck \<or> ev = FCheckErr)"
| "pc_quiet (PDetach ev) = (ev \<in> {DToken, DClear, DBack})"
| "pc_quiet _ = False"

lemma pc_finish:
  assumes "pc_waiting s" "pc_token (ps_pc s)"
  shows "\<exists>s'. run_acts pc_sys_act [PDetach DToken, PDetach DClear, PDetach DBack] s = Some s'
    \<and> pc_closeErr (ps_pc s') = Some False \<and> \<not> read_fired (ps_conn s')"
  using assms by (simp add: pc_waiting_def pc_closeErr_def read_fired_get SetReadDeadline_def dc_set_spec past_def)

lemma pc_finish_outside:
  assumes ok: "pc_sys_ok s" and w: "pc_waiting s" and out: "\<And>r. \<not> pc_inside r s"
  shows "\<exists>xs s'. length xs \<le> 4 \<and> list_all pc_quiet xs \<and> run_acts pc_sys_act xs s = Some s'
    \<and> pc_closeErr (ps_pc s') = Some False \<and> \<not> read_fired (ps_conn s')"
proof -
  let ?p = "ps_pc s" and ?fin = "[PDetach DToken, PDetach DClear, PDetach DBack]"
  have c: "pc_closed ?p" by (rule pc_closed_waiting [OF ok w])
  have finish: "?thesis" if "q = FCheck \<or> q = FCheckErr" "pc_sys_act (PFrom r q) s = Some s1" "pc_waiting s1" "pc_token (ps_pc s1)" for r q s1
    using run_acts_Cons [where f = pc_sys_act, OF that(2)] pc_finish [OF that(3,4)] that(1)
    by (intro exI [of _ "PFrom r q # ?fin"]) auto
  consider "pc_token ?p" | r where "pc_reads ?p r = Some FTop" | r where "pc_reads ?p r = Some FErr"
    using ok w out by (auto simp: pc_sys_ok_def pc_waiting_def pc_inside_def pc_inv_def token_inv_def detach_holds_def from_holds_def)
  then show ?thesis
  proof cases
    case 1
    then show ?thesis using pc_finish [OF w] by (intro exI [of _ ?fin]) auto
  next
    case (2 r)
    then show ?thesis using finish [of FCheck r] c w by (simp add: set_pc_def pc_waiting_def)
  next
    case (3 r)
    then show ?thesis using finish [of FCheckErr r] c w by (simp add: set_pc_def pc_waiting_def)
  qed
qed

lemma pc_own_waits: "pc_sys_act (PRead r a) s = Some s' \<Longrightarrow> pc_waiting s \<Longrightarrow> pc_waiting s'"
  by (cases "a = AReturn")
    (auto simp: pc_waiting_def simp del: read_moves.simps ReadFrom.simps dest: ReadFrom_keeps elim!: pc_read_returnE split: if_splits)

lemma pc_one_inside: "pc_sys_ok s \<Longrightarrow> pc_inside r s \<Longrightarrow> pc_inside r' s \<Longrightarrow> r' = r"
  using from_holds_simps(2) unfolding pc_sys_ok_def pc_inv_def token_inv_def pc_inside_def by metis

lemma pc_finish_inside:
  assumes "pc_sys_ok s" "pc_waiting s" "pc_inside r s"
  shows "\<exists>xs s'. length xs \<le> quic_over.distance r s + 4 \<and> list_all pc_quiet xs \<and> run_acts pc_sys_act xs s = Some s'
    \<and> pc_closeErr (ps_pc s') = Some False \<and> \<not> read_fired (ps_conn s')"
  using assms
proof (induction "quic_over.distance r s" arbitrary: s rule: less_induct)
  case less
  then obtain a s1 where a: "pc_sys_act (PRead r a) s = Some s1"
    using quic_over.inside_not_blocked [OF less.prems] by (auto simp: quic_over.own_iff)
  have s1: "pc_sys_ok s1" "pc_waiting s1" using a less.prems pc_sys_ok_act pc_own_waits by blast+
  have d: "quic_over.distance r s1 < quic_over.distance r s" by (rule quic_over.own_closer [OF less.prems(1) a])
  have "\<exists>xs s'. length xs \<le> quic_over.distance r s1 + 4 \<and> list_all pc_quiet xs \<and> run_acts pc_sys_act xs s1 = Some s'
    \<and> pc_closeErr (ps_pc s') = Some False \<and> \<not> read_fired (ps_conn s')"
  proof (cases "pc_inside r s1")
    case True
    then show ?thesis using less.hyps [OF d s1] by blast
  next
    case False
    then have "\<not> pc_inside r' s1" for r'
      using pc_stays_out [OF less.prems(1,2) a] pc_one_inside [OF less.prems(1,3)] by blast
    then show ?thesis using pc_finish_outside [OF s1] by (meson trans_le_add2)
  qed
  then obtain xs s' where "length xs \<le> quic_over.distance r s1 + 4" "list_all pc_quiet xs"
    "run_acts pc_sys_act xs s1 = Some s'" "pc_closeErr (ps_pc s') = Some False" "\<not> read_fired (ps_conn s')" by blast
  then show ?case using d run_acts_Cons [where f = pc_sys_act, OF a] by (intro exI [of _ "PRead r a # xs"] exI [of _ s']) auto
qed

text \<open>C8: QUIC's teardown over the wrapper that makes deadlines work. In every reachable state in which the
  detach waits, and in whatever way the run then continues while it waits, a reader spends at most six of its own
  steps inside the substrate's \<^verbatim>\<open>Read\<close>; one that is inside always has such a step, traffic or not; and at
  every moment at most ten steps of the reader and the detach alone complete the detach with nil, the
  deadline no longer expired. Only a starved goroutine can run into the grace period.\<close>

theorem packetConn_close_needs_no_traffic:
  assumes "run_acts pc_sys_act ls0 (pc_over now) = Some s0" "run_while pc_sys_act pc_waiting ls s0 = Some s"
  shows "length (filter (pc_own r) ls) \<le> 6
    \<and> (pc_inside r s \<longrightarrow> (\<exists>a. pc_sys_act (PRead r a) s \<noteq> None))
    \<and> (\<exists>xs s'. length xs \<le> 10 \<and> list_all pc_quiet xs \<and> run_acts pc_sys_act xs s = Some s'
         \<and> pc_closeErr (ps_pc s') = Some False \<and> \<not> read_fired (ps_conn s'))"
proof (intro conjI)
  have ok0: "pc_sys_ok s0"
    by (rule run_acts_inv [where f = pc_sys_act and ok = pc_sys_ok, OF pc_sys_ok_act assms(1) pc_over_ok])
  note leaves = quic_over.reader_leaves [OF ok0 assms(2)]
  show "length (filter (pc_own r) ls) \<le> 6" using leaves by blast
  show "pc_inside r s \<longrightarrow> (\<exists>a. pc_sys_act (PRead r a) s \<noteq> None)" using leaves quic_over.own_iff by metis
  have s: "pc_sys_ok s" "pc_waiting s" using quic_over.run_ok [OF ok0 assms(2)] by blast+
  show "\<exists>xs s'. length xs \<le> 10 \<and> list_all pc_quiet xs \<and> run_acts pc_sys_act xs s = Some s'
      \<and> pc_closeErr (ps_pc s') = Some False \<and> \<not> read_fired (ps_conn s')"
  proof (cases "\<exists>q. pc_inside q s")
    case True
    then obtain q where q: "pc_inside q s" by blast
    have "quic_over.distance q s + 4 \<le> 10" using quic_over.distance_le [of q s] by simp
    then show ?thesis using pc_finish_inside [OF s q] by (meson le_trans)
  next
    case False
    then show ?thesis using pc_finish_outside [OF s] by fastforce
  qed
qed

section \<open>WireGuard's bind over the wrapper\<close>

text \<open>The device holds its own lock over every \<^verbatim>\<open>Open\<close> and every \<^verbatim>\<open>Close\<close> of its bind, so one of them runs at a time:
  \<open>bs_closer\<close> is the closer that holds it. The wrapper's \<^verbatim>\<open>SetReadDeadline\<close> never fails. Opening \<open>e\<close> reads as
  reader \<open>e\<close>.\<close>

record bind_sys =
  bs_bind :: Bind
  bs_conn :: deadlineConn
  bs_closer :: "nat option"

definition bind_over :: "gtime \<Rightarrow> bind_sys" where
  "bind_over now = \<lparr>bs_bind = NewBind fresh_substrate, bs_conn = withDeadlines now, bs_closer = None\<rparr>"

datatype bind_label = BOpen u16 | BRecv nat recv_event | BRead nat read_action | BNow nat gtime | BClose nat close_event
  | BEnv env_event

fun recv_of :: "read_error + byte list \<Rightarrow> recv_event" where
  "recv_of (Inl ErrDeadlineExceeded) = RFail True False"
| "recv_of (Inl (ReaderErr e)) = RFail False (e = ErrClosed)"
| "recv_of (Inr d) = RData"

definition bind_read_return :: "nat \<Rightarrow> bind_sys \<Rightarrow> bind_sys option" where
  "bind_read_return e s =
     (case read_return e (bs_conn s) of
        None \<Rightarrow> None
      | Some (v, c) \<Rightarrow> map_option (\<lambda>b. s\<lparr>bs_bind := b, bs_conn := c\<rparr>) (bind_act (ARecv e (recv_of v)) (bs_bind s)))"

definition set_bind :: "bind_sys \<Rightarrow> Bind \<Rightarrow> bind_sys" where
  "set_bind s b = s\<lparr>bs_bind := b\<rparr>"

definition bind_inside :: "nat \<Rightarrow> bind_sys \<Rightarrow> bool" where
  "bind_inside e s \<longleftrightarrow> e < length (b_openings (bs_bind s)) \<and> op_recv (b_openings (bs_bind s) ! e) = RvRead"

fun in_substrate_event :: "recv_event \<Rightarrow> bool" where
  "in_substrate_event RData = True"
| "in_substrate_event (RFail timeout closed) = True"
| "in_substrate_event _ = False"

fun bind_sys_act :: "bind_label \<Rightarrow> bind_sys \<Rightarrow> bind_sys option" where
  "bind_sys_act (BOpen port) s =
     (if bs_closer s = None then map_option (set_bind s) (bind_act (AOpen port) (bs_bind s)) else None)"
| "bind_sys_act (BRecv e ev) s =
     (if in_substrate_event ev then None else map_option (set_bind s) (bind_act (ARecv e ev) (bs_bind s)))"
| "bind_sys_act (BRead e a) s =
     (if \<not> bind_inside e s then None
      else if a = AReturn then bind_read_return e s
      else map_option (\<lambda>c. s\<lparr>bs_conn := c\<rparr>) (read_moves e a (bs_conn s)))"
| "bind_sys_act (BNow k t) s =
     (if t \<le> dc_now (bs_conn s)
      then map_option (\<lambda>b. s\<lparr>bs_bind := b, bs_conn := SetReadDeadline (Some t) (bs_conn s)\<rparr>)
             (bind_act (AClose k (CDeadline False)) (bs_bind s)) else None)"
| "bind_sys_act (BClose k ev) s =
     (case ev of
        CBegin \<Rightarrow>
          if bs_closer s = None
          then map_option (\<lambda>b. s\<lparr>bs_bind := b, bs_closer := if b_closing b k = None then None else Some k\<rparr>)
                 (bind_act (AClose k CBegin) (bs_bind s))
          else None
      | CDeadline refused \<Rightarrow> None
      | CCleared \<Rightarrow>
          map_option (\<lambda>b. s\<lparr>bs_bind := b, bs_conn := SetReadDeadline None (bs_conn s), bs_closer := None\<rparr>)
            (bind_act (AClose k CCleared) (bs_bind s))
      | CSubClose \<Rightarrow> map_option (\<lambda>b. s\<lparr>bs_bind := b, bs_closer := None\<rparr>) (bind_act (AClose k CSubClose) (bs_bind s))
      | ev \<Rightarrow> map_option (set_bind s) (bind_act (AClose k ev) (bs_bind s)))"
| "bind_sys_act (BEnv e) s = map_option (\<lambda>c. s\<lparr>bs_conn := c\<rparr>) (env_act e (bs_conn s))"

fun bind_own :: "nat \<Rightarrow> bind_label \<Rightarrow> bool" where
  "bind_own e (BRead e' a) = (e' = e)"
| "bind_own e _ = False"

definition bind_waiting :: "nat \<Rightarrow> nat \<Rightarrow> bind_sys \<Rightarrow> bool" where
  "bind_waiting k e s = (b_closing (bs_bind s) k = Some (CWait e))"

text \<open>The closer between its first and its last step is the one that holds the device's lock.\<close>

fun closing_now :: "close_state \<Rightarrow> bool" where
  "closing_now (CReturned e) = False"
| "closing_now (CAbandoned e) = False"
| "closing_now _ = True"

fun keeps_past :: "close_state \<Rightarrow> bool" where
  "keeps_past (CWait e) = True"
| "keeps_past (CClear e) = True"
| "keeps_past _ = False"

definition bind_sys_ok :: "bind_sys \<Rightarrow> bool" where
  "bind_sys_ok s \<longleftrightarrow> bind_inv (bs_bind s) \<and> dc_reachable (bs_conn s)
     \<and> (\<forall>k c. b_closing (bs_bind s) k = Some c \<longrightarrow> closing_now c \<longrightarrow> bs_closer s = Some k)
     \<and> (\<forall>k c. b_closing (bs_bind s) k = Some c \<longrightarrow> keeps_past c \<longrightarrow> read_fired (bs_conn s))"

lemma bind_over_ok: "bind_sys_ok (bind_over now)"
proof -
  have "b_closing (NewBind fresh_substrate) = Map.empty" by (simp add: NewBind_def)
  then show ?thesis by (auto simp: bind_sys_ok_def bind_over_def bind_inv_start dc_reachable_def)
qed

lemma keeps_past_closing: "keeps_past c \<Longrightarrow> closing_now c"
  by (cases c) simp_all

text \<open>What the steps of the whole are for the two parts.\<close>

lemma bind_read_returnE:
  assumes "bind_read_return e s = Some s'"
  obtains ev v b where "bind_act (ARecv e ev) (bs_bind s) = Some b" "in_substrate_event ev"
    "read_return e (bs_conn s) = Some (v, bs_conn s')" "bs_bind s' = b" "bs_closer s' = bs_closer s"
proof -
  obtain v c b where v: "read_return e (bs_conn s) = Some (v, c)" and s': "s' = s\<lparr>bs_bind := b, bs_conn := c\<rparr>"
    and b: "bind_act (ARecv e (recv_of v)) (bs_bind s) = Some b"
    using assms by (auto simp: bind_read_return_def simp del: bind_act.simps split: option.splits)
  have "in_substrate_event (recv_of v)" by (cases v rule: recv_of.cases) simp_all
  with v s' b show ?thesis by (intro that [of "recv_of v" b v]) auto
qed

lemma bind_sys_projects:
  assumes "bind_sys_act l s = Some s'"
  shows "((\<exists>a. bind_act a (bs_bind s) = Some (bs_bind s')) \<or> bs_bind s' = bs_bind s)
    \<and> (dc_step (bs_conn s) (bs_conn s') \<or> bs_conn s' = bs_conn s)"
proof (cases l)
  case (BRead e a)
  show ?thesis
  proof (cases "a = AReturn")
    case True
    then have "bind_read_return e s = Some s'" using assms BRead by (simp split: if_splits)
    then show ?thesis by (rule bind_read_returnE) (use dc_step.Return in blast)
  next
    case False
    then show ?thesis using assms BRead by (auto simp del: read_moves.simps split: if_splits dest: read_moves_step)
  qed
next
  case (BClose k ev)
  then show ?thesis using assms
    by (cases ev) (auto simp: set_bind_def SetReadDeadline_step simp del: bind_act.simps split: if_splits)
next
  case (BEnv e)
  then show ?thesis using assms by (auto intro: env_act_step)
qed (use assms in \<open>auto simp: set_bind_def SetReadDeadline_step simp del: bind_act.simps split: if_splits\<close>)

lemma ARecv_closing: "bind_act (ARecv e ev) b = Some b' \<Longrightarrow> b_closing b' = b_closing b \<and> b_open b' = b_open b"
  by (auto simp: upd_opening_def split: if_splits)

lemma AOpen_closing: "bind_act (AOpen port) b = Some b' \<Longrightarrow> b_closing b' = b_closing b"
  by (auto simp: bind_Open_def split: option.splits)

text \<open>The closer's part of the invariant, alone.\<close>

definition lock_inv :: "(nat \<rightharpoonup> close_state) \<Rightarrow> nat option \<Rightarrow> bool \<Rightarrow> bool" where
  "lock_inv cl holder fired \<longleftrightarrow> (\<forall>k c. cl k = Some c \<longrightarrow> (closing_now c \<longrightarrow> holder = Some k) \<and> (keeps_past c \<longrightarrow> fired))"

lemma bind_sys_ok_lock: "bind_sys_ok s \<longleftrightarrow> bind_inv (bs_bind s) \<and> dc_reachable (bs_conn s)
    \<and> lock_inv (b_closing (bs_bind s)) (bs_closer s) (read_fired (bs_conn s))"
  by (auto simp: bind_sys_ok_def lock_inv_def)

lemma lock_moves:
  assumes "lock_inv cl holder f" "cl k = Some c" "closing_now c" "closing_now c'" "keeps_past c' \<Longrightarrow> f'"
  shows "lock_inv (cl(k \<mapsto> c')) holder f'"
  using assms keeps_past_closing unfolding lock_inv_def by (auto split: if_splits)

lemma lock_released:
  assumes "lock_inv cl holder f" "cl k = Some c" "closing_now c" "\<not> closing_now c'"
  shows "lock_inv (cl(k \<mapsto> c')) None f'"
  using assms keeps_past_closing unfolding lock_inv_def by (auto split: if_splits)

lemma lock_taken:
  assumes "lock_inv cl None f" "closing_now c'" "\<not> keeps_past c'"
  shows "lock_inv (cl(k \<mapsto> c')) (Some k) f'"
  using assms keeps_past_closing unfolding lock_inv_def by (auto split: if_splits)

lemma lock_fired: "lock_inv cl holder f \<Longrightarrow> (f \<Longrightarrow> f') \<Longrightarrow> lock_inv cl holder f'"
  unfolding lock_inv_def by blast

lemma bind_sys_lock:
  assumes ok: "lock_inv (b_closing (bs_bind s)) (bs_closer s) (read_fired (bs_conn s))" and a: "bind_sys_act l s = Some s'"
  shows "lock_inv (b_closing (bs_bind s')) (bs_closer s') (read_fired (bs_conn s'))"
proof (cases l)
  case (BOpen port)
  then show ?thesis using ok a by (auto simp: set_bind_def simp del: bind_act.simps dest: AOpen_closing split: if_splits)
next
  case (BRecv e ev)
  then show ?thesis using ok a by (auto simp: set_bind_def simp del: bind_act.simps dest: ARecv_closing split: if_splits)
next
  case (BRead e x)
  show ?thesis
  proof (cases "x = AReturn")
    case True
    then have "bind_read_return e s = Some s'" using a BRead by (simp split: if_splits)
    then obtain ev v b where r: "bind_act (ARecv e ev) (bs_bind s) = Some b" "read_return e (bs_conn s) = Some (v, bs_conn s')"
      "bs_bind s' = b" "bs_closer s' = bs_closer s" by (rule bind_read_returnE)
    show ?thesis using ok r(3,4) ARecv_closing [OF r(1)] fired_same [OF data_ops_keep_deadlines(4) [OF r(2)]] by simp
  next
    case False
    then show ?thesis using ok a BRead by (auto simp del: read_moves.simps split: if_splits dest: read_moves_fired)
  qed
next
  case (BNow k t)
  then show ?thesis using ok a
    by (auto simp: SetReadDeadline_past intro!: lock_moves split: if_splits option.splits close_state.splits)
next
  case (BEnv e)
  then show ?thesis using ok a by (auto intro!: lock_fired [OF ok] intro: env_keeps_fired)
next
  case (BClose k ev)
  show ?thesis
  proof (cases ev)
    case CBegin
    then have h: "bs_closer s = None" using a BClose by (simp split: if_splits)
    show ?thesis
    proof (cases "b_open (bs_bind s)")
      case None
      then show ?thesis using ok a BClose CBegin h by (auto split: if_splits)
    next
      case (Some e)
      then show ?thesis using lock_taken [of "b_closing (bs_bind s)"] ok a BClose CBegin h by (auto split: if_splits)
    qed
  next
    case CSawExited
    then show ?thesis using ok a BClose
      by (auto simp: set_bind_def intro!: lock_moves [OF ok] split: if_splits option.splits close_state.splits)
        (auto simp: lock_inv_def)
  next
    case CCleared
    then show ?thesis using a BClose by (auto intro!: lock_released [OF ok] split: option.splits close_state.splits)
  next
    case CGrace
    then show ?thesis using a BClose
      by (auto simp: set_bind_def bind_abandon_def intro!: lock_moves [OF ok] split: option.splits close_state.splits)
  next
    case CSubClose
    then show ?thesis using a BClose by (auto intro!: lock_released [OF ok] split: option.splits close_state.splits)
  qed (use a BClose in simp)
qed

lemma bind_sys_ok_act: "bind_sys_ok s \<Longrightarrow> bind_sys_act l s = Some s' \<Longrightarrow> bind_sys_ok s'"
  unfolding bind_sys_ok_lock
  using bind_sys_projects bind_sys_lock bind_act_step bind_inv_step dc_reachable_step by metis

lemma bind_waitingD:
  assumes "bind_sys_ok s" "bind_waiting k e s"
  shows "e < length (b_openings (bs_bind s))" "op_closed (b_openings (bs_bind s) ! e)" "recv_inv (b_openings (bs_bind s) ! e)"
    "read_fired (bs_conn s)" "bs_closer s = Some k"
proof -
  have i: "bind_inv (bs_bind s)" and c: "b_closing (bs_bind s) k = Some (CWait e)"
    using assms by (simp_all add: bind_sys_ok_def bind_waiting_def)
  show e: "e < length (b_openings (bs_bind s))" "op_closed (b_openings (bs_bind s) ! e)" using bind_invD(3) [OF i c] by simp_all
  show "recv_inv (b_openings (bs_bind s) ! e)" by (rule bind_invD(1) [OF i e(1)])
  show "read_fired (bs_conn s)" "bs_closer s = Some k"
    using assms(1) c unfolding bind_sys_ok_def by (metis keeps_past.simps(1), metis closing_now.simps(4))
qed

text \<open>A closed opening takes no new call into the substrate, and no other opening's steps touch it.\<close>

lemma ARecv_stays_out:
  assumes "bind_act (ARecv q ev) b = Some b'" "e < length (b_openings b)" "op_closed (b_openings b ! e)" "recv_inv (b_openings b ! e)"
    "op_recv (b_openings b' ! e) = RvRead"
  shows "op_recv (b_openings b ! e) = RvRead"
proof -
  obtain x where x: "bind_receive ev (b_openings b ! q) = Some x" "b' = upd_opening q (\<lambda>_. x) b"
    using assms(1) by (auto split: if_splits)
  show ?thesis
  proof (cases "q = e")
    case True
    then show ?thesis using bind_receive_inv [OF x(1)] assms(2-5) x(2) by (simp add: upd_opening_def)
  next
    case False
    then show ?thesis using assms(5) x(2) by (simp add: upd_opening_def)
  qed
qed

lemma ARecv_leaves: "bind_act (ARecv e ev) b = Some b' \<Longrightarrow> in_substrate_event ev \<Longrightarrow> op_recv (b_openings b' ! e) \<noteq> RvRead"
  by (cases ev) (auto simp: upd_opening_def split: if_splits)

lemma AClose_recv:
  assumes "bind_act (AClose k ev) b = Some b'" "bind_inv b"
  shows "op_recv (b_openings b' ! e) = op_recv (b_openings b ! e)"
proof (cases ev)
  case CBegin
  then show ?thesis using assms(1) bind_invD(2) [OF assms(2)]
    by (auto simp: upd_opening_def nth_list_update split: if_splits option.splits)
qed (use assms(1) in \<open>auto simp: bind_abandon_def split: if_splits option.splits close_state.splits\<close>)

lemma bind_stays_out:
  assumes "bind_sys_ok s" "bind_waiting k e s" "bind_sys_act l s = Some s'" "bind_inside e s'" shows "bind_inside e s"
proof -
  note w = bind_waitingD [OF assms(1,2)]
  have i: "bind_inv (bs_bind s)" using assms(1) by (simp add: bind_sys_ok_def)
  have recv: "bind_inside e s" if "bind_act (ARecv q ev) (bs_bind s) = Some (bs_bind s')" for q ev
    using ARecv_stays_out [OF that w(1-3)] assms(4) w(1) by (simp add: bind_inside_def)
  have close: "bind_inside e s" if "bind_act (AClose q ev) (bs_bind s) = Some (bs_bind s')" for q ev
    using AClose_recv [OF that i, of e] assms(4) w(1) by (simp add: bind_inside_def)
  show ?thesis
  proof (cases l)
    case (BRead q a)
    show ?thesis
    proof (cases "a = AReturn")
      case True
      then have "bind_read_return q s = Some s'" using assms(3) BRead by (simp split: if_splits)
      then show ?thesis using recv by (auto simp del: bind_act.simps elim!: bind_read_returnE)
    next
      case False
      then show ?thesis using assms BRead by (auto simp: bind_inside_def simp del: read_moves.simps split: if_splits)
    qed
  next
    case (BClose q ev)
    then show ?thesis using assms(3) close
      by (cases ev) (auto simp: set_bind_def simp del: bind_act.simps split: if_splits)
  next
    case (BNow q t)
    then show ?thesis using assms(3) close by (auto simp del: bind_act.simps split: if_splits)
  next
    case (BRecv q ev)
    then show ?thesis using assms(3) recv by (auto simp: set_bind_def simp del: bind_act.simps split: if_splits)
  qed (use assms w(5) in \<open>auto simp: bind_inside_def\<close>)
qed

lemma bind_return_leaves:
  assumes "bind_read_return e s = Some s'" shows "\<not> bind_inside e s'"
proof -
  obtain ev b where b: "bind_act (ARecv e ev) (bs_bind s) = Some b" "in_substrate_event ev" "bs_bind s' = b"
    using assms by (auto elim: bind_read_returnE)
  then show ?thesis using ARecv_leaves [OF b(1,2)] by (simp add: bind_inside_def)
qed

interpretation wg_over: deadline_client bind_sys_act bs_conn bind_sys_ok "bind_waiting k" bind_inside BRead bind_own for k
proof
  show "bind_sys_ok s'" if "bind_sys_ok s" "bind_sys_act l s = Some s'" for s l s'
    using that by (rule bind_sys_ok_act)
  show "bind_own r l \<longleftrightarrow> (\<exists>a. l = BRead r a)" for r l by (cases l) auto
  show "dc_reachable (bs_conn s)" if "bind_sys_ok s" for s using that by (simp add: bind_sys_ok_def)
  show "read_fired (bs_conn s)" if "bind_sys_ok s" "bind_waiting k r s" for s r using that by (rule bind_waitingD)
  show "bind_inside r s" if "bind_sys_ok s" "bind_waiting k r s" "bind_sys_act l s = Some s'" "bind_inside r s'" for s r l s'
    using that by (rule bind_stays_out)
  show "bind_inside r s \<and> read_moves r a (bs_conn s) = Some (bs_conn s')" if "bind_sys_act (BRead r a) s = Some s'" for s r a s'
    using that by (cases a) (auto elim: bind_read_returnE split: if_splits)
  show "bind_sys_act (BRead r a) s \<noteq> None" if h: "bind_inside r s" "read_moves r a (bs_conn s) \<noteq> None" for s r a
  proof (cases "a = AReturn")
    case True
    then obtain v c where v: "read_return r (bs_conn s) = Some (v, c)" using h(2) by auto
    have "bind_act (ARecv r (recv_of v)) (bs_bind s) \<noteq> None"
      using h(1) by (cases v rule: recv_of.cases) (auto simp: bind_inside_def)
    then show ?thesis using h(1) True v by (simp add: bind_read_return_def del: bind_act.simps)
  qed (use h in \<open>auto simp del: read_moves.simps\<close>)
  show "\<not> bind_inside r s'" if "bind_sys_act (BRead r AReturn) s = Some s'" for s r s'
    using that bind_return_leaves by (auto split: if_splits)
  show "map_of (dc_readers (bs_conn s')) r = map_of (dc_readers (bs_conn s)) r"
    if "bind_sys_act l s = Some s'" "\<not> bind_own r l" for s l s' r
  proof (cases l)
    case (BRead q a)
    then have "read_moves q a (bs_conn s) = Some (bs_conn s')" "q \<noteq> r"
      using that by (cases a; auto elim: bind_read_returnE split: if_splits)+
    then show ?thesis by (simp add: read_moves_other)
  next
    case (BClose q ev)
    then show ?thesis using that by (cases ev) (auto simp: set_bind_def simp del: bind_act.simps split: if_splits)
  next
    case (BEnv e)
    then show ?thesis using that by (auto dest: env_keeps_readers)
  qed (use that in \<open>auto simp: set_bind_def simp del: bind_act.simps split: if_splits\<close>)
qed

fun bind_quiet :: "bind_label \<Rightarrow> bool" where
  "bind_quiet (BRead e a) = True"
| "bind_quiet (BRecv e ev) = (ev \<in> {RCall True, RCheckTop, RCheckErr})"
| "bind_quiet (BClose k ev) = (ev \<in> {CSawExited, CCleared})"
| "bind_quiet _ = False"

lemma bind_finish:
  assumes "bind_waiting k e s" "op_exited (b_openings (bs_bind s) ! e)"
  shows "\<exists>s'. run_acts bind_sys_act [BClose k CSawExited, BClose k CCleared] s = Some s'
    \<and> b_closing (bs_bind s') k = Some (CReturned e) \<and> \<not> read_fired (bs_conn s')"
  using assms by (simp add: bind_waiting_def set_bind_def read_fired_get SetReadDeadline_def dc_set_spec past_def)

text \<open>Outside the substrate the goroutine of a closed opening reports within two calls.\<close>

lemma bind_reports:
  assumes ok: "bind_sys_ok s" and w: "bind_waiting k e s" and out: "\<not> bind_inside e s"
  shows "\<exists>xs s'. length xs \<le> 2 \<and> list_all bind_quiet xs \<and> run_acts bind_sys_act xs s = Some s'
    \<and> bind_waiting k e s' \<and> op_exited (b_openings (bs_bind s') ! e)"
proof -
  note d = bind_waitingD [OF ok w]
  let ?x = "b_openings (bs_bind s) ! e"
  show ?thesis
  proof (cases "op_recv ?x")
    case RvIdle
    then show ?thesis using d(1,2) w
      by (intro exI [of _ "[BRecv e (RCall True), BRecv e RCheckTop]"])
        (simp add: set_bind_def upd_opening_def told_closed_def bind_waiting_def)
  next
    case RvTop
    then show ?thesis using d(1,2) w
      by (intro exI [of _ "[BRecv e RCheckTop]"]) (simp add: set_bind_def upd_opening_def told_closed_def bind_waiting_def)
  next
    case (RvErr t c)
    then show ?thesis using d(1,2) w
      by (intro exI [of _ "[BRecv e RCheckErr]"]) (simp add: set_bind_def upd_opening_def told_closed_def bind_waiting_def)
  next
    case RvGone
    then show ?thesis using d(3) w by (intro exI [of _ "[]"]) (simp add: recv_inv_def)
  next
    case RvRead
    then show ?thesis using out d(1) by (simp add: bind_inside_def)
  qed
qed

lemma bind_finish_outside:
  assumes "bind_sys_ok s" "bind_waiting k e s" "\<not> bind_inside e s"
  shows "\<exists>xs s'. length xs \<le> 4 \<and> list_all bind_quiet xs \<and> run_acts bind_sys_act xs s = Some s'
    \<and> b_closing (bs_bind s') k = Some (CReturned e) \<and> \<not> read_fired (bs_conn s')"
proof -
  obtain xs s1 where x: "length xs \<le> 2" "list_all bind_quiet xs" "run_acts bind_sys_act xs s = Some s1"
    and s1: "bind_waiting k e s1" "op_exited (b_openings (bs_bind s1) ! e)" using bind_reports [OF assms] by blast
  then show ?thesis using bind_finish [OF s1] run_acts_append [OF x(3)]
    by (intro exI [of _ "xs @ [BClose k CSawExited, BClose k CCleared]"]) auto
qed

lemma bind_own_waits: "bind_sys_act (BRead q a) s = Some s' \<Longrightarrow> bind_waiting k e s \<Longrightarrow> bind_waiting k e s'"
  by (cases "a = AReturn") (auto simp: bind_waiting_def simp del: read_moves.simps bind_act.simps
      dest: ARecv_closing elim!: bind_read_returnE split: if_splits)

lemma bind_finish_inside:
  assumes "bind_sys_ok s" "bind_waiting k e s"
  shows "\<exists>xs s'. length xs \<le> wg_over.distance e s + 4 \<and> list_all bind_quiet xs \<and> run_acts bind_sys_act xs s = Some s'
    \<and> b_closing (bs_bind s') k = Some (CReturned e) \<and> \<not> read_fired (bs_conn s')"
  using assms
proof (induction "wg_over.distance e s" arbitrary: s rule: less_induct)
  case less
  show ?case
  proof (cases "bind_inside e s")
    case True
    obtain a s1 where a: "bind_sys_act (BRead e a) s = Some s1"
      using wg_over.inside_not_blocked [OF less.prems True] by (auto simp: wg_over.own_iff)
    have d: "wg_over.distance e s1 < wg_over.distance e s" by (rule wg_over.own_closer [OF less.prems(1) a])
    obtain xs s' where "length xs \<le> wg_over.distance e s1 + 4" "list_all bind_quiet xs" "run_acts bind_sys_act xs s1 = Some s'"
      "b_closing (bs_bind s') k = Some (CReturned e)" "\<not> read_fired (bs_conn s')"
      using less.hyps [OF d bind_sys_ok_act [OF less.prems(1) a] bind_own_waits [OF a less.prems(2)]] by blast
    then show ?thesis using d run_acts_Cons [where f = bind_sys_act, OF a]
      by (intro exI [of _ "BRead e a # xs"] exI [of _ s']) auto
  next
    case False
    then show ?thesis using bind_finish_outside [OF less.prems] by (meson trans_le_add2)
  qed
qed

text \<open>C9: WireGuard's teardown over the wrapper that makes deadlines work. In every reachable state in which a
  \<^verbatim>\<open>Close\<close> of the bind waits, and in whatever way the run continues while it waits, the receive goroutine spends at most
  six of its own steps inside the substrate's \<^verbatim>\<open>Read\<close>; while it is inside it always has such a step, traffic or
  not; and at every moment at most ten steps of the goroutine and the \<^verbatim>\<open>Close\<close> alone make it return nil, the
  deadline no longer expired.\<close>

theorem Bind_close_needs_no_traffic:
  assumes "run_acts bind_sys_act ls0 (bind_over now) = Some s0" "run_while bind_sys_act (bind_waiting k e) ls s0 = Some s"
  shows "length (filter (bind_own e) ls) \<le> 6
    \<and> (bind_inside e s \<longrightarrow> (\<exists>a. bind_sys_act (BRead e a) s \<noteq> None))
    \<and> (\<exists>xs s'. length xs \<le> 10 \<and> list_all bind_quiet xs \<and> run_acts bind_sys_act xs s = Some s'
         \<and> b_closing (bs_bind s') k = Some (CReturned e) \<and> \<not> read_fired (bs_conn s'))"
proof (intro conjI)
  have ok0: "bind_sys_ok s0"
    by (rule run_acts_inv [where f = bind_sys_act and ok = bind_sys_ok, OF bind_sys_ok_act assms(1) bind_over_ok])
  note leaves = wg_over.reader_leaves [OF ok0 assms(2)]
  show "length (filter (bind_own e) ls) \<le> 6" using leaves by blast
  show "bind_inside e s \<longrightarrow> (\<exists>a. bind_sys_act (BRead e a) s \<noteq> None)" using leaves wg_over.own_iff by metis
  have s: "bind_sys_ok s" "bind_waiting k e s" using wg_over.run_ok [OF ok0 assms(2)] by blast+
  have "wg_over.distance e s + 4 \<le> 10" using wg_over.distance_le [of e s] by simp
  then show "\<exists>xs s'. length xs \<le> 10 \<and> list_all bind_quiet xs \<and> run_acts bind_sys_act xs s = Some s'
      \<and> b_closing (bs_bind s') k = Some (CReturned e) \<and> \<not> read_fired (bs_conn s')"
    using bind_finish_inside [OF s] by (meson le_trans)
qed

section \<open>Witnesses\<close>

text \<open>A reader that waits in the wrapper for a datagram that never comes when the teardown begins.\<close>

definition quic_parked :: "pc_label list" where
  "quic_parked = [PFrom 1 FCall, PFrom 1 FToken, PFrom 1 FCheck, PRead 1 (ABegin 100), PRead 1 (AStep Check),
     PDetach DClose, PNow 5]"

definition wg_parked :: "bind_label list" where
  "wg_parked = [BOpen 0, BRecv 0 (RCall True), BRecv 0 RCheckTop, BRead 0 (ABegin 100), BRead 0 (AStep Check),
     BClose 3 CBegin, BNow 3 5]"

lemmas sys_eval = quic_parked_def wg_parked_def pc_over_def bind_over_def newPacketConn_def NewBind_def fresh_substrate_def
  withDeadlines_def new_deadline_def set_pc_def set_bind_def read_begin_def put_reader_def upd_opening_def bind_Open_def
  SetReadDeadline_def dc_set_def get_dl_def put_dl_def Let_def pc_waiting_def bind_waiting_def pc_inside_def bind_inside_def
  pc_read_return_def bind_read_return_def read_return_def

theorem packetConn_close_needs_no_traffic_witness:
  "\<exists>s. run_acts pc_sys_act quic_parked (pc_over 5) = Some s \<and> pc_inside 1 s \<and> pc_waiting s
    \<and> (\<exists>xs s'. length xs \<le> 10 \<and> list_all pc_quiet xs \<and> run_acts pc_sys_act xs s = Some s'
         \<and> pc_closeErr (ps_pc s') = Some False)"
proof -
  have "\<exists>s. run_acts pc_sys_act quic_parked (pc_over 5) = Some s \<and> pc_inside 1 s \<and> pc_waiting s" by (simp add: sys_eval)
  then obtain s where s: "run_acts pc_sys_act quic_parked (pc_over 5) = Some s" "pc_inside 1 s" "pc_waiting s" by blast
  have "run_while pc_sys_act pc_waiting [] s = Some s" using s by simp
  then show ?thesis using packetConn_close_needs_no_traffic [OF s(1), of "[]" s 1] s by blast
qed

theorem Bind_close_needs_no_traffic_witness:
  "\<exists>s. run_acts bind_sys_act wg_parked (bind_over 5) = Some s \<and> bind_inside 0 s \<and> bind_waiting 3 0 s
    \<and> (\<exists>xs s'. length xs \<le> 10 \<and> list_all bind_quiet xs \<and> run_acts bind_sys_act xs s = Some s'
         \<and> b_closing (bs_bind s') 3 = Some (CReturned 0))"
proof -
  have "\<exists>s. run_acts bind_sys_act wg_parked (bind_over 5) = Some s \<and> bind_inside 0 s \<and> bind_waiting 3 0 s" by (simp add: sys_eval)
  then obtain s where s: "run_acts bind_sys_act wg_parked (bind_over 5) = Some s" "bind_inside 0 s" "bind_waiting 3 0 s" by blast
  have "run_while bind_sys_act (bind_waiting 3 0) [] s = Some s" using s by simp
  then show ?thesis using Bind_close_needs_no_traffic [OF s(1), of 3 0 "[]" s] s by blast
qed

end
