(* ===== verification/Report.thy ===== *)
theory Report
  imports Ladder_Lockstep Slog
begin

text \<open>
  What a session reports about itself. The structured log (\<^verbatim>\<open>log/slog\<close>) is the only trace a user has of why a
  tunnel runs on the relay, and the sources promise that a fallback never happens silently. A log call is
  the list of records it emits; the ladder with its log calls (\<open>climbCascade_log\<close>,
  \<open>negotiateTierClient_log\<close>, \<open>serve_rungs_log\<close>, \<open>negotiateTierHost_log\<close>) returns those next to its result, and is the ladder of
  \<open>Ladder\<close> without them. Durations and the texts of errors are arguments. Covered are the reporting halves
  of \<^verbatim>\<open>internal/tunnel/tier.go\<close>, \<^verbatim>\<open>internal/nat/nat.go\<close> and \<^verbatim>\<open>internal/nat/logging.go\<close>.
\<close>

section \<open>The punch agent's records\<close>

definition punchConnected :: string where "punchConnected = ''connected''"
definition punchFailed :: string where "punchFailed = ''failed''"

text \<open>What the agent knows of candidates; \<open>pd_pair\<close> is the selected pair, when the library names one.\<close>

record punch_detail =
  pd_local :: "string list"
  pd_remote :: "string list"
  pd_pair :: "(string \<times> string \<times> string) option"

definition logPunch :: "bool \<Rightarrow> punch_detail \<Rightarrow> string \<Rightarrow> string \<Rightarrow> duration \<Rightarrow> string option \<Rightarrow> slog_record list" where
  "logPunch diagnostic pd role outcome elapsed cause =
     (let attrs = [(''outcome'', VStr outcome), (''role'', VStr role), (''duration_ms'', VInt (Milliseconds elapsed))];
          attrs = (if diagnostic
                   then attrs @ [(''local_candidate_types'', VStrs (pd_local pd)), (''remote_candidate_types'', VStrs (pd_remote pd))]
                     @ (case pd_pair pd of
                          None \<Rightarrow> []
                        | Some (l, r, p) \<Rightarrow> [(''selected_local_type'', VStr l), (''selected_remote_type'', VStr r), (''selected_pair'', VStr p)])
                   else attrs);
          attrs = attrs @ error_attr cause
      in [slog (if outcome = punchConnected then LevelInfo else LevelWarn) ''tunnel_nat_punch'' attrs])"

definition nat_warn :: "bool \<Rightarrow> string \<Rightarrow> string option \<Rightarrow> slog_record list" where
  "nat_warn diagnostic msg cause =
     (if \<not> diagnostic then [] else [slog LevelWarn ''tunnel_nat_candidate'' ((''message'', VStr msg) # error_attr cause)])"

definition log_gather :: "bool \<Rightarrow> bool \<Rightarrow> string list \<Rightarrow> slog_record list" where
  "log_gather diagnostic partial types =
     (if diagnostic
      then [slog LevelInfo ''tunnel_nat_gather'' [(''outcome'', VStr (if partial then ''partial'' else ''complete'')),
              (''candidates'', VInt (int (length types))), (''candidate_types'', VStrs types)]] else [])"

text \<open>pion's logger: trace and debug are dropped, info becomes debug.\<close>

datatype ice_level = IceTrace | IceDebug | IceInfo | IceWarn | IceError

record iceLogger =
  il_scope :: string
  il_enabled :: bool

definition NewLogger :: "bool \<Rightarrow> string \<Rightarrow> iceLogger" where
  "NewLogger diagnostic scope = \<lparr>il_scope = scope, il_enabled = diagnostic\<rparr>"

definition ice_emit :: "iceLogger \<Rightarrow> slog_level \<Rightarrow> string \<Rightarrow> slog_record list" where
  "ice_emit l level msg =
     (if \<not> il_enabled l then [] else [slog level ''tunnel_nat_ice'' [(''scope'', VStr (il_scope l)), (''message'', VStr msg)]])"

text \<open>\<^verbatim>\<open>emitf\<close> with the format already applied; it is not evaluated when the logger is off.\<close>

definition ice_emitf :: "iceLogger \<Rightarrow> slog_level \<Rightarrow> (unit \<Rightarrow> string) \<Rightarrow> slog_record list" where
  "ice_emitf l level format = (if \<not> il_enabled l then [] else ice_emit l level (format ()))"

fun ice_log :: "iceLogger \<Rightarrow> ice_level \<Rightarrow> string \<Rightarrow> slog_record list" where
  "ice_log l IceTrace msg = []"
| "ice_log l IceDebug msg = []"
| "ice_log l IceInfo msg = ice_emit l LevelDebug msg"
| "ice_log l IceWarn msg = ice_emit l LevelWarn msg"
| "ice_log l IceError msg = ice_emit l LevelError msg"

section \<open>The ladder's records\<close>

fun outcome_string :: "outcome \<Rightarrow> string" where
  "outcome_string OutcomeConnected = ''connected''"
| "outcome_string OutcomeServing = ''serving''"
| "outcome_string OutcomeSubstrateAbandoned = ''substrate-abandoned''"
| "outcome_string OutcomeDeviceFailed = ''device-failed''"
| "outcome_string OutcomeMuxFailed = ''mux-failed''"
| "outcome_string OutcomeListenFailed = ''listen-failed''"
| "outcome_string OutcomeUpFailed = ''up-failed''"
| "outcome_string OutcomeHandshakeFailed = ''handshake-failed''"
| "outcome_string OutcomePunchFailed = ''punch-failed''"
| "outcome_string OutcomeRequestFailed = ''request-failed''"
| "outcome_string OutcomeUnsupported = ''unsupported''"

definition tiersToStrings :: "tier list \<Rightarrow> string list" where
  "tiersToStrings ids = map (\<lambda>i. i) ids"

definition logTierNegotiated :: "options \<Rightarrow> Hello \<Rightarrow> Hello \<Rightarrow> tier \<Rightarrow> slog_record list" where
  "logTierNegotiated opts local peer sel =
     (if \<not> opt_Diagnostic opts then []
      else [slog LevelInfo ''tunnel_tier_negotiated'' [(''tunnel_mode'', VStr (opt_TunnelMode opts)),
              (''local_supported_tiers'', VStrs (tiersToStrings (SupportedTiers local))),
              (''peer_supported_tiers'', VStrs (tiersToStrings (SupportedTiers peer))),
              (''shared_cascade'', VStrs (tiersToStrings (SharedCascade (SupportedTiers local) (SupportedTiers peer)))),
              (''resolved_tier'', VStr sel), (''punch_probe'', VBool (probeAgreed local peer))]])"

definition logTierAttempt :: "options \<Rightarrow> tier \<Rightarrow> outcome \<Rightarrow> duration \<Rightarrow> string option \<Rightarrow> slog_record list" where
  "logTierAttempt opts i oc elapsed cause =
     (let attrs = [(''tier'', VStr i), (''outcome'', VStr (outcome_string oc)), (''duration_ms'', VInt (Milliseconds elapsed))]
                    @ error_attr cause
      in (if \<not> Succeeded oc then [slog LevelWarn ''tunnel_tier_fallback'' attrs] else [])
         @ (if \<not> opt_Diagnostic opts then [] else [slog LevelInfo ''tunnel_tier_attempt'' attrs]))"

definition logTierSelected :: "tier \<Rightarrow> slog_record list" where
  "logTierSelected sel = [slog LevelInfo ''tunnel_tier_selected'' [(''tier'', VStr sel)]]"

datatype punchPhase = punchGatherFailed | punchExchangeFailed | punchPeerUnavailable | punchRemoteRejected

fun punchPhase_string :: "punchPhase \<Rightarrow> string" where
  "punchPhase_string punchGatherFailed = ''gather-failed''"
| "punchPhase_string punchExchangeFailed = ''exchange-failed''"
| "punchPhase_string punchPeerUnavailable = ''peer-unavailable''"
| "punchPhase_string punchRemoteRejected = ''remote-rejected''"

definition punchRoleFor :: "bool \<Rightarrow> string" where
  "punchRoleFor controlling = (if controlling then ''controlling'' else ''controlled'')"

definition logPunchProbe :: "options \<Rightarrow> punchPhase \<Rightarrow> bool \<Rightarrow> string \<Rightarrow> string option \<Rightarrow> slog_record list" where
  "logPunchProbe opts phase controlling peerID cause =
     (if \<not> opt_Diagnostic opts then []
      else [slog LevelInfo ''tunnel_nat_probe'' ([(''outcome'', VStr (punchPhase_string phase)),
              (''role'', VStr (punchRoleFor controlling)), (''peer'', VStr peerID)] @ error_attr cause)])"

section \<open>The ladder with its records\<close>

text \<open>What the records take from outside: how long things took, the texts of errors, what the agents know of
  candidates, and the peer's name.\<close>

record reporter =
  rp_elapsed :: "tier \<Rightarrow> duration"
  rp_punch :: "nat \<Rightarrow> duration"
  rp_detail :: "nat \<Rightarrow> punch_detail"
  rp_text :: "client_error \<Rightarrow> string"
  rp_peer :: string

text \<open>One punch: the phases before ICE's checks are probe records, the checks report through the agent.\<close>

definition punchOnce_log :: "reporter \<Rightarrow> side \<Rightarrow> bool \<Rightarrow> byte list \<Rightarrow> world
    \<Rightarrow> ((punch_error + punchResult) \<times> world) \<times> slog_record list" where
  "punchOnce_log rp sd controlling fingerprint w =
     (let i = next_agent w; env = sd_agents sd i; opts = sd_opts sd;
          err = ae_err env \<or> \<not> ae_agent env;
          probe = (\<lambda>phase e. logPunchProbe opts phase controlling (rp_peer rp) (map_option (\<lambda>e. rp_text rp (PunchError e)) e));
          checks = (\<lambda>outcome e. logPunch (opt_Diagnostic opts) (rp_detail rp i) (punchRoleFor controlling) outcome (rp_punch rp i)
                      (map_option (\<lambda>e. rp_text rp (PunchError e)) e));
          r = punchOnce sd controlling fingerprint w
      in (r, (if err then probe punchGatherFailed (Some GatherFailure) else [])
           @ (case fst r of
                Inl NegotiateStream \<Rightarrow> probe punchExchangeFailed (Some NegotiateStream)
              | Inl GatherFailure \<Rightarrow> []
              | Inl PeerUnavailable \<Rightarrow> probe punchPeerUnavailable None
              | Inl RemoteRejected \<Rightarrow> probe punchRemoteRejected (Some RemoteRejected)
              | Inl ConnectFailure \<Rightarrow> checks punchFailed (Some ConnectFailure)
              | Inl PeerDidNotLand \<Rightarrow> []
              | Inr _ \<Rightarrow> checks punchConnected None)))"

definition log_retry :: "reporter \<Rightarrow> u8 \<Rightarrow> u8 \<Rightarrow> punch_error \<Rightarrow> slog_record list" where
  "log_retry rp attempt attempts e =
     [slog LevelWarn ''tunnel_punch_retry'' [(''attempt'', VInt (uint attempt)), (''attempts'', VInt (uint attempts)),
        (''peer'', VStr (rp_peer rp)), (''error'', VStr (rp_text rp (PunchError e)))]]"

function (sequential) punch_loop_log :: "reporter \<Rightarrow> side \<Rightarrow> bool \<Rightarrow> byte list \<Rightarrow> u8 \<Rightarrow> u8 \<Rightarrow> world
    \<Rightarrow> ((punch_error + punchResult) \<times> world) \<times> slog_record list" where
  "punch_loop_log rp sd controlling fingerprint attempts attempt w =
     (case punchOnce_log rp sd controlling fingerprint w of ((result, w1), l1) \<Rightarrow>
        if attempts = 1 then ((result, w1), l1)
        else if result = Inl NegotiateStream then ((Inl NegotiateStream, w1), l1)
        else case x_swap (MPunchOutcome \<lparr>OK = ok result\<rparr>) w1 of
               (Some (MPunchOutcome peer), w2) \<Rightarrow>
                 if ok result \<and> OK peer then ((result, w2), l1)
                 else let w3 = releasePunch result w2;
                          err = (case result of Inl e \<Rightarrow> e | Inr _ \<Rightarrow> PeerDidNotLand)
                      in if attempt \<ge> attempts then ((Inl err, w3), l1)
                         else (case punch_loop_log rp sd controlling fingerprint attempts (attempt + 1) w3 of
                                 (r, l2) \<Rightarrow> (r, l1 @ log_retry rp attempt attempts err @ l2))
             | (_, w2) \<Rightarrow> ((Inl NegotiateStream, releasePunch result w2), l1))"
  by pat_completeness auto
termination
proof (relation "measure (\<lambda>(rp, sd, c, fp, attempts, attempt, w). unat attempts - unat attempt)")
  fix attempts attempt :: u8
  assume "\<not> attempts \<le> attempt"
  then have l: "unat attempt < unat attempts" by (simp add: word_le_nat_alt)
  moreover have "unat attempts < 256" using unsigned_less [of attempts, where 'a = nat] by simp
  ultimately have "unat (attempt + 1) = unat attempt + 1" by (simp add: unat_word_ariths)
  then show "((rp, sd, controlling, fingerprint, attempts, attempt + 1, w3), (rp, sd, controlling, fingerprint, attempts, attempt, w))
      \<in> measure (\<lambda>(rp, sd, c, fp, attempts, attempt, w). unat attempts - unat attempt)"
    for rp :: reporter and sd :: side and controlling :: bool and fingerprint :: "byte list" and w3 w :: world
    using l by simp
qed auto

declare punch_loop_log.simps [simp del]

definition punch_log :: "reporter \<Rightarrow> side \<Rightarrow> bool \<Rightarrow> byte list \<Rightarrow> u8 \<Rightarrow> world
    \<Rightarrow> ((punch_error + punchResult) \<times> world) \<times> slog_record list" where
  "punch_log rp sd controlling fingerprint attempts w =
     punch_loop_log rp sd controlling fingerprint (if attempts = 0 then 1 else attempts) 1 w"

lemma punchOnce_log_erase [simp]: "fst (punchOnce_log rp sd c fp w) = punchOnce sd c fp w"
  by (simp add: punchOnce_log_def Let_def)

lemma punch_loop_log_erase: "fst (punch_loop_log rp sd c fp n k w) = punch_loop sd c fp n k w"
proof (induction rp sd c fp n k w rule: punch_loop_log.induct)
  case (1 rp sd c fp n k w)
  obtain r w1 l1 where p: "punchOnce_log rp sd c fp w = ((r, w1), l1)" by (metis prod.exhaust)
  then have q: "punchOnce sd c fp w = (r, w1)" using punchOnce_log_erase [of rp sd c fp w] by simp
  show ?case
    using "1.IH" [OF p [symmetric] refl]
    by (subst punch_loop_log.simps, subst punch_loop.simps)
      (auto simp: p q Let_def split: prod.splits option.splits message.splits)
qed

lemma punch_log_erase: "fst (punch_log rp sd c fp n w) = punch sd c fp n w"
  by (simp add: punch_log_def punch_def punch_loop_log_erase)

definition runPunchProbe_log :: "reporter \<Rightarrow> side \<Rightarrow> bool \<Rightarrow> world \<Rightarrow> world \<times> slog_record list" where
  "runPunchProbe_log rp sd controlling w =
     (case punch_log rp sd controlling zero_key 1 w of
        ((Inl e, w1), l) \<Rightarrow> (w1, l)
      | ((Inr p, w1), l) \<Rightarrow> (close_agent (pr_agent p) w1, l))"

fun climb_rungs_log :: "reporter \<Rightarrow> side \<Rightarrow> tier_session \<Rightarrow> tier list \<Rightarrow> go_error option \<Rightarrow> world
    \<Rightarrow> (rungs_result \<times> world) \<times> slog_record list" where
  "climb_rungs_log rp sd session [] lastErr w = ((Exhausted lastErr, w), [])"
| "climb_rungs_log rp sd session (i # is) lastErr w =
     (if i = TierLibp2p then ((Exhausted lastErr, w), [])
      else case requestRung i w of
        (False, w1) \<Rightarrow> ((RequestFailed, w1), logTierAttempt (sd_opts sd) i OutcomeRequestFailed (rp_elapsed rp i) (Some (rp_text rp RungRequestError)))
      | (True, w1) \<Rightarrow>
          (case set_Dial (sd_set sd) (sd_plane sd) i session of
             (rung1, oc, Some err, _) \<Rightarrow>
               let l = logTierAttempt (sd_opts sd) i oc (rp_elapsed rp i) (Some (rp_text rp (DialError err))) in
               if oc = OutcomeSubstrateAbandoned then ((Exhausted (Some err), w1), l)
               else (case climb_rungs_log rp sd session is (Some err) w1 of (r, l') \<Rightarrow> (r, l @ l'))
           | (rung1, oc, None, _) \<Rightarrow>
               let w1 = w1\<lparr>open_rungs := i # open_rungs w1\<rparr> in
               (case commitRung i w1 of
                  (False, w2) \<Rightarrow> ((RungCommitFailed i, w2\<lparr>open_rungs := removeAll i (open_rungs w2)\<rparr>), [])
                | (True, w2) \<Rightarrow> ((RungUp i rung1, w2), logTierAttempt (sd_opts sd) i oc (rp_elapsed rp i) None))))"

definition climbCascade_log :: "reporter \<Rightarrow> side \<Rightarrow> Hello \<Rightarrow> tier list \<Rightarrow> world
    \<Rightarrow> ((client_error + (tier \<times> rung \<times> nat)) \<times> world) \<times> slog_record list" where
  "climbCascade_log rp sd peerHello cascade1 w =
     (let attempts = EffectivePunchAttempts (punchAttemptsFor (sd_opts sd)) (PunchAttempts peerHello) in
      case punch_log rp sd True (QUICFingerprint (sd_ids sd)) attempts w of
        ((Inl e, w1), l0) \<Rightarrow>
          ((Inl (PunchError e), w1),
           l0 @ logTierAttempt (sd_opts sd) (cascade1 ! 0) OutcomePunchFailed (rp_elapsed rp (cascade1 ! 0)) (Some (rp_text rp (PunchError e))))
      | ((Inr punched, w1), l0) \<Rightarrow>
          (case climb_rungs_log rp sd (tierSession (sd_network sd) peerHello punched) cascade1 None w1 of
             ((RequestFailed, w2), l1) \<Rightarrow> ((Inl RungRequestError, close_agent (pr_agent punched) w2), l0 @ l1)
           | ((RungCommitFailed i, w2), l1) \<Rightarrow> ((Inl (RungCommitError i), close_agent (pr_agent punched) w2), l0 @ l1)
           | ((RungUp i rung1, w2), l1) \<Rightarrow> ((Inr (i, rung1, pr_agent punched), w2), l0 @ l1)
           | ((Exhausted lastErr, w2), l1) \<Rightarrow>
               let forced_hello = \<lparr>SupportedTiers = [], WireGuardPubKey = zero_key,
                     RequiredTier = forcedTierFor (opt_TunnelMode (sd_opts sd)), PunchProbe = False, PunchAttempts = 0\<rparr>;
                   w3 = (if \<not> TierRequired forced_hello peerHello
                         then snd (x_send (MAttempt \<lparr>ATier = TierLibp2p, Commit = False\<rparr>) w2) else w2)
               in ((Inl (case lastErr of None \<Rightarrow> NoTierAttempted | Some e \<Rightarrow> DialError e),
                    close_agent (pr_agent punched) w3), l0 @ l1)))"

text \<open>The client: the deferred call reports the tier of whatever it returns. \<open>body\<close> is the function without it.\<close>

definition negotiateTierClient_body :: "reporter \<Rightarrow> side \<Rightarrow> bool \<Rightarrow> world
    \<Rightarrow> ((client_error option \<times> tierResult) \<times> world) \<times> slog_record list" where
  "negotiateTierClient_body rp sd opened w =
     (let forced = forcesTier (opt_TunnelMode (sd_opts sd));
          local = hello (sd_set sd) (sd_ids sd) (sd_opts sd) in
      if \<not> opened then (((Some OpenStreamError, libp2pFloor), w), [])
      else case exchangeHello local w of
        (Some (sel, peerHello), w1) \<Rightarrow>
          (let l0 = logTierNegotiated (sd_opts sd) local peerHello sel in
           case RequiredCascade local peerHello of
             Inl e \<Rightarrow> (((Some (ResolveError e), libp2pFloor), w1), l0)
           | Inr cascade1 \<Rightarrow>
               let required = TierRequired local peerHello in
               if cascade1 ! 0 \<noteq> TierLibp2p then
                 (case climbCascade_log rp sd peerHello cascade1 w1 of
                    ((Inr (i, rung1, a), w2), l1) \<Rightarrow>
                      (((None, \<lparr>selected = i, opener = Opener rung1, tr_agent = Some a, tr_probe = False\<rparr>), w2), l0 @ l1)
                  | ((Inl err, w2), l1) \<Rightarrow>
                      ((case err of
                          RungCommitError i \<Rightarrow> ((Some err, libp2pFloor), w2)
                        | _ \<Rightarrow> if forced \<or> required then ((Some (ForcedUnavailable err), libp2pFloor), w2)
                               else ((None, libp2pFloor), w2)), l0 @ l1))
               else if probeAgreed local peerHello then (((None, libp2pFloor\<lparr>tr_probe := True\<rparr>), w1), l0)
               else if forced \<or> required then (((Some ForcedUnsupported, libp2pFloor), w1), l0)
               else (((None, libp2pFloor), w1), l0))
      | (None, w1) \<Rightarrow> (((Some HelloError, libp2pFloor), w1), []))"

definition negotiateTierClient_log :: "reporter \<Rightarrow> side \<Rightarrow> bool \<Rightarrow> world
    \<Rightarrow> ((client_error option \<times> tierResult) \<times> world) \<times> slog_record list" where
  "negotiateTierClient_log rp sd opened w =
     (case negotiateTierClient_body rp sd opened w of
        (r, l) \<Rightarrow> (r, l @ logTierSelected (selected (snd (fst r)))))"

lemma climb_rungs_log_erase: "fst (climb_rungs_log rp sd s c e w) = climb_rungs sd s c e w"
  by (induction rp sd s c e w rule: climb_rungs_log.induct) (auto simp: Let_def split: prod.splits option.splits bool.splits)

lemma climbCascade_log_erase: "fst (climbCascade_log rp sd p c w) = climbCascade sd p c w"
proof -
  let ?n = "EffectivePunchAttempts (punchAttemptsFor (sd_opts sd)) (PunchAttempts p)"
  obtain r w1 l0 where p: "punch_log rp sd True (QUICFingerprint (sd_ids sd)) ?n w = ((r, w1), l0)" by (metis prod.exhaust)
  then have q: "punch sd True (QUICFingerprint (sd_ids sd)) ?n w = (r, w1)"
    using punch_log_erase [of rp sd True "QUICFingerprint (sd_ids sd)" ?n w] by simp
  show ?thesis
  proof (cases r)
    case (Inr punched)
    let ?s = "tierSession (sd_network sd) p punched"
    obtain x w2 l1 where c: "climb_rungs_log rp sd ?s c None w1 = ((x, w2), l1)" by (metis prod.exhaust)
    then have "climb_rungs sd ?s c None w1 = (x, w2)" using climb_rungs_log_erase [of rp sd ?s c None w1] by simp
    then show ?thesis using p q Inr c by (cases x) (simp_all add: climbCascade_log_def climbCascade_def Let_def)
  qed (simp add: climbCascade_log_def climbCascade_def Let_def p q)
qed

lemma runPunchProbe_log_erase: "fst (runPunchProbe_log rp sd c w) = runPunchProbe sd c w"
  using punch_log_erase [of rp sd c zero_key 1 w]
  by (auto simp: runPunchProbe_log_def runPunchProbe_def split: prod.splits sum.splits)

lemma negotiateTierClient_log_erase: "fst (negotiateTierClient_log rp sd opened w) = negotiateTierClient sd opened w"
proof -
  have "fst (negotiateTierClient_body rp sd opened w) = negotiateTierClient sd opened w"
    unfolding negotiateTierClient_body_def negotiateTierClient_def Let_def
    by (auto split: prod.splits option.splits sum.splits
        dest: arg_cong [where f = fst] simp: climbCascade_log_erase)
  then show ?thesis by (cases "negotiateTierClient_body rp sd opened w") (simp add: negotiateTierClient_log_def)
qed

text \<open>The host. A failed punch is reported under WireGuard's name, whatever the cascade starts with.\<close>

function (sequential) serve_rungs_log :: "reporter \<Rightarrow> side \<Rightarrow> tier_session \<Rightarrow> Attempt \<Rightarrow> world
    \<Rightarrow> (host_result \<times> world) \<times> slog_record list" where
  "serve_rungs_log rp sd session pend w =
     (if ATier pend = TierLibp2p then ((HostFloor, w), [])
      else if Commit pend then ((HostStopped, w), [])
      else case x_send (MAttempt \<lparr>ATier = ATier pend, Commit = False\<rparr>) w of
        (False, w1) \<Rightarrow> ((HostStopped, w1), [])
      | (True, w1) \<Rightarrow>
          (case set_Serve (sd_set sd) (sd_plane sd) (ATier pend) session of
             (rung1, oc, Some standErr, _) \<Rightarrow>
               let l = logTierAttempt (sd_opts sd) (ATier pend) oc (rp_elapsed rp (ATier pend)) (Some (rp_text rp (DialError standErr))) in
               if oc = OutcomeSubstrateAbandoned then ((HostStopped, w1), l)
               else (case x_recv KAttempt w1 of
                       (Some (MAttempt a), w2) \<Rightarrow> (case serve_rungs_log rp sd session a w2 of (r, l') \<Rightarrow> (r, l @ l'))
                     | (_, w2) \<Rightarrow> ((HostStopped, w2), l))
           | (rung1, oc, None, _) \<Rightarrow>
               let l = logTierAttempt (sd_opts sd) (ATier pend) oc (rp_elapsed rp (ATier pend)) None @ logTierSelected (ATier pend) in
               (case serveRung sd (ATier pend) rung1 w1 of
                  (Committed, w2) \<Rightarrow> ((HostCommitted (ATier pend), w2), l)
                | (ServeError, w2) \<Rightarrow> ((HostStopped, w2), l)
                | (Next a, w2) \<Rightarrow> (case serve_rungs_log rp sd session a w2 of (r, l') \<Rightarrow> (r, l @ l')))))"
  by pat_completeness auto
termination
  by (relation "measure (\<lambda>(rp, sd, s, p, w). length (inb w))")
     (auto dest!: x_recv_shorter [OF sym] serveRung_shorter [OF sym] x_send_inb [OF sym])

declare serve_rungs_log.simps [simp del]

definition serveUpperTiers_log :: "reporter \<Rightarrow> side \<Rightarrow> Hello \<Rightarrow> world \<Rightarrow> (host_result \<times> world) \<times> slog_record list" where
  "serveUpperTiers_log rp sd peerHello w =
     (let attempts = EffectivePunchAttempts (punchAttemptsFor (sd_opts sd)) (PunchAttempts peerHello) in
      case punch_log rp sd False (QUICFingerprint (sd_ids sd)) attempts w of
        ((Inl e, w1), l0) \<Rightarrow>
          ((HostStopped, w1),
           l0 @ logTierAttempt (sd_opts sd) TierWireGuard OutcomePunchFailed (rp_elapsed rp TierWireGuard) (Some (rp_text rp (PunchError e))))
      | ((Inr punched, w1), l0) \<Rightarrow>
          (case receiveRungRequest w1 of
             (None, w2) \<Rightarrow> ((HostStopped, close_agent (pr_agent punched) w2), l0)
           | (Some a, w2) \<Rightarrow>
               (case serve_rungs_log rp sd (tierSession (sd_network sd) peerHello punched) a w2 of
                  ((HostCommitted i, w3), l1) \<Rightarrow> ((HostCommitted i, w3), l0 @ l1)
                | ((r, w3), l1) \<Rightarrow> ((r, close_agent (pr_agent punched) w3), l0 @ l1))))"

definition negotiateTierHost_log :: "reporter \<Rightarrow> side \<Rightarrow> world \<Rightarrow> (host_result \<times> world) \<times> slog_record list" where
  "negotiateTierHost_log rp sd w =
     (let local = hello (sd_set sd) (sd_ids sd) (sd_opts sd) in
      case exchangeHello local w of
        (Some (sel, peerHello), w1) \<Rightarrow>
          (let l0 = logTierNegotiated (sd_opts sd) local peerHello sel in
           if sel \<noteq> TierLibp2p then (case serveUpperTiers_log rp sd peerHello w1 of (r, l1) \<Rightarrow> (r, l0 @ l1))
           else if probeAgreed local peerHello then (case runPunchProbe_log rp sd False w1 of (w2, l1) \<Rightarrow> ((HostFloor, w2), l0 @ l1))
           else ((HostFloor, w1), l0))
      | (None, w1) \<Rightarrow> ((HostStopped, w1), []))"

lemma serve_rungs_log_erase: "fst (serve_rungs_log rp sd s p w) = serve_rungs sd s p w"
proof (induction rp sd s p w rule: serve_rungs_log.induct)
  case (1 rp sd s p w)
  note ih = "1.IH"
  show ?case
  proof (cases "ATier p = TierLibp2p \<or> Commit p")
    case True
    then show ?thesis by (subst serve_rungs_log.simps, subst serve_rungs.simps) auto
  next
    case False
    obtain b w1 where snd': "x_send (MAttempt \<lparr>ATier = ATier p, Commit = False\<rparr>) w = (b, w1)" by fastforce
    obtain rg oc err z where sv: "set_Serve (sd_set sd) (sd_plane sd) (ATier p) s = (rg, oc, err, z)" by (metis prod.exhaust)
    show ?thesis
    proof (cases b)
      case True
      then have sent: "x_send (MAttempt \<lparr>ATier = ATier p, Commit = False\<rparr>) w = (True, w1)" using snd' by simp
      note i = ih [OF _ _ sent [symmetric] refl sv [symmetric] refl refl]
      show ?thesis using False True i
        by (subst serve_rungs_log.simps, subst serve_rungs.simps)
          (auto simp: snd' sv Let_def split: prod.splits option.splits message.splits serve_result.splits)
    qed (use False snd' in \<open>subst serve_rungs_log.simps, subst serve_rungs.simps, simp\<close>)
  qed
qed

lemma serveUpperTiers_log_erase: "fst (serveUpperTiers_log rp sd p w) = serveUpperTiers sd p w"
proof -
  let ?n = "EffectivePunchAttempts (punchAttemptsFor (sd_opts sd)) (PunchAttempts p)"
  obtain r w1 l0 where p: "punch_log rp sd False (QUICFingerprint (sd_ids sd)) ?n w = ((r, w1), l0)" by (metis prod.exhaust)
  then have q: "punch sd False (QUICFingerprint (sd_ids sd)) ?n w = (r, w1)"
    using punch_log_erase [of rp sd False "QUICFingerprint (sd_ids sd)" ?n w] by simp
  show ?thesis
  proof (cases r)
    case (Inr punched)
    let ?s = "tierSession (sd_network sd) p punched"
    obtain a w2 where a: "receiveRungRequest w1 = (a, w2)" by fastforce
    show ?thesis
    proof (cases a)
      case (Some pend)
      obtain x w3 l1 where c: "serve_rungs_log rp sd ?s pend w2 = ((x, w3), l1)" by (metis prod.exhaust)
      then have "serve_rungs sd ?s pend w2 = (x, w3)" using serve_rungs_log_erase [of rp sd ?s pend w2] by simp
      then show ?thesis using p q Inr a Some c by (cases x) (simp_all add: serveUpperTiers_log_def serveUpperTiers_def Let_def)
    qed (use p q Inr a in \<open>simp add: serveUpperTiers_log_def serveUpperTiers_def Let_def\<close>)
  qed (simp add: serveUpperTiers_log_def serveUpperTiers_def Let_def p q)
qed

lemma negotiateTierHost_log_erase: "fst (negotiateTierHost_log rp sd w) = negotiateTierHost sd w"
  unfolding negotiateTierHost_log_def negotiateTierHost_def Let_def
  by (auto split: prod.splits option.splits dest: arg_cong [where f = fst]
      simp: serveUpperTiers_log_erase runPunchProbe_log_erase)

section \<open>What the log tells\<close>

text \<open>The tiers named by the records of one kind, in order.\<close>

definition named :: "string \<Rightarrow> slog_record list \<Rightarrow> string list" where
  "named msg l = concat (map (\<lambda>r. if sl_msg r = msg then (case map_of (sl_attrs r) ''tier'' of Some (VStr t) \<Rightarrow> [t] | _ \<Rightarrow> []) else []) l)"

abbreviation fallbacks :: "slog_record list \<Rightarrow> string list" where
  "fallbacks \<equiv> named ''tunnel_tier_fallback''"

abbreviation selections :: "slog_record list \<Rightarrow> string list" where
  "selections \<equiv> named ''tunnel_tier_selected''"

lemma named_append [simp]: "named m (l @ l') = named m l @ named m l'"
  by (simp add: named_def)

lemma named_Nil [simp]: "named m [] = []"
  by (simp add: named_def)

lemma named_other: "(\<And>r. r \<in> set l \<Longrightarrow> sl_msg r \<noteq> m) \<Longrightarrow> named m l = []"
  by (auto simp: named_def)

lemma attempt_named [simp]:
  "fallbacks (logTierAttempt opts i oc d c) = (if Succeeded oc then [] else [i])" "selections (logTierAttempt opts i oc d c) = []"
  by (simp_all add: logTierAttempt_def named_def Let_def)

lemma selected_named [simp]: "fallbacks (logTierSelected i) = []" "selections (logTierSelected i) = [i]"
  by (simp_all add: logTierSelected_def named_def)

lemma negotiated_named [simp]:
  "fallbacks (logTierNegotiated opts a b s) = []" "selections (logTierNegotiated opts a b s) = []"
  by (simp_all add: logTierNegotiated_def named_def)

text \<open>The punch speaks of itself only.\<close>

definition ladder_msg :: "string \<Rightarrow> bool" where
  "ladder_msg m \<longleftrightarrow> m \<in> {''tunnel_tier_fallback'', ''tunnel_tier_selected''}"

lemma logPunchProbe_msg: "r \<in> set (logPunchProbe opts ph c p e) \<Longrightarrow> \<not> ladder_msg (sl_msg r)"
  by (auto simp: logPunchProbe_def ladder_msg_def split: if_splits)

lemma logPunch_msg: "r \<in> set (logPunch dg pd role oc d e) \<Longrightarrow> \<not> ladder_msg (sl_msg r)"
  by (auto simp: logPunch_def ladder_msg_def Let_def)

lemma punchOnce_log_msg: "r \<in> set (snd (punchOnce_log rp sd c fp w)) \<Longrightarrow> \<not> ladder_msg (sl_msg r)"
  by (auto simp: punchOnce_log_def Let_def dest: logPunchProbe_msg logPunch_msg split: if_splits sum.splits punch_error.splits)

lemma punch_loop_log_msg: "r \<in> set (snd (punch_loop_log rp sd c fp n k w)) \<Longrightarrow> \<not> ladder_msg (sl_msg r)"
proof (induction rp sd c fp n k w rule: punch_loop_log.induct)
  case (1 rp sd c fp n k w)
  obtain x w1 l1 where p: "punchOnce_log rp sd c fp w = ((x, w1), l1)" by (metis prod.exhaust)
  note ih = "1.IH" [OF p [symmetric] refl]
  have l1: "r \<in> set l1 \<Longrightarrow> \<not> ladder_msg (sl_msg r)" using punchOnce_log_msg [of r rp sd c fp w] p by simp
  show ?case using "1.prems"
    by (subst (asm) punch_loop_log.simps)
      (auto simp: p Let_def log_retry_def ladder_msg_def dest: l1 ih split: if_splits prod.splits option.splits message.splits)
qed

lemma punch_named [simp]:
  "fallbacks (snd (punch_log rp sd c fp n w)) = []" "selections (snd (punch_log rp sd c fp n w)) = []"
  using punch_loop_log_msg [of _ rp sd c fp "if n = 0 then 1 else n" 1 w]
  by (auto intro!: named_other simp: punch_log_def ladder_msg_def)

lemma probe_named [simp]:
  "fallbacks (snd (runPunchProbe_log rp sd c w)) = []" "selections (snd (runPunchProbe_log rp sd c w)) = []"
proof -
  have "snd (runPunchProbe_log rp sd c w) = snd (punch_log rp sd c zero_key 1 w)"
    by (auto simp: runPunchProbe_log_def split: prod.splits sum.splits)
  then show "fallbacks (snd (runPunchProbe_log rp sd c w)) = []" "selections (snd (runPunchProbe_log rp sd c w)) = []" by simp_all
qed

text \<open>The climb: every rung tried before the one that came up is reported, and no other.\<close>

lemma climb_rungs_reported:
  "\<exists>pre post. c = pre @ post \<and> fallbacks (snd (climb_rungs_log rp sd s c e w)) = pre
     \<and> selections (snd (climb_rungs_log rp sd s c e w)) = []
     \<and> (case fst (fst (climb_rungs_log rp sd s c e w)) of
          RungUp i r \<Rightarrow> \<exists>post'. post = i # post'
        | RungCommitFailed i \<Rightarrow> \<exists>post'. post = i # post'
        | RequestFailed \<Rightarrow> pre \<noteq> []
        | Exhausted x \<Rightarrow> c \<noteq> [] \<longrightarrow> c ! 0 \<noteq> TierLibp2p \<longrightarrow> pre \<noteq> [])"
proof (induction rp sd s c e w rule: climb_rungs_log.induct)
  case (2 rp sd s i js e w)
  obtain b w1 where q: "requestRung i w = (b, w1)" by fastforce
  obtain rg oc err z where d: "set_Dial (sd_set sd) (sd_plane sd) i s = (rg, oc, err, z)" by (metis prod.exhaust)
  have oc: "Succeeded oc \<longleftrightarrow> err = None" using set_tier.dial_ok [where sa = "sd_set sd" and i = i and dp = "sd_plane sd" and s = s] d by (simp add: build_ok_def)
  consider "i = TierLibp2p" | "i \<noteq> TierLibp2p" "\<not> b" | x where "i \<noteq> TierLibp2p" b "err = Some x" "oc = OutcomeSubstrateAbandoned"
    | x where "i \<noteq> TierLibp2p" b "err = Some x" "oc \<noteq> OutcomeSubstrateAbandoned" | "i \<noteq> TierLibp2p" b "err = None" by blast
  then show ?case
  proof cases
    case (4 x)
    have r: "requestRung i w = (True, w1)" and d': "set_Dial (sd_set sd) (sd_plane sd) i s = (rg, oc, Some x, z)" using q d 4 by simp_all
    obtain res l' where rec: "climb_rungs_log rp sd s js (Some x) w1 = (res, l')" by fastforce
    have step: "climb_rungs_log rp sd s (i # js) e w
        = (res, logTierAttempt (sd_opts sd) i oc (rp_elapsed rp i) (Some (rp_text rp (DialError x))) @ l')"
      using 4 by (simp add: r d' rec)
    from "2.IH" [OF 4(1) r [symmetric] refl d' [symmetric] refl refl refl refl 4(4)] rec
    obtain pre post where pp: "js = pre @ post" "fallbacks l' = pre" "selections l' = []"
      and cs: "case fst res of RungUp i r \<Rightarrow> \<exists>post'. post = i # post' | RungCommitFailed i \<Rightarrow> \<exists>post'. post = i # post'
        | RequestFailed \<Rightarrow> pre \<noteq> [] | Exhausted y \<Rightarrow> js \<noteq> [] \<longrightarrow> js ! 0 \<noteq> TierLibp2p \<longrightarrow> pre \<noteq> []" by auto
    have "\<not> Succeeded oc" using oc 4(3) by simp
    then show ?thesis unfolding step using pp cs by (intro exI [of _ "i # pre"] exI [of _ post]) (cases "fst res"; simp)
  qed (use q d oc in \<open>auto simp: Let_def Succeeded_def split: prod.splits bool.splits\<close>)
qed simp

lemma climbCascade_reported:
  assumes "c \<noteq> []" "c ! 0 \<noteq> TierLibp2p" "climbCascade_log rp sd p c w = ((r, w'), l)"
  shows "selections l = [] \<and> (case r of
       Inr (i, rung1, a) \<Rightarrow> \<exists>post. c = fallbacks l @ i # post
     | Inl (RungCommitError i) \<Rightarrow> \<exists>post. c = fallbacks l @ i # post
     | Inl err \<Rightarrow> fallbacks l \<noteq> [])"
proof -
  let ?n = "EffectivePunchAttempts (punchAttemptsFor (sd_opts sd)) (PunchAttempts p)"
  obtain pr w1 l0 where pl: "punch_log rp sd True (QUICFingerprint (sd_ids sd)) ?n w = ((pr, w1), l0)" by (metis prod.exhaust)
  have l0: "fallbacks l0 = []" "selections l0 = []"
    using punch_named [of rp sd True "QUICFingerprint (sd_ids sd)" ?n w] pl by simp_all
  show ?thesis
  proof (cases pr)
    case (Inl e)
    then show ?thesis using assms(3) pl l0 by (auto simp: climbCascade_log_def Succeeded_def)
  next
    case (Inr punched)
    let ?s = "tierSession (sd_network sd) p punched"
    obtain x w2 l1 where cl: "climb_rungs_log rp sd ?s c None w1 = ((x, w2), l1)" by (metis prod.exhaust)
    obtain pre post where "c = pre @ post" "fallbacks l1 = pre" "selections l1 = []"
      "case x of RungUp i r \<Rightarrow> \<exists>post'. post = i # post' | RungCommitFailed i \<Rightarrow> \<exists>post'. post = i # post'
        | RequestFailed \<Rightarrow> pre \<noteq> [] | Exhausted y \<Rightarrow> pre \<noteq> []"
      using climb_rungs_reported [of c rp sd ?s None w1] assms(1,2) cl by (cases x) auto
    then show ?thesis using assms(3) pl cl l0 Inr
      by (cases x) (auto simp: climbCascade_log_def Let_def split: option.splits)
  qed
qed

text \<open>C3: no silent fallback. The client's log names the tier a session ended on exactly once, whatever the mode and
  whether or not an error is returned. If a tier above the floor carries the session, the warnings name
  exactly the tiers of the agreed cascade that were tried before it, in order; and a session that
  ends on the libp2p floor although an upper tier had been agreed has at least one warning saying so, with or
  without diagnostics. Reporting changes nothing: the result is that of the ladder without its log.\<close>

theorem no_silent_fallback:
  assumes x: "exchangeHello (hello (sd_set sd) (sd_ids sd) (sd_opts sd)) w = (Some (sel, peer), w1)"
    and c: "RequiredCascade (hello (sd_set sd) (sd_ids sd) (sd_opts sd)) peer = Inr c"
    and run: "negotiateTierClient_log rp sd True w = (((err, res), w'), l)"
  shows "selections l = [selected res]
    \<and> (tr_agent res \<noteq> None \<longrightarrow> (\<exists>post. c = fallbacks l @ selected res # post))
    \<and> (err = None \<longrightarrow> tr_agent res = None \<longrightarrow> c ! 0 \<noteq> TierLibp2p \<longrightarrow> fallbacks l \<noteq> [])
    \<and> negotiateTierClient sd True w = ((err, res), w')"
proof -
  let ?loc = "hello (sd_set sd) (sd_ids sd) (sd_opts sd)"
  obtain r l' where b: "negotiateTierClient_body rp sd True w = (r, l')" by fastforce
  then have r: "r = ((err, res), w')" and l: "l = l' @ logTierSelected (selected res)"
    using run by (auto simp: negotiateTierClient_log_def)
  have erase: "negotiateTierClient sd True w = ((err, res), w')"
    using negotiateTierClient_log_erase [of rp sd True w] run by simp
  show ?thesis
  proof (cases "c ! 0 = TierLibp2p")
    case True
    then have "fallbacks l' = []" "selections l' = []" "tr_agent res = None"
      using b x c r by (auto simp: negotiateTierClient_body_def Let_def libp2pFloor_def split: if_splits prod.splits)
    then show ?thesis using True l erase by simp
  next
    case False
    obtain cr w2 l1 where cl: "climbCascade_log rp sd peer c w1 = ((cr, w2), l1)" by (metis prod.exhaust)
    note rep = climbCascade_reported [OF RequiredCascade_nonempty [OF c] False cl]
    have l': "l' = logTierNegotiated (sd_opts sd) ?loc peer sel @ l1"
      using b x c False cl by (auto simp: negotiateTierClient_body_def Let_def split: sum.splits prod.splits)
    have res: "case cr of Inr (i, rung1, a) \<Rightarrow> err = None \<and> selected res = i \<and> tr_agent res \<noteq> None
        | Inl (RungCommitError i) \<Rightarrow> err \<noteq> None \<and> tr_agent res = None | Inl e \<Rightarrow> tr_agent res = None"
      using b x c False cl r
      by (auto simp: negotiateTierClient_body_def Let_def libp2pFloor_def split: sum.splits prod.splits client_error.splits if_splits)
    show ?thesis using rep res l l' erase by (cases cr) (auto split: client_error.splits prod.splits)
  qed
qed

definition sample_reporter :: reporter where
  "sample_reporter = \<lparr>rp_elapsed = (\<lambda>_. 7000000), rp_punch = (\<lambda>_. 0), rp_detail = (\<lambda>_. \<lparr>pd_local = [], pd_remote = [], pd_pair = None\<rparr>),
     rp_text = (\<lambda>_. ''failed''), rp_peer = ''peer''\<rparr>"

theorem no_silent_fallback_witness:
  "\<exists>w' l. negotiateTierClient_log sample_reporter (sample_side TunnelAuto) True sample_world
      = (((None, \<lparr>selected = TierQUIC, opener = Some ViaQUIC, tr_agent = Some 0, tr_probe = False\<rparr>), w'), l)
    \<and> selections l = [TierQUIC] \<and> fallbacks l = [TierWireGuard]"
proof -
  let ?sd = "sample_side TunnelAuto" and ?res = "\<lparr>selected = TierQUIC, opener = Some ViaQUIC, tr_agent = Some (0::nat), tr_probe = False\<rparr>"
  have x: "exchangeHello (side_hello ?sd) sample_world = (Some (TierWireGuard, side_hello ?sd),
      sample_world\<lparr>outb := [MHello (side_hello ?sd)], inb := tl (inb sample_world)\<rparr>)"
    using exchangeHello_swapped [OF sample_encodable, of sample_world "side_hello ?sd" "tl (inb sample_world)"]
    by (simp add: sample_world_def sample_RequiredCascade cascade_def)
  from sample_run obtain w' where r: "negotiateTierClient ?sd True sample_world = ((None, ?res), w')" by blast
  obtain y l where run0: "negotiateTierClient_log sample_reporter ?sd True sample_world = (y, l)" by fastforce
  then have run: "negotiateTierClient_log sample_reporter ?sd True sample_world = (((None, ?res), w'), l)"
    using negotiateTierClient_log_erase [of sample_reporter ?sd True sample_world] r by simp
  from no_silent_fallback [OF x sample_RequiredCascade run]
  obtain post where s: "selections l = [TierQUIC]" and c: "cascade = fallbacks l @ TierQUIC # post" by auto
  have "TierWireGuard \<noteq> TierQUIC" "TierLibp2p \<noteq> TierQUIC" by (simp_all add: TierWireGuard_def TierQUIC_def TierLibp2p_def)
  with c have "fallbacks l = [TierWireGuard]" by (auto simp: cascade_def Cons_eq_append_conv)
  then show ?thesis using run s by blast
qed

text \<open>The host announces every rung it begins to serve; the last one it announced is the one it committed.\<close>

lemma serve_rungs_selected:
  "fst (fst (serve_rungs_log rp sd s p w)) = HostCommitted t \<Longrightarrow> \<exists>ts. selections (snd (serve_rungs_log rp sd s p w)) = ts @ [t]"
proof (induction rp sd s p w rule: serve_rungs_log.induct)
  case (1 rp sd s p w)
  have up: "ATier p \<noteq> TierLibp2p" "\<not> Commit p" using "1.prems" by (subst (asm) serve_rungs_log.simps; auto split: if_splits)+
  obtain b w1 where snd': "x_send (MAttempt \<lparr>ATier = ATier p, Commit = False\<rparr>) w = (b, w1)" by fastforce
  have sent: "x_send (MAttempt \<lparr>ATier = ATier p, Commit = False\<rparr>) w = (True, w1)"
    using "1.prems" up snd' by (subst (asm) serve_rungs_log.simps) (auto split: bool.splits)
  obtain rg oc err z where sv: "set_Serve (sd_set sd) (sd_plane sd) (ATier p) s = (rg, oc, err, z)" by (metis prod.exhaust)
  note ih = "1.IH" [OF up sent [symmetric] refl sv [symmetric] refl refl]
  show ?case
  proof (cases err)
    case (Some e)
    obtain m w2 where rc: "x_recv KAttempt w1 = (m, w2)" by fastforce
    obtain a where a: "m = Some (MAttempt a)" and oc: "oc \<noteq> OutcomeSubstrateAbandoned"
      using "1.prems" up sent sv Some rc by (subst (asm) serve_rungs_log.simps)
        (auto simp: Let_def split: if_splits option.splits message.splits)
    have "fst (fst (serve_rungs_log rp sd s a w2)) = HostCommitted t"
      using "1.prems" up sent sv Some rc a oc by (subst (asm) serve_rungs_log.simps) (simp split: prod.splits)
    from ih(2) [OF Some refl oc rc [symmetric] a refl this] show ?thesis
      using up sent sv Some rc a oc by (subst serve_rungs_log.simps) (auto split: prod.splits)
  next
    case None
    obtain sr w2 where rr: "serveRung sd (ATier p) rg w1 = (sr, w2)" by fastforce
    show ?thesis
    proof (cases sr)
      case (Next a)
      have "fst (fst (serve_rungs_log rp sd s a w2)) = HostCommitted t"
        using "1.prems" up sent sv None rr Next by (subst (asm) serve_rungs_log.simps) (simp add: Let_def split: prod.splits)
      from ih(1) [OF None refl rr [symmetric] Next this] show ?thesis
        using up sent sv None rr Next by (subst serve_rungs_log.simps) (auto simp: Let_def split: prod.splits)
    next
      case Committed
      then show ?thesis using "1.prems" up sent sv None rr
        by (subst (asm) serve_rungs_log.simps, subst serve_rungs_log.simps) (simp add: Let_def)
    next
      case ServeError
      then show ?thesis using "1.prems" up sent sv None rr by (subst (asm) serve_rungs_log.simps) (simp add: Let_def)
    qed
  qed
qed

lemma negotiateTierHost_selected:
  assumes "negotiateTierHost_log rp sd w = ((HostCommitted t, w'), l)"
  shows "\<exists>ts. selections l = ts @ [t]"
proof -
  obtain x w1 where x: "exchangeHello (side_hello sd) w = (x, w1)" by fastforce
  obtain sel p l1 where s: "x = Some (sel, p)" and u: "serveUpperTiers_log rp sd p w1 = ((HostCommitted t, w'), l1)"
    and l: "l = logTierNegotiated (sd_opts sd) (side_hello sd) p sel @ l1"
    using assms x by (auto simp: negotiateTierHost_log_def Let_def split: option.splits prod.splits if_splits)
  let ?n = "EffectivePunchAttempts (punchAttemptsFor (sd_opts sd)) (PunchAttempts p)"
  obtain pr w2 l0 where pl: "punch_log rp sd False (QUICFingerprint (sd_ids sd)) ?n w1 = ((pr, w2), l0)" by (metis prod.exhaust)
  have l0: "selections l0 = []" using punch_named(2) [of rp sd False "QUICFingerprint (sd_ids sd)" ?n w1] pl by simp
  obtain punched where pr: "pr = Inr punched" using u pl by (cases pr) (auto simp: serveUpperTiers_log_def)
  obtain a w3 where a: "receiveRungRequest w2 = (a, w3)" by fastforce
  obtain pend where pend: "a = Some pend" using u pl pr a by (cases a) (auto simp: serveUpperTiers_log_def)
  let ?s = "tierSession (sd_network sd) p punched"
  obtain y w4 l2 where sr: "serve_rungs_log rp sd ?s pend w3 = ((y, w4), l2)" by (metis prod.exhaust)
  then have "y = HostCommitted t" "l1 = l0 @ l2"
    using u pl pr a pend by (cases y; auto simp: serveUpperTiers_log_def)+
  then show ?thesis using serve_rungs_selected [of rp sd ?s pend w3 t] sr l l0 by auto
qed

lemma negotiateTierClient_selected:
  assumes "negotiateTierClient_log rp sd opened w = (((err, res), w'), l)"
  shows "\<exists>ts. selections l = ts @ [selected res]"
proof -
  obtain r l' where "negotiateTierClient_body rp sd opened w = (r, l')" by fastforce
  then show ?thesis using assms by (auto simp: negotiateTierClient_log_def)
qed

text \<open>C29: the two logs tell one story. For any two sides there is one conversation in which each reads exactly what the
  other wrote; whatever else the two worlds hold, at its end (a background punch probe included) the client runs on a tier above the floor exactly when the
  host has committed that tier, and then the last tier each side's log announces is that tier.\<close>

theorem logs_name_the_same_tier:
  assumes "encodable (MHello (side_hello cs))" "encodable (MHello (side_hello hs))"
    and "punch_encodable cs (QUICFingerprint (sd_ids cs))" "punch_encodable hs (QUICFingerprint (sd_ids hs))"
    and "punch_encodable cs zero_key" "punch_encodable hs zero_key"
  shows "\<exists>mc mh. \<forall>wc wh rc rh. \<not> broken wc \<longrightarrow> next_agent wc = 0 \<longrightarrow> inb wc = mh \<longrightarrow>
      \<not> broken wh \<longrightarrow> next_agent wh = 0 \<longrightarrow> inb wh = mc \<longrightarrow>
      (\<exists>err res wc' lc hr wh' lh. negotiateTierClient_log rc cs True wc = (((err, res), wc'), lc) \<and> outb (await_probe cs res wc') = outb wc @ mc
         \<and> negotiateTierHost_log rh hs wh = ((hr, wh'), lh) \<and> outb wh' = outb wh @ mh
         \<and> (\<forall>t. (err = None \<and> selected res = t \<and> tr_agent res \<noteq> None) \<longleftrightarrow> hr = HostCommitted t)
         \<and> (\<forall>t. hr = HostCommitted t \<longrightarrow> last (selections lc) = t \<and> last (selections lh) = t))"
proof -
  obtain mc mh err res hr where c: "ends0 (client_negotiation cs True) mh (err, res) mc"
    and h: "ends0 (negotiateTierHost hs) mc hr mh"
    and agree: "\<And>t. (err = None \<and> selected res = t \<and> tr_agent res \<noteq> None) \<longleftrightarrow> hr = HostCommitted t"
  proof -
    from ladder_conversation [OF assms] obtain mc mh r hr where "ends0 (client_negotiation cs True) mh r mc"
      "ends0 (negotiateTierHost hs) mc hr mh" "sides_agree r hr" by (elim exE conjE)
    then show ?thesis using that by (cases r) (auto simp: sides_agree_def)
  qed
  show ?thesis
  proof (rule exI [of _ mc], rule exI [of _ mh], intro allI impI)
    fix wc wh :: world and rc rh :: reporter
    assume w: "\<not> broken wc" "next_agent wc = 0" "inb wc = mh" "\<not> broken wh" "next_agent wh = 0" "inb wh = mc"
    obtain wc' where c': "negotiateTierClient cs True wc = ((err, res), wc')" "outb (await_probe cs res wc') = outb wc @ mc"
    proof -
      obtain wd where d: "client_negotiation cs True wc = ((err, res), wd)" "outb wd = outb wc @ mc" using ends0E [OF c w(1-3)] by blast
      obtain e1 r1 wx where n: "negotiateTierClient cs True wc = ((e1, r1), wx)" by (metis surj_pair)
      show ?thesis using d by (intro that [of wx]) (auto simp: client_negotiation_def n)
    qed
    obtain wh' where h': "negotiateTierHost hs wh = (hr, wh')" "outb wh' = outb wh @ mh"
      using ends0E [OF h w(4-6)] by blast
    obtain lc where lc: "negotiateTierClient_log rc cs True wc = (((err, res), wc'), lc)"
      using negotiateTierClient_log_erase [of rc cs True wc] c'(1) by (cases "negotiateTierClient_log rc cs True wc") auto
    obtain lh where lh: "negotiateTierHost_log rh hs wh = ((hr, wh'), lh)"
      using negotiateTierHost_log_erase [of rh hs wh] h'(1) by (cases "negotiateTierHost_log rh hs wh") auto
    have "last (selections lc) = t \<and> last (selections lh) = t" if "hr = HostCommitted t" for t
      using negotiateTierClient_selected [OF lc] negotiateTierHost_selected [of rh hs wh t wh' lh] lh that agree [of t] by auto
    then show "\<exists>err res wc' lc hr wh' lh. negotiateTierClient_log rc cs True wc = (((err, res), wc'), lc) \<and> outb (await_probe cs res wc') = outb wc @ mc
         \<and> negotiateTierHost_log rh hs wh = ((hr, wh'), lh) \<and> outb wh' = outb wh @ mh
         \<and> (\<forall>t. (err = None \<and> selected res = t \<and> tr_agent res \<noteq> None) \<longleftrightarrow> hr = HostCommitted t)
         \<and> (\<forall>t. hr = HostCommitted t \<longrightarrow> last (selections lc) = t \<and> last (selections lh) = t)"
      using lc lh c'(2) h'(2) agree by blast
  qed
qed

definition fresh_world :: "message list \<Rightarrow> world" where
  "fresh_world m = \<lparr>inb = m, outb = [], broken = False, next_agent = 0, open_agents = [], open_rungs = []\<rparr>"

theorem logs_name_the_same_tier_witness:
  "\<exists>mc mh err res wc' lc hr wh' lh.
      negotiateTierClient_log sample_reporter (sample_side TunnelQUIC) True (fresh_world mh) = (((err, res), wc'), lc)
    \<and> negotiateTierHost_log sample_reporter (sample_side TunnelAuto) (fresh_world mc) = ((hr, wh'), lh)
    \<and> outb (await_probe (sample_side TunnelQUIC) res wc') = mc \<and> outb wh' = mh
    \<and> ((\<forall>t. hr \<noteq> HostCommitted t) \<or> hr = HostCommitted (last (selections lc)) \<and> last (selections lh) = last (selections lc))"
proof -
  let ?c = "sample_side TunnelQUIC" and ?h = "sample_side TunnelAuto" and ?r = sample_reporter
  obtain mc mh where all: "\<forall>wc wh rc rh. \<not> broken wc \<longrightarrow> next_agent wc = 0 \<longrightarrow> inb wc = mh \<longrightarrow>
      \<not> broken wh \<longrightarrow> next_agent wh = 0 \<longrightarrow> inb wh = mc \<longrightarrow>
      (\<exists>err res wc' lc hr wh' lh. negotiateTierClient_log rc ?c True wc = (((err, res), wc'), lc) \<and> outb (await_probe ?c res wc') = outb wc @ mc
         \<and> negotiateTierHost_log rh ?h wh = ((hr, wh'), lh) \<and> outb wh' = outb wh @ mh
         \<and> (\<forall>t. (err = None \<and> selected res = t \<and> tr_agent res \<noteq> None) \<longleftrightarrow> hr = HostCommitted t)
         \<and> (\<forall>t. hr = HostCommitted t \<longrightarrow> last (selections lc) = t \<and> last (selections lh) = t))"
    using logs_name_the_same_tier [where cs = ?c and hs = ?h, OF sample_encodable sample_encodable sample_punch_encodable(1)
      sample_punch_encodable(1) sample_punch_encodable(2) sample_punch_encodable(2)] by (elim exE) (rule that, assumption)
  have "\<not> broken (fresh_world m)" "next_agent (fresh_world m) = 0" "inb (fresh_world m) = m" "outb (fresh_world m) @ n = n" for m n
    by (simp_all add: fresh_world_def)
  note f = this
  from all [rule_format, OF f(1-3) f(1-3), of ?r ?r] show ?thesis unfolding f(4) by (elim exE conjE) (intro exI conjI, assumption+, blast)
qed

end
