(* ===== verification/Forwarding.thy ===== *)
theory Forwarding
  imports Udp_Flow Tcp_Pipe Gostrings Slog
begin

text \<open>
  The forwarders around the copies: \<^verbatim>\<open>transport.Forwarder\<close> and \<^verbatim>\<open>transport.ConnStream\<close>, the two \<^verbatim>\<open>Listen\<close> methods, the
  goroutines of \<^verbatim>\<open>pipeDatagrams\<close> (\<^verbatim>\<open>udp/pipe.go\<close>), the reaper of the flow table (\<^verbatim>\<open>udp/flow.go\<close>), the accept
  loop with its connection handlers (\<^verbatim>\<open>tcp/transport.go\<close>) and the progress reports (\<^verbatim>\<open>tcp/pipe.go\<close>). Where goroutines
  run side by side, an action names the goroutine and what its next operation answered. Of a connection and a stream
  is used what their contracts promise: once closed or reset, every operation on them fails.
\<close>

section \<open>Forwarder and stream adapter\<close>

datatype net_addr = TCPAddr int | UDPAddr int | OtherAddr

record 's Forwarder =
  fw_Addr :: net_addr
  fw_serve :: "'s \<Rightarrow> 's"
  fw_closeFn :: "'s \<Rightarrow> io_error option \<times> 's"

definition NewForwarder :: "net_addr \<Rightarrow> ('s \<Rightarrow> 's) \<Rightarrow> ('s \<Rightarrow> io_error option \<times> 's) \<Rightarrow> 's Forwarder" where
  "NewForwarder addr serve closeFn = \<lparr>fw_Addr = addr, fw_serve = serve, fw_closeFn = closeFn\<rparr>"

definition fw_Serve :: "'s Forwarder \<Rightarrow> 's \<Rightarrow> 's" where
  "fw_Serve f s = fw_serve f s"

definition fw_Close :: "'s Forwarder \<Rightarrow> 's \<Rightarrow> io_error option \<times> 's" where
  "fw_Close f s = fw_closeFn f s"

definition Port :: "'s Forwarder \<Rightarrow> int" where
  "Port f = (case fw_Addr f of TCPAddr p \<Rightarrow> p | UDPAddr p \<Rightarrow> p | OtherAddr \<Rightarrow> 0)"

text \<open>A \<^verbatim>\<open>net.Conn\<close> as far as the adapter looks: its \<^verbatim>\<open>Close\<close>, and its \<^verbatim>\<open>CloseWrite\<close> when it has one.\<close>

record 'c conn_ops =
  co_Close :: "'c \<Rightarrow> io_error option \<times> 'c"
  co_CloseWrite :: "('c \<Rightarrow> io_error option \<times> 'c) option"

definition ConnStream_CloseWrite :: "'c conn_ops \<Rightarrow> 'c \<Rightarrow> io_error option \<times> 'c" where
  "ConnStream_CloseWrite ops c = (case co_CloseWrite ops of Some cw \<Rightarrow> cw c | None \<Rightarrow> co_Close ops c)"

definition ConnStream_Reset :: "'c conn_ops \<Rightarrow> 'c \<Rightarrow> io_error option \<times> 'c" where
  "ConnStream_Reset ops c = co_Close ops c"

section \<open>Listening\<close>

text \<open>\<^verbatim>\<open>net.Listen\<close> and \<^verbatim>\<open>net.ListenPacket\<close> are the argument \<open>listen\<close>: network, address, answer. The port is printed in
  decimal.\<close>

definition int_string :: "int \<Rightarrow> string" where
  "int_string i = (if i < 0 then ''-'' @ decimal (nat (- i)) else decimal (nat i))"

definition tcp_Listen :: "(string \<Rightarrow> string \<Rightarrow> io_error + net_addr) \<Rightarrow> ('s \<Rightarrow> 's) \<Rightarrow> ('s \<Rightarrow> io_error option \<times> 's) \<Rightarrow> int
    \<Rightarrow> io_error + 's Forwarder" where
  "tcp_Listen listen acceptLoop closeListener localPort =
     rbind (listen ''tcp'' (''localhost:'' @ int_string localPort)) (\<lambda>addr. Inr (NewForwarder addr acceptLoop closeListener))"

definition udp_Listen :: "(string \<Rightarrow> string \<Rightarrow> io_error + net_addr) \<Rightarrow> ('s \<Rightarrow> 's) \<Rightarrow> ('s \<Rightarrow> io_error option \<times> 's) \<Rightarrow> int
    \<Rightarrow> io_error + 's Forwarder" where
  "udp_Listen listen serve closeConn localPort =
     rbind (listen ''udp'' (''localhost:'' @ int_string localPort)) (\<lambda>addr. Inr (NewForwarder addr serve closeConn))"

text \<open>\<^verbatim>\<open>Forward\<close> of either transport is its pipe.\<close>

definition tcp_Forward ::
  "bool \<Rightarrow> bool \<Rightarrow> bool \<Rightarrow> 'a writer \<Rightarrow> reads \<Rightarrow> 'a \<Rightarrow> 'b writer \<Rightarrow> reads \<Rightarrow> 'b \<Rightarrow> ('a end_state \<times> 'b end_state) option" where
  "tcp_Forward diagnostic halfS halfL ws fromL s wl fromS l = pipe diagnostic halfS halfL ws fromL s wl fromS l"

section \<open>Both directions of a UDP flow on the host\<close>

datatype up_state = UpRead | UpWrite "byte list" | UpClose | UpDone
datatype down_state = DownRead | DownWrite "byte list" | DownReset | DownDone

record pipe_sys =
  pp_up :: up_state
  pp_down :: down_state
  pp_conn_closed :: bool
  pp_stream_reset :: bool
  pp_to_conn :: "byte list list"
  pp_to_stream :: "byte list list"

definition pipeDatagrams :: pipe_sys where
  "pipeDatagrams = \<lparr>pp_up = UpRead, pp_down = DownRead, pp_conn_closed = False, pp_stream_reset = False,
     pp_to_conn = [], pp_to_stream = []\<rparr>"

datatype pipe_action = UpGot "byte list" | UpReadErr | UpWrote | UpWriteErr | UpCloses
  | DownGot "byte list" | DownReadErr | DownWrote | DownWriteErr | DownResets | StreamCut

text \<open>\<open>StreamCut\<close>: the stream is reset from elsewhere, by its peer or by the host's own teardown.\<close>

fun pipe_act :: "pipe_action \<Rightarrow> pipe_sys \<Rightarrow> pipe_sys option" where
  "pipe_act (UpGot d) s = (if pp_up s = UpRead \<and> \<not> pp_stream_reset s then Some (s\<lparr>pp_up := UpWrite d\<rparr>) else None)"
| "pipe_act UpReadErr s = (if pp_up s = UpRead then Some (s\<lparr>pp_up := UpClose\<rparr>) else None)"
| "pipe_act UpWrote s =
     (case pp_up s of
        UpWrite d \<Rightarrow> if pp_conn_closed s then None else Some (s\<lparr>pp_up := UpRead, pp_to_conn := pp_to_conn s @ [d]\<rparr>)
      | _ \<Rightarrow> None)"
| "pipe_act UpWriteErr s = (case pp_up s of UpWrite d \<Rightarrow> Some (s\<lparr>pp_up := UpClose\<rparr>) | _ \<Rightarrow> None)"
| "pipe_act UpCloses s = (if pp_up s = UpClose then Some (s\<lparr>pp_up := UpDone, pp_conn_closed := True\<rparr>) else None)"
| "pipe_act (DownGot d) s =
     (if pp_down s = DownRead \<and> \<not> pp_conn_closed s \<and> length d \<le> maxDatagramSize then Some (s\<lparr>pp_down := DownWrite d\<rparr>) else None)"
| "pipe_act DownReadErr s = (if pp_down s = DownRead then Some (s\<lparr>pp_down := DownReset\<rparr>) else None)"
| "pipe_act DownWrote s =
     (case pp_down s of
        DownWrite d \<Rightarrow> if pp_stream_reset s then None else Some (s\<lparr>pp_down := DownRead, pp_to_stream := pp_to_stream s @ [d]\<rparr>)
      | _ \<Rightarrow> None)"
| "pipe_act DownWriteErr s = (case pp_down s of DownWrite d \<Rightarrow> Some (s\<lparr>pp_down := DownReset\<rparr>) | _ \<Rightarrow> None)"
| "pipe_act DownResets s = (if pp_down s = DownReset then Some (s\<lparr>pp_down := DownDone, pp_stream_reset := True\<rparr>) else None)"
| "pipe_act StreamCut s = (if pp_stream_reset s then None else Some (s\<lparr>pp_stream_reset := True\<rparr>))"

text \<open>\<^verbatim>\<open>wg.Wait\<close>: the pipe returns when both goroutines have.\<close>

definition pipe_returned :: "pipe_sys \<Rightarrow> bool" where
  "pipe_returned s \<longleftrightarrow> pp_up s = UpDone \<and> pp_down s = DownDone"

definition pipe_inv :: "pipe_sys \<Rightarrow> bool" where
  "pipe_inv s \<longleftrightarrow> pp_conn_closed s = (pp_up s = UpDone) \<and> (pp_down s = DownDone \<longrightarrow> pp_stream_reset s)"

definition one_ended :: "pipe_sys \<Rightarrow> bool" where
  "one_ended s \<longleftrightarrow> pp_up s = UpDone \<or> pp_down s = DownDone"

lemma pipe_inv_act: "pipe_inv s \<Longrightarrow> pipe_act a s = Some s' \<Longrightarrow> pipe_inv s'"
  by (cases a) (auto simp: pipe_inv_def split: if_splits up_state.splits down_state.splits)

text \<open>Steps that need nobody outside. A read fails of itself only once its end is closed or reset. A send on the local UDP
  socket returns at once; a write to the stream is subject to the peer's flow control: it fails of itself once the stream is
  reset, and \<open>takes\<close> says that it also returns before, because the peer keeps reading or its deadline passes.\<close>

fun pipe_own :: "bool \<Rightarrow> pipe_action \<Rightarrow> pipe_sys \<Rightarrow> bool" where
  "pipe_own takes (UpGot d) s = False"
| "pipe_own takes UpReadErr s = pp_stream_reset s"
| "pipe_own takes (DownGot d) s = False"
| "pipe_own takes DownReadErr s = pp_conn_closed s"
| "pipe_own takes DownWrote s = takes"
| "pipe_own takes DownWriteErr s = (takes \<or> pp_stream_reset s)"
| "pipe_own takes StreamCut s = False"
| "pipe_own takes _ s = True"

text \<open>The rank of a pipe that is ending: a reset stream takes no more writes, a closed socket gives no more reads.\<close>

fun up_rank :: "up_state \<Rightarrow> nat" where
  "up_rank (UpWrite d) = 3" | "up_rank UpRead = 2" | "up_rank UpClose = 1" | "up_rank UpDone = 0"

fun down_rank :: "bool \<Rightarrow> bool \<Rightarrow> down_state \<Rightarrow> nat" where
  "down_rank rs closed (DownWrite d) = (if rs then 2 else 4)"
| "down_rank rs closed DownRead = (if rs \<and> closed then 2 else 3)"
| "down_rank rs closed DownReset = (if rs then 1 else 2)"
| "down_rank rs closed DownDone = 0"

definition pipe_rank :: "pipe_sys \<Rightarrow> nat" where
  "pipe_rank s = up_rank (pp_up s) + down_rank (pp_stream_reset s) (pp_conn_closed s) (pp_down s)"

abbreviation pipe_ending :: "bool \<Rightarrow> pipe_sys \<Rightarrow> bool" where
  "pipe_ending takes s \<equiv> pp_stream_reset s \<or> takes \<and> one_ended s"

lemma pipe_nearer:
  assumes "pipe_inv s" "pipe_ending takes s" "pipe_act a s = Some s'"
  shows "pipe_ending takes s' \<and> pipe_rank s' < pipe_rank s"
  using assms
  by (cases a; cases "pp_down s") (auto simp: pipe_inv_def one_ended_def pipe_rank_def split: if_splits up_state.splits)

lemma pipe_rank_bound: "pipe_inv s \<Longrightarrow> pipe_ending takes s \<Longrightarrow> pipe_rank s \<le> 6"
  by (cases "pp_up s"; cases "pp_down s") (auto simp: pipe_inv_def one_ended_def pipe_rank_def)

lemma pipe_not_stuck:
  assumes "pipe_inv s" "pipe_ending takes s" "\<not> pipe_returned s"
  shows "\<exists>a. pipe_own takes a s \<and> pipe_act a s \<noteq> None"
proof (cases "pp_up s = UpDone")
  case True
  then have "pp_conn_closed s" "pp_down s \<noteq> DownDone" using assms by (auto simp: pipe_inv_def pipe_returned_def)
  then have "\<exists>a \<in> {DownReadErr, DownWriteErr, DownResets}. pipe_own takes a s \<and> pipe_act a s \<noteq> None"
    using assms(2) by (cases "pp_down s") auto
  then show ?thesis by blast
next
  case False
  then have "pp_stream_reset s" using assms by (auto simp: pipe_inv_def one_ended_def)
  then have "\<exists>a \<in> {UpReadErr, UpWriteErr, UpCloses}. pipe_own takes a s \<and> pipe_act a s \<noteq> None" using False by (cases "pp_up s") auto
  then show ?thesis by blast
qed

interpretation udp_pipe: draining pipe_act pipe_inv "pipe_ending takes" pipe_returned "pipe_own takes" pipe_rank
  for takes
proof
  fix s s' a
  show "pipe_inv s'" if "pipe_inv s" "pipe_act a s = Some s'" using that by (rule pipe_inv_act)
  show "pipe_ending takes s' \<and> pipe_rank s' < pipe_rank s"
    if "pipe_inv s" "pipe_ending takes s" "pipe_own takes a s" "pipe_act a s = Some s'" using that(1,2,4) by (rule pipe_nearer)
  show "pipe_ending takes s' \<and> pipe_rank s' < pipe_rank s" if "pipe_inv s" "pipe_ending takes s" "pipe_act a s = Some s'"
    using that by (rule pipe_nearer)
  show "\<exists>a. pipe_own takes a s \<and> pipe_act a s \<noteq> None" if "pipe_inv s" "pipe_ending takes s" "\<not> pipe_returned s"
    using that by (rule pipe_not_stuck)
qed

lemma pipe_inv_start: "pipe_inv pipeDatagrams"
  by (simp add: pipe_inv_def pipeDatagrams_def)

text \<open>C23: when the two directions of a UDP flow end together, and when they do not. Whatever the schedule, once the stream
  is reset, or once one direction has ended provided a write to the stream returns (\<open>takes\<close>), at most six more steps
  happen, and as long as the pipe has not returned one is possible that needs neither the stream's peer nor the local
  service; when the pipe has returned, the local connection is closed and the stream is reset. Without that proviso
  the end of one direction does not release the other: the direction that reads the stream closes only the local connection
  when it ends, so one that is writing any datagram to a stream whose peer does not read stays there, with no step
  left to either.\<close>

theorem pipeDatagrams_ends_together:
  assumes "run_acts pipe_act ls0 pipeDatagrams = Some s"
  shows "(\<forall>takes. pp_stream_reset s \<or> takes \<and> one_ended s \<longrightarrow> (\<forall>ls s'. run_acts pipe_act ls s = Some s' \<longrightarrow>
        length ls \<le> 6 \<and> (pipe_returned s' \<or> (\<exists>a. pipe_own takes a s' \<and> pipe_act a s' \<noteq> None))))
    \<and> (pipe_returned s \<longrightarrow> pp_conn_closed s \<and> pp_stream_reset s)
    \<and> (pp_down s = DownWrite d \<longrightarrow> pp_up s = UpRead \<longrightarrow> \<not> pp_stream_reset s \<longrightarrow>
        (\<exists>s'. run_acts pipe_act [UpReadErr, UpCloses] s = Some s' \<and> one_ended s' \<and> pp_conn_closed s' \<and> \<not> pipe_returned s'
          \<and> (\<nexists>a. pipe_own False a s' \<and> pipe_act a s' \<noteq> None)))"
proof (intro conjI allI impI)
  have i: "pipe_inv s" by (rule udp_pipe.inv_run [OF assms pipe_inv_start])
  fix takes ls s'
  assume c: "pipe_ending takes s" and r: "run_acts pipe_act ls s = Some s'"
  show "length ls \<le> 6" using udp_pipe.drains [OF i c r] pipe_rank_bound [OF i c] by auto
  show "pipe_returned s' \<or> (\<exists>a. pipe_own takes a s' \<and> pipe_act a s' \<noteq> None)" using udp_pipe.drains [OF i c r] by blast
next
  assume "pipe_returned s"
  then show "pp_conn_closed s" "pp_stream_reset s"
    using udp_pipe.inv_run [OF assms pipe_inv_start] by (auto simp: pipe_inv_def pipe_returned_def)
next
  assume b: "pp_down s = DownWrite d" "pp_up s = UpRead" "\<not> pp_stream_reset s"
  let ?s = "s\<lparr>pp_up := UpDone, pp_conn_closed := True\<rparr>"
  have "\<not> (pipe_own False a ?s \<and> pipe_act a ?s \<noteq> None)" for a using b by (cases a) auto
  then show "\<exists>s'. run_acts pipe_act [UpReadErr, UpCloses] s = Some s' \<and> one_ended s' \<and> pp_conn_closed s' \<and> \<not> pipe_returned s'
      \<and> (\<nexists>a. pipe_own False a s' \<and> pipe_act a s' \<noteq> None)"
    using b by (intro exI [of _ ?s]) (simp add: one_ended_def pipe_returned_def)
qed

theorem pipeDatagrams_ends_together_witness:
  "\<exists>s. run_acts pipe_act [UpGot [1], DownGot [2], UpWrote] pipeDatagrams = Some s \<and> pp_to_conn s = [[1]]
    \<and> (\<exists>s'. run_acts pipe_act [UpReadErr, UpCloses] s = Some s' \<and> one_ended s' \<and> (\<nexists>a. pipe_own False a s' \<and> pipe_act a s' \<noteq> None)
         \<and> (\<exists>a. pipe_own True a s' \<and> pipe_act a s' \<noteq> None)
         \<and> run_acts pipe_act [DownWrote, DownReadErr, DownResets] s' \<noteq> None)"
proof -
  let ?ls = "[UpGot [1], DownGot [2], UpWrote]"
  have "\<exists>s. run_acts pipe_act ?ls pipeDatagrams = Some s \<and> pp_to_conn s = [[1]] \<and> pp_down s = DownWrite [2] \<and> pp_up s = UpRead
    \<and> \<not> pp_stream_reset s" by (simp add: pipeDatagrams_def maxDatagramSize_def)
  then obtain s where s: "run_acts pipe_act ?ls pipeDatagrams = Some s" and p: "pp_to_conn s = [[1]]" "pp_down s = DownWrite [2]"
    "pp_up s = UpRead" "\<not> pp_stream_reset s" by blast
  obtain s' where r: "run_acts pipe_act [UpReadErr, UpCloses] s = Some s'" and e: "one_ended s'" "\<not> pipe_returned s'"
    "\<nexists>a. pipe_own False a s' \<and> pipe_act a s' \<noteq> None" using pipeDatagrams_ends_together [OF s] p by blast
  have s': "s' = s\<lparr>pp_up := UpDone, pp_conn_closed := True\<rparr>" using r p by (simp split: if_splits)
  have "run_acts pipe_act (?ls @ [UpReadErr, UpCloses]) pipeDatagrams = Some s'" unfolding run_acts_append [OF s] by (rule r)
  note t = conjunct1 [OF pipeDatagrams_ends_together [OF this], rule_format, where takes = True and ls = "[]" and s' = s']
  have "\<exists>a. pipe_own True a s' \<and> pipe_act a s' \<noteq> None" using t e(1,2) by simp
  then show ?thesis using s p r e s' by (intro exI [of _ s]) auto
qed

section \<open>The accept loop and its handlers\<close>

text \<open>\<^verbatim>\<open>acceptLocalConns\<close> with one goroutine per accepted connection. A handler runs \<^verbatim>\<open>handleLocalConn\<close> call by call;
  the loop accepts until \<^verbatim>\<open>Accept\<close> answers \<^verbatim>\<open>net.ErrClosed\<close>, which it does from the moment the listener is closed, and
  then waits for the handlers (the deferred \<^verbatim>\<open>wg.Wait\<close>).\<close>

datatype handler_at = AtOpen | AtPipe | AtCloseStream | AtCloseConn | AtEnd

record conn_handler =
  ch_at :: handler_at
  ch_opened :: bool
  ch_calls :: "conn_call list"

datatype accept_at = Accepting | Draining | ServeReturned

record tcp_sys =
  ts_loop :: accept_at
  ts_listener_closed :: bool
  ts_handlers :: "conn_handler list"

definition tcp_serve :: tcp_sys where
  "tcp_serve = \<lparr>ts_loop = Accepting, ts_listener_closed = False, ts_handlers = []\<rparr>"

datatype tcp_action = AcceptConn | AcceptErr | AcceptClosed | ListenerClosed | StreamOpened nat | OpenFails nat | PipeReturned nat
  | StreamCloses nat | ConnCloses nat | WaitReturns

fun handler_act :: "tcp_action \<Rightarrow> conn_handler \<Rightarrow> conn_handler option" where
  "handler_act (StreamOpened i) h =
     (if ch_at h = AtOpen then Some (h\<lparr>ch_at := AtPipe, ch_opened := True, ch_calls := ch_calls h @ [OpenTunnel]\<rparr>) else None)"
| "handler_act (OpenFails i) h =
     (if ch_at h = AtOpen then Some (h\<lparr>ch_at := AtCloseConn, ch_calls := ch_calls h @ [OpenTunnel]\<rparr>) else None)"
| "handler_act (PipeReturned i) h =
     (if ch_at h = AtPipe then Some (h\<lparr>ch_at := AtCloseStream, ch_calls := ch_calls h @ [RunPipe]\<rparr>) else None)"
| "handler_act (StreamCloses i) h =
     (if ch_at h = AtCloseStream then Some (h\<lparr>ch_at := AtCloseConn, ch_calls := ch_calls h @ [CloseStream]\<rparr>) else None)"
| "handler_act (ConnCloses i) h =
     (if ch_at h = AtCloseConn then Some (h\<lparr>ch_at := AtEnd, ch_calls := ch_calls h @ [CloseConn]\<rparr>) else None)"
| "handler_act _ h = None"

fun acting_handler :: "tcp_action \<Rightarrow> nat option" where
  "acting_handler (StreamOpened i) = Some i"
| "acting_handler (OpenFails i) = Some i"
| "acting_handler (PipeReturned i) = Some i"
| "acting_handler (StreamCloses i) = Some i"
| "acting_handler (ConnCloses i) = Some i"
| "acting_handler _ = None"

definition accept_act :: "tcp_action \<Rightarrow> tcp_sys \<Rightarrow> tcp_sys option" where
  "accept_act a s =
     (case a of
        AcceptConn \<Rightarrow>
          if ts_loop s = Accepting \<and> \<not> ts_listener_closed s
          then Some (s\<lparr>ts_handlers := ts_handlers s @ [\<lparr>ch_at = AtOpen, ch_opened = False, ch_calls = []\<rparr>]\<rparr>) else None
      | AcceptErr \<Rightarrow> if ts_loop s = Accepting \<and> \<not> ts_listener_closed s then Some s else None
      | AcceptClosed \<Rightarrow> if ts_loop s = Accepting \<and> ts_listener_closed s then Some (s\<lparr>ts_loop := Draining\<rparr>) else None
      | ListenerClosed \<Rightarrow> if ts_listener_closed s then None else Some (s\<lparr>ts_listener_closed := True\<rparr>)
      | WaitReturns \<Rightarrow>
          if ts_loop s = Draining \<and> (\<forall>h \<in> set (ts_handlers s). ch_at h = AtEnd) then Some (s\<lparr>ts_loop := ServeReturned\<rparr>) else None
      | _ \<Rightarrow> None)"

definition tcp_act :: "tcp_action \<Rightarrow> tcp_sys \<Rightarrow> tcp_sys option" where
  "tcp_act a s =
     (case acting_handler a of
        None \<Rightarrow> accept_act a s
      | Some i \<Rightarrow>
          if i < length (ts_handlers s)
          then map_option (\<lambda>h. s\<lparr>ts_handlers := (ts_handlers s)[i := h]\<rparr>) (handler_act a (ts_handlers s ! i))
          else None)"

definition handler_ok :: "conn_handler \<Rightarrow> bool" where
  "handler_ok h \<longleftrightarrow>
     (case ch_at h of
        AtOpen \<Rightarrow> \<not> ch_opened h \<and> ch_calls h = []
      | AtPipe \<Rightarrow> ch_opened h \<and> ch_calls h = [OpenTunnel]
      | AtCloseStream \<Rightarrow> ch_opened h \<and> ch_calls h = [OpenTunnel, RunPipe]
      | AtCloseConn \<Rightarrow> ch_calls h @ [CloseConn] = handleLocalConn (ch_opened h)
      | AtEnd \<Rightarrow> ch_calls h = handleLocalConn (ch_opened h))"

fun handler_rank :: "handler_at \<Rightarrow> nat" where
  "handler_rank AtOpen = 4" | "handler_rank AtPipe = 3" | "handler_rank AtCloseStream = 2" | "handler_rank AtCloseConn = 1"
| "handler_rank AtEnd = 0"

fun accept_rank :: "accept_at \<Rightarrow> nat" where
  "accept_rank Accepting = 2" | "accept_rank Draining = 1" | "accept_rank ServeReturned = 0"

definition tcp_rank :: "tcp_sys \<Rightarrow> nat" where
  "tcp_rank s = accept_rank (ts_loop s) + (\<Sum>h\<leftarrow>ts_handlers s. handler_rank (ch_at h))"

definition tcp_inv :: "tcp_sys \<Rightarrow> bool" where
  "tcp_inv s \<longleftrightarrow> (\<forall>h \<in> set (ts_handlers s). handler_ok h) \<and> (ts_loop s \<noteq> Accepting \<longrightarrow> ts_listener_closed s)
     \<and> (ts_loop s = ServeReturned \<longrightarrow> (\<forall>h \<in> set (ts_handlers s). ch_at h = AtEnd))"

lemma handler_ok_act: "handler_ok h \<Longrightarrow> handler_act a h = Some h' \<Longrightarrow> handler_ok h'"
  by (cases a) (auto simp: handler_ok_def handleLocalConn_def split: if_splits)

lemma handler_rank_act: "handler_act a h = Some h' \<Longrightarrow> handler_rank (ch_at h') < handler_rank (ch_at h)"
  by (cases a) (auto split: if_splits)

lemma handler_not_ended: "handler_act a h = Some h' \<Longrightarrow> ch_at h \<noteq> AtEnd"
  by (cases a) (auto split: if_splits)

text \<open>The actions that need no new connection and no new stream.\<close>

fun ends_handler :: "tcp_action \<Rightarrow> bool" where
  "ends_handler AcceptConn = False"
| "ends_handler AcceptErr = False"
| "ends_handler ListenerClosed = False"
| "ends_handler (StreamOpened i) = False"
| "ends_handler _ = True"

lemma handler_can_act:
  assumes "ch_at h \<noteq> AtEnd"
  shows "\<exists>a. ends_handler a \<and> acting_handler a = Some i \<and> handler_act a h \<noteq> None"
proof (cases "ch_at h")
  case AtOpen
  then show ?thesis by (intro exI [of _ "OpenFails i"]) simp
next
  case AtPipe
  then show ?thesis by (intro exI [of _ "PipeReturned i"]) simp
next
  case AtCloseStream
  then show ?thesis by (intro exI [of _ "StreamCloses i"]) simp
next
  case AtCloseConn
  then show ?thesis by (intro exI [of _ "ConnCloses i"]) simp
qed (simp add: assms)

text \<open>One action, seen from outside: one handler moves, or the loop does.\<close>

lemma tcp_act_cases [consumes 1, case_names handler loop]:
  assumes "tcp_act a s = Some s'"
  obtains i h where "i < length (ts_handlers s)" "handler_act a (ts_handlers s ! i) = Some h"
      "s' = s\<lparr>ts_handlers := (ts_handlers s)[i := h]\<rparr>"
    | "accept_act a s = Some s'"
  using assms by (auto simp: tcp_act_def split: option.splits if_splits)

lemma tcp_inv_act:
  assumes i: "tcp_inv s" and "tcp_act a s = Some s'"
  shows "tcp_inv s'"
  using assms(2)
proof (cases rule: tcp_act_cases)
  case (handler i h)
  have "handler_ok h" using i handler by (auto simp: tcp_inv_def intro: handler_ok_act)
  moreover have "ts_loop s \<noteq> ServeReturned" using i handler(1) handler_not_ended [OF handler(2)] nth_mem by (auto simp: tcp_inv_def)
  ultimately show ?thesis using i handler(3) set_update_subset_insert by (fastforce simp: tcp_inv_def)
next
  case loop
  then show ?thesis using i by (auto simp: tcp_inv_def accept_act_def handler_ok_def split: tcp_action.splits if_splits)
qed

lemma tcp_rank_act:
  assumes "ts_listener_closed s" "tcp_act a s = Some s'"
  shows "ts_listener_closed s' \<and> length (ts_handlers s') = length (ts_handlers s) \<and> tcp_rank s' < tcp_rank s"
  using assms(2)
proof (cases rule: tcp_act_cases)
  case (handler i h)
  then show ?thesis using assms(1) sum_list_less_update [of i "ts_handlers s" "\<lambda>h. handler_rank (ch_at h)" h] handler_rank_act
    by (auto simp: tcp_rank_def)
next
  case loop
  then show ?thesis using assms(1) by (auto simp: accept_act_def tcp_rank_def split: tcp_action.splits if_splits)
qed

lemma tcp_handlers_kept:
  "ts_listener_closed s \<Longrightarrow> run_acts tcp_act ls s = Some s' \<Longrightarrow> length (ts_handlers s') = length (ts_handlers s)"
proof (induction ls arbitrary: s)
  case (Cons a ls)
  then obtain t where t: "tcp_act a s = Some t" "run_acts tcp_act ls t = Some s'" by (auto split: option.splits)
  then show ?case using Cons.IH [of t] tcp_rank_act [OF Cons.prems(1) t(1)] by auto
qed simp

lemma tcp_rank_bound: "tcp_rank s \<le> 4 * length (ts_handlers s) + 2"
proof -
  have "handler_rank p \<le> 4" for p by (cases p) auto
  then have "(\<Sum>h\<leftarrow>hs. handler_rank (ch_at h)) \<le> 4 * length hs" for hs
    by (induction hs) (auto intro: add_mono simp: order_trans)
  then show ?thesis by (cases "ts_loop s") (auto simp: tcp_rank_def intro: le_SucI order_trans)
qed

lemma tcp_not_stuck:
  assumes "ts_listener_closed s" "ts_loop s \<noteq> ServeReturned"
  shows "\<exists>a. ends_handler a \<and> tcp_act a s \<noteq> None"
proof (cases "\<exists>i < length (ts_handlers s). ch_at (ts_handlers s ! i) \<noteq> AtEnd")
  case True
  then obtain i where i: "i < length (ts_handlers s)" "ch_at (ts_handlers s ! i) \<noteq> AtEnd" by blast
  then obtain a where "ends_handler a" "acting_handler a = Some i" "handler_act a (ts_handlers s ! i) \<noteq> None"
    using handler_can_act by blast
  then have "ends_handler a \<and> tcp_act a s \<noteq> None" using i(1) by (simp add: tcp_act_def)
  then show ?thesis ..
next
  case False
  then have "\<forall>h \<in> set (ts_handlers s). ch_at h = AtEnd" by (auto simp: in_set_conv_nth)
  then have "\<exists>a \<in> {AcceptClosed, WaitReturns}. ends_handler a \<and> tcp_act a s \<noteq> None"
    using assms by (cases "ts_loop s") (auto simp: tcp_act_def accept_act_def)
  then show ?thesis by blast
qed

interpretation tcp_drain: draining tcp_act tcp_inv ts_listener_closed "\<lambda>s. ts_loop s = ServeReturned" "\<lambda>_ _. True" tcp_rank
proof
  fix s :: tcp_sys assume "ts_listener_closed s" "ts_loop s \<noteq> ServeReturned"
  then show "\<exists>a. True \<and> tcp_act a s \<noteq> None" using tcp_not_stuck by blast
qed (use tcp_inv_act tcp_rank_act in blast)+

text \<open>Serving TCP ends clean, whatever the interleaving of the accept loop with the handlers. When \<^verbatim>\<open>Serve\<close> has
  returned, the listener is closed and every accepted connection has been handled to the end: closed exactly once,
  after its tunnel stream, if one was opened, was piped and closed exactly once. And closing the listener
  ends it: no further connection is accepted, and with \<open>n\<close> handlers in flight at most \<open>4 * n + 2\<close> steps remain, one
  of which is possible as long as \<^verbatim>\<open>Serve\<close> has not returned, the failure of an opening and the return of a pipe counting as steps
  (when they come is a question of \<open>Client_Shutdown\<close>).\<close>

theorem tcp_serve_drains:
  assumes "run_acts tcp_act ls0 tcp_serve = Some s"
  shows "(ts_loop s = ServeReturned \<longrightarrow> ts_listener_closed s \<and> (\<forall>h \<in> set (ts_handlers s). ch_calls h = handleLocalConn (ch_opened h)))
    \<and> (ts_listener_closed s \<longrightarrow> (\<forall>ls s'. run_acts tcp_act ls s = Some s' \<longrightarrow>
         length (ts_handlers s') = length (ts_handlers s) \<and> length ls \<le> 4 * length (ts_handlers s) + 2
         \<and> (ts_loop s' = ServeReturned \<or> (\<exists>a. tcp_act a s' \<noteq> None))))"
proof -
  have i: "tcp_inv s" by (rule tcp_drain.inv_run [OF assms]) (simp add: tcp_inv_def tcp_serve_def)
  have "length (ts_handlers s') = length (ts_handlers s) \<and> length ls \<le> 4 * length (ts_handlers s) + 2
      \<and> (ts_loop s' = ServeReturned \<or> (\<exists>a. tcp_act a s' \<noteq> None))"
    if "ts_listener_closed s" "run_acts tcp_act ls s = Some s'" for ls s'
    using tcp_drain.drains [OF i that] tcp_handlers_kept [OF that] tcp_rank_bound [of s] by auto
  then show ?thesis using i by (auto simp: tcp_inv_def handler_ok_def)
qed

theorem tcp_serve_drains_witness:
  "\<exists>s. run_acts tcp_act [AcceptConn, AcceptErr, AcceptConn, StreamOpened 0, OpenFails 1, ListenerClosed, AcceptClosed,
      PipeReturned 0, ConnCloses 1, StreamCloses 0, ConnCloses 0, WaitReturns] tcp_serve = Some s
    \<and> map ch_opened (ts_handlers s) = [True, False]
    \<and> (\<forall>h \<in> set (ts_handlers s). count_list (ch_calls h) CloseConn = 1) \<and> ts_listener_closed s"
proof -
  let ?ls = "[AcceptConn, AcceptErr, AcceptConn, StreamOpened 0, OpenFails 1, ListenerClosed, AcceptClosed,
      PipeReturned 0, ConnCloses 1, StreamCloses 0, ConnCloses 0, WaitReturns]"
  have "\<exists>s. run_acts tcp_act ?ls tcp_serve = Some s \<and> ts_loop s = ServeReturned \<and> map ch_opened (ts_handlers s) = [True, False]"
    by (simp add: tcp_act_def accept_act_def tcp_serve_def)
  then obtain s where s: "run_acts tcp_act ?ls tcp_serve = Some s" "ts_loop s = ServeReturned"
    "map ch_opened (ts_handlers s) = [True, False]" by (elim exE conjE) (rule that)
  have "ts_listener_closed s \<and> (\<forall>h \<in> set (ts_handlers s). ch_calls h = handleLocalConn (ch_opened h))"
    using tcp_serve_drains [OF s(1)] s(2) by blast
  then show ?thesis using s(1,3) handleLocalConn_releases by (intro exI [of _ s]) simp
qed

section \<open>The reaper and the progress reports\<close>

text \<open>\<^verbatim>\<open>reap\<close>, over what its \<^verbatim>\<open>select\<close> finds ready: a cancelled context, the closed \<open>done\<close> channel, or the
  ticker at some time. \<open>None\<close>: it is still waiting.\<close>

datatype reap_wakeup = ReapCtxDone | ReapDone | ReapTick gtime

fun ft_reap :: "reap_wakeup list \<Rightarrow> flowTable \<Rightarrow> flowTable \<times> bool" where
  "ft_reap [] t = (t, False)"
| "ft_reap (ReapCtxDone # ws) t = (t, True)"
| "ft_reap (ReapDone # ws) t = (t, True)"
| "ft_reap (ReapTick now # ws) t = ft_reap ws (ft_removeIdle now t)"

definition reap_period :: duration where
  "reap_period = flowIdleTimeout div 2"

text \<open>The reaper is a schedule of the flow table's steps.\<close>

lemma ft_reap_steps: "ft_step\<^sup>*\<^sup>* t (fst (ft_reap ws t))"
  by (induction ws t rule: ft_reap.induct) (auto intro: converse_rtranclp_into_rtranclp ft_step.removeIdle)

text \<open>\<^verbatim>\<open>copyProgress\<close> and its updates in \<^verbatim>\<open>copyWithDiagnostics\<close>; \<^verbatim>\<open>reportCopyProgress\<close> reads it at each tick until
  the copy's \<open>done\<close> channel closes.\<close>

record copyProgress =
  cp_bytes :: int
  cp_lastRead :: gtime
  cp_lastWrite :: gtime

definition newCopyProgress :: "gtime \<Rightarrow> copyProgress" where
  "newCopyProgress now = \<lparr>cp_bytes = 0, cp_lastRead = now, cp_lastWrite = now\<rparr>"

definition progress_read :: "nat \<Rightarrow> gtime \<Rightarrow> copyProgress \<Rightarrow> copyProgress" where
  "progress_read n now p = (if n > 0 then p\<lparr>cp_lastRead := now\<rparr> else p)"

definition progress_write :: "nat \<Rightarrow> gtime \<Rightarrow> copyProgress \<Rightarrow> copyProgress" where
  "progress_write nw now p = (if nw > 0 then p\<lparr>cp_bytes := cp_bytes p + int nw, cp_lastWrite := now\<rparr> else p)"

definition blocked_write :: "string \<Rightarrow> duration \<Rightarrow> nat \<Rightarrow> slog_record list" where
  "blocked_write direction took nw =
     (if took \<ge> second div 4
      then [slog LevelWarn ''tunnel_blocked_write''
              [(''direction'', VStr direction), (''duration_ms'', VInt (Milliseconds took)), (''bytes'', VInt (int nw))]]
      else [])"

definition copy_report :: "string \<Rightarrow> gtime \<Rightarrow> copyProgress \<Rightarrow> slog_record" where
  "copy_report direction now p =
     slog LevelInfo ''tunnel_copy_progress''
       [(''direction'', VStr direction), (''bytes'', VInt (cp_bytes p)),
        (''since_last_read_ms'', VInt (Milliseconds (now - cp_lastRead p))),
        (''since_last_write_ms'', VInt (Milliseconds (now - cp_lastWrite p)))]"

datatype progress_event = ProgressDone | ProgressTick gtime copyProgress

fun reportCopyProgress :: "string \<Rightarrow> progress_event list \<Rightarrow> slog_record list \<times> bool" where
  "reportCopyProgress direction [] = ([], False)"
| "reportCopyProgress direction (ProgressDone # es) = ([], True)"
| "reportCopyProgress direction (ProgressTick now p # es) =
     (let (rs, returned) = reportCopyProgress direction es in (copy_report direction now p # rs, returned))"

text \<open>\<^verbatim>\<open>copyWithDiagnostics\<close> with its instruments: the progress counters, the warnings, and the readings of the clock, of
  which \<open>clk k\<close> is the \<open>k\<close>-th.\<close>

record 's copy_state =
  cs_dst :: 's
  cs_progress :: copyProgress
  cs_log :: "slog_record list"
  cs_clock :: nat

definition timed_write :: "(nat \<Rightarrow> gtime) \<Rightarrow> string \<Rightarrow> 's writer \<Rightarrow> 's copy_state writer" where
  "timed_write clk direction w p st =
     (case w p (cs_dst st) of ((nw, e), s') \<Rightarrow>
        let k = cs_clock st; took = clk (k + 1) - clk k
        in ((nw, e), st\<lparr>cs_dst := s', cs_progress := progress_write nw (clk (k + 2)) (cs_progress st),
              cs_log := cs_log st @ blocked_write direction took nw, cs_clock := k + (if nw > 0 then 3 else 2)\<rparr>))"

definition timed_read :: "(nat \<Rightarrow> gtime) \<Rightarrow> byte list \<Rightarrow> 's copy_state \<Rightarrow> 's copy_state" where
  "timed_read clk d st =
     (if d = [] then st
      else st\<lparr>cs_progress := progress_read (length d) (clk (cs_clock st)) (cs_progress st), cs_clock := cs_clock st + 1\<rparr>)"

fun copy_instrumented :: "(nat \<Rightarrow> gtime) \<Rightarrow> string \<Rightarrow> 's writer \<Rightarrow> reads \<Rightarrow> 's copy_state \<Rightarrow> (io_error option \<times> 's copy_state) option" where
  "copy_instrumented clk direction w [] st = None"
| "copy_instrumented clk direction w ((d, er) # rs) st =
     (case write_all (timed_write clk direction w) d (timed_read clk d st) of (ew, st') \<Rightarrow>
        if ew \<noteq> None then Some (ew, st')
        else case er of None \<Rightarrow> copy_instrumented clk direction w rs st' | Some e \<Rightarrow> Some (if e = EOF then None else Some e, st'))"

definition copy_start :: "gtime \<Rightarrow> 's \<Rightarrow> 's copy_state" where
  "copy_start now s = \<lparr>cs_dst = s, cs_progress = newCopyProgress now, cs_log = [], cs_clock = 0\<rparr>"

lemma timed_read_dst [simp]: "cs_dst (timed_read clk d st) = cs_dst st"
  by (simp add: timed_read_def)

lemma timed_read_bytes [simp]: "cp_bytes (cs_progress (timed_read clk d st)) = cp_bytes (cs_progress st)"
  by (simp add: timed_read_def progress_read_def)

lemma write_all_timed:
  "write_all (timed_write clk direction w) p st = (e, st') \<Longrightarrow> write_all w p (cs_dst st) = (e, cs_dst st')"
proof (induction "length p" arbitrary: p st rule: less_induct)
  case less
  obtain nw x s1 where w: "w p (cs_dst st) = ((nw, x), s1)" by (metis surj_pair)
  obtain st1 where t: "timed_write clk direction w p st = ((nw, x), st1)" "cs_dst st1 = s1"
    using w by (simp add: timed_write_def Let_def)
  show ?case
  proof (cases "p = [] \<or> x \<noteq> None \<or> nw = 0")
    case True
    then show ?thesis using less.prems w t by (auto simp: write_all.simps [of _ p] split: if_splits)
  next
    case False
    then have "length (drop nw p) < length p" by (cases p) auto
    then show ?thesis using False less.hyps [of "drop nw p" st1] less.prems w t by (auto simp: write_all.simps [of _ p])
  qed
qed

lemma write_all_counts:
  "io_writer w out \<Longrightarrow> write_all (timed_write clk direction w) p st = (e, st') \<Longrightarrow>
   cp_bytes (cs_progress st') + int (length (out (cs_dst st))) = cp_bytes (cs_progress st) + int (length (out (cs_dst st')))"
proof (induction "length p" arbitrary: p st rule: less_induct)
  case less
  obtain nw x s1 where w: "w p (cs_dst st) = ((nw, x), s1)" by (metis surj_pair)
  have o: "nw \<le> length p" "out s1 = out (cs_dst st) @ take nw p" using io_writerD [OF less.prems(1) w] by auto
  obtain st1 where t: "timed_write clk direction w p st = ((nw, x), st1)" "cs_dst st1 = s1"
    "cp_bytes (cs_progress st1) = cp_bytes (cs_progress st) + int nw"
    using w by (simp add: timed_write_def Let_def progress_write_def)
  show ?case
  proof (cases "p = [] \<or> x \<noteq> None \<or> nw = 0")
    case True
    then show ?thesis using less.prems t o by (auto simp: write_all.simps [of _ p] split: if_splits)
  next
    case False
    then have "length (drop nw p) < length p" by (cases p) auto
    then show ?thesis using False less.hyps [of "drop nw p" st1] less.prems t o by (auto simp: write_all.simps [of _ p])
  qed
qed

lemma copy_instrumented_erase:
  "map_option (map_prod id cs_dst) (copy_instrumented clk direction w rs st) = copyWithDiagnostics w rs (cs_dst st)"
proof (induction rs arbitrary: st)
  case (Cons r rs)
  obtain d er where r: "r = (d, er)" by (cases r)
  obtain e st' where w: "write_all (timed_write clk direction w) d (timed_read clk d st) = (e, st')" by (metis surj_pair)
  show ?case using Cons.IH [of st'] write_all_timed [OF w] w r by (auto split: option.splits)
qed simp

lemma copy_instrumented_counts:
  "io_writer w out \<Longrightarrow> copy_instrumented clk direction w rs st = Some (e, st') \<Longrightarrow>
   cp_bytes (cs_progress st') + int (length (out (cs_dst st))) = cp_bytes (cs_progress st) + int (length (out (cs_dst st')))"
proof (induction rs arbitrary: st)
  case (Cons r rs)
  obtain d er where r: "r = (d, er)" by (cases r)
  obtain x st1 where w: "write_all (timed_write clk direction w) d (timed_read clk d st) = (x, st1)" by (metis surj_pair)
  show ?case using Cons.IH [of st1] Cons.prems write_all_counts [OF Cons.prems(1) w] w r by (auto split: option.splits if_splits)
qed simp

text \<open>The diagnostic copy is the plain copy with instruments, and its byte counter is exact: for a destination that
  keeps the contract of \<^verbatim>\<open>io.Writer\<close>, it returns the same error and leaves the destination in the same state
  as \<^verbatim>\<open>io.Copy\<close>, whatever the clock says; and the bytes it reports are the bytes the destination has taken.\<close>

theorem copy_diagnostics_exact:
  assumes "io_writer w out"
  shows "map_option (map_prod id cs_dst) (copy_instrumented clk direction w rs (copy_start now s)) = io_Copy w rs s
    \<and> (\<forall>e st. copy_instrumented clk direction w rs (copy_start now s) = Some (e, st) \<longrightarrow>
         cp_bytes (cs_progress st) = int (length (out (cs_dst st))) - int (length (out s)))"
  using copy_instrumented_erase [of clk direction w rs "copy_start now s"] copies_agree [OF assms, of rs s]
    copy_instrumented_counts [OF assms, of clk direction rs "copy_start now s"]
  by (auto simp: copy_start_def newCopyProgress_def)

theorem copy_diagnostics_exact_witness:
  "io_writer small_writer id \<and> (\<exists>st. copy_instrumented (\<lambda>k. int k * second) ''local_to_tunnel'' small_writer
       [([1, 2], None), ([3, 4, 5], None)] (copy_start 0 []) = Some (Some ErrClosed, st)
     \<and> cp_bytes (cs_progress st) = 4 \<and> cs_dst st = [1, 2, 3, 4])"
proof -
  let ?r = "copy_instrumented (\<lambda>k. int k * second) ''local_to_tunnel'' small_writer [([1, 2], None), ([3, 4, 5], None)] (copy_start 0 [])"
  note f = copy_diagnostics_exact [OF small_writer_contract, of "\<lambda>k. int k * second" "''local_to_tunnel''" "[([1, 2], None), ([3, 4, 5], None)]" 0 "[]"]
  have "io_Copy small_writer [([1, 2], None), ([3, 4, 5], None)] [] = Some (Some ErrClosed, [1, 2, 3, 4])" by (simp add: small_writer_def)
  then obtain st where "?r = Some (Some ErrClosed, st)" "cs_dst st = [1, 2, 3, 4]" using f by (auto simp: map_option_eq_Some)
  then show ?thesis using f small_writer_contract by auto
qed

end
