(* ===== verification/P2p_Paths.thy ===== *)
theory P2p_Paths
  imports P2p Slog "HOL-Library.Sublist"
begin

text \<open>
  The connections below the streams, \<^verbatim>\<open>internal/p2p\<close>: \<^verbatim>\<open>Connect\<close> and \<^verbatim>\<open>LogAddrs\<close> (\<^verbatim>\<open>host.go\<close>),
  \<^verbatim>\<open>connectToBootstrapPeers\<close> (\<^verbatim>\<open>dht.go\<close>), \<^verbatim>\<open>hasDirectConnection\<close> and the reason tags (\<^verbatim>\<open>stream.go\<close>), and the
  records a diagnostic run emits (\<^verbatim>\<open>diagnostic.go\<close>). What libp2p, the Go runtime and the clock answer are arguments.
\<close>

section \<open>Connections\<close>

text \<open>A libp2p connection as these functions read it. An address is used twice: printed, and by the protocols it names.\<close>

record conn_info =
  cn_ID :: string
  cn_RemotePeer :: string
  cn_Limited :: bool
  cn_Opened :: gtime
  cn_Transport :: string
  cn_StreamMultiplexer :: string
  cn_Security :: string
  cn_LocalMultiaddr :: string
  cn_RemoteMultiaddr :: string
  cn_RemoteAddr :: multiaddr
  cn_Streams :: "string list"

definition hasDirectConnection :: "conn_info list \<Rightarrow> bool" where
  "hasDirectConnection connsToPeer = list_ex (\<lambda>c. \<not> cn_Limited c) connsToPeer"

fun streamReason_string :: "streamReason \<Rightarrow> string" where
  "streamReason_string reasonDirectOnly = ''direct-only''"
| "streamReason_string reasonDirectFirst = ''direct-first''"
| "streamReason_string reasonRelayFallback = ''relay-fallback''"
| "streamReason_string reasonRelayOnly = ''relay-only''"
| "streamReason_string reasonNegotiate = ''negotiate''"

definition allowLimited :: "streamReason \<Rightarrow> string" where
  "allowLimited r = ''mtunnel:'' @ streamReason_string r"

section \<open>Connecting to the target\<close>

datatype connect_error = NoMatchingAddress | ConnectError go_error

datatype connect_log = ClosingDiscovery string | CloseDiscoveryFailed string go_error | ConnectedOver string

text \<open>The loop over the mismatched connections: \<open>close\<close> is what closing a connection answers; a connection whose close
  fails stays.\<close>

fun close_mismatched :: "(conn_info \<Rightarrow> go_error option) \<Rightarrow> conn_info list \<Rightarrow> conn_info list \<times> connect_log list" where
  "close_mismatched close [] = ([], [])"
| "close_mismatched close (c # cs) =
     (let (rest, logs) = close_mismatched close cs in
      if has_protocol ''webrtc-direct'' (cn_RemoteAddr c) then (c # rest, logs)
      else case close c of
             None \<Rightarrow> (rest, ClosingDiscovery (cn_ID c) # logs)
           | Some e \<Rightarrow> (c # rest, ClosingDiscovery (cn_ID c) # CloseDiscoveryFailed (cn_ID c) e # logs))"

text \<open>\<open>dial\<close> is \<^verbatim>\<open>h.Connect\<close>: from the addresses and the connections to the target, the connections after it.\<close>

definition Connect ::
  "(conn_info \<Rightarrow> go_error option) \<Rightarrow> (multiaddr list \<Rightarrow> conn_info list \<Rightarrow> go_error + conn_info list) \<Rightarrow> conn_info list
    \<Rightarrow> multiaddr list \<Rightarrow> p2p_config \<Rightarrow> (connect_error + conn_info list) \<times> connect_log list" where
  "Connect close dial connsToPeer addrs c =
     (case selectAddresses addrs (ConnectionMode c) (Transport c) of
        None \<Rightarrow> (Inl NoMatchingAddress, [])
      | Some filtered \<Rightarrow>
          let (conns, logs) = (if Transport c = TransportWebRTC \<and> ConnectionMode c \<noteq> ConnectionRelayOnly
                               then close_mismatched close connsToPeer else (connsToPeer, []))
          in case dial filtered conns of
               Inl e \<Rightarrow> (Inl (ConnectError e), logs)
             | Inr conns' \<Rightarrow> (Inr conns', logs @ map (\<lambda>k. ConnectedOver (cn_RemoteMultiaddr k)) conns'))"

definition LogAddrs :: "string list \<Rightarrow> string list" where
  "LogAddrs addrs = ''Listening on addresses:'' # map (\<lambda>a. '' -  '' @ a) addrs"

text \<open>\<^verbatim>\<open>connectToBootstrapPeers\<close>: for each default peer, whether the context is done before it and what dialling it
  answers.\<close>

fun connectToBootstrapPeers :: "(bool \<times> string \<times> go_error option) list \<Rightarrow> bool \<times> (string \<times> go_error option) list" where
  "connectToBootstrapPeers [] = (True, [])"
| "connectToBootstrapPeers ((ctxDone, peer, answer) # ps) =
     (if ctxDone then (False, [])
      else let (ok, logs) = connectToBootstrapPeers ps in (ok, (peer, answer) # logs))"

section \<open>Diagnostic records\<close>

datatype StreamEvent = StreamOpened | StreamAccepted | StreamNegotiateOpened

fun StreamEvent_string :: "StreamEvent \<Rightarrow> string" where
  "StreamEvent_string StreamOpened = ''opened''"
| "StreamEvent_string StreamAccepted = ''accepted''"
| "StreamEvent_string StreamNegotiateOpened = ''negotiate-opened''"

definition circuit :: "string \<Rightarrow> bool" where
  "circuit s = sublist ''/p2p-circuit'' s"

definition LogStreamPath :: "gtime \<Rightarrow> gtime \<Rightarrow> StreamEvent \<Rightarrow> conn_info \<Rightarrow> bool \<Rightarrow> slog_record list" where
  "LogStreamPath processStarted now event conn enabled =
     (if \<not> enabled then []
      else let local = cn_LocalMultiaddr conn; remote = cn_RemoteMultiaddr conn
      in [slog LevelInfo ''tunnel_stream_path''
        [(''event'', VStr (StreamEvent_string event)),
         (''remote_peer'', VStr (cn_RemotePeer conn)),
         (''connection_id'', VStr (cn_ID conn)),
         (''limited'', VBool (cn_Limited conn)),
         (''direct'', VBool (\<not> cn_Limited conn \<and> \<not> circuit local \<and> \<not> circuit remote)),
         (''transport'', VStr (cn_Transport conn)),
         (''stream_multiplexer'', VStr (cn_StreamMultiplexer conn)),
         (''security'', VStr (cn_Security conn)),
         (''local_multiaddr'', VStr local),
         (''remote_multiaddr'', VStr remote),
         (''p2p_circuit'', VBool (circuit local \<or> circuit remote)),
         (''process_uptime_ms'', VInt (Milliseconds (now - processStarted))),
         (''connection_age_ms'', VInt (Milliseconds (now - cn_Opened conn)))]])"

text \<open>What a snapshot reads: the connections, those to the target (\<open>None\<close>: no target, the host's case), the routing
  table if there is a DHT, the runtime's and the bandwidth counter's figures, and the tier reporter's answer
  (\<open>None\<close>: a nil reporter).\<close>

record diag_env =
  dg_conns :: "conn_info list"
  dg_target :: "conn_info list option"
  dg_peers :: nat
  dg_routingTable :: "nat option"
  dg_goroutines :: nat
  dg_HeapAlloc :: nat
  dg_HeapSys :: nat
  dg_NumGC :: nat
  dg_TotalIn :: int
  dg_TotalOut :: int
  dg_RateIn :: string
  dg_RateOut :: string
  dg_tier :: "string option"
  dg_now :: gtime

text \<open>The first loop: streams counted, and the last connection that carries a data stream is the active one.\<close>

definition scan_conn :: "conn_info \<Rightarrow> nat \<times> string \<times> bool \<Rightarrow> nat \<times> string \<times> bool" where
  "scan_conn c = (\<lambda>(streams, activeTransport, activeLimited).
     (streams + length (cn_Streams c),
      if ProtocolID \<in> set (cn_Streams c) then cn_Transport c else activeTransport,
      if ProtocolID \<in> set (cn_Streams c) then cn_Limited c else activeLimited))"

text \<open>The second: the target's connections, direct or relayed; one that has any stream becomes the active one.\<close>

definition scan_target :: "conn_info \<Rightarrow> nat \<times> nat \<times> string \<times> bool \<Rightarrow> nat \<times> nat \<times> string \<times> bool" where
  "scan_target c = (\<lambda>(direct, relay, activeTransport, activeLimited).
     (let relayed = cn_Limited c \<or> circuit (cn_RemoteMultiaddr c)
      in (if relayed then direct else direct + 1, if relayed then relay + 1 else relay,
          if cn_Streams c \<noteq> [] then cn_Transport c else activeTransport,
          if cn_Streams c \<noteq> [] then cn_Limited c else activeLimited)))"

definition emitDiagnostics :: "gtime \<Rightarrow> diag_env \<Rightarrow> slog_record" where
  "emitDiagnostics processStarted env =
     (let (streams, t1, l1) = fold scan_conn (dg_conns env) (0, '''', False);
          (directToTarget, relayToTarget, activeTransport, activeLimited) =
            (case dg_target env of None \<Rightarrow> (0, 0, t1, l1) | Some cs \<Rightarrow> fold scan_target cs (0, 0, t1, l1));
          routingTableSize = (case dg_routingTable env of None \<Rightarrow> 0 | Some n \<Rightarrow> n);
          activeTier = (case dg_tier env of None \<Rightarrow> '''' | Some t \<Rightarrow> t)
      in slog LevelInfo ''tunnel_diagnostics''
        [(''process_uptime_ms'', VInt (Milliseconds (dg_now env - processStarted))),
         (''peers'', VInt (int (dg_peers env))),
         (''connections'', VInt (int (length (dg_conns env)))),
         (''streams'', VInt (int streams)),
         (''dht_routing_table_size'', VInt (int routingTableSize)),
         (''goroutines'', VInt (int (dg_goroutines env))),
         (''heap_alloc_bytes'', VInt (int (dg_HeapAlloc env))),
         (''heap_sys_bytes'', VInt (int (dg_HeapSys env))),
         (''gc_cycles'', VInt (int (dg_NumGC env))),
         (''bytes_received'', VInt (dg_TotalIn env)),
         (''bytes_sent'', VInt (dg_TotalOut env)),
         (''receive_rate_bytes_per_sec'', VFloat (dg_RateIn env)),
         (''send_rate_bytes_per_sec'', VFloat (dg_RateOut env)),
         (''active_tunnel_transport'', VStr activeTransport),
         (''active_connection_limited'', VBool activeLimited),
         (''active_tunnel_tier'', VStr activeTier),
         (''target_direct_connections'', VInt (int directToTarget)),
         (''target_relay_connections'', VInt (int relayToTarget))])"

text \<open>\<^verbatim>\<open>StartDiagnostics\<close>: one snapshot at once, one per tick, until the context is done (the flag).\<close>

datatype diag_event = DiagTick diag_env | DiagCtxDone

fun diag_loop :: "gtime \<Rightarrow> diag_event list \<Rightarrow> slog_record list \<times> bool" where
  "diag_loop processStarted [] = ([], False)"
| "diag_loop processStarted (DiagCtxDone # es) = ([], True)"
| "diag_loop processStarted (DiagTick env # es) =
     (let (rs, returned) = diag_loop processStarted es in (emitDiagnostics processStarted env # rs, returned))"

definition StartDiagnostics :: "gtime \<Rightarrow> diag_env \<Rightarrow> diag_event list \<Rightarrow> slog_record list \<times> bool" where
  "StartDiagnostics processStarted env es =
     (let (rs, returned) = diag_loop processStarted es in (emitDiagnostics processStarted env # rs, returned))"

section \<open>What connecting leaves\<close>

lemma close_mismatched_all:
  assumes "\<forall>c \<in> set cs. close c = None"
  shows "fst (close_mismatched close cs) = filter (\<lambda>c. has_protocol ''webrtc-direct'' (cn_RemoteAddr c)) cs"
  using assms by (induction cs) (auto simp: Let_def split: prod.splits)

text \<open>With the WebRTC transport, and closes that succeed, \<^verbatim>\<open>Host.Connect\<close> finds no connection to the target but WebRTC Direct ones
  and is given only WebRTC Direct addresses. Which addresses it then dials is libp2p's matter: it knows those of discovery too.\<close>

lemma webrtc_connect_dials:
  assumes close: "\<forall>c \<in> set conns. close c = None"
    and cf: "Transport pc = TransportWebRTC" "ConnectionMode pc \<noteq> ConnectionRelayOnly"
  shows "fst (Connect close dial conns addrs pc) =
    (let as = filter (has_protocol ''webrtc-direct'') addrs in
     if as = [] then Inl NoMatchingAddress
     else case dial as (filter (\<lambda>c. has_protocol ''webrtc-direct'' (cn_RemoteAddr c)) conns) of Inl e \<Rightarrow> Inl (ConnectError e) | Inr cs \<Rightarrow> Inr cs)"
proof -
  have "keep_address (ConnectionMode pc) (Transport pc) = has_protocol ''webrtc-direct''"
    using cf by (simp add: fun_eq_iff keep_address_def mode_defs)
  then show ?thesis using cf close_mismatched_all [OF close]
    by (auto simp: Connect_def selectAddresses_def Let_def split: prod.splits sum.splits)
qed

definition sample_conn_info :: "string \<Rightarrow> bool \<Rightarrow> string \<Rightarrow> string list \<Rightarrow> string list \<Rightarrow> conn_info" where
  "sample_conn_info i limited remote protos streams =
     \<lparr>cn_ID = i, cn_RemotePeer = ''peer'', cn_Limited = limited, cn_Opened = 0, cn_Transport = ''tcp'', cn_StreamMultiplexer = ''yamux'',
      cn_Security = ''noise'', cn_LocalMultiaddr = ''/ip4/10.0.0.1/tcp/1'', cn_RemoteMultiaddr = remote,
      cn_RemoteAddr = \<lparr>ad_protocols = protos, ad_public = True\<rparr>, cn_Streams = streams\<rparr>"

section \<open>What is reported\<close>

lemma scan_conns:
  "fold scan_conn cs (n, t, l) =
     (n + (\<Sum>c\<leftarrow>cs. length (cn_Streams c)),
      case rev (filter (\<lambda>c. ProtocolID \<in> set (cn_Streams c)) cs) of [] \<Rightarrow> (t, l) | c # _ \<Rightarrow> (cn_Transport c, cn_Limited c))"
  by (induction cs arbitrary: n t l) (auto simp: scan_conn_def split: list.splits)

lemma scan_targets:
  "fold scan_target cs (d, r, t, l) =
     (d + length (filter (\<lambda>c. \<not> cn_Limited c \<and> \<not> circuit (cn_RemoteMultiaddr c)) cs),
      r + length (filter (\<lambda>c. cn_Limited c \<or> circuit (cn_RemoteMultiaddr c)) cs),
      case rev (filter (\<lambda>c. cn_Streams c \<noteq> []) cs) of [] \<Rightarrow> (t, l) | c # _ \<Rightarrow> (cn_Transport c, cn_Limited c))"
  by (induction cs arbitrary: d r t l) (auto simp: scan_target_def split: list.splits)

lemma emitDiagnostics_reads:
  assumes "fold scan_conn (dg_conns env) (0, [], False) = (n, t1, l1)"
    "(case dg_target env of None \<Rightarrow> (0, 0, t1, l1) | Some cs \<Rightarrow> fold scan_target cs (0, 0, t1, l1)) = (d, r, t, l)"
  shows "map_of (sl_attrs (emitDiagnostics st env)) ''streams'' = Some (VInt (int n))"
    "map_of (sl_attrs (emitDiagnostics st env)) ''target_direct_connections'' = Some (VInt (int d))"
    "map_of (sl_attrs (emitDiagnostics st env)) ''target_relay_connections'' = Some (VInt (int r))"
    "map_of (sl_attrs (emitDiagnostics st env)) ''active_tunnel_transport'' = Some (VStr t)"
    "map_of (sl_attrs (emitDiagnostics st env)) ''active_connection_limited'' = Some (VBool l)"
  using assms by (simp_all add: emitDiagnostics_def)

text \<open>The last connection with a property, if there is one, is one of them.\<close>

lemma last_found:
  assumes "(case rev (filter P cs) of [] \<Rightarrow> z | c # _ \<Rightarrow> (cn_Transport c, cn_Limited c)) = (t, l)"
  shows "z = (t, l) \<or> (\<exists>c \<in> set cs. P c \<and> cn_Transport c = t \<and> cn_Limited c = l)"
proof (cases "rev (filter P cs)")
  case (Cons c ds)
  then have "c \<in> set (rev (filter P cs))" by simp
  then have "c \<in> set cs \<and> P c" by simp
  then show ?thesis using Cons assms by (intro disjI2 bexI [of _ c]) auto
qed (use assms in simp)

text \<open>A snapshot accounts for every connection: the streams it reports are those of all connections, and the direct
  and relayed connections to the target add up to the connections to it. The active transport it names is
  that of a connection that is there and carries a stream, a data stream unless it is one of the target's; without
  any it is empty.\<close>

theorem diagnostics_account:
  assumes "sl_attrs (emitDiagnostics st env) = attrs"
  shows "map_of attrs ''streams'' = Some (VInt (\<Sum>c\<leftarrow>dg_conns env. int (length (cn_Streams c))))
    \<and> (\<forall>cs. dg_target env = Some cs \<longrightarrow> (\<exists>d r. map_of attrs ''target_direct_connections'' = Some (VInt d)
          \<and> map_of attrs ''target_relay_connections'' = Some (VInt r) \<and> d + r = int (length cs)))
    \<and> (\<exists>t l. map_of attrs ''active_tunnel_transport'' = Some (VStr t) \<and> map_of attrs ''active_connection_limited'' = Some (VBool l)
         \<and> (t = [] \<and> \<not> l
          \<or> (\<exists>c. (c \<in> set (dg_conns env) \<and> ProtocolID \<in> set (cn_Streams c) \<or> (\<exists>cs. dg_target env = Some cs \<and> c \<in> set cs \<and> cn_Streams c \<noteq> []))
               \<and> cn_Transport c = t \<and> cn_Limited c = l)))"
proof -
  obtain n t1 l1 where 1: "fold scan_conn (dg_conns env) (0, [], False) = (n, t1, l1)" by (metis surj_pair)
  obtain d r t l where 2: "(case dg_target env of None \<Rightarrow> (0, 0, t1, l1) | Some cs \<Rightarrow> fold scan_target cs (0, 0, t1, l1)) = (d, r, t, l)"
    by (metis surj_pair)
  note reads = emitDiagnostics_reads [OF 1 2, of st, unfolded assms]
  have sum: "int (\<Sum>c\<leftarrow>xs. length (cn_Streams c)) = (\<Sum>c\<leftarrow>xs. int (length (cn_Streams c)))" for xs :: "conn_info list"
    by (induction xs) simp_all
  have n: "int n = (\<Sum>c\<leftarrow>dg_conns env. int (length (cn_Streams c)))" using 1 sum by (auto simp: scan_conns)
  have dr: "int d + int r = int (length cs)" if "dg_target env = Some cs" for cs
    using 2 that sum_length_filter_compl [of "\<lambda>c. cn_Limited c \<or> circuit (cn_RemoteMultiaddr c)" cs] by (auto simp: scan_targets)
  have one: "(t1 = [] \<and> \<not> l1) \<or> (\<exists>c \<in> set (dg_conns env). ProtocolID \<in> set (cn_Streams c) \<and> cn_Transport c = t1 \<and> cn_Limited c = l1)"
    using 1 last_found [of "([], False)" "\<lambda>c. ProtocolID \<in> set (cn_Streams c)" "dg_conns env" t1 l1] by (auto simp: scan_conns)
  have "(t, l) = (t1, l1) \<or> (\<exists>cs. dg_target env = Some cs \<and> (\<exists>c \<in> set cs. cn_Streams c \<noteq> [] \<and> cn_Transport c = t \<and> cn_Limited c = l))"
  proof (cases "dg_target env")
    case (Some cs)
    then show ?thesis using 2 last_found [of "(t1, l1)" "\<lambda>c. cn_Streams c \<noteq> []" cs t l] by (auto simp: scan_targets)
  qed (use 2 in simp)
  then have act: "t = [] \<and> \<not> l
      \<or> (\<exists>c. (c \<in> set (dg_conns env) \<and> ProtocolID \<in> set (cn_Streams c) \<or> (\<exists>cs. dg_target env = Some cs \<and> c \<in> set cs \<and> cn_Streams c \<noteq> []))
               \<and> cn_Transport c = t \<and> cn_Limited c = l)" using one by blast
  show ?thesis
    by (intro conjI allI impI exI [of _ t] exI [of _ l] exI [of _ "int d"] exI [of _ "int r"]) (use reads n dr act in simp_all)
qed

text \<open>An unlimited relay passes for a direct connection. A relay may carry a connection without marking it limited;
  its address then still says \<^verbatim>\<open>/p2p-circuit\<close>. Such a connection satisfies \<^verbatim>\<open>hasDirectConnection\<close>, and in direct-only
  mode a stream over it is returned like a direct one; the record of that very stream says it is not direct and runs over
  a circuit, and the snapshot counts its connection as a relayed one.\<close>

theorem unlimited_relay_counts_as_direct:
  assumes "\<not> cn_Limited k" "circuit (cn_RemoteMultiaddr k)"
    "ConnectionMode pc = ConnectionDirectOnly" "de_first env = Inr (cn_Limited k)"
  shows "hasDirectConnection [k]
    \<and> (\<exists>calls. OpenStream env ctxDone relay pc = Some (Inr False, calls, 0))
    \<and> (\<exists>r. LogStreamPath st now StreamOpened k True = [r]
         \<and> map_of (sl_attrs r) ''direct'' = Some (VBool False) \<and> map_of (sl_attrs r) ''p2p_circuit'' = Some (VBool True))
    \<and> (dg_target denv = Some [k] \<longrightarrow> map_of (sl_attrs (emitDiagnostics st denv)) ''target_direct_connections'' = Some (VInt 0))"
proof -
  have "\<exists>calls. OpenStream env ctxDone relay pc = Some (Inr False, calls, 0)"
    using assms(1,3,4) by (simp add: OpenStream_def openDirectStream_def openStream_def mode_defs Let_def)
  then show ?thesis using assms(1,2)
    by (auto simp: hasDirectConnection_def LogStreamPath_def emitDiagnostics_def scan_conns scan_target_def Let_def split: prod.splits list.splits)
qed

theorem unlimited_relay_counts_as_direct_witness:
  "let k = sample_conn_info ''r'' False ''/ip4/1.2.3.4/tcp/9/p2p/R/p2p-circuit'' [''ip4'', ''tcp'', ''p2p'', ''p2p-circuit''] []
   in \<exists>calls. OpenStream (no_direct\<lparr>de_first := Inr (cn_Limited k)\<rparr>) False (Inr True) (sample_p2p ConnectionDirectOnly) = Some (Inr False, calls, 0)
    \<and> hasDirectConnection [k]"
proof -
  let ?k = "sample_conn_info ''r'' False ''/ip4/1.2.3.4/tcp/9/p2p/R/p2p-circuit'' [''ip4'', ''tcp'', ''p2p'', ''p2p-circuit''] []"
  have "\<not> cn_Limited ?k" "circuit (cn_RemoteMultiaddr ?k)" by (simp_all add: sample_conn_info_def circuit_def sublist_code)
  from unlimited_relay_counts_as_direct [OF this, of "sample_p2p ConnectionDirectOnly" "no_direct\<lparr>de_first := Inr (cn_Limited ?k)\<rparr>"]
  show ?thesis unfolding Let_def by (simp add: sample_p2p_def)
qed

theorem diagnostics_account_witness:
  "let k = sample_conn_info ''k'' True ''/x/p2p-circuit'' [] [ProtocolID, ''/ipfs/id/1.0.0''];
       env = \<lparr>dg_conns = [k], dg_target = Some [k], dg_peers = 1, dg_routingTable = None, dg_goroutines = 9, dg_HeapAlloc = 1, dg_HeapSys = 2,
         dg_NumGC = 3, dg_TotalIn = 4, dg_TotalOut = 5, dg_RateIn = ''0'', dg_RateOut = ''0'', dg_tier = None, dg_now = second\<rparr>
   in map_of (sl_attrs (emitDiagnostics 0 env)) ''streams'' = Some (VInt 2)"
  unfolding Let_def by (rule diagnostics_account [OF refl, THEN conjunct1, THEN trans]) (simp add: sample_conn_info_def)

end
