(* ===== verification/Open_Direct.thy ===== *)
theory Open_Direct
  imports P2p
begin

text \<open>
  The wait for a direct connection, \<^verbatim>\<open>openDirectStream\<close> of \<^verbatim>\<open>internal/p2p/stream.go\<close>, step by step: the caller, the
  notification callbacks libp2p runs beside it, the one-place channel between them, the connections that come and go, and
  the context. \<open>P2p.openDirectStream\<close> is what a run that returns amounts to; a run can also end in a send that nobody
  receives.
\<close>

section \<open>Caller, callbacks and channel\<close>

datatype od_at = OdFirst | OdLook1 | OdNotify | OdLook2 | OdSend | OdSelect | OdSecond | OdReturned "stream_error + bool"

text \<open>\<open>od_fired\<close> counts the callbacks libp2p has started and that have not run yet, \<open>od_chan\<close> the signals in the channel;
  \<open>od_env\<close> records what the caller's calls answered.\<close>

record od_sys =
  od_at :: od_at
  od_chan :: nat
  od_registered :: bool
  od_direct :: bool
  od_fired :: nat
  od_expired :: bool
  od_env :: direct_env
  od_firstErr :: stream_error
  od_calls :: "open_call list"
  od_resets :: nat

definition od_start :: "bool \<Rightarrow> od_sys" where
  "od_start direct = \<lparr>od_at = OdFirst, od_chan = 0, od_registered = False, od_direct = direct, od_fired = 0, od_expired = False,
     od_env = no_direct, od_firstErr = CtxDone, od_calls = [], od_resets = 0\<rparr>"

definition direct_call :: "string \<Rightarrow> duration \<Rightarrow> streamReason \<Rightarrow> open_call" where
  "direct_call proto timeout reason = \<lparr>oc_proto = proto, oc_allowLimited = False, oc_timeout = timeout, oc_reason = reason\<rparr>"

text \<open>\<open>make(chan struct{}, 1)\<close>: the callback's send has a \<^verbatim>\<open>default\<close>, the caller's has not.\<close>

definition chan_cap :: nat where "chan_cap = 1"

definition od_return :: "(stream_error + bool) \<Rightarrow> od_sys \<Rightarrow> od_sys" where
  "od_return r s = s\<lparr>od_at := OdReturned r, od_registered := False\<rparr>"

datatype od_action = FirstAnswers stream_answer | Looks | Registers | SendsSignal | WaitExpired | WaitConnected duration
  | SecondAnswers stream_answer | Expires | ConnUp bool | ConnDown | CallbackRuns

fun od_act :: "open_call \<Rightarrow> od_action \<Rightarrow> od_sys \<Rightarrow> od_sys option" where
  "od_act c (FirstAnswers a) s =
     (if od_at s = OdFirst
      then (case openStream a c of (r, n) \<Rightarrow>
              let s1 = s\<lparr>od_env := (od_env s)\<lparr>de_first := a\<rparr>, od_calls := [c], od_resets := n\<rparr> in
              Some (case r of Inr l \<Rightarrow> od_return (Inr l) s1 | Inl e \<Rightarrow> s1\<lparr>od_at := OdLook1, od_firstErr := e\<rparr>))
      else None)"
| "od_act c Looks s =
     (case od_at s of
        OdLook1 \<Rightarrow>
          let s1 = s\<lparr>od_env := (od_env s)\<lparr>de_direct1 := od_direct s\<rparr>\<rparr> in
          Some (if od_direct s then od_return (Inl (od_firstErr s)) s1 else s1\<lparr>od_at := OdNotify\<rparr>)
      | OdLook2 \<Rightarrow>
          Some (s\<lparr>od_env := (od_env s)\<lparr>de_direct2 := od_direct s, de_notified := False\<rparr>,
                  od_at := (if od_direct s then OdSend else OdSelect)\<rparr>)
      | _ \<Rightarrow> None)"
| "od_act c Registers s = (if od_at s = OdNotify then Some (s\<lparr>od_registered := True, od_at := OdLook2\<rparr>) else None)"
| "od_act c SendsSignal s =
     (if od_at s = OdSend \<and> od_chan s < chan_cap then Some (s\<lparr>od_chan := od_chan s + 1, od_at := OdSelect\<rparr>) else None)"
| "od_act c WaitExpired s =
     (if od_at s = OdSelect \<and> od_expired s
      then Some (od_return (Inl DeadlinePassed) (s\<lparr>od_env := (od_env s)\<lparr>de_connected := False\<rparr>\<rparr>)) else None)"
| "od_act c (WaitConnected remaining) s =
     (if od_at s = OdSelect \<and> 0 < od_chan s
      then let s1 = s\<lparr>od_chan := od_chan s - 1, od_env := (od_env s)\<lparr>de_connected := True, de_remaining := remaining\<rparr>\<rparr> in
           Some (if remaining \<le> 0 then od_return (Inl DeadlinePassed) s1 else s1\<lparr>od_at := OdSecond\<rparr>)
      else None)"
| "od_act c (SecondAnswers a) s =
     (if od_at s = OdSecond
      then let c2 = c\<lparr>oc_timeout := de_remaining (od_env s)\<rparr> in
           (case openStream a c2 of (r, n) \<Rightarrow>
              Some (od_return r (s\<lparr>od_env := (od_env s)\<lparr>de_second := a\<rparr>, od_calls := od_calls s @ [c2], od_resets := od_resets s + n\<rparr>)))
      else None)"
| "od_act c Expires s = (if od_expired s then None else Some (s\<lparr>od_expired := True\<rparr>))"
| "od_act c (ConnUp limited) s =
     Some (if limited then s else s\<lparr>od_direct := True, od_fired := od_fired s + (if od_registered s then 1 else 0)\<rparr>)"
| "od_act c ConnDown s = Some (s\<lparr>od_direct := False\<rparr>)"
| "od_act c CallbackRuns s =
     (if 0 < od_fired s
      then Some (s\<lparr>od_fired := od_fired s - 1, od_chan := (if od_chan s < chan_cap then od_chan s + 1 else od_chan s)\<rparr>) else None)"

text \<open>The caller's steps once the context has ended: an open call returns with it, the select has a case ready. The rest
  of the caller's steps wait for nothing but the channel.\<close>

fun od_own :: "od_action \<Rightarrow> od_sys \<Rightarrow> bool" where
  "od_own (FirstAnswers a) s = od_expired s"
| "od_own (SecondAnswers a) s = od_expired s"
| "od_own Expires s = False"
| "od_own (ConnUp l) s = False"
| "od_own ConnDown s = False"
| "od_own CallbackRuns s = False"
| "od_own _ s = True"

definition od_blocked :: "od_sys \<Rightarrow> bool" where
  "od_blocked s \<longleftrightarrow> od_at s = OdSend \<and> od_chan s = chan_cap"

definition od_returned :: "od_sys \<Rightarrow> bool" where
  "od_returned s \<longleftrightarrow> (\<exists>r. od_at s = OdReturned r)"

section \<open>What a run amounts to\<close>

definition od_inv :: "string \<Rightarrow> duration \<Rightarrow> streamReason \<Rightarrow> od_sys \<Rightarrow> bool" where
  "od_inv proto timeout reason s \<longleftrightarrow> od_chan s \<le> chan_cap \<and>
     (let c = direct_call proto timeout reason; env = od_env s;
          failed = (openStream (de_first env) c = (Inl (od_firstErr s), od_resets s) \<and> od_calls s = [c]) in
      case od_at s of
        OdFirst \<Rightarrow> True
      | OdLook1 \<Rightarrow> failed
      | OdNotify \<Rightarrow> failed \<and> \<not> de_direct1 env
      | OdLook2 \<Rightarrow> failed \<and> \<not> de_direct1 env
      | OdSend \<Rightarrow> failed \<and> \<not> de_direct1 env \<and> de_direct2 env \<and> \<not> de_notified env
      | OdSelect \<Rightarrow> failed \<and> \<not> de_direct1 env \<and> \<not> de_notified env
      | OdSecond \<Rightarrow> failed \<and> \<not> de_direct1 env \<and> \<not> de_notified env \<and> de_connected env \<and> 0 < de_remaining env
      | OdReturned r \<Rightarrow> openDirectStream env proto timeout reason = Some (r, od_calls s, od_resets s))"

lemma od_inv_start: "od_inv proto timeout reason (od_start direct)"
  by (simp add: od_inv_def od_start_def Let_def)

lemma openDirectStream_returns:
  assumes "openStream (de_first env) (direct_call proto timeout reason) = (r, n)"
  shows "r = Inr l \<Longrightarrow> openDirectStream env proto timeout reason = Some (Inr l, [direct_call proto timeout reason], n)"
    and "r = Inl e \<Longrightarrow> de_direct1 env \<Longrightarrow> openDirectStream env proto timeout reason = Some (Inl e, [direct_call proto timeout reason], n)"
    and "r = Inl e \<Longrightarrow> \<not> de_direct1 env \<Longrightarrow> \<not> de_notified env \<Longrightarrow> \<not> de_connected env \<or> de_remaining env \<le> 0 \<Longrightarrow>
      openDirectStream env proto timeout reason = Some (Inl DeadlinePassed, [direct_call proto timeout reason], n)"
    and "r = Inl e \<Longrightarrow> \<not> de_direct1 env \<Longrightarrow> \<not> de_notified env \<Longrightarrow> de_connected env \<Longrightarrow> 0 < de_remaining env \<Longrightarrow>
      openStream (de_second env) ((direct_call proto timeout reason)\<lparr>oc_timeout := de_remaining env\<rparr>) = (r2, n2) \<Longrightarrow>
      openDirectStream env proto timeout reason =
        Some (r2, [direct_call proto timeout reason, (direct_call proto timeout reason)\<lparr>oc_timeout := de_remaining env\<rparr>], n + n2)"
  using assms by (auto simp: openDirectStream_def direct_call_def Let_def)

text \<open>What a step of the surroundings changes matters to none of this.\<close>

lemma od_inv_cong:
  assumes "od_inv proto timeout reason s" "od_chan s' \<le> chan_cap" "od_at s' = od_at s" "od_env s' = od_env s"
    "od_firstErr s' = od_firstErr s" "od_calls s' = od_calls s" "od_resets s' = od_resets s"
  shows "od_inv proto timeout reason s'"
  using assms(1,2) unfolding od_inv_def assms(3-) by blast

lemma od_inv_act:
  assumes i: "od_inv proto timeout reason s" and a: "od_act (direct_call proto timeout reason) a s = Some s'"
  shows "od_inv proto timeout reason s'"
proof (cases a)
  case (FirstAnswers x)
  obtain r n where o: "openStream x (direct_call proto timeout reason) = (r, n)" by fastforce
  then show ?thesis using i a FirstAnswers openDirectStream_returns(1) [where env = "(od_env s)\<lparr>de_first := x\<rparr>" and r = r and n = n]
    by (cases r) (auto simp: od_inv_def od_return_def Let_def split: if_splits)
next
  case Looks
  then consider "od_at s = OdLook1" | "od_at s = OdLook2" using a by (auto split: od_at.splits)
  then show ?thesis
  proof cases
    case 1
    then show ?thesis using i a Looks openDirectStream_returns(2) [where env = "(od_env s)\<lparr>de_direct1 := True\<rparr>" and e = "od_firstErr s" and n = "od_resets s"]
      by (auto simp: od_inv_def od_return_def Let_def split: if_splits)
  next
    case 2
    then show ?thesis using i a Looks by (auto simp: od_inv_def Let_def split: if_splits)
  qed
next
  case Registers
  then show ?thesis using i a by (auto simp: od_inv_def Let_def split: if_splits)
next
  case SendsSignal
  then show ?thesis using i a by (auto simp: od_inv_def Let_def split: if_splits)
next
  case WaitExpired
  then show ?thesis using i a openDirectStream_returns(3) [where env = "(od_env s)\<lparr>de_connected := False\<rparr>" and e = "od_firstErr s" and n = "od_resets s"]
    by (auto simp: od_inv_def od_return_def Let_def split: if_splits)
next
  case (WaitConnected d)
  then show ?thesis using i a
      openDirectStream_returns(3) [where env = "(od_env s)\<lparr>de_connected := True, de_remaining := d\<rparr>" and e = "od_firstErr s" and n = "od_resets s"]
    by (auto simp: od_inv_def od_return_def Let_def split: if_splits)
next
  case (SecondAnswers x)
  obtain r n where o: "openStream x ((direct_call proto timeout reason)\<lparr>oc_timeout := de_remaining (od_env s)\<rparr>) = (r, n)" by fastforce
  then show ?thesis using i a SecondAnswers
      openDirectStream_returns(4) [where env = "(od_env s)\<lparr>de_second := x\<rparr>" and e = "od_firstErr s" and n = "od_resets s" and ?r2.0 = r and ?n2.0 = n]
    by (auto simp: od_inv_def od_return_def Let_def split: if_splits)
next
  case CallbackRuns
  then show ?thesis using i a by (intro od_inv_cong [OF i]) (auto simp: od_inv_def chan_cap_def split: if_splits)
qed (use i a in \<open>auto intro!: od_inv_cong [OF i] simp: od_inv_def [of _ _ _ s] split: if_splits\<close>)

text \<open>A blocked caller stays blocked.\<close>

lemma od_blocked_act: "od_blocked s \<Longrightarrow> od_act c a s = Some s' \<Longrightarrow> od_blocked s'"
  by (cases a) (auto simp: od_blocked_def chan_cap_def split: if_splits)

lemma od_blocked_None:
  "od_inv proto timeout reason s \<Longrightarrow> od_blocked s \<Longrightarrow> openDirectStream ((od_env s)\<lparr>de_notified := True\<rparr>) proto timeout reason = None"
  by (simp add: od_inv_def od_blocked_def openDirectStream_def direct_call_def Let_def)

fun od_rank :: "od_at \<Rightarrow> nat" where
  "od_rank OdFirst = 7" | "od_rank OdLook1 = 6" | "od_rank OdNotify = 5" | "od_rank OdLook2 = 4" | "od_rank OdSend = 3"
| "od_rank OdSelect = 2" | "od_rank OdSecond = 1" | "od_rank (OdReturned r) = 0"

lemma od_nearer:
  "od_own a s \<Longrightarrow> od_act c a s = Some s' \<Longrightarrow> od_expired s' = od_expired s \<and> od_rank (od_at s') < od_rank (od_at s)"
  by (cases a) (auto simp: od_return_def Let_def split: if_splits od_at.splits sum.splits prod.splits)

lemma od_not_stuck:
  assumes "od_chan s \<le> chan_cap" "od_expired s" "\<not> od_returned s" "\<not> od_blocked s"
  shows "\<exists>a. od_own a s \<and> od_act c a s \<noteq> None"
proof -
  have "\<exists>a \<in> {FirstAnswers (Inl (ErrText [])), Looks, Registers, SendsSignal, WaitExpired, SecondAnswers (Inl (ErrText []))}.
      od_own a s \<and> od_act c a s \<noteq> None"
    using assms by (cases "od_at s") (auto simp: od_blocked_def od_returned_def Let_def split: prod.splits)
  then show ?thesis by blast
qed

interpretation od_wait: winding "od_act (direct_call proto timeout reason)" "od_inv proto timeout reason" od_expired
  "\<lambda>s. od_returned s \<or> od_blocked s" od_own "\<lambda>s. od_rank (od_at s)"
  for proto timeout reason
proof
  fix s s' a
  show "od_inv proto timeout reason s'" if "od_inv proto timeout reason s" "od_act (direct_call proto timeout reason) a s = Some s'"
    using that by (rule od_inv_act)
  show "od_expired s' \<and> od_rank (od_at s') < od_rank (od_at s)"
    if "od_expired s" "od_own a s" "od_act (direct_call proto timeout reason) a s = Some s'" using od_nearer that by blast
  show "\<exists>a. od_own a s \<and> od_act (direct_call proto timeout reason) a s \<noteq> None"
    if "od_inv proto timeout reason s" "od_expired s" "\<not> (od_returned s \<or> od_blocked s)"
    using od_not_stuck that by (simp add: od_inv_def)
qed

text \<open>Only a callback fills the channel before the caller's send.\<close>

lemma no_callback_empty:
  assumes "run_acts (od_act c) ls s = Some s'" "CallbackRuns \<notin> set ls" "od_rank (od_at s) \<ge> 3 \<longrightarrow> od_chan s = 0"
  shows "od_rank (od_at s') \<ge> 3 \<longrightarrow> od_chan s' = 0"
  using assms
proof (induction ls arbitrary: s)
  case (Cons a ls)
  then obtain t where t: "od_act c a s = Some t" "run_acts (od_act c) ls t = Some s'" by (auto split: option.splits)
  have "od_rank (od_at t) \<ge> 3 \<longrightarrow> od_chan t = 0"
    using Cons.prems(2,3) t(1) by (cases a) (auto simp: od_return_def Let_def split: if_splits od_at.splits sum.splits prod.splits)
  then show ?case using Cons.IH [OF t(2)] Cons.prems(2) by simp
qed simp

text \<open>C30: opening a direct stream can hang. In every interleaving of the caller with libp2p's callbacks, the connections and
  the context: a run that returned did what \<open>openDirectStream\<close> computes from the answers it got; once the context has
  ended at most seven steps of the caller remain, and as long as it has neither returned nor blocked it has one; but
  the caller can be blocked in its own send to the full channel, and then it stays there whatever happens, the
  end of the context included. That state is reached when the callback for a direct connection runs between the registration and
  the send, and only then.\<close>

theorem openDirectStream_can_block:
  assumes "run_acts (od_act (direct_call proto timeout reason)) ls (od_start direct) = Some s"
  shows "(\<forall>r. od_at s = OdReturned r \<longrightarrow> openDirectStream (od_env s) proto timeout reason = Some (r, od_calls s, od_resets s))
    \<and> (od_expired s \<longrightarrow> (\<forall>ls' s'. run_acts (only od_own (od_act (direct_call proto timeout reason))) ls' s = Some s' \<longrightarrow>
         length ls' \<le> 7 \<and> (od_returned s' \<or> od_blocked s' \<or> (\<exists>a. od_own a s' \<and> od_act (direct_call proto timeout reason) a s' \<noteq> None))))
    \<and> (od_blocked s \<longrightarrow> CallbackRuns \<in> set ls \<and> openDirectStream ((od_env s)\<lparr>de_notified := True\<rparr>) proto timeout reason = None
         \<and> (\<forall>ls' s'. run_acts (od_act (direct_call proto timeout reason)) ls' s = Some s' \<longrightarrow> od_blocked s'))
    \<and> (\<exists>s'. run_acts (od_act (direct_call proto timeout reason))
           [FirstAnswers (Inl e), Looks, Registers, ConnUp False, CallbackRuns, Looks, Expires] (od_start False) = Some s'
         \<and> od_blocked s' \<and> od_expired s')"
proof (intro conjI allI impI)
  let ?c = "direct_call proto timeout reason"
  have i: "od_inv proto timeout reason s" by (rule od_wait.inv_run [OF assms od_inv_start])
  show "openDirectStream (od_env s) proto timeout reason = Some (r, od_calls s, od_resets s)" if "od_at s = OdReturned r" for r
    using i that by (simp add: od_inv_def Let_def)
  have "od_rank p \<le> 7" for p by (cases p) auto
  then show "length ls' \<le> 7"
    if "od_expired s" "run_acts (only od_own (od_act ?c)) ls' s = Some s'" for ls' s'
    using od_wait.winds_down [OF i that] by (meson add_leD1 le_trans)
  show "od_returned s' \<or> od_blocked s' \<or> (\<exists>a. od_own a s' \<and> od_act ?c a s' \<noteq> None)"
    if "od_expired s" "run_acts (only od_own (od_act ?c)) ls' s = Some s'" for ls' s'
    using od_wait.winds_down [OF i that] by blast
  show "CallbackRuns \<in> set ls" if "od_blocked s"
    using no_callback_empty [OF assms] that by (force simp: od_start_def od_blocked_def chan_cap_def)
  show "openDirectStream ((od_env s)\<lparr>de_notified := True\<rparr>) proto timeout reason = None" if "od_blocked s"
    using od_blocked_None [OF i that] .
  show "od_blocked s'" if "od_blocked s" "run_acts (od_act ?c) ls' s = Some s'" for ls' s'
    by (rule run_acts_inv [where ok = od_blocked, OF od_blocked_act that(2,1)])
  show "\<exists>s'. run_acts (od_act ?c) [FirstAnswers (Inl e), Looks, Registers, ConnUp False, CallbackRuns, Looks, Expires] (od_start False) = Some s'
         \<and> od_blocked s' \<and> od_expired s'"
    by (simp add: od_start_def od_blocked_def openStream_def chan_cap_def Let_def)
qed

text \<open>A callback that runs before the second look sees no connection any more lets the caller through.\<close>

theorem openDirectStream_can_block_witness:
  "\<exists>s. run_acts (od_act (direct_call ''p'' 9 reasonDirectOnly))
        [FirstAnswers (Inl (ErrText ''no route'')), Looks, Registers, ConnUp False, CallbackRuns, ConnDown, Looks, WaitConnected 4, SecondAnswers (Inr False)]
        (od_start False) = Some s
     \<and> od_at s = OdReturned (Inr False) \<and> openDirectStream (od_env s) ''p'' 9 reasonDirectOnly = Some (Inr False, od_calls s, 0)"
proof -
  let ?ls = "[FirstAnswers (Inl (ErrText ''no route'')), Looks, Registers, ConnUp False, CallbackRuns, ConnDown, Looks, WaitConnected 4, SecondAnswers (Inr False)]"
  have "\<exists>s. run_acts (od_act (direct_call ''p'' 9 reasonDirectOnly)) ?ls (od_start False) = Some s \<and> od_at s = OdReturned (Inr False) \<and> od_resets s = 0"
    by (simp add: od_start_def openStream_def od_return_def direct_call_def chan_cap_def Let_def)
  then obtain s where s: "run_acts (od_act (direct_call ''p'' 9 reasonDirectOnly)) ?ls (od_start False) = Some s" "od_at s = OdReturned (Inr False)" "od_resets s = 0"
    by (elim exE conjE) (rule that)
  show ?thesis using openDirectStream_can_block [OF s(1)] s by auto
qed

end
