(* ===== verification/Control_Io.thy ===== *)
theory Control_Io
  imports Control
begin

text \<open>
  The goroutines of the control channel, \<^verbatim>\<open>internal/control/control.go\<close>: the emitter that writes one line per event, and
  \<^verbatim>\<open>Handle\<close> with the reader it starts. The reader decodes requests and hands them over through a channel of
  one place; the loop selects among the context, that channel and the error channel. \<open>control_Handle\<close>
  of \<^verbatim>\<open>Control\<close> is what the loop does with the events it takes; here is which events it can take.
\<close>

section \<open>The emitter\<close>

text \<open>\<open>marshal\<close> is \<^verbatim>\<open>json.Marshal\<close>, \<open>fails\<close> whether the write fails; both failures are only logged. The lock makes each write
  one step.\<close>

definition Emitter_Emit :: "(control_output \<Rightarrow> string option) \<Rightarrow> bool \<Rightarrow> control_output \<Rightarrow> string \<Rightarrow> string" where
  "Emitter_Emit marshal fails out written =
     (case marshal out of
        None \<Rightarrow> written
      | Some d \<Rightarrow> if fails then written else written @ d @ [CHR 0x0A])"

fun text_lines :: "string \<Rightarrow> string \<Rightarrow> string list" where
  "text_lines acc [] = []"
| "text_lines acc (c # cs) = (if c = CHR 0x0A then acc # text_lines [] cs else text_lines (acc @ [c]) cs)"

lemma text_lines_run: "CHR 0x0A \<notin> set d \<Longrightarrow> text_lines acc (d @ CHR 0x0A # rest) = (acc @ d) # text_lines [] rest"
  by (induction d arbitrary: acc) auto

lemma text_lines_append:
  "text_lines acc (s @ [CHR 0x0A] @ t) = text_lines acc (s @ [CHR 0x0A]) @ text_lines [] t"
  by (induction s arbitrary: acc) auto

text \<open>JSON text holds no line break outside strings, where it is escaped: with that, what was written splits back into the
  events, one per line.\<close>

lemma emitted_lines:
  assumes "\<And>out d. marshal out = Some d \<Longrightarrow> CHR 0x0A \<notin> set d"
  shows "text_lines [] (fold (Emitter_Emit marshal False) outs []) = List.map_filter marshal outs"
proof (induction outs rule: rev_induct)
  case (snoc x xs)
  let ?w = "fold (Emitter_Emit marshal False) xs []"
  have e: "?w = [] \<or> (\<exists>v. ?w = v @ [CHR 0x0A])"
    by (induction xs rule: rev_induct) (auto simp: Emitter_Emit_def split: option.splits)
  show ?case
  proof (cases "marshal x")
    case None
    then show ?thesis using snoc by (simp add: Emitter_Emit_def map_filter_def)
  next
    case (Some d)
    have "text_lines [] (?w @ d @ [CHR 0x0A]) = text_lines [] ?w @ text_lines [] (d @ [CHR 0x0A])"
      using e text_lines_append [of "[]" _ "d @ [CHR 0x0A]"] by auto
    then show ?thesis using snoc Some text_lines_run [OF assms [OF Some], of "[]" "[]"]
      by (simp add: map_filter_def Emitter_Emit_def [of marshal False x])
  qed
qed (simp add: map_filter_def)

section \<open>Reader and loop\<close>

datatype reader_at = RdDecode | RdSend control_input | RdSendErr bool | RdGone

text \<open>\<open>io_stream\<close> is what the input still holds; after it comes its end or a malformed value (\<open>io_eof\<close>).\<close>

record 's io_sys =
  io_stream :: "control_input list"
  io_eof :: bool
  io_reader :: reader_at
  io_inputChan :: "control_input list"
  io_errChan :: "bool list"
  io_ctxDone :: bool
  io_exit :: control_exit
  io_state :: 's
  io_taken :: "control_event list"

definition io_start :: "control_input list \<Rightarrow> bool \<Rightarrow> 's \<Rightarrow> 's io_sys" where
  "io_start requests eof s = \<lparr>io_stream = requests, io_eof = eof, io_reader = RdDecode, io_inputChan = [], io_errChan = [],
     io_ctxDone = False, io_exit = Waiting, io_state = s, io_taken = []\<rparr>"

datatype io_action = RdReads | RdHandsOver | LoopTakesInput | LoopTakesErr | LoopTakesCtx | CtxCancelled

definition loop_take :: "('s \<Rightarrow> control_event \<Rightarrow> control_exit \<times> 's) \<Rightarrow> control_event \<Rightarrow> 's io_sys \<Rightarrow> 's io_sys" where
  "loop_take handle ev s = (let (e, st) = handle (io_state s) ev in s\<lparr>io_exit := e, io_state := st, io_taken := io_taken s @ [ev]\<rparr>)"

fun io_act :: "('s \<Rightarrow> control_event \<Rightarrow> control_exit \<times> 's) \<Rightarrow> io_action \<Rightarrow> 's io_sys \<Rightarrow> 's io_sys option" where
  "io_act handle RdReads s =
     (if io_reader s \<noteq> RdDecode then None
      else case io_stream s of
             [] \<Rightarrow> Some (s\<lparr>io_reader := RdSendErr (io_eof s)\<rparr>)
           | x # xs \<Rightarrow> Some (s\<lparr>io_reader := RdSend x, io_stream := xs\<rparr>))"
| "io_act handle RdHandsOver s =
     (case io_reader s of
        RdSend x \<Rightarrow> if length (io_inputChan s) < 1 then Some (s\<lparr>io_inputChan := io_inputChan s @ [x], io_reader := RdDecode\<rparr>) else None
      | RdSendErr e \<Rightarrow> if length (io_errChan s) < 1 then Some (s\<lparr>io_errChan := io_errChan s @ [e], io_reader := RdGone\<rparr>) else None
      | _ \<Rightarrow> None)"
| "io_act handle LoopTakesInput s =
     (if io_exit s \<noteq> Waiting then None
      else case io_inputChan s of [] \<Rightarrow> None | x # xs \<Rightarrow> Some (loop_take handle (Got x) (s\<lparr>io_inputChan := xs\<rparr>)))"
| "io_act handle LoopTakesErr s =
     (if io_exit s \<noteq> Waiting then None
      else case io_errChan s of [] \<Rightarrow> None | e # es \<Rightarrow> Some (loop_take handle (DecodeError e) (s\<lparr>io_errChan := es\<rparr>)))"
| "io_act handle LoopTakesCtx s =
     (if io_exit s \<noteq> Waiting \<or> \<not> io_ctxDone s then None else Some (loop_take handle CtxDone s))"
| "io_act handle CtxCancelled s = Some (s\<lparr>io_ctxDone := True\<rparr>)"

text \<open>The loop's body for one event.\<close>

definition handle_one ::
  "(control_output \<Rightarrow> 's \<Rightarrow> 's) \<Rightarrow> 's sessions_ops option \<Rightarrow> ('s \<Rightarrow> 's) \<Rightarrow> 's \<Rightarrow> control_event \<Rightarrow> control_exit \<times> 's" where
  "handle_one emit sessions requestShutdown s ev = control_Handle emit sessions requestShutdown [ev] s"

section \<open>The loop handles requests in order\<close>

definition got_of :: "control_event list \<Rightarrow> control_input list" where
  "got_of evs = List.map_filter (\<lambda>ev. case ev of Got x \<Rightarrow> Some x | _ \<Rightarrow> None) evs"

fun in_hand :: "reader_at \<Rightarrow> control_input list" where
  "in_hand (RdSend x) = [x]"
| "in_hand _ = []"

lemma got_of_snoc [simp]: "got_of (evs @ [ev]) = got_of evs @ (case ev of Got x \<Rightarrow> [x] | _ \<Rightarrow> [])"
  by (simp add: got_of_def map_filter_def split: control_event.splits)

lemma control_Handle_snoc:
  "fst (control_Handle emit sessions rs evs s) = Waiting \<Longrightarrow>
   control_Handle emit sessions rs (evs @ [ev]) s = control_Handle emit sessions rs [ev] (snd (control_Handle emit sessions rs evs s))"
proof (induction evs arbitrary: s)
  case (Cons e evs)
  then show ?case by (cases e) (auto split: option.splits if_splits)
qed simp

definition io_inv :: "(control_output \<Rightarrow> 's \<Rightarrow> 's) \<Rightarrow> 's sessions_ops option \<Rightarrow> ('s \<Rightarrow> 's) \<Rightarrow> control_input list \<Rightarrow> 's \<Rightarrow> 's io_sys \<Rightarrow> bool" where
  "io_inv emit sessions rs requests s0 s \<longleftrightarrow>
     control_Handle emit sessions rs (io_taken s) s0 = (io_exit s, io_state s)
   \<and> got_of (io_taken s) @ io_inputChan s @ in_hand (io_reader s) @ io_stream s = requests"

lemma loop_take_simps [simp]:
  "io_taken (loop_take h ev s) = io_taken s @ [ev]" "io_inputChan (loop_take h ev s) = io_inputChan s"
  "io_reader (loop_take h ev s) = io_reader s" "io_stream (loop_take h ev s) = io_stream s"
  "io_exit (loop_take h ev s) = fst (h (io_state s) ev)" "io_state (loop_take h ev s) = snd (h (io_state s) ev)"
  by (simp_all add: loop_take_def Let_def split: prod.splits)

lemma io_inv_act:
  assumes "io_inv emit sessions rs requests s0 s" "io_act (handle_one emit sessions rs) a s = Some s'"
  shows "io_inv emit sessions rs requests s0 s'"
proof -
  have "control_Handle emit sessions rs (io_taken s @ [ev]) s0 = handle_one emit sessions rs (io_state s) ev" if "io_exit s = Waiting" for ev
    using assms(1) that control_Handle_snoc [of emit sessions rs "io_taken s" s0 ev] by (simp add: io_inv_def handle_one_def)
  then show ?thesis
    using assms by (cases a) (auto simp: io_inv_def split: if_splits list.splits reader_at.splits)
qed

text \<open>C36: the control loop handles the requests in the order they were sent, each at most once and none twice, whatever the
  schedule of the reader and the loop: its state and its way out are those of the sequential handler run on the
  requests it took, and these with the one on the way and the ones unread are the input.\<close>

theorem control_loop_refines_handler:
  assumes "run_acts (io_act (handle_one emit sessions rs)) ls (io_start requests eof s0) = Some s"
  shows "control_Handle emit sessions rs (io_taken s) s0 = (io_exit s, io_state s)
    \<and> got_of (io_taken s) @ io_inputChan s @ in_hand (io_reader s) @ io_stream s = requests"
proof -
  have i0: "io_inv emit sessions rs requests s0 (io_start requests eof s0)" by (simp add: io_inv_def io_start_def got_of_def map_filter_def)
  have "io_inv emit sessions rs requests s0 s"
    by (rule run_acts_inv [where f = "io_act (handle_one emit sessions rs)" and ok = "io_inv emit sessions rs requests s0", OF _ assms i0])
      (rule io_inv_act)
  then show ?thesis by (simp add: io_inv_def)
qed

text \<open>A client's loop: no sessions, a counter of shutdown requests as its state.\<close>

abbreviation client_loop :: "nat \<Rightarrow> control_event \<Rightarrow> control_exit \<times> nat" where
  "client_loop \<equiv> handle_one (\<lambda>_ n. n) None Suc"

definition request :: "action \<Rightarrow> control_input" where
  "request a = \<lparr>in_Action = a, in_SessionId = []\<rparr>"

theorem control_loop_refines_handler_witness:
  "\<exists>s. run_acts (io_act client_loop) [RdReads, RdHandsOver, RdReads, LoopTakesInput, RdHandsOver, LoopTakesInput]
      (io_start [request LIST, request SHUTDOWN, request LIST] True 0) = Some s
    \<and> io_exit s = ExitShutdown \<and> got_of (io_taken s) = [request LIST, request SHUTDOWN] \<and> io_state s = 1"
proof -
  let ?ls = "[RdReads, RdHandsOver, RdReads, LoopTakesInput, RdHandsOver, LoopTakesInput]"
  let ?s0 = "io_start [request LIST, request SHUTDOWN, request LIST] True 0"
  have "\<exists>s. run_acts (io_act client_loop) ?ls ?s0 = Some s \<and> io_exit s = ExitShutdown \<and> io_state s = 1
      \<and> io_inputChan s = [] \<and> io_reader s = RdDecode \<and> io_stream s = [request LIST]"
    by (simp add: io_start_def loop_take_def handle_one_def request_def action_defs)
  then obtain s where s: "run_acts (io_act client_loop) ?ls ?s0 = Some s" "io_exit s = ExitShutdown" "io_state s = 1"
    "io_inputChan s = []" "io_reader s = RdDecode" "io_stream s = [request LIST]" by (elim exE conjE) (rule that)
  then show ?thesis using control_loop_refines_handler [OF s(1)] by (intro exI [of _ s]) simp
qed

section \<open>What the two channels cost\<close>

lemma reader_stuck:
  "io_exit s \<noteq> Waiting \<Longrightarrow> length (io_inputChan s) = 1 \<Longrightarrow> io_reader s = RdSend x \<Longrightarrow>
   run_acts (io_act h) ls s = Some s' \<Longrightarrow> io_reader s' = RdSend x"
proof (induction ls arbitrary: s)
  case (Cons a ls)
  then obtain t where t: "io_act h a s = Some t" "run_acts (io_act h) ls t = Some s'" by (auto split: option.splits)
  have "io_exit t \<noteq> Waiting \<and> length (io_inputChan t) = 1 \<and> io_reader t = RdSend x"
    using t(1) Cons.prems(1-3) by (cases a) (auto split: if_splits)
  then show ?case using Cons.IH t(2) by blast
qed simp

text \<open>C37: two consequences of handing requests and the end of input over in separate channels. A request that was
  decoded before the end of the input can be lost: with SHUTDOWN as the only request, there is a schedule in which the
  loop takes the end of input first and returns without shutting down, though the request waits in its channel,
  and one in which it shuts down. And the reader can outlive the loop for good: after the loop has returned one request
  fits into the channel, and with a second one the reader never leaves its send, whatever happens next.\<close>

theorem control_end_of_input_races:
  "(\<exists>ls s. run_acts (io_act client_loop) ls (io_start [request SHUTDOWN] True 0) = Some s
      \<and> io_exit s = ExitInput \<and> io_state s = 0 \<and> io_inputChan s = [request SHUTDOWN])
   \<and> (\<exists>ls s. run_acts (io_act client_loop) ls (io_start [request SHUTDOWN] True 0) = Some s \<and> io_exit s = ExitShutdown \<and> io_state s = 1)
   \<and> (\<exists>ls s. run_acts (io_act client_loop) ls (io_start [request LIST, request LIST] True 0) = Some s \<and> io_exit s = ExitCtx
      \<and> (\<nexists>ls' s'. run_acts (io_act client_loop) ls' s = Some s' \<and> io_reader s' = RdGone))"
proof (intro conjI)
  let ?ls = "[RdReads, RdHandsOver, RdReads, RdHandsOver, LoopTakesErr]"
  show "\<exists>ls s. run_acts (io_act client_loop) ls (io_start [request SHUTDOWN] True 0) = Some s
      \<and> io_exit s = ExitInput \<and> io_state s = 0 \<and> io_inputChan s = [request SHUTDOWN]"
    by (rule exI [of _ ?ls]) (simp add: io_start_def loop_take_def handle_one_def)
next
  let ?ls = "[RdReads, RdHandsOver, LoopTakesInput]"
  show "\<exists>ls s. run_acts (io_act client_loop) ls (io_start [request SHUTDOWN] True 0) = Some s \<and> io_exit s = ExitShutdown \<and> io_state s = 1"
    by (rule exI [of _ ?ls]) (simp add: io_start_def loop_take_def handle_one_def request_def action_defs)
next
  let ?ls = "[CtxCancelled, LoopTakesCtx, RdReads, RdHandsOver, RdReads]"
  have "\<exists>s. run_acts (io_act client_loop) ?ls (io_start [request LIST, request LIST] True 0) = Some s \<and> io_exit s = ExitCtx
      \<and> length (io_inputChan s) = 1 \<and> io_reader s = RdSend (request LIST)"
    by (simp add: io_start_def loop_take_def handle_one_def)
  then obtain s where s: "run_acts (io_act client_loop) ?ls (io_start [request LIST, request LIST] True 0) = Some s" "io_exit s = ExitCtx"
    "length (io_inputChan s) = 1" "io_reader s = RdSend (request LIST)" by (elim exE conjE) (rule that)
  then have "\<nexists>ls' s'. run_acts (io_act client_loop) ls' s = Some s' \<and> io_reader s' = RdGone"
    using reader_stuck [OF _ s(3,4), of client_loop] s(2) by fastforce
  then show "\<exists>ls s. run_acts (io_act client_loop) ls (io_start [request LIST, request LIST] True 0) = Some s \<and> io_exit s = ExitCtx
      \<and> (\<nexists>ls' s'. run_acts (io_act client_loop) ls' s = Some s' \<and> io_reader s' = RdGone)"
    using s(1,2) by (intro exI [of _ ?ls] exI [of _ s]) simp
qed

end
