(* ===== verification/Virtual_Net.thy ===== *)
theory Virtual_Net
  imports Wireguard Forwarding
begin

text \<open>
  The ends of the WireGuard tunnel: the endpoint the bind names (\<^verbatim>\<open>internal/wireguard/bind.go\<close>), the virtual TCP and UDP
  sockets behind the device and its loggers (\<^verbatim>\<open>wireguard.go\<close>), and the opener and acceptor the tier builds on them
  (\<^verbatim>\<open>internal/tier/wireguard.go\<close>). What the device and its netstack answer is an argument.
\<close>

section \<open>The endpoint\<close>

text \<open>\<^verbatim>\<open>netip.AddrPort\<close> over IPv4, with its zero value.\<close>

datatype AddrPort = ZeroAddrPort | AddrPortFrom Addr u16

fun AddrPort_String :: "AddrPort \<Rightarrow> string" where
  "AddrPort_String ZeroAddrPort = ''invalid AddrPort''"
| "AddrPort_String (AddrPortFrom a p) = Addr_String a @ '':'' @ decimal (unat p)"

text \<open>\<^verbatim>\<open>MarshalBinary\<close>: the address bytes, then the port, low byte first.\<close>

fun AddrPort_MarshalBinary :: "AddrPort \<Rightarrow> byte list" where
  "AddrPort_MarshalBinary ZeroAddrPort = [0, 0]"
| "AddrPort_MarshalBinary (AddrPortFrom (IPv4 a b c d) p) = [a, b, c, d] @ rev (PutUint16 p)"

record endpoint =
  ep_dst :: AddrPort

definition SrcToString :: "endpoint \<Rightarrow> string" where "SrcToString e = []"
definition DstToString :: "endpoint \<Rightarrow> string" where "DstToString e = AddrPort_String (ep_dst e)"
definition DstToBytes :: "endpoint \<Rightarrow> byte list" where "DstToBytes e = AddrPort_MarshalBinary (ep_dst e)"

fun DstIP :: "endpoint \<Rightarrow> Addr option" where
  "DstIP e = (case ep_dst e of ZeroAddrPort \<Rightarrow> None | AddrPortFrom a p \<Rightarrow> Some a)"

text \<open>The substrate's peer address: \<open>addr\<close> is \<^verbatim>\<open>RemoteAddr\<close> printed, \<open>None\<close> when it is nil; \<open>parse\<close> is
  \<^verbatim>\<open>netip.ParseAddrPort\<close>.\<close>

definition remoteAddrPort :: "(string \<Rightarrow> AddrPort option) \<Rightarrow> string option \<Rightarrow> AddrPort" where
  "remoteAddrPort parse addr =
     (case addr of
        None \<Rightarrow> ZeroAddrPort
      | Some s \<Rightarrow> (case parse s of Some ap \<Rightarrow> ap | None \<Rightarrow> ZeroAddrPort))"

definition bind_endpoint :: "(string \<Rightarrow> AddrPort option) \<Rightarrow> string option \<Rightarrow> endpoint" where
  "bind_endpoint parse addr = \<lparr>ep_dst = remoteAddrPort parse addr\<rparr>"

definition ParseEndpoint :: "endpoint \<Rightarrow> string \<Rightarrow> endpoint" where
  "ParseEndpoint ep s = ep"

section \<open>The virtual sockets\<close>

definition Tunnel_Up :: "go_error option \<Rightarrow> go_error option" where
  "Tunnel_Up devUp = devUp"

definition ListenTCP :: "(AddrPort \<Rightarrow> go_error + 'l) \<Rightarrow> AddrPort \<Rightarrow> go_error + 'l" where
  "ListenTCP tnet_listen addr = tnet_listen addr"

definition DialTCP :: "(AddrPort \<Rightarrow> go_error + 'c) \<Rightarrow> AddrPort \<Rightarrow> go_error + 'c" where
  "DialTCP tnet_dial addr = tnet_dial addr"

text \<open>The two ends of the virtual UDP connection \<^verbatim>\<open>NewUDPMux\<close> opens.\<close>

definition udp_ends :: "Addr \<Rightarrow> Addr \<Rightarrow> AddrPort \<times> AddrPort" where
  "udp_ends local peer = (AddrPortFrom local VirtualPort, AddrPortFrom peer VirtualPort)"

definition um_logDrop :: "u32 \<Rightarrow> string \<Rightarrow> slog_record" where
  "um_logDrop i reason = slog LevelWarn ''tunnel_wireguard_flow_dropped'' [(''flow'', VInt (uint i)), (''reason'', VStr reason)]"

text \<open>\<^verbatim>\<open>newLogger\<close>: errors are reported always, the device's own narration in a diagnostic run.\<close>

datatype device_log = Verbosef string | Errorf string

fun device_newLogger :: "bool \<Rightarrow> device_log \<Rightarrow> slog_record list" where
  "device_newLogger diagnostic (Verbosef m) = (if diagnostic then [slog LevelDebug ''tunnel_wireguard'' [(''message'', VStr m)]] else [])"
| "device_newLogger diagnostic (Errorf m) = [slog LevelWarn ''tunnel_wireguard'' [(''message'', VStr m)]]"

section \<open>Opener and acceptor\<close>

text \<open>The device configurations the two sides build, and the addresses of the virtual sockets.\<close>

definition wg_dial_config :: "byte list \<Rightarrow> byte list \<Rightarrow> wg_config" where
  "wg_dial_config private peerKey = \<lparr>PrivateKey = private, PeerPublicKey = peerKey, Local = ClientAddr, Peer = HostAddr, Initiate = True\<rparr>"

definition wg_serve_config :: "byte list \<Rightarrow> byte list \<Rightarrow> wg_config" where
  "wg_serve_config private peerKey = \<lparr>PrivateKey = private, PeerPublicKey = peerKey, Local = HostAddr, Peer = ClientAddr, Initiate = False\<rparr>"

definition wg_dest :: AddrPort where "wg_dest = AddrPortFrom HostAddr VirtualPort"
definition wg_listen_addr :: AddrPort where "wg_listen_addr = AddrPortFrom HostAddr VirtualPort"

definition wg_dial_mux :: "go_error option \<Rightarrow> (AddrPort \<times> AddrPort) \<times> (go_error + UDPMux)" where
  "wg_dial_mux answer = (udp_ends ClientAddr HostAddr, NewUDPMux answer True)"

definition wg_serve_mux :: "go_error option \<Rightarrow> (AddrPort \<times> AddrPort) \<times> (go_error + UDPMux)" where
  "wg_serve_mux answer = (udp_ends HostAddr ClientAddr, NewUDPMux answer False)"

text \<open>A virtual connection becomes a stream through the adapter of \<^verbatim>\<open>internal/transport\<close>.\<close>

record 'c ConnStream =
  cs_Conn :: 'c

definition wireGuardOpener_OpenStream :: "(AddrPort \<Rightarrow> go_error + 'c) \<Rightarrow> AddrPort \<Rightarrow> go_error + 'c ConnStream" where
  "wireGuardOpener_OpenStream tnet_dial dest = rbind (DialTCP tnet_dial dest) (\<lambda>c. Inr \<lparr>cs_Conn = c\<rparr>)"

definition listenerAcceptor_AcceptStream :: "go_error + 'c \<Rightarrow> go_error + 'c ConnStream" where
  "listenerAcceptor_AcceptStream accept = rbind accept (\<lambda>c. Inr \<lparr>cs_Conn = c\<rparr>)"

section \<open>The two ends meet\<close>

text \<open>Client and host build devices that fit together. Each device's own virtual address is the one address the
  other routes to its peer, the two differ, and the keepalive that opens the handshake is configured on the
  client's alone. The client opens its virtual TCP connections to exactly the address the host listens on,
  which lies in the client's allowed range; the two UDP connections are each other's mirror image, and the two
  multiplexers on them allocate flow numbers in opposite roles. If netstack accepts a dial exactly where the
  peer listens, every connection the client opens after the host's \<^verbatim>\<open>ListenTCP\<close> succeeds.\<close>

theorem wireguard_ends_meet:
  assumes dial: "\<And>a. (\<exists>c. tnet_dial a = Inr c) \<longleftrightarrow> a \<in> listening"
    and listen: "ListenTCP tnet_listen wg_listen_addr = Inr l" "\<And>a. tnet_listen a = Inr l \<Longrightarrow> a \<in> listening"
  shows "map_of (ipc_pairs (wg_dial_config kc ph) ep) ''allowed_ip'' = Some (Addr_String (Local (wg_serve_config kh pc)) @ ''/32'')
    \<and> map_of (ipc_pairs (wg_serve_config kh pc) ep) ''allowed_ip'' = Some (Addr_String (Local (wg_dial_config kc ph)) @ ''/32'')
    \<and> Local (wg_dial_config kc ph) \<noteq> Local (wg_serve_config kh pc)
    \<and> map_of (ipc_pairs (wg_dial_config kc ph) ep) ''persistent_keepalive_interval'' = Some ''25''
    \<and> map_of (ipc_pairs (wg_serve_config kh pc) ep) ''persistent_keepalive_interval'' = None
    \<and> (\<exists>c. wireGuardOpener_OpenStream tnet_dial wg_dest = Inr c)
    \<and> fst (wg_dial_mux None) = prod.swap (fst (wg_serve_mux None))
    \<and> (\<exists>m1 m2. snd (wg_dial_mux None) = Inr m1 \<and> snd (wg_serve_mux None) = Inr m2
         \<and> um_mux m1 = mux_New (mux_config True) \<and> um_mux m2 = mux_New (mux_config False))"
proof -
  have d: "decimal 32 = ''32''" "decimal 25 = ''25''" by code_simp+
  have "wg_dest \<in> listening" using listen by (simp add: ListenTCP_def wg_dest_def wg_listen_addr_def)
  then obtain c where "tnet_dial wg_dest = Inr c" using dial by blast
  then have o: "\<exists>c. wireGuardOpener_OpenStream tnet_dial wg_dest = Inr c" by (simp add: wireGuardOpener_OpenStream_def DialTCP_def)
  show ?thesis using o
    by (simp add: ipc_pairs_def wg_dial_config_def wg_serve_config_def HostAddr_def ClientAddr_def BitLen_def keepaliveSeconds_def d
        wg_dial_mux_def wg_serve_mux_def udp_ends_def NewUDPMux_def)
qed

theorem wireguard_ends_meet_witness:
  "\<exists>c. wireGuardOpener_OpenStream (\<lambda>a. if a = AddrPortFrom HostAddr VirtualPort then Inr ''conn'' else Inl (ErrText ''refused'')) wg_dest = Inr c"
proof -
  let ?a = "AddrPortFrom HostAddr VirtualPort"
  let ?dial = "\<lambda>a. if a = ?a then Inr ''conn'' else Inl (ErrText ''refused'')"
  let ?listen = "\<lambda>a. if a = ?a then Inr True else Inl (ErrText ''refused'')"
  have d: "(\<exists>c. ?dial a = Inr c) \<longleftrightarrow> a \<in> {?a}" for a by simp
  have l: "ListenTCP ?listen wg_listen_addr = Inr True" by (simp add: ListenTCP_def wg_listen_addr_def)
  have i: "?listen a = Inr True \<Longrightarrow> a \<in> {?a}" for a by (simp split: if_splits)
  show ?thesis by (rule wireguard_ends_meet [OF d l i, THEN conjunct2, THEN conjunct2, THEN conjunct2, THEN conjunct2, THEN conjunct2, THEN conjunct1])
qed

end
