(* ===== verification/Program.thy ===== *)
theory Program
  imports Run P2p_Paths Control
begin

text \<open>
  The whole program, \<^verbatim>\<open>cmd/tunnel/main.go\<close>: flags, libp2p host, role, and what a supervisor sees of a failure. The flags
  and the roles are those of \<^verbatim>\<open>Run\<close>, the hosts those of \<^verbatim>\<open>P2p\<close>.
\<close>

text \<open>\<open>info\<close>: the settings of the build, \<open>None\<close> when there is no build information.\<close>

definition buildRevision :: "(string \<times> string) list option \<Rightarrow> string" where
  "buildRevision info =
     (case info of
        None \<Rightarrow> ''unknown''
      | Some settings \<Rightarrow> (case map_of settings ''vcs.revision'' of Some v \<Rightarrow> v | None \<Rightarrow> ''unknown''))"

definition fatal :: "string \<Rightarrow> string \<Rightarrow> control_output" where
  "fatal msg err = (event ERROR [])\<lparr>out_Error := msg @ '': '' @ err\<rparr>"

definition test_configuration :: "(string \<times> string) list option \<Rightarrow> string \<Rightarrow> cli_flags \<Rightarrow> run_config \<Rightarrow> slog_record list" where
  "test_configuration info startTime f rc =
     (if \<not> fl_diagnostic f then []
      else [slog LevelInfo ''test_configuration''
        [(''commit_sha'', VStr (buildRevision info)),
         (''role'', VStr (if fl_token f = [] then ''host'' else ''client'')),
         (''network'', VStr (rc_network rc)),
         (''connection_mode'', VStr (ConnectionMode (rc_p2p rc))),
         (''transport'', VStr (Transport (rc_p2p rc))),
         (''dht_mode'', VStr (DHTMode (rc_p2p rc))),
         (''tunnel_mode'', VStr (opt_TunnelMode (rc_options rc))),
         (''direct_timeout_ms'', VInt (Milliseconds (fl_directTimeout f))),
         (''punch_timeout_ms'', VInt (Milliseconds (fl_punchTimeout f))),
         (''punch_gather_timeout_ms'', VInt (Milliseconds (fl_punchGatherTimeout f))),
         (''punch_attempts'', VInt (int (fl_punchAttempts f))),
         (''handshake_timeout_ms'', VInt (Milliseconds (fl_handshakeTimeout f))),
         (''configured_relays'', VInt (int (length (RelayAddrs (rc_p2p rc))))),
         (''configured_stun_servers'', VInt (int (length (case opt_STUNServers (rc_options rc) of None \<Rightarrow> [] | Some xs \<Rightarrow> xs)))),
         (''start_time'', VStr startTime)]])"

text \<open>What the surroundings answer: \<^verbatim>\<open>libp2p.New\<close>, the default relays and the parser of relay addresses, the two roles'
  environments, and how errors print.\<close>

record 'h main_env =
  me_create :: "host_option list \<Rightarrow> go_error + 'h"
  me_defaults :: "string list"
  me_parse :: "string \<Rightarrow> go_error + string"
  me_client :: client_env
  me_host :: host_env
  me_hostError :: "host_error \<Rightarrow> string"
  me_runError :: "run_error \<Rightarrow> string"

datatype main_exit = ExitOk | ExitUsage usage_error | ExitFatal

text \<open>The exit, the events \<^verbatim>\<open>main\<close> itself emits, and the calls the role made on what it owns.\<close>

definition program_main :: "'h main_env \<Rightarrow> cli_flags \<Rightarrow> main_exit \<times> control_output list \<times> run_call list" where
  "program_main env f =
     (case main_config f of
        Inl e \<Rightarrow> (ExitUsage e, [], [])
      | Inr rc \<Rightarrow>
          (case (if rc_host rc then NewServerHost (me_create env) (me_defaults env) (me_parse env) (rc_p2p rc)
                 else NewClientHost (me_create env) (rc_p2p rc)) of
             Inl e \<Rightarrow> (ExitFatal, [fatal ''Failed to initialize peer'' (me_hostError env e)], [])
           | Inr h \<Rightarrow>
               (case (if rc_host rc then RunHost (me_host env) (rc_network rc) (opt_TunnelMode (rc_options rc))
                      else RunClient (me_client env) (rc_p2p rc)) of
                  (None, calls) \<Rightarrow> (ExitOk, [], calls)
                | (Some e, calls) \<Rightarrow> (ExitFatal, [fatal ''Tunnel exited with error'' (me_runError env e)], calls))))"

lemma RunClient_closes_host: "RunClient env c = (e, calls) \<Longrightarrow> count_list calls CloseHost = 1"
  by (auto simp: RunClient_def serve_client_def p2p_Close_def Let_def split: sum.splits if_splits)

lemma RunHost_closes_host: "RunHost env n m = (e, calls) \<Longrightarrow> count_list calls CloseHost = 1"
  by (auto simp: RunHost_def p2p_Close_def split: if_splits)

lemma accepted_transport:
  assumes "main_config f = Inr rc"
  shows "transportOptions (Transport (rc_p2p rc)) \<noteq> None"
proof -
  obtain t where "ParseTransportMode (fl_transport f) = Some t" "Transport (rc_p2p rc) = t"
    using assms by (auto simp: main_config_def rbind_def guard_def need_def split: sum.splits if_splits option.splits)
  then show ?thesis by (auto simp: ParseTransportMode_def parse_mode_def transportOptions_def mode_defs Let_def split: if_splits)
qed

text \<open>What a supervisor sees of the program. Wrong flags end it before anything is created: no event, no call.
  Otherwise the libp2p host that was created is closed exactly once, whatever role runs and however it ends; a
  failure is reported as exactly one ERROR event with a non-empty text and only a success is silent; and creating the host
  never fails for an unsupported transport, because the flags admit none.\<close>

theorem program_reports_and_releases:
  assumes "program_main env f = (x, outs, calls)"
  shows "((\<exists>e. x = ExitUsage e) \<longleftrightarrow> (\<exists>e. main_config f = Inl e))
    \<and> ((\<exists>e. x = ExitUsage e) \<longrightarrow> outs = [] \<and> calls = [])
    \<and> (x = ExitFatal \<longrightarrow> (\<exists>out. outs = [out] \<and> out_Action out = ERROR \<and> out_Error out \<noteq> []))
    \<and> (x = ExitOk \<longrightarrow> outs = [])
    \<and> (calls \<noteq> [] \<longrightarrow> count_list calls CloseHost = 1)
    \<and> (\<forall>rc e. main_config f = Inr rc \<longrightarrow> newHost (me_create env) role (rc_p2p rc) opts = Inl e \<longrightarrow> (\<exists>g. e = CreateHostFailed role g))"
proof -
  have n: "\<exists>g. e = CreateHostFailed role g" if "main_config f = Inr rc" "newHost (me_create env) role (rc_p2p rc) opts = Inl e" for rc e
    using accepted_transport [OF that(1)] that(2) by (auto simp: newHost_def split: option.splits sum.splits)
  have c: "count_list cs CloseHost = 1"
    if "(if b then RunHost h m k else RunClient d p) = (e, cs)" for b h m k d p e cs
    using that RunHost_closes_host RunClient_closes_host by (metis (full_types))
  show ?thesis
  proof (cases "main_config f")
    case (Inl e)
    then show ?thesis using assms by (auto simp: program_main_def)
  next
    case (Inr rc)
    show ?thesis
    proof (cases "if rc_host rc then NewServerHost (me_create env) (me_defaults env) (me_parse env) (rc_p2p rc) else NewClientHost (me_create env) (rc_p2p rc)")
      case (Inl e)
      then show ?thesis using assms Inr n by (auto simp: program_main_def fatal_def event_def)
    next
      case (Inr h)
      obtain e cs where r: "(if rc_host rc then RunHost (me_host env) (rc_network rc) (opt_TunnelMode (rc_options rc)) else RunClient (me_client env) (rc_p2p rc)) = (e, cs)"
        by (metis surj_pair)
      have p: "program_main env f = (case e of None \<Rightarrow> (ExitOk, [], cs) | Some e \<Rightarrow> (ExitFatal, [fatal ''Tunnel exited with error'' (me_runError env e)], cs))"
        unfolding program_main_def \<open>main_config f = Inr rc\<close> by (simp only: sum.case Inr r prod.case option.case_eq_if split: option.splits)
      show ?thesis using assms p c [OF r] n \<open>main_config f = Inr rc\<close> by (cases e) (auto simp: fatal_def event_def)
    qed
  qed
qed

definition sample_main_env :: "unit main_env" where
  "sample_main_env = \<lparr>me_create = \<lambda>_. Inl (ErrText ''no socket''), me_defaults = [], me_parse = \<lambda>_. Inl (ErrText ''bad''),
     me_client = \<lparr>ce_token = Inl TokenBase64, ce_dht = True, ce_find = True, ce_connect = True, ce_tiers = True, ce_negotiate = True,
       ce_dhtClose = True, ce_listen = True\<rparr>,
     me_host = \<lparr>he_dht = True, he_ctxAlive = True, he_tiers = True, he_encode = True\<rparr>,
     me_hostError = \<lambda>_. ''create server libp2p host'', me_runError = \<lambda>_. ''failed''\<rparr>"

theorem program_reports_and_releases_witness:
  "\<exists>out. program_main sample_main_env sample_flags = (ExitFatal, [out], []) \<and> out_Action out = ERROR \<and> out_Error out \<noteq> []"
proof -
  obtain rc where rc: "main_config sample_flags = Inr rc" "rc_host rc" "Transport (rc_p2p rc) = TransportDefault" "RelayAddrs (rc_p2p rc) = []"
    using sample_flags_accepted by blast
  then have p: "program_main sample_main_env sample_flags =
      (ExitFatal, [fatal ''Failed to initialize peer'' ''create server libp2p host''], [])"
    by (simp add: program_main_def NewServerHost_def newHost_def relayCandidates_def transportOptions_def sample_main_env_def)
  show ?thesis using program_reports_and_releases [OF p] p by simp
qed

end
