(* ===== verification/Client_Shutdown.thy ===== *)
theory Client_Shutdown
  imports Forwarding Run
begin

text \<open>
  The goroutines inside a run of the client (\<^verbatim>\<open>internal/tunnel/client.go\<close>), with the two of a TCP forward
  (\<^verbatim>\<open>internal/tcp/pipe.go\<close>) both roles wait for. Each system is a state with actions, an action being one step of one
  goroutine or of its surroundings; \<open>own\<close> tells the steps nobody outside the process has to enable. The interface
  \<open>draining\<close> of the prelude is interpreted on each.
\<close>

section \<open>Both directions of a TCP forward\<close>

text \<open>\<^verbatim>\<open>pipe\<close> as its two goroutines. The stream may be reset under it; the local end may close. A read of the local
  connection returns when the local end sends or closes, and not before; being a TCP connection it can be half closed, which
  does not end the read.\<close>

datatype lt_at = LtRead | LtWrite "byte list" | LtCloses | LtEnd
datatype tl_at = TlRead | TlWrite "byte list" | TlCloses | TlEnd

record tcp_pipe =
  tq_lt :: lt_at
  tq_tl :: tl_at
  tq_reset :: bool
  tq_localEnded :: bool
  tq_stream_wclosed :: bool
  tq_local_wclosed :: bool
  tq_to_stream :: "byte list list"
  tq_to_local :: "byte list list"

definition tcp_pipe_start :: tcp_pipe where
  "tcp_pipe_start = \<lparr>tq_lt = LtRead, tq_tl = TlRead, tq_reset = False, tq_localEnded = False, tq_stream_wclosed = False,
     tq_local_wclosed = False, tq_to_stream = [], tq_to_local = []\<rparr>"

datatype tcp_pipe_action = LtGot "byte list" | LtReadEnd | LtWrote | LtWriteErr | LtCloseWrite
  | TlGot "byte list" | TlReadEnd | TlWrote | TlWriteErr | TlCloseWrite | StreamReset | LocalEnds

fun tcp_pipe_act :: "tcp_pipe_action \<Rightarrow> tcp_pipe \<Rightarrow> tcp_pipe option" where
  "tcp_pipe_act (LtGot d) s = (if tq_lt s = LtRead \<and> \<not> tq_localEnded s then Some (s\<lparr>tq_lt := LtWrite d\<rparr>) else None)"
| "tcp_pipe_act LtReadEnd s = (if tq_lt s = LtRead \<and> tq_localEnded s then Some (s\<lparr>tq_lt := LtCloses\<rparr>) else None)"
| "tcp_pipe_act LtWrote s =
     (case tq_lt s of
        LtWrite d \<Rightarrow> if tq_reset s then None else Some (s\<lparr>tq_lt := LtRead, tq_to_stream := tq_to_stream s @ [d]\<rparr>)
      | _ \<Rightarrow> None)"
| "tcp_pipe_act LtWriteErr s = (case tq_lt s of LtWrite d \<Rightarrow> Some (s\<lparr>tq_lt := LtCloses\<rparr>) | _ \<Rightarrow> None)"
| "tcp_pipe_act LtCloseWrite s = (if tq_lt s = LtCloses then Some (s\<lparr>tq_lt := LtEnd, tq_stream_wclosed := True\<rparr>) else None)"
| "tcp_pipe_act (TlGot d) s = (if tq_tl s = TlRead \<and> \<not> tq_reset s then Some (s\<lparr>tq_tl := TlWrite d\<rparr>) else None)"
| "tcp_pipe_act TlReadEnd s = (if tq_tl s = TlRead then Some (s\<lparr>tq_tl := TlCloses\<rparr>) else None)"
| "tcp_pipe_act TlWrote s =
     (case tq_tl s of
        TlWrite d \<Rightarrow> if tq_localEnded s then None else Some (s\<lparr>tq_tl := TlRead, tq_to_local := tq_to_local s @ [d]\<rparr>)
      | _ \<Rightarrow> None)"
| "tcp_pipe_act TlWriteErr s = (case tq_tl s of TlWrite d \<Rightarrow> Some (s\<lparr>tq_tl := TlCloses\<rparr>) | _ \<Rightarrow> None)"
| "tcp_pipe_act TlCloseWrite s = (if tq_tl s = TlCloses then Some (s\<lparr>tq_tl := TlEnd, tq_local_wclosed := True\<rparr>) else None)"
| "tcp_pipe_act StreamReset s = (if tq_reset s then None else Some (s\<lparr>tq_reset := True\<rparr>))"
| "tcp_pipe_act LocalEnds s = (if tq_localEnded s then None else Some (s\<lparr>tq_localEnded := True\<rparr>))"

definition tcp_pipe_returned :: "tcp_pipe \<Rightarrow> bool" where
  "tcp_pipe_returned s \<longleftrightarrow> tq_lt s = LtEnd \<and> tq_tl s = TlEnd"

text \<open>The steps nobody outside has to enable. A write to the stream waits for the tunnel's peer until the stream is reset, a write
  to the local connection for the local end until it has closed. \<open>coop\<close>: the local end keeps reading, and closes its connection
  when it reads the end of the stream.\<close>

fun tcp_pipe_own :: "bool \<Rightarrow> tcp_pipe_action \<Rightarrow> tcp_pipe \<Rightarrow> bool" where
  "tcp_pipe_own coop (LtGot d) s = False"
| "tcp_pipe_own coop (TlGot d) s = False"
| "tcp_pipe_own coop LtWrote s = False"
| "tcp_pipe_own coop LtWriteErr s = tq_reset s"
| "tcp_pipe_own coop TlReadEnd s = tq_reset s"
| "tcp_pipe_own coop TlWrote s = coop"
| "tcp_pipe_own coop TlWriteErr s = tq_localEnded s"
| "tcp_pipe_own coop StreamReset s = False"
| "tcp_pipe_own coop LocalEnds s = (coop \<and> tq_local_wclosed s)"
| "tcp_pipe_own coop _ s = True"

definition tcp_pipe_inv :: "tcp_pipe \<Rightarrow> bool" where
  "tcp_pipe_inv s \<longleftrightarrow> tq_stream_wclosed s = (tq_lt s = LtEnd) \<and> tq_local_wclosed s = (tq_tl s = TlEnd)"

fun lt_rank :: "lt_at \<Rightarrow> nat" where
  "lt_rank LtRead = 3" | "lt_rank (LtWrite d) = 2" | "lt_rank LtCloses = 1" | "lt_rank LtEnd = 0"

fun tl_rank :: "tl_at \<Rightarrow> nat" where
  "tl_rank (TlWrite d) = 3" | "tl_rank TlRead = 2" | "tl_rank TlCloses = 1" | "tl_rank TlEnd = 0"

definition tcp_pipe_rank :: "tcp_pipe \<Rightarrow> nat" where
  "tcp_pipe_rank s = lt_rank (tq_lt s) + tl_rank (tq_tl s) + (if tq_localEnded s then 0 else 1)"

lemma tcp_pipe_inv_act: "tcp_pipe_inv s \<Longrightarrow> tcp_pipe_act a s = Some s' \<Longrightarrow> tcp_pipe_inv s'"
  by (cases a) (auto simp: tcp_pipe_inv_def split: if_splits lt_at.splits tl_at.splits)

lemma tcp_pipe_nearer: "tq_reset s \<Longrightarrow> tcp_pipe_act a s = Some s' \<Longrightarrow> tq_reset s' \<and> tcp_pipe_rank s' < tcp_pipe_rank s"
  by (cases a) (auto simp: tcp_pipe_rank_def split: if_splits lt_at.splits tl_at.splits)

lemma tcp_pipe_own_nearer: "tcp_pipe_own coop a s \<Longrightarrow> tcp_pipe_act a s = Some s' \<Longrightarrow> tq_reset s' = tq_reset s \<and> tcp_pipe_rank s' < tcp_pipe_rank s"
  by (cases a) (auto simp: tcp_pipe_rank_def split: if_splits lt_at.splits tl_at.splits)

lemma tcp_pipe_not_stuck:
  assumes "tcp_pipe_inv s" "tq_reset s" "\<not> tcp_pipe_returned s"
  shows "\<exists>a. tcp_pipe_own True a s \<and> tcp_pipe_act a s \<noteq> None"
proof (cases "tq_tl s = TlEnd")
  case True
  then have "tq_local_wclosed s" "tq_lt s \<noteq> LtEnd" using assms by (auto simp: tcp_pipe_inv_def tcp_pipe_returned_def)
  then have "\<exists>a \<in> {LtReadEnd, LocalEnds, LtWriteErr, LtCloseWrite}. tcp_pipe_own True a s \<and> tcp_pipe_act a s \<noteq> None"
    using assms(2) by (cases "tq_lt s") auto
  then show ?thesis by blast
next
  case False
  then have "\<exists>a \<in> {TlReadEnd, TlWrote, TlWriteErr, TlCloseWrite}. tcp_pipe_own True a s \<and> tcp_pipe_act a s \<noteq> None"
    using assms(2) by (cases "tq_tl s"; cases "tq_localEnded s") auto
  then show ?thesis by blast
qed

interpretation tcp_forward: draining tcp_pipe_act tcp_pipe_inv tq_reset tcp_pipe_returned "tcp_pipe_own True" tcp_pipe_rank
  by unfold_locales (blast intro: tcp_pipe_inv_act tcp_pipe_not_stuck dest: tcp_pipe_nearer)+

lemma tcp_pipe_inv_start: "tcp_pipe_inv tcp_pipe_start"
  by (simp add: tcp_pipe_inv_def tcp_pipe_start_def)

lemma tcp_pipe_rank_bound: "tcp_pipe_rank s \<le> 7"
  by (cases "tq_lt s"; cases "tq_tl s") (auto simp: tcp_pipe_rank_def)

text \<open>C38: what resetting a stream does to the TCP forward on it. If the local end keeps reading and closes when it reads the
  end of the stream, the forward returns: at most seven steps remain and one that needs nobody else is always possible. But only
  then: the direction that reads the local connection is not woken by the reset, and there is a state, reached with nothing
  more than the reset, in which the other direction has ended and told the local end, and no step is left
  until the local end sends or closes. A UDP forward has no such state.\<close>

theorem tcp_forward_waits_for_local:
  "(\<forall>ls0 s ls s'. run_acts tcp_pipe_act ls0 tcp_pipe_start = Some s \<longrightarrow> tq_reset s \<longrightarrow> run_acts tcp_pipe_act ls s = Some s' \<longrightarrow>
      length ls \<le> 7 \<and> (tcp_pipe_returned s' \<or> (\<exists>a. tcp_pipe_own True a s' \<and> tcp_pipe_act a s' \<noteq> None)))
   \<and> (\<exists>s. run_acts tcp_pipe_act [StreamReset, TlReadEnd, TlCloseWrite] tcp_pipe_start = Some s
      \<and> \<not> tcp_pipe_returned s \<and> tq_local_wclosed s \<and> (\<nexists>a. tcp_pipe_own False a s \<and> tcp_pipe_act a s \<noteq> None))"
proof (intro conjI allI impI)
  fix ls0 s ls s'
  assume r: "run_acts tcp_pipe_act ls0 tcp_pipe_start = Some s" "tq_reset s" "run_acts tcp_pipe_act ls s = Some s'"
  note d = tcp_forward.drains [OF tcp_forward.inv_run [OF r(1) tcp_pipe_inv_start] r(2,3)]
  show "length ls \<le> 7" using d tcp_pipe_rank_bound [of s] by auto
  show "tcp_pipe_returned s' \<or> (\<exists>a. tcp_pipe_own True a s' \<and> tcp_pipe_act a s' \<noteq> None)" using d by blast
next
  let ?s = "tcp_pipe_start\<lparr>tq_reset := True, tq_tl := TlEnd, tq_local_wclosed := True\<rparr>"
  have "\<not> (tcp_pipe_own False a ?s \<and> tcp_pipe_act a ?s \<noteq> None)" for a by (cases a) (simp_all add: tcp_pipe_start_def)
  then show "\<exists>s. run_acts tcp_pipe_act [StreamReset, TlReadEnd, TlCloseWrite] tcp_pipe_start = Some s
      \<and> \<not> tcp_pipe_returned s \<and> tq_local_wclosed s \<and> (\<nexists>a. tcp_pipe_own False a s \<and> tcp_pipe_act a s \<noteq> None)"
    by (intro exI [of _ ?s]) (simp add: tcp_pipe_start_def tcp_pipe_returned_def)
qed

theorem tcp_forward_waits_for_local_witness:
  "\<exists>s. run_acts tcp_pipe_act [LtGot [1], StreamReset] tcp_pipe_start = Some s \<and> tq_reset s
     \<and> run_acts tcp_pipe_act [LtWriteErr, LtCloseWrite, TlReadEnd] s \<noteq> None \<and> (\<exists>a. tcp_pipe_own True a s \<and> tcp_pipe_act a s \<noteq> None)"
proof -
  have "\<exists>s. run_acts tcp_pipe_act [LtGot [1], StreamReset] tcp_pipe_start = Some s \<and> tq_reset s \<and> \<not> tcp_pipe_returned s
      \<and> run_acts tcp_pipe_act [LtWriteErr, LtCloseWrite, TlReadEnd] s \<noteq> None"
    by (simp add: tcp_pipe_start_def tcp_pipe_returned_def)
  then obtain s where s: "run_acts tcp_pipe_act [LtGot [1], StreamReset] tcp_pipe_start = Some s" "tq_reset s" "\<not> tcp_pipe_returned s"
    "run_acts tcp_pipe_act [LtWriteErr, LtCloseWrite, TlReadEnd] s \<noteq> None" by (elim exE conjE) (rule that)
  have n: "run_acts tcp_pipe_act [] s = Some s" by simp
  have "tcp_pipe_returned s \<or> (\<exists>a. tcp_pipe_own True a s \<and> tcp_pipe_act a s \<noteq> None)"
    using tcp_forward_waits_for_local s(1,2) n by blast
  then show ?thesis using s by (intro exI [of _ s]) simp
qed

section \<open>The client\<close>

text \<open>\<^verbatim>\<open>RunClient\<close> from the forwarder on, forwarding TCP: the goroutine of \<^verbatim>\<open>RunClient\<close> itself, waiting for the context and then
  shutting down in order; \<^verbatim>\<open>forwarder.Serve\<close> with its handlers (\<open>tcp_act\<close>); the forward each handler runs (\<open>cl_pipes\<close>, one per
  accepted connection, moving while its handler is in \<^verbatim>\<open>Forward\<close>); and the background punch probe, if one runs. \<open>cl_dead\<close>: the
  plane and libp2p are closed, which resets every stream.\<close>

datatype client_at = ClAwait | ClStopNotify | ClCloseForwarder | ClClosePlane | ClCloseP2p | ClWait | ClReturned

record client_sys =
  cl_at :: client_at
  cl_ctx :: bool
  cl_tcp :: tcp_sys
  cl_pipes :: "tcp_pipe list"
  cl_probe :: bool
  cl_dead :: bool
  cl_dht :: bool
  cl_calls :: "run_call list"

definition client_start :: "bool \<Rightarrow> bool \<Rightarrow> client_sys" where
  "client_start probe dht = \<lparr>cl_at = ClAwait, cl_ctx = False, cl_tcp = tcp_serve, cl_pipes = [], cl_probe = probe, cl_dead = False,
     cl_dht = dht, cl_calls = [WatchPeer, EmitConnected, StartForwarder]\<rparr>"

datatype client_action = ClMain | ClServe tcp_action | ClPipe nat tcp_pipe_action | ClProbeEnds | ClCancelled

definition client_main :: "client_sys \<Rightarrow> client_sys option" where
  "client_main s =
     (case cl_at s of
        ClAwait \<Rightarrow> if cl_ctx s then Some (s\<lparr>cl_at := ClStopNotify, cl_calls := cl_calls s @ [AwaitCtx]\<rparr>) else None
      | ClStopNotify \<Rightarrow> Some (s\<lparr>cl_at := ClCloseForwarder, cl_calls := cl_calls s @ [StopWatch]\<rparr>)
      | ClCloseForwarder \<Rightarrow>
          map_option (\<lambda>t. s\<lparr>cl_at := ClClosePlane, cl_tcp := t, cl_calls := cl_calls s @ [CloseForwarder]\<rparr>) (tcp_act ListenerClosed (cl_tcp s))
      | ClClosePlane \<Rightarrow> Some (s\<lparr>cl_at := ClCloseP2p, cl_calls := cl_calls s @ [ClosePlane]\<rparr>)
      | ClCloseP2p \<Rightarrow>
          Some (s\<lparr>cl_at := ClWait, cl_dead := True, cl_pipes := map (\<lambda>p. p\<lparr>tq_reset := True\<rparr>) (cl_pipes s),
                  cl_calls := cl_calls s @ p2p_Close (cl_dht s)\<rparr>)
      | ClWait \<Rightarrow>
          if ts_loop (cl_tcp s) = ServeReturned \<and> \<not> cl_probe s
          then Some (s\<lparr>cl_at := ClReturned, cl_calls := cl_calls s @ [WaitGroup]\<rparr>) else None
      | ClReturned \<Rightarrow> None)"

text \<open>A handler leaves \<^verbatim>\<open>Forward\<close> when its forward has returned.\<close>

fun pipe_done :: "tcp_action \<Rightarrow> tcp_pipe list \<Rightarrow> bool" where
  "pipe_done (PipeReturned i) ps = (i < length ps \<and> tcp_pipe_returned (ps ! i))"
| "pipe_done a ps = True"

fun client_act :: "client_action \<Rightarrow> client_sys \<Rightarrow> client_sys option" where
  "client_act ClMain s = client_main s"
| "client_act (ClServe a) s =
     (if a = ListenerClosed \<or> \<not> pipe_done a (cl_pipes s) then None
      else map_option (\<lambda>t. s\<lparr>cl_tcp := t, cl_pipes := cl_pipes s @ (if a = AcceptConn then [tcp_pipe_start] else [])\<rparr>) (tcp_act a (cl_tcp s)))"
| "client_act (ClPipe i a) s =
     (if i < length (ts_handlers (cl_tcp s)) \<and> ch_at (ts_handlers (cl_tcp s) ! i) = AtPipe
      then map_option (\<lambda>p. s\<lparr>cl_pipes := (cl_pipes s)[i := p]\<rparr>) (tcp_pipe_act a (cl_pipes s ! i)) else None)"
| "client_act ClProbeEnds s = (if cl_probe s then Some (s\<lparr>cl_probe := False\<rparr>) else None)"
| "client_act ClCancelled s = (if cl_ctx s then None else Some (s\<lparr>cl_ctx := True\<rparr>))"

text \<open>The steps that need nobody outside the client. \<open>coop\<close>: the local ends cooperate, as in the first section; \<open>opens\<close>: opening a
  stream ends with the context, which \<open>Open_Direct\<close> shows libp2p's direct streams not to guarantee. The probe ends when the
  context has and libp2p is closed under it.\<close>

fun client_own :: "bool \<Rightarrow> bool \<Rightarrow> client_action \<Rightarrow> client_sys \<Rightarrow> bool" where
  "client_own coop opens ClMain s = True"
| "client_own coop opens (ClServe (OpenFails i)) s = (opens \<and> cl_ctx s)"
| "client_own coop opens (ClServe a) s = ends_handler a"
| "client_own coop opens (ClPipe i a) s = tcp_pipe_own coop a (cl_pipes s ! i)"
| "client_own coop opens ClProbeEnds s = cl_dead s"
| "client_own coop opens ClCancelled s = False"

fun client_at_rank :: "client_at \<Rightarrow> nat" where
  "client_at_rank ClAwait = 6" | "client_at_rank ClStopNotify = 5" | "client_at_rank ClCloseForwarder = 4"
| "client_at_rank ClClosePlane = 3" | "client_at_rank ClCloseP2p = 2" | "client_at_rank ClWait = 1" | "client_at_rank ClReturned = 0"

definition client_rank :: "client_sys \<Rightarrow> nat" where
  "client_rank s = client_at_rank (cl_at s) + tcp_rank (cl_tcp s) + (\<Sum>p\<leftarrow>cl_pipes s. tcp_pipe_rank p) + (if cl_probe s then 1 else 0)"

text \<open>The calls made by the time the goroutine is at some point.\<close>

fun client_calls :: "bool \<Rightarrow> client_at \<Rightarrow> run_call list" where
  "client_calls dht ClAwait = [WatchPeer, EmitConnected, StartForwarder]"
| "client_calls dht ClStopNotify = [WatchPeer, EmitConnected, StartForwarder, AwaitCtx]"
| "client_calls dht ClCloseForwarder = [WatchPeer, EmitConnected, StartForwarder, AwaitCtx, StopWatch]"
| "client_calls dht ClClosePlane = [WatchPeer, EmitConnected, StartForwarder, AwaitCtx, StopWatch, CloseForwarder]"
| "client_calls dht ClCloseP2p = [WatchPeer, EmitConnected, StartForwarder, AwaitCtx, StopWatch, CloseForwarder, ClosePlane]"
| "client_calls dht ClWait = [WatchPeer, EmitConnected, StartForwarder, AwaitCtx, StopWatch, CloseForwarder, ClosePlane] @ p2p_Close dht"
| "client_calls dht ClReturned =
     [WatchPeer, EmitConnected, StartForwarder, AwaitCtx, StopWatch, CloseForwarder, ClosePlane] @ p2p_Close dht @ [WaitGroup]"

definition pipes_inv :: "client_sys \<Rightarrow> bool" where
  "pipes_inv s \<longleftrightarrow> length (cl_pipes s) = length (ts_handlers (cl_tcp s)) \<and> (\<forall>p \<in> set (cl_pipes s). tcp_pipe_inv p \<and> (cl_dead s \<longrightarrow> tq_reset p))"

definition client_inv :: "client_sys \<Rightarrow> bool" where
  "client_inv s \<longleftrightarrow> tcp_inv (cl_tcp s) \<and> pipes_inv s \<and> (cl_at s \<noteq> ClAwait \<longrightarrow> cl_ctx s)
     \<and> ts_listener_closed (cl_tcp s) = (client_at_rank (cl_at s) \<le> 3)
     \<and> cl_dead s = (client_at_rank (cl_at s) \<le> 1)
     \<and> (cl_at s = ClReturned \<longrightarrow> ts_loop (cl_tcp s) = ServeReturned \<and> \<not> cl_probe s)
     \<and> cl_calls s = client_calls (cl_dht s) (cl_at s)"

lemma tcp_listener_only: "a \<noteq> ListenerClosed \<Longrightarrow> tcp_act a s = Some s' \<Longrightarrow> ts_listener_closed s' = ts_listener_closed s"
  by (erule tcp_act_cases) (auto simp: accept_act_def split: tcp_action.splits if_splits)

lemma tcp_close_listener:
  "tcp_act ListenerClosed s = Some s' \<Longrightarrow> ts_listener_closed s' \<and> ts_handlers s' = ts_handlers s"
  by (auto simp: tcp_act_def accept_act_def split: if_splits)

lemma tcp_returned_stays: "ts_loop s = ServeReturned \<Longrightarrow> tcp_act a s = Some s' \<Longrightarrow> ts_loop s' = ServeReturned"
  by (erule tcp_act_cases) (auto simp: accept_act_def split: tcp_action.splits if_splits)

text \<open>Only accepting a connection adds a handler.\<close>

lemma tcp_handlers_length:
  "tcp_act a s = Some s' \<Longrightarrow> length (ts_handlers s') = length (ts_handlers s) + (if a = AcceptConn then 1 else 0)"
  by (cases a) (auto simp: tcp_act_def accept_act_def split: if_splits)

text \<open>A step of \<^verbatim>\<open>RunClient\<close> itself moves it one call on.\<close>

lemma client_main_cases:
  assumes "client_main s = Some s'"
  obtains (forwarder) t where "cl_at s = ClCloseForwarder" "tcp_act ListenerClosed (cl_tcp s) = Some t"
      "s' = s\<lparr>cl_at := ClClosePlane, cl_tcp := t, cl_calls := cl_calls s @ [CloseForwarder]\<rparr>"
    | (other) "cl_at s \<noteq> ClCloseForwarder" "cl_tcp s' = cl_tcp s" "client_at_rank (cl_at s) = Suc (client_at_rank (cl_at s'))"
      "cl_ctx s' = cl_ctx s" "cl_probe s' = cl_probe s" "cl_dht s' = cl_dht s" "cl_at s = ClAwait \<Longrightarrow> cl_ctx s"
      "cl_dead s' = (cl_dead s \<or> cl_at s = ClCloseP2p)"
      "cl_pipes s' = map (\<lambda>p. if cl_at s = ClCloseP2p then p\<lparr>tq_reset := True\<rparr> else p) (cl_pipes s)"
      "cl_at s' = ClReturned \<Longrightarrow> ts_loop (cl_tcp s) = ServeReturned \<and> \<not> cl_probe s"
      "cl_calls s = client_calls (cl_dht s) (cl_at s) \<Longrightarrow> cl_calls s' = client_calls (cl_dht s') (cl_at s')"
proof (cases "cl_at s = ClCloseForwarder")
  case True
  then show ?thesis using assms forwarder by (auto simp: client_main_def)
next
  case False
  then show ?thesis using assms by (intro other) (auto simp: client_main_def split: client_at.splits if_splits)
qed

lemma pipes_inv_act:
  assumes i: "pipes_inv s" and d: "cl_dead s \<longrightarrow> ts_listener_closed (cl_tcp s)" and a: "client_act a s = Some s'"
  shows "pipes_inv s'"
proof (cases a)
  case ClMain
  then have "client_main s = Some s'" using a by simp
  then show ?thesis
  proof (cases rule: client_main_cases)
    case (forwarder t)
    then show ?thesis using i tcp_close_listener [OF forwarder(2)] by (simp add: pipes_inv_def)
  next
    case other
    then show ?thesis using i by (auto simp: pipes_inv_def tcp_pipe_inv_def)
  qed
next
  case (ClServe b)
  then obtain t where t: "b \<noteq> ListenerClosed" "tcp_act b (cl_tcp s) = Some t"
    "s' = s\<lparr>cl_tcp := t, cl_pipes := cl_pipes s @ (if b = AcceptConn then [tcp_pipe_start] else [])\<rparr>" using a by (auto split: if_splits)
  then have "b = AcceptConn \<Longrightarrow> \<not> cl_dead s" using d by (auto simp: tcp_act_def accept_act_def split: if_splits)
  then show ?thesis using i t(3) tcp_handlers_length [OF t(2)] tcp_pipe_inv_start by (auto simp: pipes_inv_def)
next
  case (ClPipe j b)
  then obtain p where p: "j < length (cl_pipes s)" "tcp_pipe_act b (cl_pipes s ! j) = Some p" "s' = s\<lparr>cl_pipes := (cl_pipes s)[j := p]\<rparr>"
    using a i by (auto simp: pipes_inv_def split: if_splits)
  have "tcp_pipe_inv p \<and> (cl_dead s \<longrightarrow> tq_reset p)"
    using i nth_mem [OF p(1)] tcp_pipe_inv_act [OF _ p(2)] tcp_pipe_nearer [OF _ p(2)] by (auto simp: pipes_inv_def)
  then show ?thesis using i p(3) set_update_subset_insert [of "cl_pipes s" j p] by (auto simp: pipes_inv_def)
qed (use i a in \<open>auto simp: pipes_inv_def split: if_splits\<close>)

lemma client_inv_act:
  assumes i: "client_inv s" and a: "client_act a s = Some s'"
  shows "client_inv s'"
proof -
  have p: "pipes_inv s'" by (rule pipes_inv_act [OF _ _ a]) (use i in \<open>auto simp: client_inv_def\<close>)
  show ?thesis
  proof (cases a)
    case ClMain
    then have "client_main s = Some s'" using a by simp
    then show ?thesis
    proof (cases rule: client_main_cases)
      case (forwarder t)
      then show ?thesis using i p tcp_close_listener [OF forwarder(2)] tcp_inv_act [OF _ forwarder(2)] by (simp add: client_inv_def)
    next
      case other
      then show ?thesis using i p by (cases "cl_at s"; cases "cl_at s'") (simp_all add: client_inv_def)
    qed
  next
    case (ClServe b)
    then obtain t where t: "b \<noteq> ListenerClosed" "tcp_act b (cl_tcp s) = Some t"
      "s' = s\<lparr>cl_tcp := t, cl_pipes := cl_pipes s @ (if b = AcceptConn then [tcp_pipe_start] else [])\<rparr>" using a by (auto split: if_splits)
    show ?thesis using i p t(3) tcp_listener_only [OF t(1,2)] tcp_inv_act [OF _ t(2)] tcp_returned_stays [OF _ t(2)]
      by (simp add: client_inv_def)
  qed (use i p a in \<open>auto simp: client_inv_def split: if_splits\<close>)
qed

lemma client_nearer:
  assumes i: "client_inv s" and d: "cl_dead s" and a: "client_act a s = Some s'"
  shows "cl_dead s' \<and> client_rank s' < client_rank s"
proof (cases a)
  case ClMain
  then have "client_main s = Some s'" using a by simp
  then show ?thesis
  proof (cases rule: client_main_cases)
    case (forwarder t)
    then show ?thesis using i d by (simp add: client_inv_def)
  next
    case other
    then have "cl_at s \<noteq> ClCloseP2p" using i d by (auto simp: client_inv_def)
    then show ?thesis using d other by (simp add: client_rank_def)
  qed
next
  case (ClServe b)
  have c: "ts_listener_closed (cl_tcp s)" using i d by (simp add: client_inv_def)
  obtain t where t: "tcp_act b (cl_tcp s) = Some t"
    "s' = s\<lparr>cl_tcp := t, cl_pipes := cl_pipes s @ (if b = AcceptConn then [tcp_pipe_start] else [])\<rparr>" using ClServe a by (auto split: if_splits)
  then have "b \<noteq> AcceptConn" using c by (auto simp: tcp_act_def accept_act_def)
  then show ?thesis using d t tcp_rank_act [OF c t(1)] by (simp add: client_rank_def)
next
  case (ClPipe j b)
  then obtain p where p: "j < length (cl_pipes s)" "tcp_pipe_act b (cl_pipes s ! j) = Some p" "s' = s\<lparr>cl_pipes := (cl_pipes s)[j := p]\<rparr>"
    using a i by (auto simp: client_inv_def pipes_inv_def split: if_splits)
  have "tq_reset (cl_pipes s ! j)" using i d nth_mem [OF p(1)] by (auto simp: client_inv_def pipes_inv_def)
  then have "tcp_pipe_rank p < tcp_pipe_rank (cl_pipes s ! j)" using tcp_pipe_nearer p(2) by blast
  then show ?thesis using d p(3) sum_list_less_update [of j "cl_pipes s" tcp_pipe_rank p] p(1) by (simp add: client_rank_def)
qed (use i d a in \<open>auto simp: client_inv_def client_rank_def split: if_splits\<close>)

text \<open>When the streams are dead a handler has a way on: its own, or that of its forward.\<close>

lemma client_handler_moves:
  assumes i: "client_inv s" and d: "cl_dead s" and j: "j < length (ts_handlers (cl_tcp s))" "ch_at (ts_handlers (cl_tcp s) ! j) \<noteq> AtEnd"
  shows "\<exists>a. client_own True True a s \<and> client_act a s \<noteq> None"
proof -
  let ?h = "ts_handlers (cl_tcp s) ! j" and ?p = "cl_pipes s ! j"
  have x: "cl_ctx s" "j < length (cl_pipes s)" using i d j(1) by (auto simp: client_inv_def pipes_inv_def)
  then have p: "tcp_pipe_inv ?p" "tq_reset ?p" using i d nth_mem [OF x(2)] by (auto simp: client_inv_def pipes_inv_def)
  show ?thesis
  proof (cases "ch_at ?h = AtPipe \<and> \<not> tcp_pipe_returned ?p")
    case True
    then obtain b where "tcp_pipe_own True b ?p" "tcp_pipe_act b ?p \<noteq> None" using tcp_pipe_not_stuck p by blast
    then show ?thesis using True j(1) by (intro exI [of _ "ClPipe j b"]) simp
  next
    case False
    then have "\<exists>b \<in> {OpenFails j, PipeReturned j, StreamCloses j, ConnCloses j}. client_own True True (ClServe b) s \<and> client_act (ClServe b) s \<noteq> None"
      using j x by (cases "ch_at ?h") (auto simp: tcp_act_def)
    then show ?thesis by blast
  qed
qed

lemma client_not_stuck:
  assumes i: "client_inv s" and d: "cl_dead s" and n: "cl_at s \<noteq> ClReturned"
  shows "\<exists>a. client_own True True a s \<and> client_act a s \<noteq> None"
proof (cases "\<exists>j < length (ts_handlers (cl_tcp s)). ch_at (ts_handlers (cl_tcp s) ! j) \<noteq> AtEnd")
  case True
  then show ?thesis using client_handler_moves [OF i d] by blast
next
  case False
  then have e: "\<forall>h \<in> set (ts_handlers (cl_tcp s)). ch_at h = AtEnd" by (auto simp: in_set_conv_nth)
  have c: "ts_listener_closed (cl_tcp s)" "cl_at s = ClWait" using i d n by (cases "cl_at s"; auto simp: client_inv_def)+
  then have "\<exists>a \<in> {ClMain, ClProbeEnds, ClServe AcceptClosed, ClServe WaitReturns}. client_own True True a s \<and> client_act a s \<noteq> None"
    using d e by (cases "ts_loop (cl_tcp s)") (auto simp: client_main_def tcp_act_def accept_act_def)
  then show ?thesis by blast
qed

interpretation client_drain: draining client_act client_inv cl_dead "\<lambda>s. cl_at s = ClReturned" "client_own True True" client_rank
  by unfold_locales (blast intro: client_inv_act client_not_stuck dest: client_nearer)+

lemma client_dht_act: "client_act a s = Some s' \<Longrightarrow> cl_dht s' = cl_dht s"
  by (cases a) (auto simp: client_main_def split: client_at.splits if_splits)

lemma client_run:
  assumes "run_acts client_act ls (client_start probe dht) = Some s"
  shows "client_inv s" "cl_dht s = dht"
proof -
  show "client_inv s"
    by (rule client_drain.inv_run [OF assms]) (simp add: client_inv_def pipes_inv_def client_start_def tcp_inv_def tcp_serve_def)
  show "cl_dht s = dht"
    using run_acts_inv [where f = client_act and ok = "\<lambda>s. cl_dht s = dht", OF _ assms] client_dht_act by (auto simp: client_start_def)
qed

lemma client_rank_dead:
  assumes "client_inv s" "cl_dead s"
  shows "client_rank s \<le> 11 * length (ts_handlers (cl_tcp s)) + 4"
proof -
  have "(\<Sum>p\<leftarrow>ps. tcp_pipe_rank p) \<le> 7 * length ps" for ps
    using tcp_pipe_rank_bound by (induction ps) (auto intro: add_mono)
  from this [of "cl_pipes s"] show ?thesis
    using assms tcp_rank_bound [of "cl_tcp s"] by (simp add: client_inv_def pipes_inv_def client_rank_def)
qed

lemma client_main_on: "client_inv s \<Longrightarrow> cl_ctx s \<Longrightarrow> \<not> cl_dead s \<Longrightarrow> client_act ClMain s \<noteq> None"
  by (cases "cl_at s") (auto simp: client_inv_def client_main_def tcp_act_def accept_act_def)

text \<open>The two ways to hang. In the first the forward's tunnel side has ended and told the local end, which neither sends nor
  closes; in the second the stream is still being opened.\<close>

definition pipe_hang :: "client_action list" where
  "pipe_hang = [ClServe AcceptConn, ClServe (StreamOpened 0), ClCancelled, ClMain, ClMain, ClMain, ClMain, ClMain,
     ClServe AcceptClosed, ClPipe 0 TlReadEnd, ClPipe 0 TlCloseWrite]"

definition open_hang :: "client_action list" where
  "open_hang = [ClServe AcceptConn, ClCancelled, ClMain, ClMain, ClMain, ClMain, ClMain, ClServe AcceptClosed]"

lemmas client_eval = client_start_def client_main_def tcp_act_def accept_act_def tcp_serve_def tcp_pipe_start_def

lemma pipe_hang_reached:
  "\<exists>s. run_acts client_act pipe_hang (client_start False dht) = Some s \<and> cl_at s = ClWait \<and> \<not> cl_probe s
     \<and> cl_tcp s = \<lparr>ts_loop = Draining, ts_listener_closed = True,
         ts_handlers = [\<lparr>ch_at = AtPipe, ch_opened = True, ch_calls = [OpenTunnel]\<rparr>]\<rparr>
     \<and> cl_pipes s = [tcp_pipe_start\<lparr>tq_reset := True, tq_tl := TlEnd, tq_local_wclosed := True\<rparr>]"
  by (simp add: pipe_hang_def client_eval)

lemma open_hang_reached:
  "\<exists>s. run_acts client_act open_hang (client_start False dht) = Some s \<and> cl_at s = ClWait \<and> \<not> cl_probe s
     \<and> cl_tcp s = \<lparr>ts_loop = Draining, ts_listener_closed = True, ts_handlers = [\<lparr>ch_at = AtOpen, ch_opened = False, ch_calls = []\<rparr>]\<rparr>"
  by (simp add: open_hang_def client_eval)

lemma client_hangs:
  shows "\<exists>s. run_acts client_act pipe_hang (client_start False dht) = Some s \<and> cl_at s = ClWait
      \<and> (\<nexists>a. client_own False True a s \<and> client_act a s \<noteq> None)"
    and "\<exists>s. run_acts client_act open_hang (client_start False dht) = Some s \<and> cl_at s = ClWait
      \<and> (\<nexists>a. client_own True False a s \<and> client_act a s \<noteq> None)"
proof -
  obtain s where s: "run_acts client_act pipe_hang (client_start False dht) = Some s" "cl_at s = ClWait" "\<not> cl_probe s"
    "cl_tcp s = \<lparr>ts_loop = Draining, ts_listener_closed = True, ts_handlers = [\<lparr>ch_at = AtPipe, ch_opened = True, ch_calls = [OpenTunnel]\<rparr>]\<rparr>"
    "cl_pipes s = [tcp_pipe_start\<lparr>tq_reset := True, tq_tl := TlEnd, tq_local_wclosed := True\<rparr>]"
    using pipe_hang_reached [of dht] by (elim exE conjE) (rule that)
  have "\<not> (client_own False True a s \<and> client_act a s \<noteq> None)" for a
  proof (cases a)
    case (ClServe b)
    then show ?thesis using s by (cases b) (auto simp: client_eval tcp_pipe_returned_def)
  next
    case (ClPipe j b)
    then show ?thesis using s by (cases b) (auto simp: tcp_pipe_start_def)
  qed (use s in \<open>auto simp: client_main_def\<close>)
  then show "\<exists>s. run_acts client_act pipe_hang (client_start False dht) = Some s \<and> cl_at s = ClWait
      \<and> (\<nexists>a. client_own False True a s \<and> client_act a s \<noteq> None)" using s by blast
next
  obtain s where s: "run_acts client_act open_hang (client_start False dht) = Some s" "cl_at s = ClWait" "\<not> cl_probe s"
    "cl_tcp s = \<lparr>ts_loop = Draining, ts_listener_closed = True, ts_handlers = [\<lparr>ch_at = AtOpen, ch_opened = False, ch_calls = []\<rparr>]\<rparr>"
    using open_hang_reached [of dht] by (elim exE conjE) (rule that)
  have "\<not> (client_own True False a s \<and> client_act a s \<noteq> None)" for a
  proof (cases a)
    case (ClServe b)
    then show ?thesis using s by (cases b) (auto simp: client_eval)
  qed (use s in \<open>auto simp: client_main_def\<close>)
  then show "\<exists>s. run_acts client_act open_hang (client_start False dht) = Some s \<and> cl_at s = ClWait
      \<and> (\<nexists>a. client_own True False a s \<and> client_act a s \<noteq> None)" using s by blast
qed

text \<open>C6: when the client's shutdown completes, and when it hangs, whatever the interleaving of \<^verbatim>\<open>RunClient\<close> with the accept loop,
  the handlers, their TCP forwards and the background probe. Once the context is cancelled \<^verbatim>\<open>RunClient\<close> is never held up before
  it has closed the forwarder, the plane and libp2p. From there, with \<open>n\<close> connections in flight, at most \<open>11 * n + 4\<close> steps
  of any goroutine remain, and, given local ends that keep reading and close on the end of the stream and stream openings that
  end with the context, until it has returned there is one that needs nobody outside the client. Neither assumption can be
  dropped: with the other alone a run is exhibited that ends in the final wait with no such step left. When \<^verbatim>\<open>RunClient\<close> has
  returned, the calls it made are those of \<open>serve_client\<close>, in that order; the forwarder and the probe have returned, and every
  accepted connection was closed, after its stream if it had one.\<close>

theorem client_shutdown_completes:
  assumes "run_acts client_act ls0 (client_start probe dht) = Some s"
  shows "(cl_ctx s \<and> \<not> cl_dead s \<longrightarrow> client_act ClMain s \<noteq> None)
    \<and> (cl_dead s \<longrightarrow> (\<forall>ls s'. run_acts client_act ls s = Some s' \<longrightarrow>
         length ls \<le> 11 * length (ts_handlers (cl_tcp s)) + 4
         \<and> (cl_at s' = ClReturned \<or> (\<exists>a. client_own True True a s' \<and> client_act a s' \<noteq> None))))
    \<and> (cl_at s = ClReturned \<longrightarrow> ts_loop (cl_tcp s) = ServeReturned \<and> \<not> cl_probe s
         \<and> (\<forall>h \<in> set (ts_handlers (cl_tcp s)). ch_calls h = handleLocalConn (ch_opened h))
         \<and> (\<forall>env. ce_listen env \<longrightarrow> cl_calls s = snd (serve_client env dht)))
    \<and> (\<exists>s. run_acts client_act pipe_hang (client_start False dht) = Some s \<and> cl_at s = ClWait
         \<and> (\<nexists>a. client_own False True a s \<and> client_act a s \<noteq> None))
    \<and> (\<exists>s. run_acts client_act open_hang (client_start False dht) = Some s \<and> cl_at s = ClWait
         \<and> (\<nexists>a. client_own True False a s \<and> client_act a s \<noteq> None))"
proof (intro conjI)
  note i = client_run [OF assms]
  show "cl_ctx s \<and> \<not> cl_dead s \<longrightarrow> client_act ClMain s \<noteq> None" using client_main_on [OF i(1)] by blast
  have "length ls \<le> 11 * length (ts_handlers (cl_tcp s)) + 4
      \<and> (cl_at s' = ClReturned \<or> (\<exists>a. client_own True True a s' \<and> client_act a s' \<noteq> None))"
    if "cl_dead s" "run_acts client_act ls s = Some s'" for ls s'
    using client_drain.drains [OF i(1) that] client_rank_dead [OF i(1) that(1)] by auto
  then show "cl_dead s \<longrightarrow> (\<forall>ls s'. run_acts client_act ls s = Some s' \<longrightarrow>
         length ls \<le> 11 * length (ts_handlers (cl_tcp s)) + 4
         \<and> (cl_at s' = ClReturned \<or> (\<exists>a. client_own True True a s' \<and> client_act a s' \<noteq> None)))" by blast
  show "cl_at s = ClReturned \<longrightarrow> ts_loop (cl_tcp s) = ServeReturned \<and> \<not> cl_probe s
         \<and> (\<forall>h \<in> set (ts_handlers (cl_tcp s)). ch_calls h = handleLocalConn (ch_opened h))
         \<and> (\<forall>env. ce_listen env \<longrightarrow> cl_calls s = snd (serve_client env dht))"
    using i by (auto simp: client_inv_def tcp_inv_def handler_ok_def serve_client_def)
qed (rule client_hangs)+

theorem client_shutdown_completes_witness:
  "\<exists>s. run_acts client_act [ClServe AcceptConn, ClServe AcceptConn, ClServe (StreamOpened 0), ClPipe 0 (TlGot [1]), ClCancelled, ClMain, ClMain,
       ClMain, ClServe (OpenFails 1), ClMain, ClServe AcceptClosed, ClMain, ClPipe 0 TlWrote, ClPipe 0 TlReadEnd, ClPipe 0 TlCloseWrite,
       ClPipe 0 LocalEnds, ClPipe 0 LtReadEnd, ClPipe 0 LtCloseWrite, ClServe (PipeReturned 0), ClServe (ConnCloses 1), ClProbeEnds,
       ClServe (StreamCloses 0), ClServe (ConnCloses 0), ClServe WaitReturns, ClMain] (client_start True False) = Some s
    \<and> cl_at s = ClReturned \<and> length (ts_handlers (cl_tcp s)) = 2
    \<and> cl_calls s = [WatchPeer, EmitConnected, StartForwarder, AwaitCtx, StopWatch, CloseForwarder, ClosePlane, CloseHost, WaitGroup]
    \<and> (\<forall>h \<in> set (ts_handlers (cl_tcp s)). count_list (ch_calls h) CloseConn = 1)"
proof -
  let ?ls = "[ClServe AcceptConn, ClServe AcceptConn, ClServe (StreamOpened 0), ClPipe 0 (TlGot [1]), ClCancelled, ClMain, ClMain,
       ClMain, ClServe (OpenFails 1), ClMain, ClServe AcceptClosed, ClMain, ClPipe 0 TlWrote, ClPipe 0 TlReadEnd, ClPipe 0 TlCloseWrite,
       ClPipe 0 LocalEnds, ClPipe 0 LtReadEnd, ClPipe 0 LtCloseWrite, ClServe (PipeReturned 0), ClServe (ConnCloses 1), ClProbeEnds,
       ClServe (StreamCloses 0), ClServe (ConnCloses 0), ClServe WaitReturns, ClMain]"
  let ?env = "\<lparr>ce_token = Inl TokenMalformed, ce_dht = True, ce_find = True, ce_connect = True, ce_tiers = True, ce_negotiate = True,
      ce_dhtClose = True, ce_listen = True\<rparr>"
  have "\<exists>s. run_acts client_act ?ls (client_start True False) = Some s \<and> cl_at s = ClReturned \<and> length (ts_handlers (cl_tcp s)) = 2"
    by (simp add: client_eval tcp_pipe_returned_def)
  then obtain s where s: "run_acts client_act ?ls (client_start True False) = Some s" "cl_at s = ClReturned"
    "length (ts_handlers (cl_tcp s)) = 2" by (elim exE conjE) (rule that)
  have "(\<forall>h \<in> set (ts_handlers (cl_tcp s)). ch_calls h = handleLocalConn (ch_opened h)) \<and> cl_calls s = snd (serve_client ?env False)"
    using client_shutdown_completes [OF s(1)] s(2) by simp
  then show ?thesis using s handleLocalConn_releases by (intro exI [of _ s]) (simp add: serve_client_def p2p_Close_def)
qed

end
