(* ===== verification/Host_Shutdown.thy ===== *)
theory Host_Shutdown
  imports Session Client_Shutdown
begin

text \<open>
  The goroutines inside a run of the host, \<^verbatim>\<open>internal/tunnel/host.go\<close>: \<^verbatim>\<open>RunHost\<close> itself, one handler per forwarded stream
  (\<^verbatim>\<open>handleHostStream\<close> between \<^verbatim>\<open>BeginStream\<close> and \<^verbatim>\<open>EndStream\<close>) with the two of its forward, one per negotiation (\<^verbatim>\<open>negotiateTierHost\<close>, which serves
  rungs one after another, \<^verbatim>\<open>tier.go\<close>), and the control goroutine, over the session manager and the
  handler group of \<^verbatim>\<open>Session\<close>. An action is one step of one of them or of their surroundings; the steps interleave freely.
\<close>

section \<open>A forward\<close>

text \<open>\<^verbatim>\<open>t.Forward\<close>: the two goroutines of the transport's pipe, \<open>Client_Shutdown\<close>'s for TCP and \<open>Forwarding\<close>'s for UDP, with what both
  theories show of them. \<open>coop\<close> is the promise of a TCP service, that it keeps reading and closes on the end of the stream; of a
  UDP service and of the tunnel's peer nothing is asked.\<close>

datatype forward = TcpForward tcp_pipe | UdpForward pipe_sys
datatype forward_action = FwdTcp tcp_pipe_action | FwdUdp pipe_action

definition forward_start :: "network \<Rightarrow> forward" where
  "forward_start n = (if n = NetworkUDP then UdpForward pipeDatagrams else TcpForward tcp_pipe_start)"

fun forward_act :: "forward_action \<Rightarrow> forward \<Rightarrow> forward option" where
  "forward_act (FwdTcp a) (TcpForward p) = map_option TcpForward (tcp_pipe_act a p)"
| "forward_act (FwdUdp a) (UdpForward p) = map_option UdpForward (pipe_act a p)"
| "forward_act _ _ = None"

fun forward_own :: "bool \<Rightarrow> forward_action \<Rightarrow> forward \<Rightarrow> bool" where
  "forward_own coop (FwdTcp a) (TcpForward p) = tcp_pipe_own coop a p"
| "forward_own coop (FwdUdp a) (UdpForward p) = pipe_own False a p"
| "forward_own coop _ _ = False"

fun forward_returned :: "forward \<Rightarrow> bool" where
  "forward_returned (TcpForward p) = tcp_pipe_returned p"
| "forward_returned (UdpForward p) = pipe_returned p"

text \<open>The stream under it: reset, being reset, and the action that does it.\<close>

fun forward_severed :: "forward \<Rightarrow> bool" where
  "forward_severed (TcpForward p) = tq_reset p"
| "forward_severed (UdpForward p) = pp_stream_reset p"

fun forward_sever :: "forward \<Rightarrow> forward" where
  "forward_sever (TcpForward p) = TcpForward (p\<lparr>tq_reset := True\<rparr>)"
| "forward_sever (UdpForward p) = UdpForward (p\<lparr>pp_stream_reset := True\<rparr>)"

definition fwd_severs :: "forward_action \<Rightarrow> bool" where
  "fwd_severs a \<longleftrightarrow> a = FwdTcp StreamReset \<or> a = FwdUdp StreamCut"

fun is_udp :: "forward \<Rightarrow> bool" where
  "is_udp (TcpForward p) = False"
| "is_udp (UdpForward p) = True"

fun forward_inv :: "forward \<Rightarrow> bool" where
  "forward_inv (TcpForward p) = tcp_pipe_inv p"
| "forward_inv (UdpForward p) = pipe_inv p"

fun forward_rank :: "forward \<Rightarrow> nat" where
  "forward_rank (TcpForward p) = tcp_pipe_rank p + of_bool (\<not> tq_reset p)"
| "forward_rank (UdpForward p) = pipe_rank p + of_bool (\<not> pp_stream_reset p)"

text \<open>A forward of the right network in a state its goroutines can be in.\<close>

definition fwd_ok :: "network \<Rightarrow> forward \<Rightarrow> bool" where
  "fwd_ok n f \<longleftrightarrow> forward_inv f \<and> is_udp f = (n = NetworkUDP)"

lemma fwd_ok_start: "fwd_ok n (forward_start n)"
  by (simp add: fwd_ok_def forward_start_def tcp_pipe_inv_start pipe_inv_start)

lemma fwd_ok_act: "forward_act a f = Some f' \<Longrightarrow> fwd_ok n f \<Longrightarrow> fwd_ok n f'"
  by (cases "(a, f)" rule: forward_act.cases) (auto simp: fwd_ok_def tcp_pipe_inv_act pipe_inv_act)

lemma fwd_ok_sever: "fwd_ok n f \<Longrightarrow> fwd_ok n (forward_sever f)"
  by (cases f) (simp_all add: fwd_ok_def tcp_pipe_inv_def pipe_inv_def)

lemma severed_sever [simp]: "forward_severed (forward_sever f)"
  by (cases f) simp_all

lemma severed_stays:
  assumes "forward_act a f = Some f'" "forward_severed f"
  shows "forward_severed f'"
proof -
  have r: "pp_stream_reset p \<Longrightarrow> pipe_act b p = Some p' \<Longrightarrow> pp_stream_reset p'" for b p p'
    by (cases b) (auto split: if_splits up_state.splits down_state.splits)
  then show ?thesis using assms tcp_pipe_nearer by (cases "(a, f)" rule: forward_act.cases) auto
qed

lemma down_rank_sever: "down_rank True c d \<le> down_rank False c d"
  by (cases d) auto

lemma forward_sever_rank: "forward_rank (forward_sever f) \<le> forward_rank f"
proof (cases f)
  case (UdpForward p)
  then show ?thesis using down_rank_sever by (cases "pp_stream_reset p") (auto simp: pipe_rank_def intro: le_SucI)
qed (simp add: tcp_pipe_rank_def)

text \<open>A step of its own, and the reset of its stream, bring a forward nearer to its end.\<close>

lemma pipe_own_nearer:
  "pipe_own False a s \<Longrightarrow> pipe_act a s = Some s' \<Longrightarrow> (pp_stream_reset s \<longrightarrow> pp_stream_reset s') \<and> pipe_rank s' < pipe_rank s"
  by (cases a; cases "pp_down s") (auto simp: pipe_rank_def split: if_splits up_state.splits)

lemma forward_nearer:
  assumes "forward_own coop a f \<or> fwd_severs a" "forward_act a f = Some f'"
  shows "forward_rank f' < forward_rank f"
proof (cases "fwd_severs a")
  case True
  then show ?thesis using assms(2) down_rank_sever
    by (cases f) (auto simp: fwd_severs_def tcp_pipe_rank_def pipe_rank_def less_Suc_eq_le split: if_splits)
next
  case False
  then show ?thesis using assms tcp_pipe_own_nearer pipe_own_nearer
    by (cases "(a, f)" rule: forward_act.cases) (fastforce simp: of_bool_def split: if_splits)+
qed

lemma forward_not_stuck:
  assumes "forward_inv f" "forward_severed f" "\<not> forward_returned f" "coop \<or> is_udp f"
  shows "\<exists>a. forward_own coop a f \<and> forward_act a f \<noteq> None"
proof (cases f)
  case (TcpForward p)
  then obtain b where "tcp_pipe_own coop b p" "tcp_pipe_act b p \<noteq> None" using tcp_pipe_not_stuck assms by fastforce
  then show ?thesis using TcpForward by (intro exI [of _ "FwdTcp b"]) simp
next
  case (UdpForward p)
  then obtain b where "pipe_own False b p" "pipe_act b p \<noteq> None" using pipe_not_stuck [where takes = False] assms by fastforce
  then show ?thesis using UdpForward by (intro exI [of _ "FwdUdp b"]) simp
qed

lemma forward_rank_bound: "forward_rank f \<le> 8"
proof (cases f)
  case (TcpForward p)
  then show ?thesis using tcp_pipe_rank_bound [of p] by auto
next
  case (UdpForward p)
  have "up_rank (pp_up p) \<le> 3" by (cases "pp_up p") auto
  moreover have "down_rank x y (pp_down p) \<le> 4" for x y by (cases "pp_down p") auto
  ultimately have "pipe_rank p \<le> 3 + 4" unfolding pipe_rank_def by (intro add_mono)
  then show ?thesis using UdpForward by simp
qed

section \<open>State\<close>

text \<open>A forwarded stream, on libp2p or accepted on the rung that negotiation \<open>k\<close> serves (\<open>Some k\<close>), with its forward, which moves
  while the handler is in it.\<close>

datatype stream_at = HsBegin | HsDial | HsForward | HsEnd | HsGone

record host_stream =
  hh_peer :: peer_id
  hh_rung :: "nat option"
  hh_at :: stream_at
  hh_fwd :: forward

abbreviation hh_severed :: "host_stream \<Rightarrow> bool" where
  "hh_severed h \<equiv> forward_severed (hh_fwd h)"

definition hs_live :: "host_stream \<Rightarrow> bool" where
  "hs_live h \<longleftrightarrow> hh_at h \<in> {HsDial, HsForward, HsEnd}"

text \<open>A negotiation: not yet admitted, talking to the client, serving a rung with its registration, about to leave the group, gone.
  \<open>hn_accepting\<close>: the accept loop of the rung still runs; \<open>hn_stopped\<close>: \<^verbatim>\<open>stopTier\<close> was called by the handler itself.\<close>

datatype neg_at = HnBegin | HnRun | HnServe "nat option" | HnDone | HnGone

record host_neg =
  hn_peer :: peer_id
  hn_at :: neg_at
  hn_accepting :: bool
  hn_stopped :: bool

definition hn_active :: "host_neg \<Rightarrow> bool" where
  "hn_active g \<longleftrightarrow> hn_at g \<noteq> HnBegin \<and> hn_at g \<noteq> HnGone"

datatype host_at = PcAwait | PcRemoveData | PcRemoveNeg | PcShutdown | PcSessions | PcNegs | PcNegWait | PcControl | PcClose | PcReturned

record host_sys =
  hs_at :: host_at
  hs_network :: network
  hs_ctx :: bool
  hs_data :: bool
  hs_negotiate :: bool
  hs_mgr :: SessionManager
  hs_streams :: "host_stream list"
  hs_negs :: "host_neg list"
  hs_group :: handlerGroup
  hs_control :: bool
  hs_removed :: "peer_id set"
  hs_calls :: "run_call list"

text \<open>The host is ready: the token is announced, the control goroutine started. With a forced tier the data handler is not
  registered.\<close>

definition host_ready :: "string \<Rightarrow> run_call list" where
  "host_ready mode = [NewDHTCall] @ (if forcesTier mode then [] else [SetDataHandler]) @ [SetNegotiateHandler, Announce]"

definition host_start :: "network \<Rightarrow> string \<Rightarrow> host_sys" where
  "host_start n mode = \<lparr>hs_at = PcAwait, hs_network = n, hs_ctx = False, hs_data = (\<not> forcesTier mode), hs_negotiate = True,
     hs_mgr = NewSessionManager, hs_streams = [], hs_negs = [], hs_group = \<lparr>hg_closing = False, hg_wg = 0\<rparr>,
     hs_control = True, hs_removed = {}, hs_calls = host_ready mode\<rparr>"

section \<open>Steps\<close>

text \<open>Resetting every libp2p stream of some peers.\<close>

definition sever :: "peer_id set \<Rightarrow> host_stream list \<Rightarrow> host_stream list" where
  "sever ps = map (\<lambda>h. if hh_peer h \<in> ps \<and> hh_rung h = None then h\<lparr>hh_fwd := forward_sever (hh_fwd h)\<rparr> else h)"

definition host_main :: "host_sys \<Rightarrow> host_sys option" where
  "host_main s =
     (case hs_at s of
        PcAwait \<Rightarrow> if hs_ctx s then Some (s\<lparr>hs_at := PcRemoveData, hs_calls := hs_calls s @ [AwaitCtx]\<rparr>) else None
      | PcRemoveData \<Rightarrow> Some (s\<lparr>hs_at := PcRemoveNeg, hs_data := False, hs_calls := hs_calls s @ [RemoveDataHandler]\<rparr>)
      | PcRemoveNeg \<Rightarrow> Some (s\<lparr>hs_at := PcShutdown, hs_negotiate := False, hs_calls := hs_calls s @ [RemoveNegotiateHandler]\<rparr>)
      | PcShutdown \<Rightarrow>
          Some (s\<lparr>hs_at := PcSessions, hs_streams := sever (set (sm_List (hs_mgr s))) (hs_streams s), hs_mgr := sm_Shutdown (hs_mgr s)\<rparr>)
      | PcSessions \<Rightarrow>
          if Shutdown_waits (hs_mgr s) then None else Some (s\<lparr>hs_at := PcNegs, hs_calls := hs_calls s @ [SessionShutdown]\<rparr>)
      | PcNegs \<Rightarrow> Some (s\<lparr>hs_at := PcNegWait, hs_group := hg_shutdown (hs_group s)\<rparr>)
      | PcNegWait \<Rightarrow>
          if hg_wg (hs_group s) \<noteq> 0 then None else Some (s\<lparr>hs_at := PcControl, hs_calls := hs_calls s @ [NegotiationsShutdown]\<rparr>)
      | PcControl \<Rightarrow> if hs_control s then None else Some (s\<lparr>hs_at := PcClose, hs_calls := hs_calls s @ [WaitGroup]\<rparr>)
      | PcClose \<Rightarrow> Some (s\<lparr>hs_at := PcReturned, hs_calls := hs_calls s @ p2p_Close True\<rparr>)
      | PcReturned \<Rightarrow> None)"

text \<open>A stream handler. \<open>StDial b\<close>: the dial of the local service returned, \<open>b\<close> if it connected; \<open>StFwd a\<close>: a step of the forward, or the
  reset of its stream; \<open>StForwarded\<close>: the forward has returned.\<close>

datatype stream_action = StBegin gtime string | StDial bool | StFwd forward_action | StForwarded | StEnd

definition set_stream :: "nat \<Rightarrow> stream_at \<Rightarrow> host_sys \<Rightarrow> host_sys" where
  "set_stream j p s = s\<lparr>hs_streams := (hs_streams s)[j := (hs_streams s ! j)\<lparr>hh_at := p\<rparr>]\<rparr>"

fun host_stream_act :: "nat \<Rightarrow> stream_action \<Rightarrow> host_sys \<Rightarrow> host_sys option" where
  "host_stream_act j (StBegin now addr) s =
     (if hh_at (hs_streams s ! j) = HsBegin
      then (case BeginStream now (hh_peer (hs_streams s ! j)) addr (hs_mgr s) of
              (True, m) \<Rightarrow> Some ((set_stream j HsDial s)\<lparr>hs_mgr := m\<rparr>)
            | (False, m) \<Rightarrow> Some (set_stream j HsGone s))
      else None)"
| "host_stream_act j (StDial b) s =
     (if hh_at (hs_streams s ! j) = HsDial then Some (set_stream j (if b then HsForward else HsEnd) s) else None)"
| "host_stream_act j (StFwd a) s =
     (if hh_at (hs_streams s ! j) = HsForward
      then map_option (\<lambda>f. s\<lparr>hs_streams := (hs_streams s)[j := (hs_streams s ! j)\<lparr>hh_fwd := f\<rparr>]\<rparr>) (forward_act a (hh_fwd (hs_streams s ! j)))
      else None)"
| "host_stream_act j StForwarded s =
     (if hh_at (hs_streams s ! j) = HsForward \<and> forward_returned (hh_fwd (hs_streams s ! j)) then Some (set_stream j HsEnd s) else None)"
| "host_stream_act j StEnd s =
     (if hh_at (hs_streams s ! j) = HsEnd
      then Some ((set_stream j HsGone s)\<lparr>hs_mgr := EndStream (hh_peer (hs_streams s ! j)) (hs_mgr s)\<rparr>) else None)"

text \<open>The context of the rung that a negotiation serves: ended with the run's, by the handler, or by the session manager.\<close>

definition tier_done :: "host_neg \<Rightarrow> host_sys \<Rightarrow> bool" where
  "tier_done g s \<longleftrightarrow> hs_ctx s \<or> hn_stopped g
     \<or> (case hn_at g of HnServe (Some a) \<Rightarrow> pt_stops (sm_entries (hs_mgr s) ! a) > 0 | _ \<Rightarrow> False)"

definition rung_idle :: "nat \<Rightarrow> host_sys \<Rightarrow> bool" where
  "rung_idle k s \<longleftrightarrow> (\<forall>h \<in> set (hs_streams s). hh_rung h = Some k \<longrightarrow> \<not> hs_live h)"

text \<open>A negotiation handler. \<open>NgRunEnds\<close>: it found an error, the floor, or the end of the probe; \<open>NgServes t\<close>: a rung is up and
  \<^verbatim>\<open>serveRung\<close> registers it; \<open>NgAccept\<close>, \<open>NgAcceptEnds\<close>: the accept loop got a stream, left; \<open>NgStops\<close>: \<^verbatim>\<open>stopTier\<close>, by the goroutine of the
  accept loop when the handlers are done, by the client moving on, by the watcher; \<open>NgServed b\<close>: \<^verbatim>\<open>serveRung\<close> returned, with
  another request to answer if \<open>b\<close>.\<close>

datatype neg_action = NgBegin | NgRunEnds | NgServes tier | NgAccept gtime string | NgAcceptEnds | NgStops | NgServed bool | NgDone

definition set_neg :: "nat \<Rightarrow> host_neg \<Rightarrow> host_sys \<Rightarrow> host_sys" where
  "set_neg k g s = s\<lparr>hs_negs := (hs_negs s)[k := g]\<rparr>"

fun is_serving :: "neg_at \<Rightarrow> bool" where
  "is_serving (HnServe e) = True"
| "is_serving _ = False"

fun host_neg_act :: "nat \<Rightarrow> neg_action \<Rightarrow> host_neg \<Rightarrow> host_sys \<Rightarrow> host_sys option" where
  "host_neg_act k NgBegin g s =
     (if hn_at g = HnBegin
      then (case hg_begin (hs_group s) of
              (True, grp) \<Rightarrow> Some ((set_neg k (g\<lparr>hn_at := HnRun\<rparr>) s)\<lparr>hs_group := grp\<rparr>)
            | (False, grp) \<Rightarrow> Some (set_neg k (g\<lparr>hn_at := HnGone\<rparr>) s))
      else None)"
| "host_neg_act k NgRunEnds g s = (if hn_at g = HnRun then Some (set_neg k (g\<lparr>hn_at := HnDone\<rparr>) s) else None)"
| "host_neg_act k (NgServes t) g s =
     (if hn_at g = HnRun
      then (case RegisterTier (hn_peer g) t (hs_mgr s) of
              (e, m) \<Rightarrow> Some ((set_neg k (g\<lparr>hn_at := HnServe e, hn_accepting := True, hn_stopped := (e = None)\<rparr>) s)\<lparr>hs_mgr := m\<rparr>))
      else None)"
| "host_neg_act k (NgAccept now addr) g s =
     (if is_serving (hn_at g) \<and> hn_accepting g
      then (case BeginStream now (hn_peer g) addr (hs_mgr s) of
              (True, m) \<Rightarrow> Some (s\<lparr>hs_mgr := m, hs_streams := hs_streams s @ [\<lparr>hh_peer = hn_peer g, hh_rung = Some k, hh_at = HsDial, hh_fwd = forward_start (hs_network s)\<rparr>]\<rparr>)
            | (False, m) \<Rightarrow> Some (set_neg k (g\<lparr>hn_accepting := False\<rparr>) s))
      else None)"
| "host_neg_act k NgAcceptEnds g s =
     (if is_serving (hn_at g) \<and> hn_accepting g then Some (set_neg k (g\<lparr>hn_accepting := False\<rparr>) s) else None)"
| "host_neg_act k NgStops g s =
     (if is_serving (hn_at g) \<and> \<not> hn_stopped g then Some (set_neg k (g\<lparr>hn_stopped := True\<rparr>) s) else None)"
| "host_neg_act k (NgServed b) g s =
     (case hn_at g of
        HnServe e \<Rightarrow>
          if tier_done g s \<and> \<not> hn_accepting g \<and> rung_idle k s
          then Some ((set_neg k (g\<lparr>hn_at := (if b then HnRun else HnDone)\<rparr>) s)\<lparr>hs_mgr := UnregisterTier (hn_peer g) e (hs_mgr s)\<rparr>)
          else None
      | _ \<Rightarrow> None)"
| "host_neg_act k NgDone g s =
     (if hn_at g = HnDone then Some ((set_neg k (g\<lparr>hn_at := HnGone\<rparr>) s)\<lparr>hs_group := hg_done (hs_group s)\<rparr>) else None)"

text \<open>The whole host. A stream is dispatched to a handler while one is registered; \<^verbatim>\<open>Remove\<close> is the operator's DISCONNECT.\<close>

datatype host_action = HMain | HCancelled | HDispatch peer_id | HStream nat stream_action | HNegotiate peer_id | HNeg nat neg_action
  | HOperator peer_id | HControlEnds

fun host_act :: "host_action \<Rightarrow> host_sys \<Rightarrow> host_sys option" where
  "host_act HMain s = host_main s"
| "host_act HCancelled s = (if hs_ctx s then None else Some (s\<lparr>hs_ctx := True\<rparr>))"
| "host_act (HDispatch p) s =
     (if hs_data s then Some (s\<lparr>hs_streams := hs_streams s @ [\<lparr>hh_peer = p, hh_rung = None, hh_at = HsBegin, hh_fwd = forward_start (hs_network s)\<rparr>]\<rparr>) else None)"
| "host_act (HStream j a) s = (if j < length (hs_streams s) then host_stream_act j a s else None)"
| "host_act (HNegotiate p) s =
     (if hs_negotiate s then Some (s\<lparr>hs_negs := hs_negs s @ [\<lparr>hn_peer = p, hn_at = HnBegin, hn_accepting = False, hn_stopped = False\<rparr>]\<rparr>) else None)"
| "host_act (HNeg k a) s = (if k < length (hs_negs s) then host_neg_act k a (hs_negs s ! k) s else None)"
| "host_act (HOperator p) s =
     (if \<not> hs_control s then None
      else if p \<in> set (sm_List (hs_mgr s))
      then Some (s\<lparr>hs_mgr := sm_Remove p (hs_mgr s), hs_streams := sever {p} (hs_streams s), hs_removed := insert p (hs_removed s)\<rparr>)
      else Some s)"
| "host_act HControlEnds s = (if hs_control s then Some (s\<lparr>hs_control := False\<rparr>) else None)"

text \<open>The steps that need nobody outside the host. Dialling, negotiating and reading control input end with the
  context; the teardown of a rung resets the streams on it (theory \<^verbatim>\<open>Rung_Serving\<close>); a forward has the steps of its two goroutines, for
  TCP with the service's promise \<open>coop\<close> if it is given.\<close>

fun host_own :: "bool \<Rightarrow> host_action \<Rightarrow> host_sys \<Rightarrow> bool" where
  "host_own coop HMain s = True"
| "host_own coop (HStream j (StDial b)) s = hs_ctx s"
| "host_own coop (HStream j (StFwd a)) s =
     (if fwd_severs a then (case hh_rung (hs_streams s ! j) of None \<Rightarrow> False | Some k \<Rightarrow> tier_done (hs_negs s ! k) s)
      else forward_own coop a (hh_fwd (hs_streams s ! j)))"
| "host_own coop (HStream j a) s = True"
| "host_own coop (HNeg k NgRunEnds) s = hs_ctx s"
| "host_own coop (HNeg k (NgServes t)) s = False"
| "host_own coop (HNeg k (NgAccept now addr)) s = False"
| "host_own coop (HNeg k NgAcceptEnds) s = tier_done (hs_negs s ! k) s"
| "host_own coop (HNeg k NgStops) s = (\<not> hn_accepting (hs_negs s ! k) \<and> rung_idle k s)"
| "host_own coop (HNeg k a) s = True"
| "host_own coop HControlEnds s = hs_ctx s"
| "host_own coop a s = False"

section \<open>Counting\<close>

lemma mset_filter_update:
  "j < length xs \<Longrightarrow> mset (filter P (xs[j := y])) + (if P (xs ! j) then {#xs ! j#} else {#}) = mset (filter P xs) + (if P y then {#y#} else {#})"
proof (induction xs arbitrary: j)
  case (Cons x xs)
  show ?case using Cons.prems Cons.IH [of "j - 1"] by (cases j) (auto split: if_splits)
qed simp

definition live_of :: "host_stream list \<Rightarrow> peer_id multiset" where
  "live_of hs = image_mset hh_peer (mset (filter hs_live hs))"

lemma live_of_update:
  assumes "j < length hs"
  shows "live_of (hs[j := h]) + (if hs_live (hs ! j) then {#hh_peer (hs ! j)#} else {#}) = live_of hs + (if hs_live h then {#hh_peer h#} else {#})"
  using arg_cong [OF mset_filter_update [OF assms, of hs_live h], of "image_mset hh_peer"] by (simp add: live_of_def if_distrib split: if_splits)

lemma live_of_member: "j < length hs \<Longrightarrow> hs_live (hs ! j) \<Longrightarrow> hh_peer (hs ! j) \<in># live_of hs"
  by (auto simp: live_of_def)

lemma live_of_append [simp]: "live_of (hs @ [h]) = live_of hs + (if hs_live h then {#hh_peer h#} else {#})"
  by (simp add: live_of_def)

lemma live_of_sever [simp]: "live_of (sever ps hs) = live_of hs"
  by (induction hs) (auto simp: live_of_def sever_def hs_live_def)

definition neg_count :: "host_neg list \<Rightarrow> int" where
  "neg_count gs = int (length (filter hn_active gs))"

lemma neg_count_update:
  assumes "k < length gs"
  shows "neg_count (gs[k := g]) + of_bool (hn_active (gs ! k)) = neg_count gs + of_bool (hn_active g)"
  using arg_cong [OF mset_filter_update [OF assms, of hn_active g], of size] by (auto simp: neg_count_def simp del: mset_filter split: if_splits)

lemma neg_count_pos: "neg_count gs \<noteq> 0 \<Longrightarrow> \<exists>k < length gs. hn_active (gs ! k)"
  by (auto simp: neg_count_def filter_empty_conv in_set_conv_nth)

section \<open>Invariant\<close>

fun host_at_rank :: "host_at \<Rightarrow> nat" where
  "host_at_rank PcAwait = 9" | "host_at_rank PcRemoveData = 8" | "host_at_rank PcRemoveNeg = 7" | "host_at_rank PcShutdown = 6"
| "host_at_rank PcSessions = 5" | "host_at_rank PcNegs = 4" | "host_at_rank PcNegWait = 3" | "host_at_rank PcControl = 2"
| "host_at_rank PcClose = 1" | "host_at_rank PcReturned = 0"

text \<open>The calls \<^verbatim>\<open>RunHost\<close> has made at each point.\<close>

definition host_calls :: "host_at \<Rightarrow> run_call list" where
  "host_calls p =
     (let n = host_at_rank p in
      (if n \<le> 8 then [AwaitCtx] else []) @ (if n \<le> 7 then [RemoveDataHandler] else []) @ (if n \<le> 6 then [RemoveNegotiateHandler] else [])
      @ (if n \<le> 4 then [SessionShutdown] else []) @ (if n \<le> 2 then [NegotiationsShutdown] else [])
      @ (if n \<le> 1 then [WaitGroup] else []) @ (if n = 0 then p2p_Close True else []))"

lemma host_calls_at [simp]:
  "host_calls PcAwait = []"
  "host_calls PcRemoveData = [AwaitCtx]"
  "host_calls PcRemoveNeg = [AwaitCtx, RemoveDataHandler]"
  "host_calls PcShutdown = [AwaitCtx, RemoveDataHandler, RemoveNegotiateHandler]"
  "host_calls PcSessions = host_calls PcShutdown"
  "host_calls PcNegs = [AwaitCtx, RemoveDataHandler, RemoveNegotiateHandler, SessionShutdown]"
  "host_calls PcNegWait = host_calls PcNegs"
  "host_calls PcControl = [AwaitCtx, RemoveDataHandler, RemoveNegotiateHandler, SessionShutdown, NegotiationsShutdown]"
  "host_calls PcClose = [AwaitCtx, RemoveDataHandler, RemoveNegotiateHandler, SessionShutdown, NegotiationsShutdown, WaitGroup]"
  "host_calls PcReturned = [AwaitCtx, RemoveDataHandler, RemoveNegotiateHandler, SessionShutdown, NegotiationsShutdown, WaitGroup] @ p2p_Close True"
  by (simp_all add: host_calls_def)

abbreviation sessions_of :: "host_sys \<Rightarrow> sm_run" where
  "sessions_of s \<equiv> \<lparr>mgr = hs_mgr s, live = live_of (hs_streams s), removed = hs_removed s, retired = {}\<rparr>"

text \<open>The session manager's accounts are right; the group counts the negotiations; no stream of a rung waits to begin; forwards are sound; and
  once the manager is closing every libp2p stream being served has been reset, unless an operator disconnected a peer.\<close>

definition host_inv :: "host_sys \<Rightarrow> bool" where
  "host_inv s \<longleftrightarrow>
     counts_inv (sessions_of s)
     \<and> hg_wg (hs_group s) = neg_count (hs_negs s)
     \<and> (\<forall>h \<in> set (hs_streams s). hh_rung h \<noteq> None \<longrightarrow> hh_at h \<noteq> HsBegin)
     \<and> (\<forall>h \<in> set (hs_streams s). fwd_ok (hs_network s) (hh_fwd h))
     \<and> (sm_closing (hs_mgr s) \<and> hs_removed s = {} \<longrightarrow> (\<forall>h \<in> set (hs_streams s). hs_live h \<and> hh_rung h = None \<longrightarrow> hh_severed h))"

text \<open>Where \<^verbatim>\<open>RunHost\<close> is, and what it has waited for.\<close>

definition host_pc :: "string \<Rightarrow> host_sys \<Rightarrow> bool" where
  "host_pc mode s \<longleftrightarrow>
     (host_at_rank (hs_at s) < 9 \<longrightarrow> hs_ctx s)
     \<and> sm_closing (hs_mgr s) = (host_at_rank (hs_at s) \<le> 5)
     \<and> (host_at_rank (hs_at s) \<le> 4 \<longrightarrow> sm_handlers (hs_mgr s) = 0)
     \<and> hg_closing (hs_group s) = (host_at_rank (hs_at s) \<le> 3)
     \<and> (host_at_rank (hs_at s) \<le> 2 \<longrightarrow> hg_wg (hs_group s) = 0)
     \<and> (host_at_rank (hs_at s) \<le> 1 \<longrightarrow> \<not> hs_control s)
     \<and> hs_calls s = host_ready mode @ host_calls (hs_at s)"

lemma host_inv_start: "host_inv (host_start n mode)"
  by (simp add: host_inv_def host_start_def counts_inv_def NewSessionManager_def live_of_def neg_count_def)

lemma host_pc_start: "host_pc mode (host_start n mode)"
  by (simp add: host_pc_def host_start_def NewSessionManager_def host_calls_def)

lemma set_stream_simps [simp]:
  "hs_mgr (set_stream j p s) = hs_mgr s" "hs_removed (set_stream j p s) = hs_removed s" "hs_group (set_stream j p s) = hs_group s"
  "hs_negs (set_stream j p s) = hs_negs s" "hs_at (set_stream j p s) = hs_at s" "hs_ctx (set_stream j p s) = hs_ctx s"
  "hs_network (set_stream j p s) = hs_network s" "hs_control (set_stream j p s) = hs_control s" "hs_calls (set_stream j p s) = hs_calls s"
  "hs_streams (set_stream j p s) = (hs_streams s)[j := (hs_streams s ! j)\<lparr>hh_at := p\<rparr>]"
  by (simp_all add: set_stream_def)

lemma set_neg_simps [simp]:
  "hs_mgr (set_neg k g s) = hs_mgr s" "hs_removed (set_neg k g s) = hs_removed s" "hs_group (set_neg k g s) = hs_group s"
  "hs_streams (set_neg k g s) = hs_streams s" "hs_at (set_neg k g s) = hs_at s" "hs_ctx (set_neg k g s) = hs_ctx s"
  "hs_network (set_neg k g s) = hs_network s" "hs_control (set_neg k g s) = hs_control s" "hs_calls (set_neg k g s) = hs_calls s" "hs_negs (set_neg k g s) = (hs_negs s)[k := g]"
  by (simp_all add: set_neg_def)

text \<open>A stream moves on: what has to hold of it.\<close>

lemma host_inv_stream:
  assumes i: "host_inv s" and j: "j < length (hs_streams s)" and p: "p \<noteq> HsBegin"
    and c: "counts_inv \<lparr>mgr = m, live = live_of ((hs_streams s)[j := (hs_streams s ! j)\<lparr>hh_at := p\<rparr>]), removed = hs_removed s, retired = {}\<rparr>"
    and cl: "sm_closing m = sm_closing (hs_mgr s)"
    and l: "hs_live ((hs_streams s ! j)\<lparr>hh_at := p\<rparr>) \<Longrightarrow> hs_live (hs_streams s ! j) \<or> \<not> sm_closing m"
    and s': "hs_mgr s' = m" "hs_streams s' = hs_streams (set_stream j p s)" "hs_removed s' = hs_removed s" "hs_group s' = hs_group s"
      "hs_negs s' = hs_negs s" "hs_network s' = hs_network s"
  shows "host_inv s'"
proof -
  have "fwd_ok (hs_network s) (hh_fwd h)" if "h \<in> set ((hs_streams s)[j := (hs_streams s ! j)\<lparr>hh_at := p\<rparr>])" for h
    using that i nth_mem [OF j] set_update_subset_insert [of "hs_streams s" j] by (fastforce simp: host_inv_def)
  moreover have "hh_rung h \<noteq> None \<longrightarrow> hh_at h \<noteq> HsBegin" if "h \<in> set ((hs_streams s)[j := (hs_streams s ! j)\<lparr>hh_at := p\<rparr>])" for h
    using that i p set_update_subset_insert [of "hs_streams s" j] by (fastforce simp: host_inv_def)
  moreover have "hh_severed h"
    if h: "h \<in> set ((hs_streams s)[j := (hs_streams s ! j)\<lparr>hh_at := p\<rparr>])" "hs_live h" "hh_rung h = None" "sm_closing m" "hs_removed s = {}" for h
  proof -
    consider "h \<in> set (hs_streams s)" | "h = (hs_streams s ! j)\<lparr>hh_at := p\<rparr>"
      using h(1) set_update_subset_insert [of "hs_streams s" j] by blast
    then show ?thesis using h(2-) i l cl nth_mem [OF j] by cases (auto simp: host_inv_def)
  qed
  ultimately show ?thesis using i c by (simp add: host_inv_def s')
qed

lemma host_inv_neg:
  assumes i: "host_inv s" and k: "k < length (hs_negs s)"
    and m: "counts_inv \<lparr>mgr = m, live = live_of (hs_streams s), removed = hs_removed s, retired = {}\<rparr>" "sm_closing m = sm_closing (hs_mgr s)"
    and g: "hg_wg grp = hg_wg (hs_group s) + of_bool (hn_active g) - of_bool (hn_active (hs_negs s ! k))"
    and s': "hs_mgr s' = m" "hs_group s' = grp" "hs_negs s' = hs_negs (set_neg k g s)" "hs_streams s' = hs_streams s" "hs_removed s' = hs_removed s"
      "hs_network s' = hs_network s"
  shows "host_inv s'"
  using i m g neg_count_update [OF k, of g] by (simp add: host_inv_def s')

lemma live_of_stay:
  "j < length hs \<Longrightarrow> hs_live (hs ! j) = hs_live ((hs ! j)\<lparr>hh_at := p\<rparr>) \<Longrightarrow> live_of (hs[j := (hs ! j)\<lparr>hh_at := p\<rparr>]) = live_of hs"
  using live_of_update [of j hs "(hs ! j)\<lparr>hh_at := p\<rparr>"] by (auto split: if_splits)

lemma live_of_enter:
  "j < length hs \<Longrightarrow> hh_at (hs ! j) = HsBegin \<Longrightarrow> live_of (hs[j := (hs ! j)\<lparr>hh_at := HsDial\<rparr>]) = add_mset (hh_peer (hs ! j)) (live_of hs)"
  using live_of_update [of j hs "(hs ! j)\<lparr>hh_at := HsDial\<rparr>"] by (simp add: hs_live_def)

lemma live_of_leave:
  "j < length hs \<Longrightarrow> hh_at (hs ! j) = HsEnd \<Longrightarrow> live_of (hs[j := (hs ! j)\<lparr>hh_at := HsGone\<rparr>]) = live_of hs - {#hh_peer (hs ! j)#}"
  using live_of_update [of j hs "(hs ! j)\<lparr>hh_at := HsGone\<rparr>"] by (simp add: hs_live_def) (metis add_mset_remove_trivial)

lemma BeginStream_False: "BeginStream now i addr m = (False, m') \<Longrightarrow> m' = m \<and> sm_closing m"
  by (auto simp: BeginStream_def Let_def split: if_splits option.splits)

lemma host_inv_counts: "host_inv s \<Longrightarrow> counts_inv (sessions_of s)"
  by (simp add: host_inv_def)

text \<open>A forward moves on.\<close>

lemma host_inv_fwd:
  assumes i: "host_inv s" and j: "j < length (hs_streams s)" and a: "host_stream_act j (StFwd a) s = Some s'"
  shows "host_inv s'"
proof -
  let ?h = "hs_streams s ! j"
  obtain f where f: "hh_at ?h = HsForward" "forward_act a (hh_fwd ?h) = Some f" "s' = s\<lparr>hs_streams := (hs_streams s)[j := ?h\<lparr>hh_fwd := f\<rparr>]\<rparr>"
    using a by (auto split: if_splits)
  have l: "live_of ((hs_streams s)[j := ?h\<lparr>hh_fwd := f\<rparr>]) = live_of (hs_streams s)"
    using live_of_update [OF j, of "?h\<lparr>hh_fwd := f\<rparr>"] f(1) by (simp add: hs_live_def)
  have k: "h \<in> set (hs_streams s) \<or> h = ?h\<lparr>hh_fwd := f\<rparr>" if "h \<in> set ((hs_streams s)[j := ?h\<lparr>hh_fwd := f\<rparr>])" for h
    using that set_update_subset_insert [of "hs_streams s" j] by blast
  have m: "?h \<in> set (hs_streams s)" using j by simp
  have "fwd_ok (hs_network s) f" using i m fwd_ok_act [OF f(2)] by (simp add: host_inv_def)
  then show ?thesis using i l m f severed_stays [OF f(2)] unfolding host_inv_def
    by (auto dest!: k simp: hs_live_def)
qed

lemma host_stream_inv:
  assumes i: "host_inv s" and j: "j < length (hs_streams s)" and a: "host_stream_act j a s = Some s'"
  shows "host_inv s'"
proof (cases a)
  case (StBegin now addr)
  let ?h = "hs_streams s ! j"
  have at: "hh_at ?h = HsBegin" using a StBegin by (auto split: if_splits)
  obtain b m where b: "BeginStream now (hh_peer ?h) addr (hs_mgr s) = (b, m)" by (metis surj_pair)
  show ?thesis
  proof (cases b)
    case True
    then have s': "s' = (set_stream j HsDial s)\<lparr>hs_mgr := m\<rparr>" using a StBegin at b by simp
    have bt: "BeginStream now (hh_peer ?h) addr (mgr (sessions_of s)) = (True, m)" using b True by simp
    have "counts_inv \<lparr>mgr = m, live = add_mset (hh_peer ?h) (live_of (hs_streams s)), removed = hs_removed s, retired = {}\<rparr>"
      using counts_step [OF sm_step.Begin [OF bt]] i by (simp add: host_inv_def)
    then show ?thesis using BeginStream_keeps [OF b] True
      by (intro host_inv_stream [OF i j, of HsDial m]) (simp_all add: s' live_of_enter [OF j at])
  next
    case False
    then have "s' = set_stream j HsGone s" using a StBegin at b by simp
    then show ?thesis using at host_inv_counts [OF i]
      by (intro host_inv_stream [OF i j, of HsGone "hs_mgr s"]) (simp_all add: live_of_stay [OF j] hs_live_def)
  qed
next
  case (StDial b)
  let ?p = "if b then HsForward else HsEnd"
  have "hh_at (hs_streams s ! j) = HsDial" "s' = set_stream j ?p s" using a StDial by (auto split: if_splits)
  then show ?thesis using host_inv_counts [OF i]
    by (intro host_inv_stream [OF i j, of ?p "hs_mgr s"]) (simp_all add: live_of_stay [OF j] hs_live_def)
next
  case (StFwd b)
  then show ?thesis using host_inv_fwd [OF i j] a by blast
next
  case StForwarded
  then have "hh_at (hs_streams s ! j) = HsForward" "s' = set_stream j HsEnd s" using a by (auto split: if_splits)
  then show ?thesis using host_inv_counts [OF i]
    by (intro host_inv_stream [OF i j, of HsEnd "hs_mgr s"]) (simp_all add: live_of_stay [OF j] hs_live_def)
next
  case StEnd
  let ?h = "hs_streams s ! j"
  have at: "hh_at ?h = HsEnd" and s': "s' = (set_stream j HsGone s)\<lparr>hs_mgr := EndStream (hh_peer ?h) (hs_mgr s)\<rparr>"
    using a StEnd by (auto split: if_splits)
  have "hh_peer ?h \<in># live (sessions_of s)" using live_of_member [OF j] at by (simp add: hs_live_def)
  from counts_step [OF sm_step.End [OF this]] i
  have "counts_inv \<lparr>mgr = EndStream (hh_peer ?h) (hs_mgr s), live = live_of (hs_streams s) - {#hh_peer ?h#}, removed = hs_removed s, retired = {}\<rparr>"
    by (simp add: host_inv_def)
  then show ?thesis
    by (intro host_inv_stream [OF i j, of HsGone "EndStream (hh_peer ?h) (hs_mgr s)"]) (simp_all add: s' live_of_leave [OF j at] hs_live_def)
qed

lemma counts_kept:
  assumes "counts_inv r" "sm_sessions m = sm_sessions (mgr r)" "sm_handlers m = sm_handlers (mgr r)" "sm_closing m = sm_closing (mgr r)"
  shows "counts_inv \<lparr>mgr = m, live = live r, removed = removed r, retired = {}\<rparr>"
  using assms by (simp add: counts_inv_def)

lemma host_neg_inv:
  assumes i: "host_inv s" and k: "k < length (hs_negs s)" and a: "host_neg_act k a (hs_negs s ! k) s = Some s'"
  shows "host_inv s'"
proof -
  let ?g = "hs_negs s ! k"
  note c = host_inv_counts [OF i]
  have keep: "host_inv s'" if "s' = set_neg k g s" "hn_active g = hn_active ?g" for g
    by (rule host_inv_neg [OF i k c refl, of "hs_group s" g]) (simp_all add: that)
  show ?thesis
  proof (cases a)
    case NgBegin
    then have at: "hn_at ?g = HnBegin" using a by (auto split: if_splits)
    show ?thesis
    proof (cases "hg_closing (hs_group s)")
      case True
      then show ?thesis using a NgBegin at by (intro keep [of "?g\<lparr>hn_at := HnGone\<rparr>"]) (simp_all add: hg_begin_def hn_active_def)
    next
      case False
      then show ?thesis using a NgBegin at
        by (intro host_inv_neg [OF i k c refl, of "snd (hg_begin (hs_group s))" "?g\<lparr>hn_at := HnRun\<rparr>"]) (auto simp: hg_begin_def hn_active_def)
    qed
  next
    case NgRunEnds
    then show ?thesis using a by (intro keep [of "?g\<lparr>hn_at := HnDone\<rparr>"]) (auto simp: hn_active_def split: if_splits)
  next
    case (NgServes t)
    obtain e m where r: "RegisterTier (hn_peer ?g) t (hs_mgr s) = (e, m)" by (metis surj_pair)
    have "counts_inv \<lparr>mgr = m, live = live_of (hs_streams s), removed = hs_removed s, retired = {}\<rparr>"
      using counts_kept [OF c, of m] RegisterTier_keeps [OF r] by simp
    then show ?thesis using a NgServes r RegisterTier_keeps [OF r]
      by (intro host_inv_neg [OF i k, of m "hs_group s" "?g\<lparr>hn_at := HnServe e, hn_accepting := True, hn_stopped := (e = None)\<rparr>"])
         (auto simp: hn_active_def split: if_splits)
  next
    case (NgAccept now addr)
    then have at: "is_serving (hn_at ?g)" "hn_accepting ?g" using a by (auto split: if_splits)
    obtain b m where b: "BeginStream now (hn_peer ?g) addr (hs_mgr s) = (b, m)" by (metis surj_pair)
    show ?thesis
    proof (cases b)
      case True
      have bt: "BeginStream now (hn_peer ?g) addr (mgr (sessions_of s)) = (True, m)" using b True by simp
      have "counts_inv \<lparr>mgr = m, live = add_mset (hn_peer ?g) (live_of (hs_streams s)), removed = hs_removed s, retired = {}\<rparr>"
        using counts_step [OF sm_step.Begin [OF bt]] i by (simp add: host_inv_def)
      then show ?thesis using a NgAccept at b True i BeginStream_keeps [OF b] fwd_ok_start [of "hs_network s"]
        by (auto simp: host_inv_def hs_live_def)
    next
      case False
      then show ?thesis using a NgAccept at b by (intro keep [of "?g\<lparr>hn_accepting := False\<rparr>"]) (simp_all add: hn_active_def)
    qed
  next
    case NgAcceptEnds
    then show ?thesis using a by (intro keep [of "?g\<lparr>hn_accepting := False\<rparr>"]) (auto simp: hn_active_def split: if_splits)
  next
    case NgStops
    then show ?thesis using a by (intro keep [of "?g\<lparr>hn_stopped := True\<rparr>"]) (auto simp: hn_active_def split: if_splits)
  next
    case (NgServed b)
    then obtain e where e: "hn_at ?g = HnServe e" using a by (auto split: neg_at.splits)
    let ?m = "UnregisterTier (hn_peer ?g) e (hs_mgr s)"
    have "counts_inv \<lparr>mgr = ?m, live = live_of (hs_streams s), removed = hs_removed s, retired = {}\<rparr>"
      using counts_kept [OF c, of ?m] by simp
    then show ?thesis using a NgServed e
      by (intro host_inv_neg [OF i k, of ?m "hs_group s" "?g\<lparr>hn_at := (if b then HnRun else HnDone)\<rparr>"])
         (auto simp: hn_active_def split: if_splits)
  next
    case NgDone
    then show ?thesis using a
      by (intro host_inv_neg [OF i k c refl, of "hg_done (hs_group s)" "?g\<lparr>hn_at := HnGone\<rparr>"])
         (auto simp: hg_done_def hn_active_def split: if_splits)
  qed
qed

text \<open>What \<^verbatim>\<open>Shutdown\<close> severs: with no operator's disconnect, every libp2p stream being served.\<close>

lemma served_has_session:
  assumes c: "counts_inv (sessions_of s)" "\<not> sm_closing (hs_mgr s)" "hs_removed s = {}" and h: "h \<in> set (hs_streams s)" "hs_live h"
  shows "hh_peer h \<in> set (sm_List (hs_mgr s))"
proof -
  have "hh_peer h \<in># live_of (hs_streams s)" using h by (auto simp: live_of_def)
  then have "0 < count (live_of (hs_streams s)) (hh_peer h)" by simp
  moreover have "int (count (live_of (hs_streams s)) (hh_peer h)) =
      (case map_of (sm_sessions (hs_mgr s)) (hh_peer h) of None \<Rightarrow> 0 | Some x \<Rightarrow> Session.ss_streams x)"
    using c by (simp add: counts_inv_def)
  ultimately have "map_of (sm_sessions (hs_mgr s)) (hh_peer h) \<noteq> None" by (auto simp: count_eq_zero_iff split: option.splits)
  then show ?thesis by (simp add: set_sm_List domIff)
qed

lemma sever_fwd: "\<forall>h \<in> set hs. fwd_ok n (hh_fwd h) \<Longrightarrow> \<forall>h \<in> set (sever ps hs). fwd_ok n (hh_fwd h)"
  by (auto simp: sever_def fwd_ok_sever)

lemma sever_rung: "\<forall>h \<in> set hs. hh_rung h \<noteq> None \<longrightarrow> hh_at h \<noteq> HsBegin \<Longrightarrow> \<forall>h \<in> set (sever ps hs). hh_rung h \<noteq> None \<longrightarrow> hh_at h \<noteq> HsBegin"
  by (auto simp: sever_def)

lemma sever_severs:
  assumes "h \<in> set (sever ps hs)" "hs_live h" "hh_rung h = None"
    and "\<And>h0. h0 \<in> set hs \<Longrightarrow> hs_live h0 \<Longrightarrow> hh_rung h0 = None \<Longrightarrow> hh_peer h0 \<in> ps \<or> hh_severed h0"
  shows "hh_severed h"
  using assms by (auto simp: sever_def hs_live_def split: if_splits)

lemma host_inv_shutdown:
  assumes i: "host_inv s"
    and s': "hs_mgr s' = sm_Shutdown (hs_mgr s)" "hs_streams s' = sever (set (sm_List (hs_mgr s))) (hs_streams s)"
      "hs_removed s' = hs_removed s" "hs_group s' = hs_group s" "hs_negs s' = hs_negs s" "hs_network s' = hs_network s"
  shows "host_inv s'"
proof -
  have "hh_severed h" if "h \<in> set (hs_streams s')" "hs_live h" "hh_rung h = None" "hs_removed s = {}" for h
  proof (rule sever_severs [OF that(1) [unfolded s'] that(2,3)])
    fix h0 assume h0: "h0 \<in> set (hs_streams s)" "hs_live h0" "hh_rung h0 = None"
    show "hh_peer h0 \<in> set (sm_List (hs_mgr s)) \<or> hh_severed h0"
    proof (cases "sm_closing (hs_mgr s)")
      case True
      then show ?thesis using i h0 that(4) by (simp add: host_inv_def)
    next
      case False
      then show ?thesis using served_has_session [OF host_inv_counts [OF i] False that(4) h0(1,2)] by blast
    qed
  qed
  moreover have "counts_inv (sessions_of s')"
    using counts_step [OF sm_step.Shutdown [of "sessions_of s"] host_inv_counts [OF i]] by (simp add: s')
  ultimately show ?thesis using i sever_rung [of "hs_streams s"] sever_fwd [of "hs_streams s" "hs_network s"] by (simp add: host_inv_def s')
qed

lemma host_inv_operator:
  assumes i: "host_inv s"
    and s': "hs_mgr s' = sm_Remove p (hs_mgr s)" "hs_streams s' = sever {p} (hs_streams s)"
      "hs_removed s' = insert p (hs_removed s)" "hs_group s' = hs_group s" "hs_negs s' = hs_negs s" "hs_network s' = hs_network s"
  shows "host_inv s'"
proof -
  have "counts_inv (sessions_of s')"
    using counts_step [OF sm_step.Remove [of "sessions_of s" p] host_inv_counts [OF i]] by (simp add: s')
  then show ?thesis using i sever_rung [of "hs_streams s" "{p}"] sever_fwd [of "hs_streams s" "hs_network s" "{p}"] by (simp add: host_inv_def s')
qed

lemma host_inv_cong:
  assumes "host_inv s" "hs_mgr s' = hs_mgr s" "hs_streams s' = hs_streams s" "hs_removed s' = hs_removed s"
    "hg_wg (hs_group s') = hg_wg (hs_group s)" "hs_negs s' = hs_negs s" "hs_network s' = hs_network s"
  shows "host_inv s'"
  using assms by (simp add: host_inv_def)

lemma host_main_inv:
  assumes i: "host_inv s" and a: "host_main s = Some s'"
  shows "host_inv s'"
proof (cases "hs_at s = PcShutdown")
  case True
  then show ?thesis using a by (intro host_inv_shutdown [OF i]) (auto simp: host_main_def)
next
  case False
  then show ?thesis using a by (intro host_inv_cong [OF i]) (auto simp: host_main_def hg_shutdown_def split: host_at.splits if_splits)
qed

lemma host_inv_act:
  assumes i: "host_inv s" and a: "host_act a s = Some s'"
  shows "host_inv s'"
proof (cases a)
  case HMain
  then show ?thesis using host_main_inv [OF i] a by simp
next
  case (HStream j b)
  then show ?thesis using host_stream_inv [OF i] a by (simp split: if_splits)
next
  case (HNeg k b)
  then show ?thesis using host_neg_inv [OF i] a by (simp split: if_splits)
next
  case (HDispatch p)
  then show ?thesis using i a fwd_ok_start [of "hs_network s"] by (auto simp: host_inv_def hs_live_def split: if_splits)
next
  case (HNegotiate p)
  then show ?thesis using i a by (auto simp: host_inv_def neg_count_def hn_active_def split: if_splits)
next
  case (HOperator p)
  show ?thesis
  proof (cases "p \<in> set (sm_List (hs_mgr s))")
    case True
    then show ?thesis using a HOperator by (intro host_inv_operator [OF i, of _ p]) (auto split: if_splits)
  next
    case False
    then show ?thesis using a HOperator i by (auto split: if_splits)
  qed
qed (use i a in \<open>auto simp: host_inv_def split: if_splits\<close>)

section \<open>Where RunHost is\<close>

lemma no_handlers_no_live: "host_inv s \<Longrightarrow> sm_handlers (hs_mgr s) = 0 \<Longrightarrow> j < length (hs_streams s) \<Longrightarrow> \<not> hs_live (hs_streams s ! j)"
  using live_of_member by (fastforce simp: host_inv_def counts_inv_def)

lemma no_group_no_active: "host_inv s \<Longrightarrow> hg_wg (hs_group s) = 0 \<Longrightarrow> k < length (hs_negs s) \<Longrightarrow> \<not> hn_active (hs_negs s ! k)"
  by (auto simp: host_inv_def neg_count_def filter_empty_conv)

text \<open>The other goroutines leave \<^verbatim>\<open>RunHost\<close> where it is, and what it has waited for stays so.\<close>

definition pc_kept :: "host_sys \<Rightarrow> host_sys \<Rightarrow> bool" where
  "pc_kept s s' \<longleftrightarrow> hs_at s' = hs_at s \<and> hs_calls s' = hs_calls s \<and> (hs_ctx s \<longrightarrow> hs_ctx s')
     \<and> sm_closing (hs_mgr s') = sm_closing (hs_mgr s) \<and> hg_closing (hs_group s') = hg_closing (hs_group s)
     \<and> (hs_control s' \<longrightarrow> hs_control s)
     \<and> (sm_closing (hs_mgr s) \<and> sm_handlers (hs_mgr s) = 0 \<longrightarrow> sm_handlers (hs_mgr s') = 0)
     \<and> (hg_closing (hs_group s) \<and> hg_wg (hs_group s) = 0 \<longrightarrow> hg_wg (hs_group s') = 0)"

lemma stream_pc_kept:
  assumes i: "host_inv s" and j: "j < length (hs_streams s)" and a: "host_stream_act j a s = Some s'"
  shows "pc_kept s s'"
proof (cases a)
  case (StBegin now addr)
  obtain b m where b: "BeginStream now (hh_peer (hs_streams s ! j)) addr (hs_mgr s) = (b, m)" by (metis surj_pair)
  show ?thesis using a StBegin b BeginStream_keeps [OF b] by (cases b) (auto simp: pc_kept_def split: if_splits)
next
  case StEnd
  then show ?thesis using a no_handlers_no_live [OF i _ j] by (auto simp: pc_kept_def hs_live_def split: if_splits)
qed (use a in \<open>auto simp: pc_kept_def split: if_splits\<close>)

lemma neg_pc_kept:
  assumes i: "host_inv s" and k: "k < length (hs_negs s)" and a: "host_neg_act k a (hs_negs s ! k) s = Some s'"
  shows "pc_kept s s'"
proof (cases a)
  case NgBegin
  then show ?thesis using a by (auto simp: pc_kept_def hg_begin_def split: if_splits)
next
  case (NgServes t)
  obtain e m where r: "RegisterTier (hn_peer (hs_negs s ! k)) t (hs_mgr s) = (e, m)" by (metis surj_pair)
  show ?thesis using a NgServes r RegisterTier_keeps [OF r] by (auto simp: pc_kept_def split: if_splits)
next
  case (NgAccept now addr)
  obtain b m where b: "BeginStream now (hn_peer (hs_negs s ! k)) addr (hs_mgr s) = (b, m)" by (metis surj_pair)
  show ?thesis using a NgAccept b BeginStream_keeps [OF b] by (cases b) (auto simp: pc_kept_def split: if_splits)
next
  case NgDone
  then show ?thesis using a no_group_no_active [OF i _ k] by (auto simp: pc_kept_def hg_done_def hn_active_def split: if_splits)
qed (use a in \<open>auto simp: pc_kept_def split: if_splits neg_at.splits\<close>)

lemma host_pc_kept:
  assumes i: "host_inv s" and a: "host_act a s = Some s'" "a \<noteq> HMain"
  shows "pc_kept s s'"
proof (cases a)
  case (HStream j b)
  then show ?thesis using a by (auto intro: stream_pc_kept [OF i] split: if_splits)
next
  case (HNeg k b)
  then show ?thesis using a by (auto intro: neg_pc_kept [OF i] split: if_splits)
qed (use a in \<open>auto simp: pc_kept_def split: if_splits\<close>)

lemma host_pc_act:
  assumes i: "host_inv s" and p: "host_pc mode s" and a: "host_act a s = Some s'"
  shows "host_pc mode s'"
proof (cases "a = HMain")
  case True
  then have "host_main s = Some s'" using a by simp
  then show ?thesis using p by (cases "hs_at s")
    (auto simp: host_main_def host_pc_def Shutdown_waits_def hg_shutdown_def split: if_splits)
next
  case False
  then have "pc_kept s s'" using host_pc_kept [OF i a] by blast
  then show ?thesis using p by (auto simp: pc_kept_def host_pc_def)
qed

section \<open>The end\<close>

fun stream_rank :: "stream_at \<Rightarrow> nat" where
  "stream_rank HsBegin = 4" | "stream_rank HsDial = 3" | "stream_rank HsForward = 2" | "stream_rank HsEnd = 1" | "stream_rank HsGone = 0"

fun neg_at_rank :: "neg_at \<Rightarrow> nat" where
  "neg_at_rank (HnServe e) = 3" | "neg_at_rank HnBegin = 3" | "neg_at_rank HnRun = 2" | "neg_at_rank HnDone = 1" | "neg_at_rank HnGone = 0"

definition neg_rank :: "host_neg \<Rightarrow> nat" where
  "neg_rank g = neg_at_rank (hn_at g) + (if is_serving (hn_at g) then of_bool (hn_accepting g) + of_bool (\<not> hn_stopped g) else 0)"

definition streams_rank :: "host_stream list \<Rightarrow> nat" where
  "streams_rank hs = (\<Sum>h\<leftarrow>hs. stream_rank (hh_at h) + forward_rank (hh_fwd h))"

definition negs_rank :: "host_neg list \<Rightarrow> nat" where
  "negs_rank gs = (\<Sum>g\<leftarrow>gs. neg_rank g)"

definition host_rank :: "host_sys \<Rightarrow> nat" where
  "host_rank s = host_at_rank (hs_at s) + streams_rank (hs_streams s) + negs_rank (hs_negs s) + of_bool (hs_control s)"

lemma streams_rank_sever: "streams_rank (sever ps hs) \<le> streams_rank hs"
  unfolding streams_rank_def sever_def using forward_sever_rank
  by (induction hs) (auto intro!: add_mono)

lemma stream_nearer:
  assumes j: "j < length (hs_streams s)" and o: "host_own coop (HStream j a) s" and a: "host_stream_act j a s = Some s'"
  shows "hs_ctx s' = hs_ctx s \<and> hs_removed s' = hs_removed s \<and> host_rank s' < host_rank s"
proof -
  have r: "streams_rank ((hs_streams s)[j := (hs_streams s ! j)\<lparr>hh_at := p\<rparr>]) < streams_rank (hs_streams s)"
    if "stream_rank p < stream_rank (hh_at (hs_streams s ! j))" for p
    unfolding streams_rank_def using that by (intro sum_list_less_update [OF j]) simp
  show ?thesis
  proof (cases a)
    case (StBegin now addr)
    obtain b m where b: "BeginStream now (hh_peer (hs_streams s ! j)) addr (hs_mgr s) = (b, m)" by (metis surj_pair)
    show ?thesis using a StBegin b r [of HsDial] r [of HsGone] by (cases b) (auto simp: host_rank_def split: if_splits)
  next
    case (StDial b)
    then show ?thesis using a r [of HsForward] r [of HsEnd] by (auto simp: host_rank_def split: if_splits)
  next
    case (StFwd b)
    let ?h = "hs_streams s ! j"
    obtain f where f: "forward_act b (hh_fwd ?h) = Some f" "s' = s\<lparr>hs_streams := (hs_streams s)[j := ?h\<lparr>hh_fwd := f\<rparr>]\<rparr>"
      using a StFwd by (auto split: if_splits)
    have "forward_rank f < forward_rank (hh_fwd ?h)" using forward_nearer [OF _ f(1)] o StFwd by (auto split: if_splits)
    then have "streams_rank ((hs_streams s)[j := ?h\<lparr>hh_fwd := f\<rparr>]) < streams_rank (hs_streams s)"
      unfolding streams_rank_def by (intro sum_list_less_update [OF j]) simp
    then show ?thesis using f(2) by (simp add: host_rank_def)
  qed (use a r [of HsEnd] r [of HsGone] in \<open>auto simp: host_rank_def split: if_splits\<close>)
qed

lemma neg_nearer:
  assumes k: "k < length (hs_negs s)" and o: "host_own coop (HNeg k a) s" and a: "host_neg_act k a (hs_negs s ! k) s = Some s'"
  shows "hs_ctx s' = hs_ctx s \<and> hs_removed s' = hs_removed s \<and> host_rank s' < host_rank s"
proof -
  let ?g = "hs_negs s ! k"
  have r: "negs_rank ((hs_negs s)[k := g]) < negs_rank (hs_negs s)" if "neg_rank g < neg_rank ?g" for g
    unfolding negs_rank_def using that by (intro sum_list_less_update [OF k]) simp
  show ?thesis
  proof (cases a)
    case NgBegin
    then show ?thesis using a r [of "?g\<lparr>hn_at := HnRun\<rparr>"] r [of "?g\<lparr>hn_at := HnGone\<rparr>"]
      by (auto simp: host_rank_def hg_begin_def neg_rank_def split: if_splits)
  next
    case NgRunEnds
    then show ?thesis using a r [of "?g\<lparr>hn_at := HnDone\<rparr>"] by (auto simp: host_rank_def neg_rank_def split: if_splits)
  next
    case NgAcceptEnds
    then show ?thesis using a r [of "?g\<lparr>hn_accepting := False\<rparr>"] by (auto simp: host_rank_def neg_rank_def split: if_splits)
  next
    case NgStops
    then show ?thesis using a r [of "?g\<lparr>hn_stopped := True\<rparr>"] by (auto simp: host_rank_def neg_rank_def split: if_splits)
  next
    case (NgServed b)
    then show ?thesis using a r [of "?g\<lparr>hn_at := (if b then HnRun else HnDone)\<rparr>"]
      by (auto simp: host_rank_def neg_rank_def split: if_splits neg_at.splits)
  next
    case NgDone
    then show ?thesis using a r [of "?g\<lparr>hn_at := HnGone\<rparr>"] by (auto simp: host_rank_def neg_rank_def split: if_splits)
  qed (use o in simp_all)
qed

abbreviation host_closing :: "host_sys \<Rightarrow> bool" where
  "host_closing s \<equiv> hs_ctx s \<and> hs_removed s = {}"

lemma host_main_nearer: "host_main s = Some s' \<Longrightarrow> hs_ctx s' = hs_ctx s \<and> hs_removed s' = hs_removed s \<and> host_rank s' < host_rank s"
  using streams_rank_sever [of "set (sm_List (hs_mgr s))" "hs_streams s"]
  by (cases "hs_at s") (auto simp: host_main_def host_rank_def split: if_splits)

lemma host_nearer:
  assumes o: "host_own coop a s" and c: "host_closing s" and a: "host_act a s = Some s'"
  shows "host_closing s' \<and> host_rank s' < host_rank s"
proof (cases a)
  case HMain
  then show ?thesis using a c host_main_nearer [of s s'] by simp
next
  case (HStream j b)
  then show ?thesis using a c o stream_nearer [of j s coop b s'] by (simp split: if_splits)
next
  case (HNeg k b)
  then show ?thesis using a c o neg_nearer [of k s coop b s'] by (simp split: if_splits)
next
  case HControlEnds
  then show ?thesis using a c by (auto simp: host_rank_def split: if_splits)
qed (use o in simp_all)

lemma live_stream_moves:
  assumes i: "host_inv s" and u: "coop \<or> hs_network s = NetworkUDP" and c: "host_closing s" "sm_closing (hs_mgr s)"
    and j: "j < length (hs_streams s)" "hs_live (hs_streams s ! j)"
  shows "\<exists>a. host_own coop a s \<and> host_act a s \<noteq> None"
proof -
  let ?h = "hs_streams s ! j"
  have m: "?h \<in> set (hs_streams s)" using j(1) by simp
  have sv: "hh_rung ?h = None \<Longrightarrow> hh_severed ?h" using i c j(2) m by (auto simp: host_inv_def)
  have f: "forward_inv (hh_fwd ?h)" "coop \<or> is_udp (hh_fwd ?h)" using i m u by (auto simp: host_inv_def fwd_ok_def)
  consider "hh_at ?h = HsForward" "\<not> hh_severed ?h" | "hh_at ?h = HsForward" "hh_severed ?h" "\<not> forward_returned (hh_fwd ?h)"
    | "hh_at ?h = HsForward" "forward_returned (hh_fwd ?h)" | "hh_at ?h = HsDial" | "hh_at ?h = HsEnd"
    using j(2) by (auto simp: hs_live_def)
  then show ?thesis
  proof cases
    case 1
    let ?a = "if is_udp (hh_fwd ?h) then FwdUdp StreamCut else FwdTcp StreamReset"
    obtain k where "hh_rung ?h = Some k" using sv 1(2) by blast
    moreover have "forward_act ?a (hh_fwd ?h) \<noteq> None" using 1(2) by (cases "hh_fwd ?h") auto
    ultimately show ?thesis using 1(1) c j(1) by (intro exI [of _ "HStream j (StFwd ?a)"]) (auto simp: fwd_severs_def tier_done_def)
  next
    case 2
    then obtain b where b: "forward_own coop b (hh_fwd ?h)" "forward_act b (hh_fwd ?h) \<noteq> None" using forward_not_stuck f by blast
    then have "\<not> fwd_severs b" by (cases "(b, hh_fwd ?h)" rule: forward_act.cases) (auto simp: fwd_severs_def)
    then show ?thesis using 2(1) j(1) b by (intro exI [of _ "HStream j (StFwd b)"]) auto
  next
    case 3
    then show ?thesis using j(1) by (intro exI [of _ "HStream j StForwarded"]) simp
  next
    case 4
    then show ?thesis using c j(1) by (intro exI [of _ "HStream j (StDial False)"]) simp
  next
    case 5
    then show ?thesis using j(1) by (intro exI [of _ "HStream j StEnd"]) simp
  qed
qed

lemma active_neg_moves:
  assumes i: "host_inv s" and c: "host_closing s" "sm_handlers (hs_mgr s) = 0" and k: "k < length (hs_negs s)" "hn_active (hs_negs s ! k)"
  shows "\<exists>a. host_own coop a s \<and> host_act a s \<noteq> None"
proof -
  let ?g = "hs_negs s ! k"
  have "rung_idle k s" using no_handlers_no_live [OF i c(2)] by (auto simp: rung_idle_def in_set_conv_nth)
  then have "\<exists>a \<in> {NgRunEnds, NgAcceptEnds, NgServed False, NgDone}. host_own coop (HNeg k a) s \<and> host_act (HNeg k a) s \<noteq> None"
    using c k by (cases "hn_at ?g"; cases "hn_accepting ?g") (auto simp: hn_active_def tier_done_def)
  then show ?thesis by blast
qed

lemma host_not_stuck:
  assumes i: "host_inv s" and u: "coop \<or> hs_network s = NetworkUDP" and p: "host_pc mode s" and c: "host_closing s" and n: "hs_at s \<noteq> PcReturned"
  shows "\<exists>a. host_own coop a s \<and> host_act a s \<noteq> None"
proof (cases "host_main s = None")
  case False
  then show ?thesis by (intro exI [of _ HMain]) simp
next
  case True
  consider "hs_at s = PcSessions" "sm_handlers (hs_mgr s) \<noteq> 0" | "hs_at s = PcNegWait" "hg_wg (hs_group s) \<noteq> 0" | "hs_at s = PcControl" "hs_control s"
    using True n c by (cases "hs_at s") (auto simp: host_main_def Shutdown_waits_def split: if_splits)
  then show ?thesis
  proof cases
    case 1
    then have "live_of (hs_streams s) \<noteq> {#}" using i by (auto simp: host_inv_def counts_inv_def)
    then obtain h where "h \<in> set (hs_streams s)" "hs_live h" by (auto simp: live_of_def filter_empty_conv)
    then obtain j where "j < length (hs_streams s)" "hs_live (hs_streams s ! j)" by (metis in_set_conv_nth)
    then show ?thesis using live_stream_moves [OF i u c] p 1 by (simp add: host_pc_def)
  next
    case 2
    then obtain k where "k < length (hs_negs s)" "hn_active (hs_negs s ! k)" using i neg_count_pos [of "hs_negs s"] unfolding host_inv_def by auto
    then show ?thesis using active_neg_moves [OF i c] p 2 by (simp add: host_pc_def)
  next
    case 3
    then show ?thesis using c by (intro exI [of _ HControlEnds]) simp
  qed
qed

lemma host_network_act: "host_act a s = Some s' \<Longrightarrow> hs_network s' = hs_network s"
proof (cases a)
  case (HStream j b)
  then show "host_act a s = Some s' \<Longrightarrow> ?thesis" by (cases b) (auto split: if_splits prod.splits bool.splits)
next
  case (HNeg k b)
  then show "host_act a s = Some s' \<Longrightarrow> ?thesis" by (cases b) (auto split: if_splits prod.splits bool.splits neg_at.splits)
qed (auto simp: host_main_def split: host_at.splits if_splits)

interpretation host_wind: winding host_act "\<lambda>s. host_inv s \<and> (\<exists>mode. host_pc mode s)"
  "\<lambda>s. host_closing s \<and> (coop \<or> hs_network s = NetworkUDP)" "\<lambda>s. hs_at s = PcReturned" "host_own coop" host_rank
  for coop
proof
  fix s s' a
  assume i: "host_inv s \<and> (\<exists>mode. host_pc mode s)"
  show "host_inv s' \<and> (\<exists>mode. host_pc mode s')" if "host_act a s = Some s'"
    using i that host_inv_act host_pc_act by blast
  show "(host_closing s' \<and> (coop \<or> hs_network s' = NetworkUDP)) \<and> host_rank s' < host_rank s"
    if c: "host_closing s \<and> (coop \<or> hs_network s = NetworkUDP)" and a: "host_own coop a s" "host_act a s = Some s'"
    using host_nearer [OF a(1) _ a(2)] c host_network_act [OF a(2)] by auto
  show "\<exists>a. host_own coop a s \<and> host_act a s \<noteq> None" if "host_closing s \<and> (coop \<or> hs_network s = NetworkUDP)" "hs_at s \<noteq> PcReturned"
    using host_not_stuck i that by blast
qed

lemma host_run:
  assumes "run_acts host_act ls (host_start n mode) = Some s"
  shows "host_inv s" "host_pc mode s" "hs_network s = n"
proof -
  have "host_inv s \<and> host_pc mode s \<and> hs_network s = n"
  proof (rule run_acts_inv [where f = host_act and ok = "\<lambda>s. host_inv s \<and> host_pc mode s \<and> hs_network s = n", OF _ assms])
    show "host_inv s' \<and> host_pc mode s' \<and> hs_network s' = n" if "host_inv s \<and> host_pc mode s \<and> hs_network s = n" "host_act a s = Some s'" for a s s'
      using that host_inv_act host_pc_act host_network_act by blast
    show "host_inv (host_start n mode) \<and> host_pc mode (host_start n mode) \<and> hs_network (host_start n mode) = n"
      using host_inv_start host_pc_start by (simp add: host_start_def)
  qed
  then show "host_inv s" "host_pc mode s" "hs_network s = n" by auto
qed

lemma host_rank_bound: "host_rank s \<le> 12 * length (hs_streams s) + 5 * length (hs_negs s) + 10"
proof -
  have "stream_rank p \<le> 4" for p by (cases p) auto
  then have "stream_rank (hh_at h) + forward_rank (hh_fwd h) \<le> 4 + 8" for h using forward_rank_bound by (intro add_mono)
  then have "streams_rank hs \<le> 12 * length hs" for hs by (induction hs) (auto simp: streams_rank_def intro: add_mono)
  moreover have "neg_rank g \<le> 5" for g by (cases "hn_at g") (auto simp: neg_rank_def)
  then have "negs_rank gs \<le> 5 * length gs" for gs by (induction gs) (auto simp: negs_rank_def intro: add_mono)
  moreover have "host_at_rank (hs_at s) + of_bool (hs_control s) \<le> 10" by (cases "hs_at s") auto
  ultimately have "(host_at_rank (hs_at s) + of_bool (hs_control s)) + (streams_rank (hs_streams s) + negs_rank (hs_negs s))
      \<le> 10 + (12 * length (hs_streams s) + 5 * length (hs_negs s))" by (intro add_mono)
  then show ?thesis by (simp add: host_rank_def)
qed

lemma host_returned:
  assumes i: "host_inv s" and p: "host_pc mode s" and r: "hs_at s = PcReturned"
  shows "(\<forall>h \<in> set (hs_streams s). \<not> hs_live h) \<and> (\<forall>g \<in> set (hs_negs s). \<not> hn_active g) \<and> \<not> hs_control s
    \<and> sm_closing (hs_mgr s) \<and> hg_closing (hs_group s)
    \<and> (\<forall>n. transportFor n \<noteq> None \<longrightarrow>
         hs_calls s = snd (RunHost \<lparr>he_dht = True, he_ctxAlive = True, he_tiers = True, he_encode = True\<rparr> n mode))"
  using p r no_handlers_no_live [OF i] no_group_no_active [OF i]
  by (auto simp: host_pc_def host_ready_def RunHost_def in_set_conv_nth)

text \<open>A run in which a TCP service holds the shutdown up, and one in which nothing does: a stream on libp2p, a negotiation serving a
  rung with another stream, then the context.\<close>

definition service_hang :: "host_action list" where
  "service_hang = [HDispatch ''p'', HStream 0 (StBegin 0 ''a''), HStream 0 (StDial True), HCancelled, HControlEnds, HMain, HMain, HMain, HMain,
     HStream 0 (StFwd (FwdTcp TlReadEnd)), HStream 0 (StFwd (FwdTcp TlCloseWrite))]"

definition sample_host_run :: "host_action list" where
  "sample_host_run = [HDispatch ''p'', HStream 0 (StBegin 0 ''a''), HStream 0 (StDial True), HNegotiate ''q'', HNeg 0 NgBegin,
     HNeg 0 (NgServes TierQUIC), HNeg 0 (NgAccept 1 ''b''), HStream 1 (StDial True), HCancelled]"

text \<open>How the forward of stream \<open>j\<close> ends once its stream is reset.\<close>

definition forward_end :: "network \<Rightarrow> forward_action list" where
  "forward_end n = (if n = NetworkUDP then map FwdUdp [UpReadErr, UpCloses, DownReadErr, DownResets]
     else map FwdTcp [TlReadEnd, TlCloseWrite, LocalEnds, LtReadEnd, LtCloseWrite])"

definition stream_end :: "network \<Rightarrow> nat \<Rightarrow> host_action list" where
  "stream_end n j = map (\<lambda>a. HStream j (StFwd a)) (forward_end n) @ [HStream j StForwarded, HStream j StEnd]"

definition sample_host_end :: "host_action list" where
  "sample_host_end = [HMain, HMain, HMain, HMain, HStream 1 (StFwd (FwdUdp StreamCut)), HNeg 0 NgAcceptEnds] @ stream_end NetworkUDP 0
     @ stream_end NetworkUDP 1 @ [HMain, HNeg 0 (NgServed False), HMain, HNeg 0 NgDone, HControlEnds, HMain, HMain, HMain]"

lemma auto_mode: "\<not> forcesTier ''auto''"
  by (simp add: forcesTier_def forcedTier_def TunnelWireGuard_def TunnelQUIC_def)

lemma tcp_not_udp: "NetworkTCP \<noteq> NetworkUDP"
  by (simp add: NetworkTCP_def NetworkUDP_def)

lemmas host_eval = host_start_def host_main_def set_stream_def set_neg_def BeginStream_def EndStream_def RegisterTier_def UnregisterTier_def
  NewSessionManager_def sm_Shutdown_def sm_Remove_def sm_List_def Shutdown_waits_def stop_tier_def Emit_def Let_def hg_begin_def hg_done_def
  hg_shutdown_def sever_def tier_done_def rung_idle_def hs_live_def forward_start_def tcp_pipe_start_def pipeDatagrams_def

lemma service_hang_reached:
  "\<exists>s. run_acts host_act service_hang (host_start NetworkTCP ''auto'') = Some s \<and> hs_at s = PcSessions \<and> hs_ctx s \<and> hs_removed s = {}
     \<and> sm_handlers (hs_mgr s) = 1 \<and> hs_negs s = [] \<and> \<not> hs_control s
     \<and> hs_streams s = [\<lparr>hh_peer = ''p'', hh_rung = None, hh_at = HsForward,
          hh_fwd = TcpForward (tcp_pipe_start\<lparr>tq_reset := True, tq_tl := TlEnd, tq_local_wclosed := True\<rparr>)\<rparr>]"
  by (simp add: service_hang_def host_eval auto_mode tcp_not_udp)

lemma service_hangs:
  "\<exists>s. run_acts host_act service_hang (host_start NetworkTCP ''auto'') = Some s \<and> hs_at s = PcSessions \<and> hs_ctx s \<and> hs_removed s = {}
     \<and> (\<nexists>a. host_own False a s \<and> host_act a s \<noteq> None)"
proof -
  obtain s where s: "run_acts host_act service_hang (host_start NetworkTCP ''auto'') = Some s" "hs_at s = PcSessions" "hs_ctx s" "hs_removed s = {}"
    and n: "sm_handlers (hs_mgr s) = 1" "hs_negs s = []" "\<not> hs_control s"
     "hs_streams s = [\<lparr>hh_peer = ''p'', hh_rung = None, hh_at = HsForward,
          hh_fwd = TcpForward (tcp_pipe_start\<lparr>tq_reset := True, tq_tl := TlEnd, tq_local_wclosed := True\<rparr>)\<rparr>]"
    using service_hang_reached by (elim exE conjE) (rule that)
  have f: "\<not> (forward_own False b f \<and> forward_act b f \<noteq> None)"
    if "f = TcpForward (tcp_pipe_start\<lparr>tq_reset := True, tq_tl := TlEnd, tq_local_wclosed := True\<rparr>)" for b f
  proof (cases b)
    case (FwdTcp c)
    then show ?thesis unfolding that by (cases c) (simp_all add: tcp_pipe_start_def)
  qed (simp add: that)
  have "\<not> (host_own False a s \<and> host_act a s \<noteq> None)" for a
  proof (cases a)
    case (HStream j b)
    then show ?thesis using n f by (cases b) (auto simp: tcp_pipe_returned_def tcp_pipe_start_def)
  qed (use s n in \<open>auto simp: host_main_def Shutdown_waits_def\<close>)
  then show ?thesis using s by (intro exI [of _ s]) simp
qed

text \<open>C5: when the host's shutdown completes. In every interleaving of \<^verbatim>\<open>RunHost\<close> with its stream handlers and their forwards,
  negotiations, rungs and the control goroutine: from the moment the context is cancelled, if no operator has disconnected a
  peer that had streams, at most \<open>12 * n + 5 * k + 10\<close> steps of the host itself remain, with \<open>n\<close> streams and \<open>k\<close> negotiations
  dispatched so far; and until it has returned one of them is possible, if it forwards UDP, or if it forwards TCP to
  services that keep reading and close on the end of the stream. Without that promise of a TCP service it need not return: a
  run is exhibited in which \<^verbatim>\<open>Shutdown\<close> has reset the stream and no step is left. When it has returned, every handler
  that was admitted has ended, the session manager and the handler group admit no more, the control goroutine is gone, and the
  calls made are those of \<open>RunHost\<close> in that order.\<close>

theorem host_shutdown_completes:
  assumes "run_acts host_act ls0 (host_start n mode) = Some s"
  shows "(hs_ctx s \<and> hs_removed s = {} \<and> (coop \<or> n = NetworkUDP) \<longrightarrow> (\<forall>ls s'. run_acts (only (host_own coop) host_act) ls s = Some s' \<longrightarrow>
        length ls \<le> 12 * length (hs_streams s) + 5 * length (hs_negs s) + 10
        \<and> (hs_at s' = PcReturned \<or> (\<exists>a. host_own coop a s' \<and> host_act a s' \<noteq> None))))
    \<and> (hs_at s = PcReturned \<longrightarrow>
        (\<forall>h \<in> set (hs_streams s). \<not> hs_live h) \<and> (\<forall>g \<in> set (hs_negs s). \<not> hn_active g) \<and> \<not> hs_control s
        \<and> sm_closing (hs_mgr s) \<and> hg_closing (hs_group s)
        \<and> (\<forall>n. transportFor n \<noteq> None \<longrightarrow>
             hs_calls s = snd (RunHost \<lparr>he_dht = True, he_ctxAlive = True, he_tiers = True, he_encode = True\<rparr> n mode)))
    \<and> (\<exists>s. run_acts host_act service_hang (host_start NetworkTCP ''auto'') = Some s \<and> hs_at s = PcSessions \<and> hs_ctx s \<and> hs_removed s = {}
        \<and> (\<nexists>a. host_own False a s \<and> host_act a s \<noteq> None))"
proof -
  note i = host_run [OF assms]
  have w: "host_inv s \<and> (\<exists>mode. host_pc mode s)" using i by blast
  have "length ls \<le> 12 * length (hs_streams s) + 5 * length (hs_negs s) + 10
      \<and> (hs_at s' = PcReturned \<or> (\<exists>a. host_own coop a s' \<and> host_act a s' \<noteq> None))"
    if "host_closing s" "coop \<or> n = NetworkUDP" "run_acts (only (host_own coop) host_act) ls s = Some s'" for ls s'
    using host_wind.winds_down [OF w _ that(3)] that(1,2) i(3) host_rank_bound [of s] by auto
  then show ?thesis using host_returned [OF i(1,2)] service_hangs by blast
qed

theorem host_shutdown_completes_witness:
  "\<exists>s s'. run_acts host_act sample_host_run (host_start NetworkUDP ''auto'') = Some s \<and> hs_ctx s \<and> hs_removed s = {} \<and> length (hs_streams s) = 2
    \<and> run_acts (only (host_own False) host_act) sample_host_end s = Some s' \<and> length sample_host_end \<le> 39 \<and> hs_at s' = PcReturned"
proof -
  have "\<exists>s. run_acts host_act sample_host_run (host_start NetworkUDP ''auto'') = Some s \<and> hs_ctx s \<and> hs_removed s = {} \<and> length (hs_streams s) = 2
      \<and> length (hs_negs s) = 1 \<and> (\<exists>s'. run_acts (only (host_own False) host_act) sample_host_end s = Some s' \<and> hs_at s' = PcReturned)"
    by (simp add: sample_host_run_def sample_host_end_def stream_end_def forward_end_def host_eval only_def auto_mode fwd_severs_def pipe_returned_def)
  then obtain s s' where s: "run_acts host_act sample_host_run (host_start NetworkUDP ''auto'') = Some s" "hs_ctx s" "hs_removed s = {}"
    "length (hs_streams s) = 2" "length (hs_negs s) = 1" "run_acts (only (host_own False) host_act) sample_host_end s = Some s'" "hs_at s' = PcReturned"
    by (elim exE conjE) (rule that)
  have "length sample_host_end \<le> 12 * length (hs_streams s) + 5 * length (hs_negs s) + 10"
    using host_shutdown_completes [OF s(1), of False] s(2,3,6) by blast
  then show ?thesis using s by (intro exI [of _ s] exI [of _ s']) simp
qed

text \<open>C39: an operator's disconnect can make the shutdown hang. A peer's stream is being forwarded when the operator
  disconnects the peer; it comes back with a new stream before the handler of the old one returns, whose \<^verbatim>\<open>EndStream\<close> then
  deletes the new session, with a DISCONNECT event. When the context is cancelled, \<^verbatim>\<open>Shutdown\<close> finds no session, resets no stream, and
  waits for a handler nothing releases: no step of the host is left, on TCP or UDP and with a service that would close, whatever its goroutines do,
  until the client ends the stream. The peer is not in LIST either, so the operator cannot disconnect it.\<close>

theorem stale_EndStream_hangs_shutdown:
  "\<exists>s. run_acts host_act ([HDispatch p, HStream 0 (StBegin t1 a1), HStream 0 (StDial True), HOperator p,
         HDispatch p, HStream 1 (StBegin t2 a2), HStream 1 (StDial True)] @ stream_end n 0
         @ [HCancelled, HControlEnds, HMain, HMain, HMain, HMain]) (host_start n ''auto'') = Some s
     \<and> map out_Action (sm_events (hs_mgr s)) = [CONNECTED, DISCONNECT, CONNECTED, DISCONNECT]
     \<and> hs_at s = PcSessions \<and> hs_ctx s \<and> sm_List (hs_mgr s) = [] \<and> hh_at (hs_streams s ! 1) = HsForward
     \<and> (\<nexists>a. host_own True a s \<and> host_act a s \<noteq> None)"
proof -
  let ?ls = "[HDispatch p, HStream 0 (StBegin t1 a1), HStream 0 (StDial True), HOperator p,
         HDispatch p, HStream 1 (StBegin t2 a2), HStream 1 (StDial True)] @ stream_end n 0
         @ [HCancelled, HControlEnds, HMain, HMain, HMain, HMain]"
  have "\<exists>s. run_acts host_act ?ls (host_start n ''auto'') = Some s
     \<and> map out_Action (sm_events (hs_mgr s)) = [CONNECTED, DISCONNECT, CONNECTED, DISCONNECT]
     \<and> hs_at s = PcSessions \<and> hs_ctx s \<and> sm_List (hs_mgr s) = [] \<and> sm_handlers (hs_mgr s) = 1 \<and> hs_negs s = [] \<and> \<not> hs_control s
     \<and> length (hs_streams s) = 2 \<and> hh_at (hs_streams s ! 0) = HsGone
     \<and> hs_streams s ! 1 = \<lparr>hh_peer = p, hh_rung = None, hh_at = HsForward, hh_fwd = forward_start n\<rparr>"
    by (cases "n = NetworkUDP")
       (simp_all add: stream_end_def forward_end_def host_eval auto_mode event_def tcp_pipe_returned_def pipe_returned_def)
  then obtain s where s: "run_acts host_act ?ls (host_start n ''auto'') = Some s"
     "map out_Action (sm_events (hs_mgr s)) = [CONNECTED, DISCONNECT, CONNECTED, DISCONNECT]"
     "hs_at s = PcSessions" "hs_ctx s" "sm_List (hs_mgr s) = []" and m: "sm_handlers (hs_mgr s) = 1" "hs_negs s = []" "\<not> hs_control s"
     "length (hs_streams s) = 2" "hh_at (hs_streams s ! 0) = HsGone"
     "hs_streams s ! 1 = \<lparr>hh_peer = p, hh_rung = None, hh_at = HsForward, hh_fwd = forward_start n\<rparr>"
    by (elim exE conjE) (rule that)
  have f: "\<not> (forward_own True b (forward_start n) \<and> forward_act b (forward_start n) \<noteq> None)" for b
  proof (cases b)
    case (FwdTcp c)
    then show ?thesis by (cases c) (auto simp: forward_start_def tcp_pipe_start_def)
  next
    case (FwdUdp c)
    then show ?thesis by (cases c) (auto simp: forward_start_def pipeDatagrams_def)
  qed
  have r: "\<not> forward_returned (forward_start n)"
    by (simp add: forward_start_def tcp_pipe_start_def pipeDatagrams_def tcp_pipe_returned_def pipe_returned_def)
  have "\<not> (host_own True a s \<and> host_act a s \<noteq> None)" for a
  proof (cases a)
    case (HStream j b)
    then consider "j = 0" | "j = 1" | "j \<ge> 2" by linarith
    then show ?thesis
    proof cases
      case 2
      then show ?thesis using HStream m(4,6) f r by (cases b) auto
    qed (use HStream m(4,5) in \<open>cases b; simp\<close>)+
  qed (use s m in \<open>auto simp: host_main_def Shutdown_waits_def\<close>)
  then show ?thesis using s m by (intro exI [of _ s]) simp
qed

end
