(* ===== verification/Spec2Isabelle.thy ===== *)
theory Spec2Isabelle
  imports Exchange Fragment Udp_Flow Ladder_Lockstep Session Deadline Wireguard Quic_Tunnel Tcp_Pipe Run Rung_Serving
    Teardown Report Forwarding P2p_Paths Open_Direct Control_Io Virtual_Net Program Client_Shutdown Host_Shutdown
begin

text \<open>
  A verification of mtunnel, a peer-to-peer tunnel that forwards a TCP or UDP service of a host to a
  client over the best data plane the two can reach.

  \<^bold>\<open>The program.\<close> A host prints a token; a client decodes it, finds the host through libp2p and opens a
  negotiate stream (\<^verbatim>\<open>internal/p2p\<close>, \<^verbatim>\<open>internal/tunnel\<close>). Over that stream both exchange a Hello, resolve the
  cascade of tiers WireGuard, QUIC, libp2p (\<^verbatim>\<open>internal/negotiate\<close>), punch a UDP path (\<^verbatim>\<open>internal/nat\<close>) and climb
  the tiers above libp2p on the one punched connection, the substrate, each of which must hand it back
  before the next one starts (\<^verbatim>\<open>internal/tier\<close>, \<^verbatim>\<open>internal/wireguard\<close>, \<^verbatim>\<open>internal/quictun\<close>). Forwarded UDP runs as
  flows of a multiplexer over an unreliable channel (\<^verbatim>\<open>internal/flowmux\<close>, \<^verbatim>\<open>internal/udp\<close>,
  \<^verbatim>\<open>internal/transport\<close>), forwarded TCP as one stream per connection (\<^verbatim>\<open>internal/tcp\<close>). The host counts
  sessions and takes commands on its control channel (\<^verbatim>\<open>session.go\<close>, \<^verbatim>\<open>internal/control\<close>).

  \<^bold>\<open>The theories.\<close>
  \<^item> \<open>Prelude\<close>: Go's types, errors as sums, big-endian helpers, reading from a stream, runs of actions; the locales
    \<open>winding\<close> and \<open>draining\<close> for systems of goroutines that are being shut down. \<open>Slog\<close>: log records. \<open>Gomap\<close>: Go maps as
    association lists, with the interface locale \<open>go_map\<close>. \<open>Gostrings\<close>: what is used of \<^verbatim>\<open>strings\<close>, \<^verbatim>\<open>hex\<close>,
    \<^verbatim>\<open>base64\<close> and decimal formatting, with the facts that undo them.
  \<^item> \<open>Negotiate\<close>, \<open>Codec\<close>, \<open>Exchange\<close>: \<^verbatim>\<open>negotiate.go\<close> and \<^verbatim>\<open>codec.go\<close>. Cascade resolution is the same on both
    sides; the four message codecs are exact in both directions, byte for byte; the framed exchange over a
    stream returns to each side what the other sent and consumes nothing beyond it.
  \<^item> \<open>Fragment\<close>: \<^verbatim>\<open>quictun/fragment.go\<close>. Messages survive fragmentation in any order and with duplicates;
    what is returned was sent; memory is bounded whatever the peer sends.
  \<^item> \<open>Flowmux\<close>: \<^verbatim>\<open>flowmux.go\<close>. Every locked section is a definition, the methods compose them and
    \<open>mux_step\<close> interleaves them; the invariant, the life of a flow, FIN retransmission and its end.
  \<^item> \<open>Datagram\<close>, \<open>Udp_Flow\<close>: the datagram stream, the length framing, the pipe loops, the flow table
    (\<^verbatim>\<open>transport\<close>, \<^verbatim>\<open>udp\<close>). \<open>Tcp_Pipe\<close>, \<open>Forwarding\<close>: the TCP copy in its two forms; the forwarders as goroutines: when the
    two directions of a UDP flow end together, serving TCP drains and releases every connection, the diagnostic
    copy counts exactly what was written.
  \<^item> \<open>Tier\<close>, \<open>Nat_Punch\<close>, \<open>Ladder\<close>, \<open>Ladder_Lockstep\<close>: the tier registry, the punch agent, and both sides of
    the fallback ladder (\<^verbatim>\<open>tunnel/tier.go\<close>) as functions over one conversation, the background probe of
    the client being a step of its own (\<open>await_probe\<close>); that the two sides agree, stay in lockstep and leak neither agents nor rungs. \<open>Report\<close>: the same functions with the records they log: no
    fallback is silent, and the two logs name the same tier.
  \<^item> \<open>Deadline\<close>: \<^verbatim>\<open>nat/deadline.go\<close>. \<open>Handover\<close>: WireGuard's \<^verbatim>\<open>Bind\<close> and QUIC's \<^verbatim>\<open>packetConn\<close>. Every channel
    operation, lock and substrate call is a step. The contract both teardowns keep is the locale
    \<open>substrate_user\<close>, interpreted on both. \<open>Teardown\<close> puts both on top of the deadlines (locale \<open>deadline_client\<close>): a
    teardown needs no traffic to complete.
  \<^item> \<open>Wireguard\<close>, \<open>Quic_Tunnel\<close>: the two data planes: configuration text, state dump, handshake wait,
    construction, teardown, pinning. \<open>Virtual_Net\<close>: the virtual sockets and endpoints; client and host fit
    together.
  \<^item> \<open>Control\<close>, \<open>Session\<close>: the control channel over the locale \<open>sessions_api\<close>, and the session manager that
    provides it. \<open>Control_Io\<close>: the reader goroutine and the channels in front of the loop, which refine it.
    \<open>Rung_Serving\<close>: the accept loop, stream set and teardown of one rung.
  \<^item> \<open>P2p\<close>, \<open>P2p_Paths\<close>: modes, tokens, stream policy, discovery, address selection, host construction; connecting
    to the target and the diagnostic records of \<^verbatim>\<open>p2p/diagnostic.go\<close>. \<open>Open_Direct\<close>: the wait for a direct connection with its
    channel and callbacks, step by step, of which \<open>openDirectStream\<close> in \<open>P2p\<close> is the outcome.
  \<^item> \<open>Run\<close>, \<open>Program\<close>: flag validation, the runs of host and client, and \<^verbatim>\<open>main\<close> around them: what was created is
    released and every failure is reported. \<open>Client_Shutdown\<close>, \<open>Host_Shutdown\<close>: the goroutines inside the two runs, those of
    every forward included: that their shutdown completes once the context is cancelled, under promises of the local
    TCP ends and of opening a stream that are arguments of \<open>client_own\<close> and \<open>host_own\<close>, and how it hangs without them.

  This theory joins them: a UDP datagram from the client's socket to the host's over QUIC datagrams and
  over WireGuard's virtual connection.

  \<^bold>\<open>How the code is rendered.\<close> Structs are records, enums datatypes, fixed-width integers words; an error return
  is the left of a sum or an option. Concurrent components are transition relations in which every critical
  section is one atomic step and everything else may happen in between; a theorem about all reachable states
  is one about all schedules. Code that is not part of the repository (libp2p, quic-go, wireguard-go, pion,
  TLS, SHA-256) appears as arguments that stand for what its calls answer, and a theorem that needs more of it
  says so in a hypothesis. \<^verbatim>\<open>encoding/gob\<close> is treated the same way. Time is an integer number of nanoseconds;
  timers may fire at any moment unless a statement says otherwise.

  \<^bold>\<open>Loops.\<close> No model uses fuel. Loops over what a channel or connection delivers recur on the list of
  deliveries, a list that ends standing for a call that has not returned. \<open>WaitHandshake_loop\<close>,
  \<open>FindPeer_loop\<close>, \<open>write_all\<close> and the host's rung loop are total functions with a termination proof.

  \<^bold>\<open>What the theorems found.\<close> \<open>openDirectStream_can_block\<close> (\<^verbatim>\<open>p2p/stream.go\<close>): a send that can block for good.
  \<open>stale_EndStream_hangs_shutdown\<close> (\<^verbatim>\<open>session.go\<close>). \<open>tcp_forward_waits_for_local\<close> (\<^verbatim>\<open>tcp/pipe.go\<close>): a reset does not end a forward.
  \<open>pipeDatagrams_ends_together\<close> (\<^verbatim>\<open>udp/pipe.go\<close>): closing the socket does not end a write to the stream.
  \<open>no_datagrams_hides_abandonment\<close> (\<^verbatim>\<open>quictun.go\<close>).
  \<open>PunchInfo_within_field_limits_too_large\<close> (\<^verbatim>\<open>codec.go\<close>). \<open>control_end_of_input_races\<close> (\<^verbatim>\<open>control.go\<close>): a request lost
  to the end of the input, a reader that never leaves. \<open>unlimited_relay_counts_as_direct\<close> (\<^verbatim>\<open>p2p/stream.go\<close>).

  \<^bold>\<open>Not modelled.\<close> Plain log lines (\<^verbatim>\<open>log.Printf\<close>): they change no state; the structured records are modelled.
  Callbacks with an empty body, buffer sizes and socket marks. Buffer reuse (\<^verbatim>\<open>sync.Pool\<close>): values are
  copied. Contexts are flags or steps rather than trees. Operating-system signals: they
  cancel the context, which may happen at any moment. In the runs of the two roles closing libp2p and the
  teardown of a plane return; when a teardown does is the subject of \<open>Teardown\<close>.
\<close>

section \<open>Properties that span components\<close>

text \<open>The stream a forwarder writes to is the datagram stream over a mux flow.\<close>

definition flow_writer :: "(byte list \<Rightarrow> io_error option) \<Rightarrow> gtime \<Rightarrow> addr
    \<Rightarrow> byte list \<Rightarrow> mux datagramStream \<Rightarrow> (io_error + nat) \<times> mux datagramStream" where
  "flow_writer xmit now a = ds_Write (\<lambda>p. flow_send xmit now p a)"

lemma flowmuxHeader_Header: "flowmuxHeader = int Header"
  by (simp add: flowmuxHeader_def Header_def)

lemma writeDatagram_on_flow:
  assumes "writeDatagram (flow_writer xmit now a) d (flow_stream s) = (None, ss)"
  shows "flow_send xmit now (datagram_frame d) a s = (None, ds_sub ss) \<and> length d \<le> maxDatagramSize"
proof -
  have "datagram_frame d \<noteq> []" by (simp add: datagram_frame_def PutUint16_def)
  then show ?thesis
    using assms by (auto simp: writeDatagram_def flow_writer_def ds_Write_def flow_stream_def
        NewDatagramStream_def split: if_splits prod.splits option.splits)
qed

lemma send_logs_frame:
  "flow_send xmit now p a s = (None, s') \<Longrightarrow> sent s' = sent s @ [data_frame (flow_id (heap s ! a)) p]"
  by (auto simp: flow_send_def sendFrame_def mux_touch_def frame_simps split: if_splits option.splits)

lemma forwarded_frame_fits:
  "length d \<le> maxDatagramSize \<Longrightarrow> int (length (data_frame k (datagram_frame d))) \<le> maxDatagramMessage"
  by (simp add: frame_fields datagram_frame_def maxDatagramSize_def fragment_consts)

lemma send_fragments_ok:
  "(\<And>f. qx f = None) \<Longrightarrow> fst (send_fragments qx k m is) = None"
  by (induction "is") (simp_all add: Let_def split_beta)

lemma codec_Send_ok:
  assumes "\<And>f. qx f = None" "int (length m) \<le> maxDatagramMessage"
  shows "\<exists>fs c'. codec_Send qx m c = (None, fs, c')"
  using assms send_fragments_ok [of qx] by (simp add: codec_Send_def Let_def split_beta)

lemma handle_then_readDatagram:
  assumes "mux_inv r" "accepts r k" "queue_of r k = []" "length d \<le> maxDatagramSize"
  shows "\<exists>b d'. map_of (flows (mux_handle xmit t (data_frame k (datagram_frame d)) r)) k = Some b
     \<and> readDatagram (ds_Read (flow_receiver b)) maxDatagramSize
         (flow_stream (mux_handle xmit t (data_frame k (datagram_frame d)) r)) = Some (Inr d, d')"
proof -
  let ?r = "mux_handle xmit t (data_frame k (datagram_frame d)) r"
  have "datagram_frame d \<noteq> []" by (simp add: datagram_frame_def PutUint16_def)
  then have "queue_of ?r k = [datagram_frame d]" using handle_queues_data assms(1-3) by simp
  then obtain b where b: "map_of (flows ?r) k = Some b" "packets (heap ?r ! b) = [datagram_frame d]"
    by (auto simp: queue_of_def split: option.splits)
  have "mux_inv ?r" using mux_handle_steps assms(1) by (rule mux_steps_inv)
  then have "b < length (heap ?r)" using mux_inv_lookup b(1) by blast
  then have "\<exists>d'. readDatagram (ds_Read (flow_receiver b)) maxDatagramSize (flow_stream ?r) = Some (Inr d, d')"
    using flow_src.ds.readDatagram_content [of b "flow_stream ?r" d "[]" maxDatagramSize] b(2) assms(4)
    by (auto simp: flow_stream_def NewDatagramStream_def)
  with b(1) show ?thesis by blast
qed

text \<open>C1: a forwarded UDP datagram arrives unchanged. The client writes a datagram of any legal size to
  the stream of its flow; the mux frames it; the QUIC codec accepts it and cuts it into fragments that
  the connection carries; the fragments reach the host within the partial lifetime in any order, with
  duplicates. Then the host's codec reassembles exactly that mux frame, the host's mux puts it on the
  flow of the same identifier (creating it if the client just started it), and the host's
  \<^verbatim>\<open>readDatagram\<close> on that flow's stream returns exactly the datagram the client wrote.\<close>

theorem udp_datagram_end_to_end:
  assumes wr: "writeDatagram (flow_writer xmit t a) d (flow_stream s) = (None, ss)"
    and conn: "\<And>f. qx f = None"
    and codec: "wf_codec pc" "\<not> cclosed pc" "map_of (partial pc) (nextID c + 1) = None"
    and all: "fst ` set (arrivals @ [(f, u)]) = set (fst (snd (codec_Send qx (last (sent (ds_sub ss))) c)))"
    and last: "f \<notin> fst ` set arrivals"
    and time: "\<forall>(g, v) \<in> set (arrivals @ [(f, u)]). t0 \<le> v \<and> v < t0 + partialTTL"
    and peer: "mux_inv r" "accepts r (flow_id (heap s ! a))" "queue_of r (flow_id (heap s ! a)) = []"
  shows "\<exists>msg pc' b d'. codec_Recv (arrivals @ [(f, u)]) err pc = (Inr msg, [], pc')
     \<and> map_of (flows (mux_handle xmit' t' msg r)) (flow_id (heap s ! a)) = Some b
     \<and> readDatagram (ds_Read (flow_receiver b)) maxDatagramSize
          (flow_stream (mux_handle xmit' t' msg r)) = Some (Inr d, d')"
proof -
  let ?msg = "data_frame (flow_id (heap s ! a)) (datagram_frame d)"
  have w: "flow_send xmit t (datagram_frame d) a s = (None, ds_sub ss)" "length d \<le> maxDatagramSize"
    using writeDatagram_on_flow [OF wr] by auto
  have l: "last (sent (ds_sub ss)) = ?msg" using send_logs_frame [OF w(1)] by simp
  obtain fs c' where cs: "codec_Send qx ?msg c = (None, fs, c')"
    using codec_Send_ok [of qx ?msg c] conn forwarded_frame_fits [OF w(2)] by blast
  then have "nextID c' = nextID c + 1"
    by (auto simp: codec_Send_def Let_def split: if_splits prod.splits)
  then have n: "map_of (partial pc) (nextID c') = None" using codec(3) by simp
  have fs: "fst ` set (arrivals @ [(f, u)]) = set fs" using all by (simp add: l cs)
  from Send_Recv_lemma [OF cs codec(1,2) n fs last time, of err] obtain pc'
    where "codec_Recv (arrivals @ [(f, u)]) err pc = (Inr ?msg, [], pc')" ..
  then show ?thesis
    using handle_then_readDatagram [OF peer w(2), of xmit' t'] by (intro exI [of _ ?msg] exI [of _ pc']) simp
qed

theorem udp_datagram_end_to_end_witness:
  "\<exists>msg pc' b d'.
     codec_Recv ([] @ [(fragment_at 1 (data_frame 0 (datagram_frame [7])) 0, 5)]) () newDatagramCodec = (Inr msg, [], pc')
     \<and> map_of (flows (mux_handle (\<lambda>_. None) 6 msg (mux_New (sample_config False)))) 0 = Some b
     \<and> readDatagram (ds_Read (flow_receiver b)) maxDatagramSize
          (flow_stream (mux_handle (\<lambda>_. None) 6 msg (mux_New (sample_config False)))) = Some (Inr [7], d')"
proof -
  let ?s = "snd (mux_OpenStream 0 (mux_New (sample_config True)))" and ?r = "mux_New (sample_config False)"
  let ?msg = "data_frame 0 (datagram_frame [7])"
  let ?ss = "snd (writeDatagram (flow_writer (\<lambda>_. None) 1 0) [7] (flow_stream ?s))"
  have k: "flow_id (heap ?s ! 0) = 0" "\<not> flow_closed (heap ?s ! 0)" "sent ?s = []"
    by (simp_all add: mux_OpenStream_def mux_New_def alloc_def newFlow_def sample_config_def)
  then have wr: "writeDatagram (flow_writer (\<lambda>_. None) 1 0) [7] (flow_stream ?s) = (None, ?ss)"
    by (simp add: writeDatagram_def flow_writer_def ds_Write_def flow_stream_def NewDatagramStream_def
        flow_send_def sendFrame_def maxDatagramSize_def datagram_frame_def PutUint16_def)
  have "last (sent (ds_sub ?ss)) = ?msg"
    using send_logs_frame [OF conjunct1 [OF writeDatagram_on_flow [OF wr]]] by (simp add: k)
  moreover have "fragmentCount (int (length ?msg)) = 1" "int (length ?msg) \<le> maxDatagramMessage"
    by (simp_all add: frame_fields datagram_frame_def fragmentCount_def fragment_consts)
  ultimately have all: "fst ` set ([] @ [(fragment_at 1 ?msg 0, 5 :: int)])
      = set (fst (snd (codec_Send (\<lambda>_. None) (last (sent (ds_sub ?ss))) newDatagramCodec)))"
    by (simp add: codec_Send_def newDatagramCodec_def)
  have pc: "wf_codec newDatagramCodec" "\<not> cclosed newDatagramCodec"
    "map_of (partial newDatagramCodec) (nextID newDatagramCodec + 1) = None"
    by (simp_all add: wf_codec_def wf_table_def newDatagramCodec_def fragment_consts)
  have r: "accepts ?r (flow_id (heap ?s ! 0))" "queue_of ?r (flow_id (heap ?s ! 0)) = []"
    unfolding k by (simp_all add: accepts_def mux_New_def tombstoned_def own_def sample_config_def mux_consts queue_of_def)
  from udp_datagram_end_to_end [OF wr refl pc all _ _ mux_New_inv r, of 0 "()" "\<lambda>_. None" 6]
  show ?thesis by (simp add: k fragment_consts)
qed

section \<open>UDP over WireGuard\<close>

text \<open>A UDP datagram forwarded over WireGuard arrives unchanged as well. The client writes it to the stream
  of its flow; the mux frame goes out as one datagram of the virtual connection; when that datagram is
  delivered, \<^verbatim>\<open>recv\<close> on the host returns the whole frame if it is within what the virtual stack can carry, the
  mux puts it on the flow of the same identifier, and \<^verbatim>\<open>readDatagram\<close> returns exactly the datagram written.\<close>

theorem udp_over_wireguard:
  assumes wr: "writeDatagram (flow_writer (um_send w) t a) d (flow_stream s) = (None, ss)"
    and fits: "length (last (sent (ds_sub ss))) \<le> maxVirtualDatagram"
    and peer: "mux_inv r" "accepts r (flow_id (heap s ! a))" "queue_of r (flow_id (heap s ! a)) = []"
  shows "\<exists>msg b d'. um_recv (Inr (last (sent (ds_sub ss)))) = Inr msg
     \<and> map_of (flows (mux_handle xmit' t' msg r)) (flow_id (heap s ! a)) = Some b
     \<and> readDatagram (ds_Read (flow_receiver b)) maxDatagramSize
          (flow_stream (mux_handle xmit' t' msg r)) = Some (Inr d, d')"
proof -
  have w: "flow_send (um_send w) t (datagram_frame d) a s = (None, ds_sub ss)" "length d \<le> maxDatagramSize"
    using writeDatagram_on_flow [OF wr] by auto
  have l: "last (sent (ds_sub ss)) = data_frame (flow_id (heap s ! a)) (datagram_frame d)"
    using send_logs_frame [OF w(1)] by simp
  show ?thesis using handle_then_readDatagram [OF peer w(2), of xmit' t'] um_recv_whole [OF fits] by (simp add: l)
qed

theorem udp_over_wireguard_witness:
  "\<exists>msg b d'. um_recv (Inr (data_frame 0 (datagram_frame [7]))) = Inr msg
     \<and> map_of (flows (mux_handle (\<lambda>_. None) 6 msg (mux_New (mux_config False)))) 0 = Some b
     \<and> readDatagram (ds_Read (flow_receiver b)) maxDatagramSize
          (flow_stream (mux_handle (\<lambda>_. None) 6 msg (mux_New (mux_config False)))) = Some (Inr [7], d')"
proof -
  let ?s = "snd (mux_OpenStream 0 (mux_New (mux_config True)))" and ?r = "mux_New (mux_config False)"
  let ?w = "\<lambda>m :: byte list. (Inr (length m) :: io_error + nat)"
  let ?ss = "snd (writeDatagram (flow_writer (um_send ?w) 1 0) [7] (flow_stream ?s))"
  have k: "flow_id (heap ?s ! 0) = 0" "\<not> flow_closed (heap ?s ! 0)" "sent ?s = []"
    by (simp_all add: mux_OpenStream_def mux_New_def alloc_def newFlow_def mux_config_def)
  then have wr: "writeDatagram (flow_writer (um_send ?w) 1 0) [7] (flow_stream ?s) = (None, ?ss)"
    by (simp add: writeDatagram_def flow_writer_def ds_Write_def flow_stream_def NewDatagramStream_def um_send_def flow_send_def sendFrame_def maxDatagramSize_def datagram_frame_def PutUint16_def)
  have l: "last (sent (ds_sub ?ss)) = data_frame 0 (datagram_frame [7])"
    using send_logs_frame [OF conjunct1 [OF writeDatagram_on_flow [OF wr]]] by (simp add: k)
  have f: "length (last (sent (ds_sub ?ss))) \<le> maxVirtualDatagram"
    unfolding l by (simp add: frame_fields datagram_frame_def maxVirtualDatagram_def)
  have r: "accepts ?r (flow_id (heap ?s ! 0))" "queue_of ?r (flow_id (heap ?s ! 0)) = []"
    unfolding k by (simp_all add: accepts_def mux_New_def tombstoned_def own_def mux_config_def mux_consts queue_of_def)
  from udp_over_wireguard [OF wr f mux_New_inv r, of "\<lambda>_. None" 6] show ?thesis by (simp add: k l)
qed

end
